(* ===== verification/Prelude.thy ===== *)
theory Prelude
  imports Complex_Main
begin

text \<open>
  Shared vocabulary of the development: the clock and the machine integers of the Go
  sources, association lists for Go maps whose size or iteration matters, and the
  generic lemmas on lists and sums the components use.

  \<^item> A Go \<^verbatim>\<open>time.Time\<close> is an \<open>int\<close>: nanoseconds since Go's zero time, so the zero
    time is \<open>0\<close> and \<^verbatim>\<open>Before\<close>, \<^verbatim>\<open>After\<close>, \<^verbatim>\<open>Equal\<close> and \<^verbatim>\<open>Add\<close> are \<open><\<close>, \<open>>\<close>, \<open>=\<close>
    and \<open>+\<close>. \<^verbatim>\<open>Sub\<close> saturates at the range of a duration, as the library's does.
  \<^item> A Go \<^verbatim>\<open>time.Duration\<close> and an \<^verbatim>\<open>int64\<close> are \<open>int\<close>s; where an operation of the source
    can leave the 64-bit range the wrap-around is written out with \<open>wrap64\<close>.
  \<^item> A \<^verbatim>\<open>float64\<close> is a \<open>rat\<close>: the arithmetic is exact, rounding is not modelled.
  \<^item> \<^verbatim>\<open>time.Now()\<close> is an argument of the operation that reads the clock.
  \<^item> \<^verbatim>\<open>math/rand\<close> values are arguments too, in \<open>[0, 1)\<close>.
\<close>

section \<open>Time and machine integers\<close>

type_synonym time = int
type_synonym duration = int

abbreviation (input) IsZero :: "time \<Rightarrow> bool" where
  "IsZero t \<equiv> t = 0"

abbreviation (input) zero_time :: time where
  "zero_time \<equiv> 0"

definition max_int64 :: int where
  "max_int64 = 9223372036854775807"

definition min_int64 :: int where
  "min_int64 = -9223372036854775808"

definition in_int64 :: "int \<Rightarrow> bool" where
  "in_int64 x \<longleftrightarrow> min_int64 \<le> x \<and> x \<le> max_int64"

definition wrap64 :: "int \<Rightarrow> int" where
  "wrap64 x = (x + 9223372036854775808) mod 18446744073709551616 - 9223372036854775808"

definition time_Sub :: "time \<Rightarrow> time \<Rightarrow> duration" where
  "time_Sub t u = max min_int64 (min max_int64 (t - u))"

definition millisecond :: duration where
  "millisecond = 1000000"

definition second :: duration where
  "second = 1000000000"

definition hour :: duration where
  "hour = 3600 * second"

text \<open>\<^verbatim>\<open>Duration.Seconds()\<close> and the conversion of a float number of nanoseconds back.\<close>

definition seconds :: "duration \<Rightarrow> rat" where
  "seconds d = of_int d / of_int second"

definition rat_trunc :: "rat \<Rightarrow> int" where
  "rat_trunc r = (if r < 0 then - \<lfloor>- r\<rfloor> else \<lfloor>r\<rfloor>)"

lemmas time_defs = millisecond_def second_def hour_def
lemmas int64_defs = max_int64_def min_int64_def in_int64_def

lemma wrap64_id: "in_int64 x \<Longrightarrow> wrap64 x = x"
  by (simp add: wrap64_def int64_defs)

lemma wrap64_range: "in_int64 (wrap64 x)"
proof -
  have "0 \<le> (x + 9223372036854775808) mod 18446744073709551616"
    and "(x + 9223372036854775808) mod 18446744073709551616 < 18446744073709551616"
    by simp_all
  then show ?thesis by (simp add: wrap64_def int64_defs)
qed

lemma in_int64_mono: "in_int64 b \<Longrightarrow> 0 \<le> a \<Longrightarrow> a \<le> b \<Longrightarrow> in_int64 a"
  by (simp add: int64_defs)

lemma time_Sub_le_iff: "in_int64 d \<Longrightarrow> 0 < d \<Longrightarrow> d \<le> time_Sub t u \<longleftrightarrow> d \<le> t - u"
  by (auto simp: time_Sub_def int64_defs)

lemma time_Sub_small: "0 \<le> t - u \<Longrightarrow> t - u \<le> max_int64 \<Longrightarrow> time_Sub t u = t - u"
  by (simp add: time_Sub_def int64_defs)

lemma rat_trunc_nonneg: "0 \<le> r \<Longrightarrow> rat_trunc r = \<lfloor>r\<rfloor>"
  by (simp add: rat_trunc_def)

lemma seconds_pos_iff [simp]: "0 < seconds d \<longleftrightarrow> 0 < d"
  by (simp add: seconds_def second_def)


lemma int_div_less_iff: "a div b < c \<longleftrightarrow> a < c * b" if b: "0 < (b::int)"
proof -
  have m: "0 \<le> a mod b" "a mod b < b" and d: "a div b * b + a mod b = a" using b by simp_all
  show ?thesis
  proof
    assume "a div b < c"
    then have "(a div b + 1) * b \<le> c * b" using b by (intro mult_right_mono) simp_all
    then have "a div b * b + b \<le> c * b" by (simp add: distrib_right)
    with m d show "a < c * b" by linarith
  next
    assume "a < c * b"
    with m d have "a div b * b < c * b" by linarith
    with b show "a div b < c" by (simp add: mult_less_cancel_right)
  qed
qed


section \<open>Association lists for Go maps\<close>

text \<open>
  A Go map whose length or iteration the source uses is an association list with distinct
  keys; lookup is \<open>map_of\<close>. The order of the list is one possible iteration order, and no
  property below fixes it.
\<close>

fun aput :: "'k \<Rightarrow> 'v \<Rightarrow> ('k \<times> 'v) list \<Rightarrow> ('k \<times> 'v) list" where
  "aput k v [] = [(k, v)]"
| "aput k v ((k', v') # xs) = (if k' = k then (k, v) # xs else (k', v') # aput k v xs)"

definition adel :: "'k \<Rightarrow> ('k \<times> 'v) list \<Rightarrow> ('k \<times> 'v) list" where
  "adel k xs = filter (\<lambda>(k', v). k' \<noteq> k) xs"

abbreviation akeys :: "('k \<times> 'v) list \<Rightarrow> 'k list" where
  "akeys xs \<equiv> map fst xs"

lemma map_of_aput [simp]: "map_of (aput k v xs) = (map_of xs)(k \<mapsto> v)"
  by (induction xs) auto

lemma map_of_adel [simp]: "map_of (adel k xs) = (map_of xs)(k := None)"
  by (induction xs) (auto simp: adel_def)

lemma aput_new: "k \<notin> set (akeys xs) \<Longrightarrow> aput k v xs = xs @ [(k, v)]"
  by (induction xs) auto

lemma set_akeys_aput [simp]: "set (akeys (aput k v xs)) = insert k (set (akeys xs))"
  by (induction k v xs rule: aput.induct) (simp_all add: insert_commute)

lemma distinct_akeys_aput [simp]: "distinct (akeys (aput k v xs)) = distinct (akeys xs)"
proof (induction xs)
  case (Cons p xs)
  then show ?case
    using set_akeys_aput [of k v xs] by (cases p) auto
qed simp

lemma set_akeys_adel [simp]: "set (akeys (adel k xs)) = set (akeys xs) - {k}"
  by (auto simp: adel_def)

lemma fst_set_aput [simp]: "fst ` set (aput k v xs) = insert k (fst ` set xs)"
  using set_akeys_aput [of k v xs] by simp

lemma fst_set_adel [simp]: "fst ` set (adel k xs) = fst ` set xs - {k}"
  using set_akeys_adel [of k xs] by simp

lemma distinct_akeys_adel: "distinct (akeys xs) \<Longrightarrow> distinct (akeys (adel k xs))"
  by (induction xs) (auto simp: adel_def)

lemma length_aput: "length (aput k v xs) = (if k \<in> set (akeys xs) then length xs else Suc (length xs))"
  by (induction k v xs rule: aput.induct) auto

lemma length_adel:
  "distinct (akeys xs) \<Longrightarrow> length (adel k xs) = (if k \<in> set (akeys xs) then length xs - 1 else length xs)"
proof (induction xs)
  case (Cons p xs)
  then show ?case
    by (cases p, cases xs) (auto simp: adel_def)
qed (simp add: adel_def)

lemma length_adel_le: "length (adel k xs) \<le> length xs"
  by (simp add: adel_def)

lemma set_aput_subset: "set (aput k v xs) \<subseteq> insert (k, v) (set xs)"
  by (induction k v xs rule: aput.induct) auto

lemma length_aput_map_of: "length (aput k v xs) = (case map_of xs k of None \<Rightarrow> Suc (length xs) | Some _ \<Rightarrow> length xs)"
  by (induction k v xs rule: aput.induct) (auto split: option.splits)

lemma adel_absent: "k \<notin> set (akeys xs) \<Longrightarrow> adel k xs = xs"
  by (induction xs) (auto simp: adel_def)

lemma adel_Cons: "adel k ((k', v) # xs) = (if k' = k then adel k xs else (k', v) # adel k xs)"
  by (simp add: adel_def)

lemma map_of_None_keys: "map_of xs k = None \<longleftrightarrow> k \<notin> set (akeys xs)"
  by (simp add: map_of_eq_None_iff)

lemma map_of_Some_keys: "map_of xs k = Some v \<Longrightarrow> k \<in> set (akeys xs)"
  by (metis map_of_None_keys option.distinct(1))


section \<open>Lists\<close>

lemma remove1_split: "x \<notin> set xs \<Longrightarrow> remove1 x (xs @ x # ys) = xs @ ys"
  by (simp add: remove1_append)

lemma distinct_length_remove1: "x \<in> set xs \<Longrightarrow> length (remove1 x xs) = length xs - 1"
  by (simp add: length_remove1)

lemma filter_remove1_eq: "distinct xs \<Longrightarrow> remove1 x xs = filter (\<lambda>y. y \<noteq> x) xs"
  by (rule distinct_remove1_removeAll [unfolded removeAll_filter_not_eq, of xs x,
        THEN trans]) (auto intro: filter_cong)

lemma sum_list_upd:
  fixes f :: "'a \<Rightarrow> int"
  assumes "distinct xs" and "x \<in> set xs" and "\<And>y. y \<in> set xs \<Longrightarrow> y \<noteq> x \<Longrightarrow> f' y = f y"
  shows "sum_list (map f' xs) = sum_list (map f xs) - f x + f' x"
  using assms
proof (induction xs)
  case Nil
  then show ?case by simp
next
  case (Cons y ys)
  show ?case
  proof (cases "y = x")
    case True
    with Cons.prems have "map f' ys = map f ys" by (auto intro!: map_cong)
    then have "sum_list (map f' ys) = sum_list (map f ys)" by (rule arg_cong)
    with True show ?thesis by simp
  next
    case False
    with Cons show ?thesis by simp
  qed
qed

lemma sum_list_unchanged: "(\<And>y. y \<in> set xs \<Longrightarrow> f' y = f y) \<Longrightarrow> sum_list (map f' xs) = sum_list (map f xs)"
  by (rule arg_cong [where f = sum_list]) simp

end
