(* ===== verification/Linked_List.thy ===== *)
theory Linked_List
  imports Prelude
begin

text \<open>
  The scheduler's intrusive doubly linked list (\<^verbatim>\<open>internal/scheduler/scheduler_list.go\<close>) at the
  level of its pointers: nodes and lists live in a store, a node records its value, its
  two neighbours and the list that owns it. The theory states what a list of the rest of
  the scheduler is (a sequence of nodes without repetition), proves that \<open>push\<close>,
  \<open>remove\<close>, \<open>first\<close> and the walks implement the sequence operations on it, and shows
  that one operation never disturbs another list of the store.
\<close>

section \<open>The store\<close>

record 'v listNode =
  n_value :: "'v option"
  n_prev :: "nat option"
  n_next :: "nat option"
  n_owner :: "nat option"

record linkedList =
  l_head :: "nat option"
  l_tail :: "nat option"
  l_live :: int

record 'v store =
  nodes :: "nat \<Rightarrow> 'v listNode"
  lists :: "nat \<Rightarrow> linkedList"

definition upd_node :: "nat \<Rightarrow> ('v listNode \<Rightarrow> 'v listNode) \<Rightarrow> 'v store \<Rightarrow> 'v store" where
  "upd_node n f s = s\<lparr>nodes := (nodes s)(n := f (nodes s n))\<rparr>"

definition upd_list :: "nat \<Rightarrow> (linkedList \<Rightarrow> linkedList) \<Rightarrow> 'v store \<Rightarrow> 'v store" where
  "upd_list l f s = s\<lparr>lists := (lists s)(l := f (lists s l))\<rparr>"

text \<open>The zero value of a list and of a node.\<close>

definition empty_node :: "'v listNode" where
  "empty_node = \<lparr>n_value = None, n_prev = None, n_next = None, n_owner = None\<rparr>"

definition empty_list :: linkedList where
  "empty_list = \<lparr>l_head = None, l_tail = None, l_live = 0\<rparr>"

definition empty_store :: "'v store" where
  "empty_store = \<lparr>nodes = (\<lambda>_. empty_node), lists = (\<lambda>_. empty_list)\<rparr>"


section \<open>The operations\<close>

text \<open>\<open>None\<close> is the panic of \<^verbatim>\<open>push\<close> on a node that is already linked.\<close>

definition push :: "nat \<Rightarrow> nat \<Rightarrow> 'v \<Rightarrow> 'v store \<Rightarrow> 'v store option" where
  "push l n v s =
     (if n_owner (nodes s n) \<noteq> None then None
      else
        let tl = l_tail (lists s l);
            s1 = upd_node n (\<lambda>nd. nd\<lparr>n_value := Some v, n_owner := Some l, n_prev := tl, n_next := None\<rparr>) s;
            s2 = (case tl of
                    Some t \<Rightarrow> upd_node t (\<lambda>nd. nd\<lparr>n_next := Some n\<rparr>) s1
                  | None \<Rightarrow> upd_list l (\<lambda>ll. ll\<lparr>l_head := Some n\<rparr>) s1)
        in Some (upd_list l (\<lambda>ll. ll\<lparr>l_tail := Some n, l_live := l_live ll + 1\<rparr>) s2))"

definition remove :: "nat \<Rightarrow> nat option \<Rightarrow> 'v store \<Rightarrow> bool \<times> 'v store" where
  "remove l np s =
     (case np of
        None \<Rightarrow> (False, s)
      | Some n \<Rightarrow>
          if n_owner (nodes s n) \<noteq> Some l then (False, s)
          else
            let p = n_prev (nodes s n); q = n_next (nodes s n);
                s1 = (case p of
                        Some p' \<Rightarrow> upd_node p' (\<lambda>nd. nd\<lparr>n_next := q\<rparr>) s
                      | None \<Rightarrow> upd_list l (\<lambda>ll. ll\<lparr>l_head := q\<rparr>) s);
                s2 = (case q of
                        Some q' \<Rightarrow> upd_node q' (\<lambda>nd. nd\<lparr>n_prev := p\<rparr>) s1
                      | None \<Rightarrow> upd_list l (\<lambda>ll. ll\<lparr>l_tail := p\<rparr>) s1);
                s3 = upd_node n (\<lambda>nd. nd\<lparr>n_value := None, n_prev := None, n_next := None, n_owner := None\<rparr>) s2
            in (True, upd_list l (\<lambda>ll. ll\<lparr>l_live := l_live ll - 1\<rparr>) s3))"

definition first :: "nat \<Rightarrow> 'v store \<Rightarrow> 'v option" where
  "first l s = (case l_head (lists s l) of None \<Rightarrow> None | Some n \<Rightarrow> n_value (nodes s n))"

text \<open>
  The walk from a node to the end of its list (the loop of \<^verbatim>\<open>forEach\<close> and \<^verbatim>\<open>appendTo\<close>); a
  cyclic chain would not end, so not returning is \<open>None\<close>. A node with a nil value is
  the \<^verbatim>\<open>nil\<close> the walk would hand out.
\<close>

partial_function (option) walk :: "'v store \<Rightarrow> nat option \<Rightarrow> 'v option list \<Rightarrow> 'v option list option" where
  "walk s np acc =
     (case np of
        None \<Rightarrow> Some acc
      | Some n \<Rightarrow> walk s (n_next (nodes s n)) (acc @ [n_value (nodes s n)]))"

definition forEach :: "nat \<Rightarrow> 'v store \<Rightarrow> 'v option list option" where
  "forEach l s = walk s (l_head (lists s l)) []"

definition appendTo :: "nat \<Rightarrow> 'v option list \<Rightarrow> 'v store \<Rightarrow> 'v option list option" where
  "appendTo l dst s = walk s (l_head (lists s l)) dst"

lemmas list_op_defs = push_def remove_def upd_node_def upd_list_def


section \<open>The sequence a list stands for\<close>

definition fst_or :: "'a list \<Rightarrow> 'a option \<Rightarrow> 'a option" where
  "fst_or xs q = (case xs of [] \<Rightarrow> q | x # _ \<Rightarrow> Some x)"

definition lst_or :: "'a option \<Rightarrow> 'a list \<Rightarrow> 'a option" where
  "lst_or p xs = (if xs = [] then p else Some (last xs))"

lemma fst_or_simps [simp]: "fst_or [] q = q" "fst_or (x # xs) q = Some x"
  by (simp_all add: fst_or_def)

lemma lst_or_simps [simp]:
  "lst_or p [] = p" "lst_or p (x # xs) = lst_or (Some x) xs" "lst_or p (xs @ [x]) = Some x"
  by (simp_all add: lst_or_def)

lemma fst_or_append [simp]: "fst_or (xs @ ys) q = fst_or xs (fst_or ys q)"
  by (cases xs) simp_all

text \<open>\<open>seg N p xs q\<close>: the nodes \<open>xs\<close> are linked in order, entered from \<open>p\<close>, left to \<open>q\<close>.\<close>

fun seg :: "(nat \<Rightarrow> 'v listNode) \<Rightarrow> nat option \<Rightarrow> nat list \<Rightarrow> nat option \<Rightarrow> bool" where
  "seg N p [] q = True"
| "seg N p (x # xs) q =
     (n_prev (N x) = p \<and> n_next (N x) = fst_or xs q \<and> n_value (N x) \<noteq> None \<and> seg N (Some x) xs q)"

definition represents :: "'v store \<Rightarrow> nat \<Rightarrow> nat list \<Rightarrow> bool" where
  "represents s l ns \<longleftrightarrow>
     distinct ns \<and> (\<forall>n. n_owner (nodes s n) = Some l \<longleftrightarrow> n \<in> set ns)
     \<and> seg (nodes s) None ns None
     \<and> l_head (lists s l) = fst_or ns None \<and> l_tail (lists s l) = lst_or None ns
     \<and> l_live (lists s l) = int (length ns)"

lemma seg_append: "seg N p (xs @ ys) q \<longleftrightarrow> seg N p xs (fst_or ys q) \<and> seg N (lst_or p xs) ys q"
  by (induction xs arbitrary: p) auto

lemma seg_cong:
  "(\<And>n. n \<in> set xs \<Longrightarrow> N' n = N n) \<Longrightarrow> seg N' p xs q = seg N p xs q"
  by (induction xs arbitrary: p) auto

lemma seg_exit:
  assumes "xs \<noteq> []" and "distinct xs" and "seg N p xs q"
  shows "seg (N(last xs := (N (last xs))\<lparr>n_next := q'\<rparr>)) p xs q'"
proof -
  obtain ys x where xs: "xs = ys @ [x]" using assms(1) by (cases xs rule: rev_cases) auto
  with assms(2,3) show ?thesis
    by (simp add: seg_append) (subst seg_cong [where N = N], auto)
qed

lemma seg_entry:
  assumes "xs \<noteq> []" and "distinct xs" and "seg N p xs q"
  shows "seg (N(hd xs := (N (hd xs))\<lparr>n_prev := p'\<rparr>)) p' xs q"
proof -
  obtain x ys where xs: "xs = x # ys" using assms(1) by (cases xs) auto
  with assms(2,3) show ?thesis
    by simp (subst seg_cong [where N = N], auto)
qed

lemma lst_or_last: "xs \<noteq> [] \<Longrightarrow> lst_or p xs = Some (last xs)"
  by (simp add: lst_or_def)

lemma fst_or_hd: "xs \<noteq> [] \<Longrightarrow> fst_or xs q = Some (hd xs)"
  by (cases xs) simp_all

lemma represents_empty: "represents empty_store l []"
  by (simp add: represents_def empty_store_def empty_list_def empty_node_def)

lemma represents_owner: "represents s l ns \<Longrightarrow> n_owner (nodes s n) = Some l \<longleftrightarrow> n \<in> set ns"
  by (simp add: represents_def)

text \<open>A list is untouched when its nodes and its own record are.\<close>

lemma represents_frame:
  assumes "represents s l ns" and "lists s' l = lists s l"
    and "\<And>n. n \<in> set ns \<Longrightarrow> nodes s' n = nodes s n"
    and "\<And>n. n_owner (nodes s' n) = Some l \<longleftrightarrow> n_owner (nodes s n) = Some l"
  shows "represents s' l ns"
  using assms seg_cong [of ns "nodes s'" "nodes s"] by (simp add: represents_def)


subsection \<open>push appends\<close>

lemma push_Some_iff: "(\<exists>s'. push l n v s = Some s') \<longleftrightarrow> n_owner (nodes s n) = None"
  by (simp add: push_def Let_def)

lemma push_appends:
  assumes R: "represents s l ns" and ok: "push l n v s = Some s'"
  shows "represents s' l (ns @ [n])"
proof -
  have own: "n_owner (nodes s n) = None" using ok by (auto simp: push_def split: if_splits)
  with represents_owner [OF R, of n] have fresh: "n \<notin> set ns" by simp
  show ?thesis
  proof (cases "ns = []")
    case True
    with R ok own show ?thesis
      by (auto simp: represents_def list_op_defs Let_def split: if_splits)
  next
    case False
    then have tl: "l_tail (lists s l) = Some (last ns)"
      using R by (simp add: represents_def lst_or_last)
    let ?N = "(nodes s)(last ns := (nodes s (last ns))\<lparr>n_next := Some n\<rparr>)"
    let ?new = "(nodes s n)\<lparr>n_value := Some v, n_owner := Some l, n_prev := Some (last ns), n_next := None\<rparr>"
    from False have ln: "last ns \<in> set ns" by simp
    with fresh have ne: "last ns \<noteq> n" by auto
    have N': "nodes s' = ?N(n := ?new)"
      using ok own tl ne by (auto simp: list_op_defs Let_def fun_eq_iff split: if_splits)
    have "seg ?N None ns (Some n)"
      using R False by (intro seg_exit [where q = None]) (auto simp: represents_def)
    then have "seg (nodes s') None ns (Some n)"
      unfolding N' using fresh by (subst seg_cong [where N = ?N]) auto
    then have "seg (nodes s') None (ns @ [n]) None"
      using False by (simp add: seg_append N' lst_or_last)
    moreover have "\<forall>m. n_owner (nodes s' m) = Some l \<longleftrightarrow> m \<in> set (ns @ [n])"
      using R ln unfolding N' represents_def by auto
    moreover have "lists s' l = (lists s l)\<lparr>l_tail := Some n, l_live := l_live (lists s l) + 1\<rparr>"
      using ok own tl by (auto simp: list_op_defs Let_def split: if_splits)
    ultimately show ?thesis
      using R fresh False by (simp add: represents_def fst_or_hd)
  qed
qed

lemma push_frame:
  assumes R: "represents s l' ms" and Rl: "represents s l ns" and "l' \<noteq> l" and ok: "push l n v s = Some s'"
  shows "represents s' l' ms"
proof (rule represents_frame [OF R])
  have own: "n_owner (nodes s n) = None" using ok by (auto simp: push_def split: if_splits)
  have t: "n_owner (nodes s t) = Some l" if "l_tail (lists s l) = Some t" for t
    using Rl that by (cases "ns = []") (auto simp: represents_def lst_or_def)
  show "lists s' l' = lists s l'"
    using ok \<open>l' \<noteq> l\<close> by (auto simp: list_op_defs Let_def split: if_splits option.splits)
  show "nodes s' m = nodes s m" if "m \<in> set ms" for m
  proof -
    have "n_owner (nodes s m) = Some l'" using represents_owner [OF R] that by simp
    with own t \<open>l' \<noteq> l\<close> have "m \<noteq> n" and "l_tail (lists s l) \<noteq> Some m" by auto
    with ok own show ?thesis
      by (auto simp: list_op_defs Let_def split: if_splits option.splits)
  qed
  show "n_owner (nodes s' m) = Some l' \<longleftrightarrow> n_owner (nodes s m) = Some l'" for m
    using ok own t \<open>l' \<noteq> l\<close>
    by (auto simp: list_op_defs Let_def split: if_splits option.splits)
qed


subsection \<open>remove unlinks\<close>

lemma remove_result: "represents s l ns \<Longrightarrow> fst (remove l (Some n) s) \<longleftrightarrow> n \<in> set ns"
  by (auto simp: remove_def represents_def Let_def)

text \<open>Unlinking a node in the middle of a chain, on the nodes alone.\<close>

lemma seg_unlink:
  assumes "distinct (xs @ n # ys)" and "seg N None (xs @ n # ys) None"
    and "\<And>m. m \<noteq> n \<Longrightarrow> N' m = (N m)\<lparr>
           n_next := (if xs \<noteq> [] \<and> m = last xs then fst_or ys None else n_next (N m)),
           n_prev := (if ys \<noteq> [] \<and> m = hd ys then lst_or None xs else n_prev (N m))\<rparr>"
  shows "seg N' None (xs @ ys) None"
proof -
  from assms(2) have sx: "seg N None xs (Some n)" and sy: "seg N (Some n) ys None"
    by (simp_all add: seg_append)
  have "seg N' None xs (fst_or ys None)"
  proof (cases "xs = []")
    case False
    have "seg (N(last xs := (N (last xs))\<lparr>n_next := fst_or ys None\<rparr>)) None xs (fst_or ys None)"
      using False assms(1) sx by (intro seg_exit) auto
    moreover have "N' m = (N(last xs := (N (last xs))\<lparr>n_next := fst_or ys None\<rparr>)) m" if "m \<in> set xs" for m
    proof -
      have "m \<noteq> n" and "\<not> (ys \<noteq> [] \<and> m = hd ys)"
        using that assms(1) by (auto dest: hd_in_set)
      with assms(3) [of m] False show ?thesis by auto
    qed
    ultimately show ?thesis by (subst seg_cong) auto
  qed simp
  moreover have "seg N' (lst_or None xs) ys None"
  proof (cases "ys = []")
    case False
    have "seg (N(hd ys := (N (hd ys))\<lparr>n_prev := lst_or None xs\<rparr>)) (lst_or None xs) ys None"
      using False assms(1) sy by (intro seg_entry) auto
    moreover have "N' m = (N(hd ys := (N (hd ys))\<lparr>n_prev := lst_or None xs\<rparr>)) m" if "m \<in> set ys" for m
    proof -
      have "m \<noteq> n" and "\<not> (xs \<noteq> [] \<and> m = last xs)"
        using that assms(1) by (auto dest: last_in_set)
      with assms(3) [of m] False show ?thesis by auto
    qed
    ultimately show ?thesis by (subst seg_cong) auto
  qed simp
  ultimately show ?thesis by (simp add: seg_append)
qed

lemma remove_unlinks:
  assumes R: "represents s l ns" and mem: "n \<in> set ns"
  shows "represents (snd (remove l (Some n) s)) l (remove1 n ns)"
proof -
  obtain xs ys where ns: "ns = xs @ n # ys" and nx: "n \<notin> set xs"
    using mem by (meson split_list_first)
  have d: "distinct (xs @ n # ys)" and sg: "seg (nodes s) None (xs @ n # ys) None"
    and own: "n_owner (nodes s n) = Some l"
    using R ns by (auto simp: represents_def)
  have p: "n_prev (nodes s n) = lst_or None xs" and q: "n_next (nodes s n) = fst_or ys None"
    using sg by (auto simp: seg_append)
  let ?s' = "snd (remove l (Some n) s)"
  have neq: "xs \<noteq> [] \<Longrightarrow> last xs \<noteq> n" "ys \<noteq> [] \<Longrightarrow> hd ys \<noteq> n"
    using d by (auto dest: last_in_set hd_in_set)
  have dis: "xs \<noteq> [] \<Longrightarrow> ys \<noteq> [] \<Longrightarrow> last xs \<noteq> hd ys"
    using d by (metis IntI append_Cons distinct_append empty_iff hd_in_set last_in_set
        list.set_intros(2))
  have N': "nodes ?s' m = (nodes s m)\<lparr>
           n_next := (if xs \<noteq> [] \<and> m = last xs then fst_or ys None else n_next (nodes s m)),
           n_prev := (if ys \<noteq> [] \<and> m = hd ys then lst_or None xs else n_prev (nodes s m))\<rparr>"
    if "m \<noteq> n" for m
    using own p q that neq dis
    by (cases "xs = []"; cases "ys = []") (auto simp: list_op_defs Let_def lst_or_def fst_or_hd)
  have "seg (nodes ?s') None (xs @ ys) None"
    using seg_unlink [OF d sg] N' by blast
  moreover have "n_owner (nodes ?s' n) = None"
    using own p q by (cases "xs = []"; cases "ys = []") (auto simp: list_op_defs Let_def lst_or_def fst_or_hd)
  then have "\<forall>m. n_owner (nodes ?s' m) = Some l \<longleftrightarrow> m \<in> set (xs @ ys)"
  proof (intro allI)
    fix m
    show "n_owner (nodes ?s' m) = Some l \<longleftrightarrow> m \<in> set (xs @ ys)" if "n_owner (nodes ?s' n) = None"
      using that R d N' [of m] unfolding represents_def ns by (cases "m = n") auto
  qed
  moreover have "lists ?s' l = \<lparr>l_head = fst_or (xs @ ys) None, l_tail = lst_or None (xs @ ys),
      l_live = int (length (xs @ ys))\<rparr>"
    using R own p q unfolding represents_def ns
    by (cases "xs = []"; cases "ys = []")
       (auto simp: list_op_defs Let_def lst_or_def fst_or_hd)
  ultimately have "represents ?s' l (xs @ ys)"
    using d by (simp add: represents_def)
  then show ?thesis using ns nx by (simp add: remove1_split)
qed

lemma remove_miss:
  "n \<notin> set ns \<Longrightarrow> represents s l ns \<Longrightarrow> snd (remove l (Some n) s) = s"
  by (auto simp: remove_def represents_def)

lemma remove_frees:
  assumes R: "represents s l ns" and mem: "n \<in> set ns"
  shows "n_owner (nodes (snd (remove l (Some n) s)) n) = None"
  using R mem
  by (auto simp: represents_def list_op_defs Let_def split: option.splits)

lemma remove_frame:
  assumes R: "represents s l' ms" and Rl: "represents s l ns" and "l' \<noteq> l"
  shows "represents (snd (remove l (Some n) s)) l' ms"
proof (cases "n \<in> set ns")
  case False
  with Rl R show ?thesis by (simp add: remove_miss)
next
  case True
  let ?s' = "snd (remove l (Some n) s)"
  obtain xs ys where ns: "ns = xs @ n # ys" using True by (meson split_list)
  have p: "n_prev (nodes s n) = lst_or None xs" and q: "n_next (nodes s n) = fst_or ys None"
    and own: "n_owner (nodes s n) = Some l"
    using Rl ns by (auto simp: represents_def seg_append)
  have t: "nodes ?s' m = nodes s m" if "m \<notin> set ns" for m
    using that p q own unfolding ns
    by (cases "xs = []"; cases "ys = []")
       (auto simp: list_op_defs Let_def lst_or_def fst_or_hd)
  have o: "n_owner (nodes ?s' m) = (if m = n then None else n_owner (nodes s m))" for m
    using p q own
    by (cases "xs = []"; cases "ys = []") (auto simp: list_op_defs Let_def lst_or_def fst_or_hd)
  show ?thesis
  proof (rule represents_frame [OF R])
    show "lists ?s' l' = lists s l'"
      using \<open>l' \<noteq> l\<close> own by (auto simp: list_op_defs Let_def split: option.splits)
    show "nodes ?s' m = nodes s m" if "m \<in> set ms" for m
      using that represents_owner [OF R, of m] represents_owner [OF Rl, of m] \<open>l' \<noteq> l\<close>
      by (intro t) auto
    show "n_owner (nodes ?s' m) = Some l' \<longleftrightarrow> n_owner (nodes s m) = Some l'" for m
      using own \<open>l' \<noteq> l\<close> by (auto simp: o)
  qed
qed


subsection \<open>The walks\<close>

lemma walk_seg:
  "seg (nodes s) p ns None \<Longrightarrow>
     walk s (fst_or ns None) acc = Some (acc @ map (\<lambda>n. n_value (nodes s n)) ns)"
proof (induction ns arbitrary: p acc)
  case Nil
  show ?case by (simp add: walk.simps)
next
  case (Cons n ns)
  then have "walk s (n_next (nodes s n)) (acc @ [n_value (nodes s n)])
      = Some ((acc @ [n_value (nodes s n)]) @ map (\<lambda>n. n_value (nodes s n)) ns)"
    by auto
  then show ?case by (simp add: walk.simps [of s "Some n"])
qed

lemma appendTo_values:
  "represents s l ns \<Longrightarrow> appendTo l dst s = Some (dst @ map (\<lambda>n. n_value (nodes s n)) ns)"
  unfolding represents_def appendTo_def using walk_seg by fastforce

lemma forEach_values:
  "represents s l ns \<Longrightarrow> forEach l s = Some (map (\<lambda>n. n_value (nodes s n)) ns)"
  using appendTo_values [of s l ns "[]"] by (simp add: appendTo_def forEach_def)

lemma first_value:
  "represents s l ns \<Longrightarrow> first l s = (case ns of [] \<Rightarrow> None | n # _ \<Rightarrow> n_value (nodes s n))"
  by (auto simp: represents_def first_def fst_or_def split: list.splits)

lemma seg_values: "seg N p ns q \<Longrightarrow> n \<in> set ns \<Longrightarrow> n_value (N n) \<noteq> None"
  by (induction ns arbitrary: p) auto


section \<open>Sequences of operations\<close>

text \<open>
  What a client of the lists sees: every list of the store is a sequence of nodes with their
  values, a push of a free node appends it with its value to one of them, a removal takes
  it out and says whether it was there. A push of a linked node panics, and removing the nil
  node does nothing.
\<close>

type_synonym 'v sequences = "nat \<Rightarrow> (nat \<times> 'v) list"

datatype 'v list_op = Push nat nat 'v | Remove nat "nat option"

fun spec_op :: "'v sequences \<Rightarrow> 'v list_op \<Rightarrow> (bool \<times> 'v sequences) option" where
  "spec_op A (Push l n v) =
     (if \<exists>l'. n \<in> fst ` set (A l') then None else Some (True, A(l := A l @ [(n, v)])))"
| "spec_op A (Remove l None) = Some (False, A)"
| "spec_op A (Remove l (Some n)) = Some (n \<in> fst ` set (A l), A(l := adel n (A l)))"

fun run_list :: "('s \<Rightarrow> 'v list_op \<Rightarrow> (bool \<times> 's) option) \<Rightarrow> 's \<Rightarrow> 'v list_op list \<Rightarrow> (bool list \<times> 's) option" where
  "run_list step s [] = Some ([], s)"
| "run_list step s (x # xs) =
     (case step s x of
        None \<Rightarrow> None
      | Some (b, s') \<Rightarrow> map_option (\<lambda>(bs, t). (b # bs, t)) (run_list step s' xs))"

fun store_op :: "'v store \<Rightarrow> 'v list_op \<Rightarrow> (bool \<times> 'v store) option" where
  "store_op s (Push l n v) = map_option (Pair True) (push l n v s)"
| "store_op s (Remove l np) = Some (remove l np s)"

text \<open>
  The interface: an implementation step that agrees with the sequence step on what it
  returns, panics exactly where that step is undefined, and keeps the representation.
\<close>

locale list_store =
  fixes rep :: "'s \<Rightarrow> 'v sequences \<Rightarrow> bool"
    and step :: "'s \<Rightarrow> 'v list_op \<Rightarrow> (bool \<times> 's) option"
  assumes step_panics: "rep s A \<Longrightarrow> spec_op A x = None \<Longrightarrow> step s x = None"
    and step_agrees: "rep s A \<Longrightarrow> spec_op A x = Some (b, A') \<Longrightarrow> \<exists>s'. step s x = Some (b, s') \<and> rep s' A'"
begin

lemma run_agrees:
  assumes "rep s A"
  shows "case run_list spec_op A xs of
           None \<Rightarrow> run_list step s xs = None
         | Some (bs, A') \<Rightarrow> \<exists>s'. run_list step s xs = Some (bs, s') \<and> rep s' A'"
  using assms
proof (induction xs arbitrary: s A)
  case Nil
  then show ?case by simp
next
  case (Cons x xs)
  show ?case
  proof (cases "spec_op A x")
    case None
    with Cons.prems show ?thesis by (simp add: step_panics)
  next
    case (Some r)
    then obtain b A1 where r: "spec_op A x = Some (b, A1)" by (cases r) auto
    then obtain s1 where s1: "step s x = Some (b, s1)" and R1: "rep s1 A1"
      using step_agrees [OF Cons.prems] by blast
    from Cons.IH [OF R1] show ?thesis
      by (auto simp: r s1 split: option.splits)
  qed
qed

text \<open>First in, first out: a queue that is only pushed to lists its nodes in push order.\<close>

lemma pushes_in_order:
  assumes "rep s A" and "distinct ns" and "\<And>l' n. n \<in> set ns \<Longrightarrow> n \<notin> fst ` set (A l')"
  shows "\<exists>bs s'. run_list step s (map (\<lambda>n. Push l n (f n)) ns) = Some (bs, s')
           \<and> rep s' (A(l := A l @ map (\<lambda>n. (n, f n)) ns))"
  using assms
proof (induction ns arbitrary: s A)
  case Nil
  then show ?case by simp
next
  case (Cons n ns)
  let ?A1 = "A(l := A l @ [(n, f n)])"
  have "spec_op A (Push l n (f n)) = Some (True, ?A1)"
    using Cons.prems(3) [of n] by simp
  then obtain s1 where s1: "step s (Push l n (f n)) = Some (True, s1)" and R1: "rep s1 ?A1"
    using step_agrees [OF Cons.prems(1)] by blast
  have "\<exists>bs s'. run_list step s1 (map (\<lambda>n. Push l n (f n)) ns) = Some (bs, s')
      \<and> rep s' (?A1(l := ?A1 l @ map (\<lambda>n. (n, f n)) ns))"
    using Cons.prems(2,3) by (intro Cons.IH [OF R1]) auto
  then obtain bs s' where "run_list step s1 (map (\<lambda>n. Push l n (f n)) ns) = Some (bs, s')"
    and "rep s' (A(l := A l @ map (\<lambda>n. (n, f n)) (n # ns)))" by auto
  with s1 show ?case by (intro exI [of _ "True # bs"] exI [of _ s']) (simp only: run_list.simps list.map, simp)
qed

end

definition represents_all :: "'v store \<Rightarrow> 'v sequences \<Rightarrow> bool" where
  "represents_all s A \<longleftrightarrow>
     (\<forall>l. represents s l (akeys (A l)))
     \<and> (\<forall>l n v. (n, v) \<in> set (A l) \<longrightarrow> n_value (nodes s n) = Some v)
     \<and> (\<forall>n. n_owner (nodes s n) \<noteq> None \<longrightarrow> (\<exists>l. n \<in> fst ` set (A l)))"

lemma represents_allD:
  assumes "represents_all s A"
  shows "represents s l (akeys (A l))" "(n, v) \<in> set (A l) \<Longrightarrow> n_value (nodes s n) = Some v"
    and "n_owner (nodes s n) \<noteq> None \<Longrightarrow> \<exists>l. n \<in> fst ` set (A l)"
  using assms unfolding represents_all_def by blast+

lemma represents_all_empty: "represents_all empty_store (\<lambda>_. [])"
  by (simp add: represents_all_def represents_empty) (simp add: empty_store_def empty_node_def)

lemma represents_all_owner:
  assumes "represents_all s A"
  shows "n_owner (nodes s n) = None \<longleftrightarrow> (\<forall>l. n \<notin> fst ` set (A l))"
proof
  show "\<forall>l. n \<notin> fst ` set (A l)" if "n_owner (nodes s n) = None"
    using that represents_owner [OF represents_allD(1) [OF assms], of n] by simp
  show "n_owner (nodes s n) = None" if "\<forall>l. n \<notin> fst ` set (A l)"
    using that assms unfolding represents_all_def by blast
qed

lemma push_owner:
  "push l n v s = Some s' \<Longrightarrow> n_owner (nodes s' m) = (if m = n then Some l else n_owner (nodes s m))"
  by (auto simp: list_op_defs Let_def split: if_splits option.splits)

lemma push_value:
  "push l n v s = Some s' \<Longrightarrow> n_value (nodes s' m) = (if m = n then Some v else n_value (nodes s m))"
  by (auto simp: list_op_defs Let_def split: if_splits option.splits)

lemma remove_owner:
  "n_owner (nodes (snd (remove l (Some n) s)) m) \<noteq> None \<Longrightarrow> n_owner (nodes s m) \<noteq> None"
  by (auto simp: list_op_defs Let_def split: if_splits option.splits)

lemma remove_value:
  "m \<noteq> n \<Longrightarrow> n_value (nodes (snd (remove l (Some n) s)) m) = n_value (nodes s m)"
  by (auto simp: list_op_defs Let_def split: if_splits option.splits)

lemma akeys_adel: "distinct (akeys xs) \<Longrightarrow> akeys (adel n xs) = remove1 n (akeys xs)"
proof -
  have "akeys (adel n xs) = removeAll n (akeys xs)" by (induction xs) (auto simp: adel_def)
  then show "distinct (akeys xs) \<Longrightarrow> akeys (adel n xs) = remove1 n (akeys xs)"
    by (simp add: distinct_remove1_removeAll)
qed

lemma store_push:
  assumes "represents_all s A" and "\<forall>l'. n \<notin> fst ` set (A l')"
  shows "\<exists>s'. push l n v s = Some s' \<and> represents_all s' (A(l := A l @ [(n, v)]))"
proof -
  have "n_owner (nodes s n) = None" using represents_all_owner [OF assms(1)] assms(2) by simp
  then obtain s' where s': "push l n v s = Some s'" using push_Some_iff [of l n v s] by auto
  have "represents s' l' (akeys ((A(l := A l @ [(n, v)])) l'))" for l'
    using represents_allD(1) [OF assms(1)] push_appends [OF _ s', of "akeys (A l)"]
      push_frame [OF _ _ _ s', of l' "akeys (A l')" "akeys (A l)"] by auto
  moreover have "n_value (nodes s' m) = Some x" if "(m, x) \<in> set ((A(l := A l @ [(n, v)])) l')" for m x l'
  proof (cases "(m, x) \<in> set (A l')")
    case True
    then have "m \<noteq> n" using assms(2) by force
    then show ?thesis using represents_allD(2) [OF assms(1) True] push_value [OF s'] by simp
  next
    case False
    then have "m = n" "x = v" using that by (auto split: if_splits)
    then show ?thesis using push_value [OF s'] by simp
  qed
  moreover have "\<exists>l'. m \<in> fst ` set ((A(l := A l @ [(n, v)])) l')" if own: "n_owner (nodes s' m) \<noteq> None" for m
  proof (cases "m = n")
    case False
    then obtain l' where "m \<in> fst ` set (A l')"
      using own represents_allD(3) [OF assms(1), of m] push_owner [OF s', of m] by auto
    then show ?thesis by (intro exI [of _ l']) auto
  qed (auto intro!: exI [of _ l])
  ultimately show ?thesis using s' unfolding represents_all_def by blast
qed

lemma store_remove:
  assumes "represents_all s A"
  shows "fst (remove l (Some n) s) \<longleftrightarrow> n \<in> fst ` set (A l)"
    and "represents_all (snd (remove l (Some n) s)) (A(l := adel n (A l)))"
proof -
  note R = represents_allD(1) [OF assms]
  show "fst (remove l (Some n) s) \<longleftrightarrow> n \<in> fst ` set (A l)" using remove_result [OF R] by simp
  let ?s' = "snd (remove l (Some n) s)" and ?A = "A(l := adel n (A l))"
  have keys: "akeys (adel n (A l)) = remove1 n (akeys (A l))"
    using R [of l] by (intro akeys_adel) (simp add: represents_def)
  have "represents ?s' l' (akeys (?A l'))" for l'
    using R remove_unlinks [OF R [of l]] remove_miss [OF _ R [of l]] remove_frame [OF R R, of l' l n]
    by (cases "n \<in> set (akeys (A l))") (auto simp: keys remove1_idem)
  moreover have "n_value (nodes ?s' m) = Some x" if mem: "(m, x) \<in> set (?A l')" for m x l'
  proof (cases "n \<in> fst ` set (A l)")
    case True
    have "m \<noteq> n"
      using mem True represents_owner [OF R [of l], of n] represents_owner [OF R [of l'], of n]
      by (force simp: adel_def split: if_splits)
    then show ?thesis
      using mem represents_allD(2) [OF assms] remove_value [of m n l s] by (auto simp: adel_def split: if_splits)
  next
    case False
    then show ?thesis
      using mem represents_allD(2) [OF assms] remove_miss [OF _ R [of l], of n] by (auto simp: adel_def split: if_splits)
  qed
  moreover have "\<exists>l'. m \<in> fst ` set (?A l')" if own: "n_owner (nodes ?s' m) \<noteq> None" for m
  proof -
    obtain l' where l': "m \<in> fst ` set (A l')"
      using represents_allD(3) [OF assms remove_owner [OF own]] by blast
    have "\<not> (m = n \<and> l' = l)" using own remove_frees [OF R [of l], of n] l' by (metis set_map)
    then have "m \<in> fst ` set (?A l')" using l' by (force simp: adel_def)
    then show ?thesis ..
  qed
  ultimately show "represents_all ?s' ?A"
    unfolding represents_all_def by blast
qed

lemma list_op_cases:
  obtains (push) l n v where "x = Push l n v" | (nil) l where "x = Remove l None" | (node) l n where "x = Remove l (Some n)"
  by (metis list_op.exhaust option.exhaust)

interpretation linked: list_store represents_all store_op
proof unfold_locales
  fix s :: "'v store" and A and x :: "'v list_op"
  assume R: "represents_all s A" and "spec_op A x = None"
  then show "store_op s x = None"
    using represents_all_owner [OF R] by (cases x rule: list_op_cases) (auto simp: push_def split: if_splits)
next
  fix s :: "'v store" and A and x :: "'v list_op" and b A'
  assume R: "represents_all s A" and ok: "spec_op A x = Some (b, A')"
  show "\<exists>s'. store_op s x = Some (b, s') \<and> represents_all s' A'"
  proof (cases x rule: list_op_cases)
    case (push l n v)
    with ok store_push [OF R, of n l v] show ?thesis by (auto split: if_splits)
  next
    case (nil l)
    with ok R show ?thesis by (auto simp: remove_def)
  next
    case (node l n)
    with ok store_remove [OF R, of l n] show ?thesis by (auto simp: prod_eq_iff)
  qed
qed

lemma map_values:
  assumes "represents_all s A"
  shows "map (\<lambda>n. n_value (nodes s n)) (akeys (A l)) = map (\<lambda>(_, v). Some v) (A l)"
  using represents_allD(2) [OF assms] by auto

lemma walks_values:
  assumes "represents_all s A"
  shows "appendTo l dst s = Some (dst @ map (\<lambda>(_, v). Some v) (A l))"
    and "forEach l s = Some (map (\<lambda>(_, v). Some v) (A l))"
    and "first l s = (case A l of [] \<Rightarrow> None | (_, v) # _ \<Rightarrow> Some v)"
    and "l_live (lists s l) = int (length (A l))"
proof -
  note R = represents_allD(1) [OF assms, of l]
  show "appendTo l dst s = Some (dst @ map (\<lambda>(_, v). Some v) (A l))"
    and "forEach l s = Some (map (\<lambda>(_, v). Some v) (A l))"
    using appendTo_values [OF R] forEach_values [OF R] by (simp_all only: map_values [OF assms])
  show "first l s = (case A l of [] \<Rightarrow> None | (_, v) # _ \<Rightarrow> Some v)"
    using first_value [OF R] represents_allD(2) [OF assms, of _ _ l] by (auto split: list.splits)
  show "l_live (lists s l) = int (length (A l))"
    using R by (simp add: represents_def)
qed

text \<open>
  C1. Any sequence of pushes and removals on the pointer lists of an initially empty
  store does what the same sequence does on plain sequences of nodes and values: it panics
  exactly when a linked node is pushed again, and every removal reports membership (the nil
  node is in no list). Afterwards, of every list, the walk hands out exactly the values that
  were pushed with its nodes, in order, \<^verbatim>\<open>appendTo\<close> appends them to its argument, \<^verbatim>\<open>first\<close> is the
  first of them or nil, and the live count is their number.
\<close>

theorem linked_lists_are_sequences:
  "case run_list spec_op (\<lambda>_. []) xs of
     None \<Rightarrow> run_list store_op (empty_store :: 'v store) xs = None
   | Some (bs, A) \<Rightarrow>
       \<exists>s. run_list store_op (empty_store :: 'v store) xs = Some (bs, s)
         \<and> (\<forall>l dst. forEach l s = Some (map (\<lambda>(_, v). Some v) (A l))
                \<and> appendTo l dst s = Some (dst @ map (\<lambda>(_, v). Some v) (A l))
                \<and> first l s = (case A l of [] \<Rightarrow> None | (_, v) # _ \<Rightarrow> Some v)
                \<and> l_live (lists s l) = int (length (A l)))"
proof -
  note agree = linked.run_agrees [OF represents_all_empty, of xs]
  show ?thesis
  proof (cases "run_list spec_op (\<lambda>_. []) xs")
    case (Some r)
    obtain bs A where r: "r = (bs, A)" by (cases r)
    then obtain s where "run_list store_op (empty_store :: 'v store) xs = Some (bs, s)" "represents_all s A"
      using agree Some by auto
    then show ?thesis using Some r walks_values [of s A] by auto
  qed (use agree in simp)
qed

end
