(* ===== verification/Strict_Window.thy ===== *)
theory Strict_Window
  imports Prelude
begin

text \<open>
  The sliding request window of a provider cap (\<^verbatim>\<open>strictWindow\<close> in
  \<^verbatim>\<open>internal/scheduler/throttle.go\<close>): a ring of admitted instants for counts up to
  \<^verbatim>\<open>maxWindowSlots\<close>, even spacing above. The ring is shown to implement the plain list of
  live stamps, and both representations to satisfy one interface, whose clients get the
  bound of the source's comment: no half-open window of the configured length ever holds
  more than the configured number of admits.
\<close>

section \<open>The limiter\<close>

definition maxWindowSlots :: int where
  "maxWindowSlots = 65536"

record strictWindow =
  sw_enabled :: bool
  sw_count :: int
  sw_window :: duration
  sw_stamps :: "time list"
  sw_head :: nat
  sw_filled :: nat
  sw_interval :: duration
  sw_next :: time

definition zero_window :: strictWindow where
  "zero_window = \<lparr>sw_enabled = False, sw_count = 0, sw_window = 0, sw_stamps = [], sw_head = 0,
     sw_filled = 0, sw_interval = 0, sw_next = zero_time\<rparr>"

definition paced :: "strictWindow \<Rightarrow> bool" where
  "paced w \<longleftrightarrow> sw_enabled w \<and> sw_interval w > 0"

definition window_reset :: "int \<Rightarrow> duration \<Rightarrow> time \<Rightarrow> strictWindow \<Rightarrow> strictWindow" where
  "window_reset count window now w =
     (if count \<le> 0 \<or> window \<le> 0 then zero_window
      else
        let w1 = w\<lparr>sw_enabled := True, sw_count := count, sw_window := window, sw_stamps := [],
                   sw_head := 0, sw_filled := 0, sw_interval := 0, sw_next := zero_time\<rparr>
        in if count > maxWindowSlots
           then w1\<lparr>sw_interval := window div count + 1, sw_next := now\<rparr>
           else w1\<lparr>sw_stamps := replicate (nat count) zero_time\<rparr>)"

text \<open>The slot of the oldest live stamp.\<close>

definition oldest_slot :: "strictWindow \<Rightarrow> nat" where
  "oldest_slot w = (sw_head w + length (sw_stamps w) - sw_filled w) mod length (sw_stamps w)"

fun prune_filled :: "strictWindow \<Rightarrow> time \<Rightarrow> nat \<Rightarrow> nat" where
  "prune_filled w cutoff 0 = 0"
| "prune_filled w cutoff (Suc f) =
     (if sw_stamps w ! oldest_slot (w\<lparr>sw_filled := Suc f\<rparr>) > cutoff then Suc f
      else prune_filled w cutoff f)"

definition prune :: "time \<Rightarrow> strictWindow \<Rightarrow> strictWindow" where
  "prune now w =
     (if \<not> sw_enabled w \<or> paced w then w
      else w\<lparr>sw_filled := prune_filled w (now - sw_window w) (sw_filled w)\<rparr>)"

text \<open>\<^verbatim>\<open>waitFor\<close>: the wait, whether the budget blocks now, and the pruned window.\<close>

definition window_waitFor :: "time \<Rightarrow> strictWindow \<Rightarrow> duration \<times> bool \<times> strictWindow" where
  "window_waitFor now w =
     (if \<not> sw_enabled w then (0, False, w)
      else if paced w then
        (if now < sw_next w then (time_Sub (sw_next w) now, True, w) else (0, False, w))
      else
        let w' = prune now w in
        if int (sw_filled w') < sw_count w' then (0, False, w')
        else
          let d = time_Sub (sw_stamps w' ! oldest_slot w' + sw_window w') now
          in (if d < 0 then 0 else d, True, w'))"

definition window_admit :: "time \<Rightarrow> strictWindow \<Rightarrow> strictWindow" where
  "window_admit now w =
     (if \<not> sw_enabled w then w
      else if paced w then
        let nx = (if sw_next w < now then now else sw_next w)
        in w\<lparr>sw_next := nx + sw_interval w\<rparr>
      else
        let w' = prune now w;
            n = length (sw_stamps w')
        in w'\<lparr>sw_stamps := (sw_stamps w')[sw_head w' := now],
              sw_head := (sw_head w' + 1) mod n,
              sw_filled := (if sw_filled w' < n then sw_filled w' + 1 else sw_filled w')\<rparr>)"

definition window_remaining :: "time \<Rightarrow> strictWindow \<Rightarrow> rat \<times> strictWindow" where
  "window_remaining now w =
     (if \<not> sw_enabled w then (0, w)
      else if paced w then (if now < sw_next w then 0 else of_int (sw_count w), w)
      else let w' = prune now w in (of_int (sw_count w' - int (sw_filled w')), w'))"

definition window_capacity :: "strictWindow \<Rightarrow> rat" where
  "window_capacity w = (if \<not> sw_enabled w then 0 else of_int (sw_count w))"


section \<open>The ring is a list of stamps\<close>

definition ring_wf :: "strictWindow \<Rightarrow> bool" where
  "ring_wf w \<longleftrightarrow> sw_enabled w \<and> sw_interval w = 0 \<and> 0 < sw_count w \<and> 0 < sw_window w
     \<and> length (sw_stamps w) = nat (sw_count w)
     \<and> sw_head w < length (sw_stamps w) \<and> sw_filled w \<le> length (sw_stamps w)"

text \<open>The live stamps, oldest first.\<close>

definition live :: "strictWindow \<Rightarrow> time list" where
  "live w = map (\<lambda>i. sw_stamps w ! ((sw_head w + length (sw_stamps w) - sw_filled w + i)
               mod length (sw_stamps w))) [0..<sw_filled w]"

lemma ring_wf_pos: "ring_wf w \<Longrightarrow> 0 < length (sw_stamps w)"
  by (simp add: ring_wf_def)

lemma ring_wf_not_paced [simp]: "ring_wf w \<Longrightarrow> \<not> paced w"
  by (simp add: ring_wf_def paced_def)

lemma length_live [simp]: "length (live w) = sw_filled w"
  by (simp add: live_def)

text \<open>Every read of the ring is in range, so the slice accesses never panic.\<close>

lemma oldest_slot_in_range: "ring_wf w \<Longrightarrow> oldest_slot w < length (sw_stamps w)"
  using ring_wf_pos [of w] by (simp add: oldest_slot_def)

lemma live_Suc:
  assumes "ring_wf w" and "sw_filled w = Suc f"
  shows "live w = sw_stamps w ! oldest_slot w # live (w\<lparr>sw_filled := f\<rparr>)"
proof -
  have "[0..<Suc f] = 0 # map Suc [0..<f]" by (simp add: map_Suc_upt upt_conv_Cons)
  moreover have "sw_head w + length (sw_stamps w) - Suc f + Suc i
      = sw_head w + length (sw_stamps w) - f + i" for i
    using assms unfolding ring_wf_def by arith
  ultimately show ?thesis
    using assms by (simp add: live_def oldest_slot_def)
qed

lemma ring_wf_filled: "ring_wf w \<Longrightarrow> f \<le> sw_filled w \<Longrightarrow> ring_wf (w\<lparr>sw_filled := f\<rparr>)"
  by (simp add: ring_wf_def)

lemma prune_filled_le: "prune_filled w cutoff f \<le> f"
  by (induction f) (auto simp: le_SucI)

lemma prune_filled_live:
  "ring_wf (w\<lparr>sw_filled := f\<rparr>) \<Longrightarrow>
     live (w\<lparr>sw_filled := prune_filled w cutoff f\<rparr>)
       = dropWhile (\<lambda>t. t \<le> cutoff) (live (w\<lparr>sw_filled := f\<rparr>))"
proof (induction f)
  case 0
  then show ?case by (simp add: live_def)
next
  case (Suc f)
  let ?w = "w\<lparr>sw_filled := Suc f\<rparr>"
  have l: "live ?w = sw_stamps w ! oldest_slot ?w # live (w\<lparr>sw_filled := f\<rparr>)"
    using live_Suc [OF Suc.prems, of f] by simp
  have "ring_wf (w\<lparr>sw_filled := f\<rparr>)"
    using ring_wf_filled [OF Suc.prems, of f] by simp
  with Suc.IH show ?case by (simp add: l not_less)
qed

lemma prune_ring_wf: "ring_wf w \<Longrightarrow> ring_wf (prune now w)"
  using prune_filled_le [of w "now - sw_window w" "sw_filled w"]
  by (auto simp: prune_def ring_wf_def)

lemma prune_live: "ring_wf w \<Longrightarrow> live (prune now w) = dropWhile (\<lambda>t. t \<le> now - sw_window w) (live w)"
  using prune_filled_live [where w = w and f = "sw_filled w"] by (simp add: prune_def ring_wf_def [of w] paced_def)

lemma prune_fields [simp]:
  "sw_count (prune now w) = sw_count w" "sw_window (prune now w) = sw_window w"
  "sw_enabled (prune now w) = sw_enabled w" "sw_interval (prune now w) = sw_interval w"
  by (simp_all add: prune_def)

lemma ring_write_live:
  assumes wf: "ring_wf w" and room: "sw_filled w < length (sw_stamps w)"
  shows "live (w\<lparr>sw_stamps := (sw_stamps w)[sw_head w := now],
                  sw_head := (sw_head w + 1) mod length (sw_stamps w),
                  sw_filled := sw_filled w + 1\<rparr>) = live w @ [now]" (is "live ?w = _")
proof -
  let ?n = "length (sw_stamps w)" and ?h = "sw_head w" and ?f = "sw_filled w"
  have h: "?h < ?n" using wf by (simp add: ring_wf_def)
  have idx: "((?h + 1) mod ?n + ?n - (?f + 1) + i) mod ?n = (?h + ?n - ?f + i) mod ?n"
    if "i \<le> ?f" for i
  proof (cases "?h + 1 = ?n")
    case True
    then have "(?h + ?n - ?f + i) = (?n - (?f + 1) + i) + ?n" using room by simp
    then have "(?h + ?n - ?f + i) mod ?n = (?n - (?f + 1) + i) mod ?n" by (metis mod_add_self2)
    with True show ?thesis by simp
  next
    case False
    with h have "(?h + 1) mod ?n = ?h + 1" by simp
    then show ?thesis using room by simp
  qed
  have last: "(?h + ?n - ?f + ?f) mod ?n = ?h" using h room by simp
  have other: "(?h + ?n - ?f + i) mod ?n \<noteq> ?h" if "i < ?f" for i
  proof
    assume eq: "(?h + ?n - ?f + i) mod ?n = ?h"
    show False
    proof (cases "?h + i < ?f")
      case True
      then have "(?h + ?n - ?f + i) mod ?n = ?h + ?n - ?f + i" using room that by (intro mod_less) arith
      with eq room that show False by simp
    next
      case False
      then have "?h + ?n - ?f + i = (?h + i - ?f) + ?n" using room by simp
      moreover have "?h + i - ?f < ?n" using h that by simp
      ultimately have "(?h + ?n - ?f + i) mod ?n = ?h + i - ?f" by simp
      with eq that False show False by arith
    qed
  qed
  have "live ?w = map (\<lambda>i. (sw_stamps w)[?h := now] ! ((?h + ?n - ?f + i) mod ?n)) [0..<?f + 1]"
    unfolding live_def using idx by (auto intro!: map_cong)
  also have "\<dots> = live w @ [now]"
    using nth_list_update_neq [OF other [symmetric]] last h unfolding live_def by auto
  finally show ?thesis .
qed


lemma ring_waitFor:
  assumes "ring_wf w"
  shows "window_waitFor now w =
     (let w' = prune now w in
      if length (live w') < nat (sw_count w) then (0, False, w')
      else (max 0 (time_Sub (sw_stamps w' ! oldest_slot w' + sw_window w) now), True, w'))"
  using assms ring_wf_not_paced [OF assms]
  by (auto simp: window_waitFor_def Let_def ring_wf_def max_def)

lemma ring_admit:
  assumes wf: "ring_wf w" and room: "length (live w) < nat (sw_count w)"
  shows "ring_wf (window_admit now w)"
    and "live (window_admit now w) = dropWhile (\<lambda>t. t \<le> now - sw_window w) (live w) @ [now]"
    and "sw_count (window_admit now w) = sw_count w" "sw_window (window_admit now w) = sw_window w"
proof -
  let ?p = "prune now w"
  have wfp: "ring_wf ?p" using wf by (rule prune_ring_wf)
  have lp: "live ?p = dropWhile (\<lambda>t. t \<le> now - sw_window w) (live w)" using wf by (rule prune_live)
  have "sw_filled ?p \<le> sw_filled w"
    using prune_filled_le by (simp add: prune_def)
  then have room': "sw_filled ?p < length (sw_stamps ?p)"
    using room wf wfp by (simp add: ring_wf_def)
  have eq: "window_admit now w = ?p\<lparr>sw_stamps := (sw_stamps ?p)[sw_head ?p := now],
      sw_head := (sw_head ?p + 1) mod length (sw_stamps ?p), sw_filled := sw_filled ?p + 1\<rparr>"
    using wf ring_wf_not_paced [OF wf] room' by (simp add: window_admit_def Let_def ring_wf_def [of w])
  show "live (window_admit now w) = dropWhile (\<lambda>t. t \<le> now - sw_window w) (live w) @ [now]"
    unfolding eq lp [symmetric] by (rule ring_write_live [OF wfp room'])
  show "ring_wf (window_admit now w)"
    unfolding eq using wfp room' by (simp add: ring_wf_def)
  show "sw_count (window_admit now w) = sw_count w" "sw_window (window_admit now w) = sw_window w"
    by (simp_all add: eq)
qed


section \<open>Spacing bounds every window\<close>

text \<open>
  \<open>spaced c W h\<close>: between an admit and the \<open>c\<close>-th after it at least \<open>W\<close> passes. On a
  history in order this is exactly what bounds every half-open window of length \<open>W\<close>.
\<close>

definition spaced :: "nat \<Rightarrow> duration \<Rightarrow> time list \<Rightarrow> bool" where
  "spaced c W h \<longleftrightarrow> (\<forall>i. i + c < length h \<longrightarrow> h ! i + W \<le> h ! (i + c))"

abbreviation in_window :: "duration \<Rightarrow> time \<Rightarrow> time \<Rightarrow> bool" where
  "in_window W t a \<equiv> t - W < a \<and> a \<le> t"

lemma spaced_window:
  assumes "sorted h" and "spaced c W h"
  shows "length (filter (in_window W t) h) \<le> c"
proof (rule ccontr)
  let ?S = "{i. i < length h \<and> in_window W t (h ! i)}"
  assume "\<not> ?thesis"
  then have big: "c < card ?S" by (simp add: length_filter_conv_card)
  have fin: "finite ?S" by simp
  then have ne: "?S \<noteq> {}" using big by (metis card.empty not_less_zero)
  let ?i = "Min ?S" and ?j = "Max ?S"
  have mem: "?i \<in> ?S" "?j \<in> ?S" using Min_in [OF fin ne] Max_in [OF fin ne] by blast+
  have "?S \<subseteq> {?i..?j}" using fin by (auto intro: Min_le Max_ge)
  then have "card ?S \<le> ?j + 1 - ?i" using card_mono [of "{?i..?j}" ?S] by simp
  with big have "?i + c \<le> ?j" by simp
  then have "?i + c < length h" and "h ! (?i + c) \<le> h ! ?j"
    using mem assms(1) by (auto simp: sorted_iff_nth_mono)
  moreover have "h ! ?i + W \<le> h ! (?i + c)"
    using assms(2) \<open>?i + c < length h\<close> by (simp add: spaced_def)
  ultimately show False using mem by auto
qed

lemma spaced_snoc:
  "spaced c W h \<Longrightarrow> (c \<le> length h \<Longrightarrow> 0 < c \<Longrightarrow> h ! (length h - c) + W \<le> x) \<Longrightarrow> 0 < c \<Longrightarrow> spaced c W (h @ [x])"
  by (auto simp: spaced_def nth_append) (metis add.commute add_diff_cancel_left' le_add2 less_Suc_eq)

lemma sorted_snoc: "sorted h \<Longrightarrow> (\<And>a. a \<in> set h \<Longrightarrow> a \<le> (x::int)) \<Longrightarrow> sorted (h @ [x])"
  by (simp add: sorted_append)


section \<open>The interface of a window limiter\<close>

text \<open>
  \<open>hist w clk h\<close>: the limiter \<open>w\<close> has admitted exactly \<open>h\<close>, and the clock reads \<open>clk\<close>. A
  provider promises that a check and an admit keep it, an admit only after a check that
  did not block, and that its history is in order and spaced.
\<close>

definition window_attempt :: "time \<times> time \<Rightarrow> strictWindow \<Rightarrow> bool \<times> strictWindow" where
  "window_attempt rd w =
     (case window_waitFor (fst rd) w of
        (d, blocked, w') \<Rightarrow> if blocked then (False, w') else (True, window_admit (snd rd) w'))"

text \<open>
  A run: each attempt reads the clock for the check and again for the stamp, as
  \<^verbatim>\<open>tryAdmit\<close> does. The result lists the stamps of the admitted attempts.
\<close>

fun window_run :: "strictWindow \<Rightarrow> (time \<times> time) list \<Rightarrow> time list \<times> strictWindow" where
  "window_run w [] = ([], w)"
| "window_run w (rd # ats) =
     (case window_attempt rd w of
        (ok, w') \<Rightarrow> (case window_run w' ats of
           (h, w'') \<Rightarrow> (if ok then snd rd # h else h, w'')))"

fun clock_ok :: "time \<Rightarrow> (time \<times> time) list \<Rightarrow> bool" where
  "clock_ok clk [] = True"
| "clock_ok clk (rd # ats) = (clk \<le> fst rd \<and> fst rd \<le> snd rd \<and> clock_ok (snd rd) ats)"

fun last_clock :: "time \<Rightarrow> (time \<times> time) list \<Rightarrow> time" where
  "last_clock clk [] = clk"
| "last_clock clk (rd # ats) = last_clock (snd rd) ats"

locale window_limiter =
  fixes hist :: "strictWindow \<Rightarrow> time \<Rightarrow> time list \<Rightarrow> bool"
  assumes inv_check: "hist w clk h \<Longrightarrow> clk \<le> now \<Longrightarrow> window_waitFor now w = (d, b, w') \<Longrightarrow> hist w' now h"
    and inv_admit: "hist w clk h \<Longrightarrow> clk \<le> now \<Longrightarrow> now \<le> now' \<Longrightarrow> window_waitFor now w = (d, False, w')
          \<Longrightarrow> hist (window_admit now' w') now' (h @ [now'])"
    and inv_mono: "hist w clk h \<Longrightarrow> clk \<le> clk' \<Longrightarrow> hist w clk' h"
    and inv_count: "hist w clk h \<Longrightarrow> window_waitFor now w = (d, b, w') \<Longrightarrow>
          sw_count w' = sw_count w \<and> sw_window w' = sw_window w
          \<and> sw_count (window_admit now' w') = sw_count w \<and> sw_window (window_admit now' w') = sw_window w"
    and inv_spaced: "hist w clk h \<Longrightarrow> sorted h \<and> spaced (nat (sw_count w)) (sw_window w) h"
    and inv_exact: "hist w clk h \<Longrightarrow> clk \<le> now \<Longrightarrow> in_int64 (sw_window w) \<Longrightarrow>
          window_waitFor now w = (d, True, w') \<Longrightarrow>
          (\<forall>e \<ge> 0. fst (snd (window_waitFor (now + e) w')) \<longleftrightarrow> e < d)"
begin

lemma attempt_inv:
  assumes "hist w clk h" and "clk \<le> now" and "now \<le> now'"
  shows "hist (snd (window_attempt (now, now') w)) now'
           (h @ (if fst (window_attempt (now, now') w) then [now'] else []))"
proof -
  obtain d b w' where wf: "window_waitFor now w = (d, b, w')" by (cases "window_waitFor now w") auto
  show ?thesis
  proof (cases b)
    case True
    with wf inv_check [OF assms(1,2) wf] assms(3) show ?thesis
      by (auto simp: window_attempt_def intro: inv_mono)
  next
    case False
    with wf inv_admit [OF assms(1,2,3)] show ?thesis by (auto simp: window_attempt_def)
  qed
qed

lemma attempt_config:
  "hist w clk h \<Longrightarrow> sw_count (snd (window_attempt rd w)) = sw_count w
     \<and> sw_window (snd (window_attempt rd w)) = sw_window w"
  using inv_count [of w clk h "fst rd"]
  by (cases "window_waitFor (fst rd) w") (auto simp: window_attempt_def)

lemma run_inv:
  assumes "hist w clk h" and "clock_ok clk ats" and "window_run w ats = (h', w')"
  shows "hist w' (last_clock clk ats) (h @ h') \<and> sw_count w' = sw_count w \<and> sw_window w' = sw_window w"
  using assms
proof (induction ats arbitrary: w clk h h')
  case Nil
  then show ?case by auto
next
  case (Cons rd ats)
  obtain ok w1 where a: "window_attempt rd w = (ok, w1)" by (cases "window_attempt rd w") auto
  obtain h1 where r: "window_run w1 ats = (h1, w')" and h': "h' = (if ok then snd rd # h1 else h1)"
    using Cons.prems(3) a by (auto split: prod.splits)
  have i: "hist w1 (snd rd) (h @ (if ok then [snd rd] else []))"
    using attempt_inv [OF Cons.prems(1), of "fst rd" "snd rd"] Cons.prems(2) a by simp
  from Cons.IH [OF i _ r] Cons.prems(2) attempt_config [OF Cons.prems(1), of rd] a h'
  show ?case by (cases ok) auto
qed

lemma run_bounded:
  assumes "hist w clk []" and "clock_ok clk ats"
  shows "length (filter (in_window (sw_window w) t) (fst (window_run w ats))) \<le> nat (sw_count w)"
proof -
  obtain h' w' where r: "window_run w ats = (h', w')" by (cases "window_run w ats") auto
  from run_inv [OF assms r] have "hist w' (last_clock clk ats) h'"
    and "sw_count w' = sw_count w" "sw_window w' = sw_window w" by auto
  with inv_spaced [of w' "last_clock clk ats" h'] spaced_window [of h' "nat (sw_count w)" "sw_window w" t] r
  show ?thesis by simp
qed

lemma run_exact:
  assumes "hist w clk []" and "clock_ok clk ats" and "last_clock clk ats \<le> now"
    and "in_int64 (sw_window w)"
    and "window_waitFor now (snd (window_run w ats)) = (d, True, w')" and "0 \<le> e"
  shows "fst (snd (window_waitFor (now + e) w')) \<longleftrightarrow> e < d"
proof -
  obtain h' w1 where r: "window_run w ats = (h', w1)" by (cases "window_run w ats") auto
  from run_inv [OF assms(1,2) r] have "hist w1 (last_clock clk ats) h'" and "sw_window w1 = sw_window w"
    by auto
  with inv_exact [of w1 "last_clock clk ats" h' now d w'] assms(3-6) r show ?thesis by simp
qed

end


section \<open>Both representations provide it\<close>

definition ring_hist :: "strictWindow \<Rightarrow> time \<Rightarrow> time list \<Rightarrow> bool" where
  "ring_hist w clk h \<longleftrightarrow>
     ring_wf w \<and> sorted h \<and> (\<forall>a \<in> set h. a \<le> clk) \<and> spaced (nat (sw_count w)) (sw_window w) h
     \<and> (\<exists>pre. h = pre @ live w \<and> (\<forall>p \<in> set pre. p + sw_window w \<le> clk))"

lemma ring_hist_prune:
  assumes "ring_hist w clk h" and "clk \<le> now"
  shows "ring_hist (prune now w) now h"
proof -
  from assms(1) obtain pre where h: "h = pre @ live w" and pre: "\<forall>p \<in> set pre. p + sw_window w \<le> clk"
    and wf: "ring_wf w" by (auto simp: ring_hist_def)
  let ?P = "\<lambda>t. t \<le> now - sw_window w"
  have "h = (pre @ takeWhile ?P (live w)) @ live (prune now w)"
    using h wf by (simp add: prune_live)
  moreover have "\<forall>p \<in> set (pre @ takeWhile ?P (live w)). p + sw_window w \<le> now"
    using pre assms(2) by (auto dest: set_takeWhileD)
  moreover have "\<forall>a \<in> set h. a \<le> now" using assms by (auto simp: ring_hist_def)
  ultimately show ?thesis
    using assms(1) prune_ring_wf [OF wf] unfolding ring_hist_def prune_fields by blast
qed

lemma ring_hist_admit:
  assumes "ring_hist w now h" and "now \<le> now'" and room: "length (live w) < nat (sw_count w)"
  shows "ring_hist (window_admit now' w) now' (h @ [now'])"
proof -
  from assms(1) obtain pre where h: "h = pre @ live w" and pre: "\<forall>p \<in> set pre. p + sw_window w \<le> now"
    and wf: "ring_wf w" by (auto simp: ring_hist_def)
  note adm = ring_admit [OF wf room, of now']
  let ?P = "\<lambda>t. t \<le> now' - sw_window w"
  have eq: "h @ [now'] = (pre @ takeWhile ?P (live w)) @ live (window_admit now' w)"
    using h adm(2) by (metis append.assoc takeWhile_dropWhile_id)
  have old: "\<forall>p \<in> set (pre @ takeWhile ?P (live w)). p + sw_window w \<le> now'"
    using pre assms(2) by (auto dest: set_takeWhileD)
  have "h ! (length h - nat (sw_count w)) + sw_window w \<le> now'" if "nat (sw_count w) \<le> length h"
  proof -
    have "length h - nat (sw_count w) < length pre" using h room that by auto
    then have "h ! (length h - nat (sw_count w)) \<in> set pre" by (simp add: h nth_append)
    with pre assms(2) show ?thesis by force
  qed
  moreover have "0 < nat (sw_count w)" using wf by (simp add: ring_wf_def)
  ultimately have "spaced (nat (sw_count w)) (sw_window w) (h @ [now'])"
    using assms(1) by (auto simp: ring_hist_def intro: spaced_snoc)
  moreover have "sorted (h @ [now'])"
    using assms(1,2) by (force simp: ring_hist_def intro: sorted_snoc)
  moreover have "\<forall>a \<in> set (h @ [now']). a \<le> now'" using assms(1,2) by (force simp: ring_hist_def)
  ultimately show ?thesis
    using adm eq old unfolding ring_hist_def adm(3,4) by blast
qed

lemma live_oldest:
  "ring_wf w \<Longrightarrow> 0 < sw_filled w \<Longrightarrow> \<exists>rest. live w = sw_stamps w ! oldest_slot w # rest"
  using live_Suc [of w "sw_filled w - 1"] by auto

lemma ring_exact:
  assumes H: "ring_hist w clk h" and "clk \<le> now" and W: "in_int64 (sw_window w)"
    and b: "window_waitFor now w = (d, True, w')" and "0 \<le> e"
  shows "fst (snd (window_waitFor (now + e) w')) \<longleftrightarrow> e < d"
proof -
  have wf: "ring_wf w" and Hp: "ring_hist (prune now w) now h"
    using H ring_hist_prune [OF H \<open>clk \<le> now\<close>] by (simp_all add: ring_hist_def)
  have full: "nat (sw_count w) \<le> length (live w')" and w': "w' = prune now w"
    and d: "d = max 0 (time_Sub (sw_stamps w' ! oldest_slot w' + sw_window w) now)"
    using b ring_waitFor [OF wf, of now] by (auto simp: Let_def split: if_splits)
  have wf': "ring_wf w'" using wf w' by (simp add: prune_ring_wf)
  then have pos: "0 < sw_filled w'" and cap: "length (live w') \<le> nat (sw_count w)"
    using full w' by (auto simp: ring_wf_def)
  let ?o = "sw_stamps w' ! oldest_slot w'"
  obtain rest where l: "live w' = ?o # rest" using live_oldest [OF wf' pos] by blast
  have o1: "\<not> ?o \<le> now - sw_window w"
    using prune_live [OF wf, of now] l w' by (metis dropWhile_eq_Cons_conv)
  have "?o \<in> set h" using Hp l w' by (auto simp: ring_hist_def)
  then have o2: "?o \<le> now" using Hp by (auto simp: ring_hist_def)
  have d': "d = ?o + sw_window w - now"
    using o1 o2 W d by (simp add: time_Sub_def int64_defs)
  have "length (live (prune (now + e) w')) < nat (sw_count w) \<longleftrightarrow> ?o \<le> now + e - sw_window w"
  proof -
    have pl: "live (prune (now + e) w') = dropWhile (\<lambda>t. t \<le> now + e - sw_window w) (?o # rest)"
      using prune_live [OF wf'] l w' by simp
    have "length (dropWhile (\<lambda>t. t \<le> now + e - sw_window w) rest) \<le> length rest"
      by (rule length_dropWhile_le)
    with pl full cap l show ?thesis by auto
  qed
  then show ?thesis
    using ring_waitFor [OF wf', of "now + e"] w' d' by (auto simp: Let_def)
qed

interpretation ring: window_limiter ring_hist
proof unfold_locales
  fix w w' :: strictWindow and clk now now' :: time and h d b
  assume H: "ring_hist w clk h"
  then have wf: "ring_wf w" by (simp add: ring_hist_def)
  {
    assume "clk \<le> now" and "window_waitFor now w = (d, b, w')"
    then show "ring_hist w' now h"
      using ring_hist_prune [OF H] ring_waitFor [OF wf, of now] by (auto simp: Let_def split: if_splits)
  next
    assume "clk \<le> now" and "now \<le> now'" and "window_waitFor now w = (d, False, w')"
    then show "ring_hist (window_admit now' w') now' (h @ [now'])"
      using ring_hist_prune [OF H] ring_waitFor [OF wf, of now]
      by (auto simp: Let_def split: if_splits intro!: ring_hist_admit)
  next
    assume "window_waitFor now w = (d, b, w')"
    then show "sw_count w' = sw_count w \<and> sw_window w' = sw_window w
        \<and> sw_count (window_admit now' w') = sw_count w \<and> sw_window (window_admit now' w') = sw_window w"
      using ring_waitFor [OF wf, of now]
      by (auto simp: Let_def window_admit_def split: if_splits)
  next
    show "sorted h \<and> spaced (nat (sw_count w)) (sw_window w) h"
      using H by (simp add: ring_hist_def)
  next
    assume "clk \<le> now" and "in_int64 (sw_window w)" and "window_waitFor now w = (d, True, w')"
    then show "\<forall>e \<ge> 0. fst (snd (window_waitFor (now + e) w')) \<longleftrightarrow> e < d"
      using ring_exact [OF H] by blast
  }
  fix clk'
  assume "clk \<le> clk'"
  with H show "ring_hist w clk' h" by (force simp: ring_hist_def)
qed

definition paced_hist :: "strictWindow \<Rightarrow> time \<Rightarrow> time list \<Rightarrow> bool" where
  "paced_hist w clk h \<longleftrightarrow>
     paced w \<and> 0 < sw_count w \<and> sw_window w \<le> sw_count w * sw_interval w
     \<and> sw_interval w \<le> sw_window w \<and> sw_next w \<le> clk + sw_interval w
     \<and> (\<forall>a \<in> set h. a \<le> clk)
     \<and> (\<forall>i. Suc i < length h \<longrightarrow> h ! i + sw_interval w \<le> h ! Suc i)
     \<and> (h \<noteq> [] \<longrightarrow> last h + sw_interval w \<le> sw_next w)"

lemma step_sums:
  fixes h :: "int list"
  assumes "\<forall>i. Suc i < length h \<longrightarrow> h ! i + g \<le> h ! Suc i" and "i + k < length h"
  shows "h ! i + int k * g \<le> h ! (i + k)"
  using assms(2)
proof (induction k)
  case (Suc k)
  then have "h ! i + int k * g \<le> h ! (i + k)" by simp
  moreover have "h ! (i + k) + g \<le> h ! Suc (i + k)" using assms(1) Suc.prems by simp
  ultimately show ?case by (simp add: algebra_simps)
qed simp

lemma paced_hist_spaced:
  assumes "paced_hist w clk h"
  shows "sorted h \<and> spaced (nat (sw_count w)) (sw_window w) h"
proof
  have g: "0 < sw_interval w" and c: "0 < sw_count w"
    and step: "\<forall>i. Suc i < length h \<longrightarrow> h ! i + sw_interval w \<le> h ! Suc i"
    using assms by (simp_all add: paced_hist_def paced_def)
  then show "sorted h" by (force simp: sorted_iff_nth_Suc)
  show "spaced (nat (sw_count w)) (sw_window w) h"
    using step_sums [OF step] assms c unfolding spaced_def paced_hist_def
    by (metis add_left_mono int_nat_eq nat_int_comparison(1) order.trans order_less_imp_le zero_less_nat_eq nat_0_le)
qed

lemma paced_hist_snoc:
  assumes "paced_hist w clk h" and "clk \<le> now'" and "sw_next w \<le> now'"
  shows "paced_hist (window_admit now' w) now' (h @ [now'])"
proof -
  have nx: "window_admit now' w = w\<lparr>sw_next := now' + sw_interval w\<rparr>"
    using assms(1,3) by (auto simp: paced_hist_def window_admit_def paced_def Let_def)
  have "(h @ [now']) ! i + sw_interval w \<le> (h @ [now']) ! Suc i" if "Suc i < length (h @ [now'])" for i
  proof (cases "Suc i < length h")
    case True
    with assms(1) show ?thesis by (simp add: paced_hist_def nth_append)
  next
    case False
    with that have i: "Suc i = length h" by simp
    then have "h \<noteq> []" by auto
    with i assms show ?thesis by (simp add: paced_hist_def nth_append last_conv_nth flip: i)
  qed
  then show ?thesis
    using assms unfolding nx by (force simp: paced_hist_def paced_def)
qed

interpretation spacing: window_limiter paced_hist
proof unfold_locales
  fix w w' :: strictWindow and clk now now' :: time and h d b
  assume H: "paced_hist w clk h"
  then have p: "paced w" and en: "sw_enabled w" by (simp_all add: paced_hist_def paced_def)
  note wait = window_waitFor_def [of now w]
  {
    assume "clk \<le> now" and "window_waitFor now w = (d, b, w')"
    then show "paced_hist w' now h"
      using H p en by (force simp: wait paced_hist_def split: if_splits)
  next
    assume "clk \<le> now" and "now \<le> now'" and "window_waitFor now w = (d, False, w')"
    then show "paced_hist (window_admit now' w') now' (h @ [now'])"
      using H p en by (auto simp: wait split: if_splits intro!: paced_hist_snoc)
  next
    assume "window_waitFor now w = (d, b, w')"
    then show "sw_count w' = sw_count w \<and> sw_window w' = sw_window w
        \<and> sw_count (window_admit now' w') = sw_count w \<and> sw_window (window_admit now' w') = sw_window w"
      using p en by (auto simp: wait window_admit_def Let_def split: if_splits)
  next
    show "sorted h \<and> spaced (nat (sw_count w)) (sw_window w) h"
      using H by (rule paced_hist_spaced)
  next
    assume "clk \<le> now" and "in_int64 (sw_window w)" and "window_waitFor now w = (d, True, w')"
    moreover have "sw_next w \<le> clk + sw_window w" using H by (simp add: paced_hist_def)
    ultimately show "\<forall>e \<ge> 0. fst (snd (window_waitFor (now + e) w')) \<longleftrightarrow> e < d"
      using p en by (auto simp: window_waitFor_def time_Sub_def int64_defs split: if_splits)
  }
  fix clk'
  assume "clk \<le> clk'"
  with H show "paced_hist w clk' h" by (force simp: paced_hist_def)
qed


lemma reset_ring_hist:
  "0 < c \<Longrightarrow> c \<le> maxWindowSlots \<Longrightarrow> 0 < W \<Longrightarrow> ring_hist (window_reset c W now w) now []"
  by (simp add: ring_hist_def ring_wf_def window_reset_def live_def spaced_def Let_def)

lemma reset_paced_hist:
  assumes "maxWindowSlots < c" and "0 < W"
  shows "paced_hist (window_reset c W now w) now []"
proof -
  have c: "1 < c" using assms(1) by (simp add: maxWindowSlots_def)
  have "W < c * (W div c + 1)"
  proof -
    have "W = c * (W div c) + W mod c" by simp
    moreover have "W mod c < c" using c by simp
    moreover have "c * (W div c + 1) = c * (W div c) + c" by (simp add: distrib_left)
    ultimately show ?thesis by linarith
  qed
  moreover have "W div c < W" using assms(2) c by (rule int_div_less_self)
  moreover have "0 \<le> W div c" using assms(2) c by (simp add: pos_imp_zdiv_nonneg_iff)
  ultimately show ?thesis
    using assms c by (simp add: paced_hist_def paced_def window_reset_def Let_def)
qed

lemma reset_config:
  "0 < c \<Longrightarrow> 0 < W \<Longrightarrow> sw_count (window_reset c W now w) = c \<and> sw_window (window_reset c W now w) = W"
  by (simp add: window_reset_def Let_def)

text \<open>
  C2. A request budget of \<open>c\<close> per window \<open>W\<close> is never exceeded in any sliding window: over
  any sequence of admission attempts (each reading the clock once for the check and once
  for the stamp), the half-open window \<open>(t - W, t]\<close> ending at any instant \<open>t\<close> holds at
  most \<open>c\<close> of the admitted stamps. It holds in the ring representation and in the even
  spacing that replaces it above \<^verbatim>\<open>maxWindowSlots\<close>.
\<close>

theorem strict_window_never_exceeded:
  assumes "0 < c" and "0 < W" and "clock_ok now rds"
  shows "length (filter (in_window W t) (fst (window_run (window_reset c W now w) rds))) \<le> nat c"
proof (cases "c \<le> maxWindowSlots")
  case True
  with ring.run_bounded [OF reset_ring_hist assms(3), of c W t w] assms(1,2)
    reset_config [of c W now w] show ?thesis by simp
next
  case False
  with spacing.run_bounded [OF reset_paced_hist assms(3), of c W t w] assms(1,2)
    reset_config [of c W now w] show ?thesis by simp
qed

theorem strict_window_never_exceeded_witness:
  "fst (window_run (window_reset 2 10 100 zero_window) [(100, 100), (101, 102), (103, 103), (110, 111), (112, 112)])
     = [100, 102, 111, 112]
   \<and> length (filter (in_window 10 111) [100, 102, 111, 112]) \<le> nat (2::int)"
proof -
  have run: "fst (window_run (window_reset 2 10 100 zero_window)
      [(100, 100), (101, 102), (103, 103), (110, 111), (112, 112)]) = [100, 102, 111, 112]"
    by code_simp
  have "clock_ok 100 [(100, 100), (101, 102), (103, 103), (110, 111), (112, 112)]" by simp
  from strict_window_never_exceeded [OF _ _ this, of 2 10 111 zero_window] run
  show ?thesis by simp
qed

text \<open>
  C3. The wait a full window reports is exact: after any run, if a check at \<open>now\<close> blocks
  with wait \<open>d\<close>, then with no admit in between a check \<open>e\<close> later blocks exactly while
  \<open>e < d\<close>. The timer armed with \<open>d\<close> neither fires early nor leaves a request waiting.
\<close>

theorem strict_window_wait_exact:
  assumes "0 < c" and "0 < W" and "in_int64 W" and "clock_ok t0 rds" and "last_clock t0 rds \<le> now"
    and "window_waitFor now (snd (window_run (window_reset c W t0 w) rds)) = (d, True, w')"
    and "0 \<le> e"
  shows "fst (snd (window_waitFor (now + e) w')) \<longleftrightarrow> e < d"
proof (cases "c \<le> maxWindowSlots")
  case True
  show ?thesis
    by (rule ring.run_exact [OF reset_ring_hist assms(4,5) _ assms(6,7)])
       (use True assms reset_config in simp_all)
next
  case False
  show ?thesis
    by (rule spacing.run_exact [OF reset_paced_hist assms(4,5) _ assms(6,7)])
       (use False assms reset_config in simp_all)
qed

theorem strict_window_wait_exact_witness:
  "\<not> fst (snd (window_waitFor 110 (snd (snd (window_waitFor 103
       (snd (window_run (window_reset 2 10 100 zero_window) [(100, 100), (101, 102)])))))))"
proof -
  let ?w = "snd (window_run (window_reset 2 10 100 zero_window) [(100, 100), (101, 102)])"
  have b: "window_waitFor 103 ?w = (7, True, snd (snd (window_waitFor 103 ?w)))"
    by code_simp
  show ?thesis
    using strict_window_wait_exact [OF _ _ _ _ _ b, of 7] by (simp add: int64_defs)
qed

end
