(* ===== verification/Pacing.thy ===== *)
theory Pacing
  imports Prelude
begin

text \<open>
  Adaptive backoff, retry hints and the pacing memory of evicted groups
  (\<^verbatim>\<open>internal/scheduler/scheduler_pacing.go\<close>). The random factor of the jitter is an argument in
  \<open>[0, 1)\<close>.
\<close>

section \<open>Backoff\<close>

definition backoffMultiplier :: int where
  "backoffMultiplier = 2"

definition backoffJitterSpread :: rat where
  "backoffJitterSpread = 1 / 2"

definition backoffJitterFloor :: rat where
  "backoffJitterFloor = 3 / 4"

definition jitterBackoff :: "rat \<Rightarrow> duration \<Rightarrow> duration" where
  "jitterBackoff rnd d =
     (if d \<le> 0 then 0
      else rat_trunc (of_int d * (rnd * backoffJitterSpread + backoffJitterFloor)))"

definition growBackoff :: "duration \<Rightarrow> duration \<Rightarrow> duration \<Rightarrow> duration" where
  "growBackoff cur base cap =
     (let c = (if cur \<le> 0 then base else wrap64 (cur * backoffMultiplier))
      in if cap > 0 \<and> c > cap then cap else c)"

definition MaxRetryHint :: duration where
  "MaxRetryHint = 24 * hour"

definition ClampRetryHint :: "duration \<Rightarrow> duration" where
  "ClampRetryHint d = (if d \<le> 0 then 0 else if d > MaxRetryHint then MaxRetryHint else d)"

text \<open>
  The delay \<^verbatim>\<open>BackoffFor\<close> returns for a grown backoff: the longer of the clamped hint and the
  jittered adaptive delay.
\<close>

definition backoff_delay :: "rat \<Rightarrow> duration \<Rightarrow> duration \<Rightarrow> duration" where
  "backoff_delay rnd backoff retryAfter =
     (let adaptive = jitterBackoff rnd backoff;
          hint = ClampRetryHint retryAfter
      in if hint > adaptive then hint else adaptive)"

lemma ClampRetryHint_bounds: "0 \<le> ClampRetryHint d \<and> ClampRetryHint d \<le> MaxRetryHint"
  by (simp add: ClampRetryHint_def MaxRetryHint_def time_defs)

lemma ClampRetryHint_idem [simp]: "ClampRetryHint (ClampRetryHint d) = ClampRetryHint d"
  by (auto simp: ClampRetryHint_def MaxRetryHint_def time_defs)

lemma growBackoff_cap: "0 < cap \<Longrightarrow> growBackoff cur base cap \<le> cap"
  by (simp add: growBackoff_def Let_def)

lemma growBackoff_pos:
  assumes "0 < base" "0 < cap" "cap \<le> max_int64 div 2" "cur \<le> cap"
  shows "0 < growBackoff cur base cap"
proof -
  have "wrap64 (cur * 2) = cur * 2" if "0 < cur"
    using that assms by (intro wrap64_id) (simp add: int64_defs)
  with assms show ?thesis by (auto simp: growBackoff_def backoffMultiplier_def Let_def)
qed

lemma growBackoff_doubles:
  assumes "0 < cur" "cur \<le> cap" "cap \<le> max_int64 div 2"
  shows "growBackoff cur base cap = min (2 * cur) cap"
proof -
  have "wrap64 (cur * 2) = cur * 2"
    using assms by (intro wrap64_id) (simp add: int64_defs)
  with assms show ?thesis by (simp add: growBackoff_def backoffMultiplier_def Let_def)
qed

text \<open>Growing \<open>n + 1\<close> times from nothing: \<open>base\<close>, doubled each time, up to the cap.\<close>

lemma growBackoff_power:
  assumes "0 < base" "base \<le> cap" "cap \<le> max_int64 div 2"
  shows "((\<lambda>c. growBackoff c base cap) ^^ Suc n) 0 = min (2 ^ n * base) cap"
proof (induction n)
  case 0
  then show ?case using assms by (simp add: growBackoff_def Let_def)
next
  case (Suc n)
  let ?c = "min (2 ^ n * base) cap"
  have "0 < ?c" "?c \<le> cap" using assms by simp_all
  then have "growBackoff ?c base cap = min (2 * ?c) cap"
    using assms(3) by (rule growBackoff_doubles)
  also have "\<dots> = min (2 ^ Suc n * base) cap" using assms by (auto simp: min_def)
  finally show ?case using Suc.IH by simp
qed

lemma jitterBackoff_bounds:
  assumes "0 \<le> rnd" "rnd < 1" "0 \<le> d"
  shows "0 \<le> jitterBackoff rnd d \<and> 3 * d - 4 < 4 * jitterBackoff rnd d \<and> 4 * jitterBackoff rnd d \<le> 5 * d"
proof (cases "d = 0")
  case False
  then have d: "0 < d" using assms by simp
  let ?x = "of_int d * (rnd / 2 + 3 / 4) :: rat"
  have lo: "of_int d * 3 / 4 \<le> ?x" and hi: "?x \<le> of_int d * 5 / 4"
    using assms d by (simp_all add: field_simps)
  then have nn: "0 \<le> ?x" using d by (simp add: field_simps)
  have j: "jitterBackoff rnd d = \<lfloor>?x\<rfloor>"
    using d nn by (simp add: jitterBackoff_def backoffJitterSpread_def backoffJitterFloor_def rat_trunc_nonneg)
  obtain y where y: "y = \<lfloor>?x\<rfloor>" by simp
  have "of_int y \<le> ?x" and "?x < of_int y + 1" unfolding y by linarith+
  then have "4 * of_int y \<le> (5 * of_int d :: rat)" and "3 * of_int d - 4 < (4 * of_int y :: rat)"
    using lo hi by linarith+
  then have "of_int (4 * \<lfloor>?x\<rfloor>) \<le> (of_int (5 * d) :: rat)" and "of_int (3 * d - 4) < (of_int (4 * \<lfloor>?x\<rfloor>) :: rat)"
    by (simp_all add: y)
  then show ?thesis using nn j by (simp only: of_int_le_iff of_int_less_iff) simp
qed (simp add: jitterBackoff_def)

text \<open>
  C5. Consecutive retryable failures grow the attempt backoff as \<open>base\<close>, \<open>2 * base\<close>,
  \<open>4 * base\<close>, capped at the maximum; the delay handed to the caller is at least the clamped
  retry hint and three quarters of that backoff (less one rounding), and at most the larger
  of 24 hours and five quarters of it. A hint can therefore lengthen but never reset the growth.
\<close>

theorem backoff_growth_and_delay:
  assumes "0 < base" and "base \<le> cap" and "cap \<le> max_int64 div 2" and "0 \<le> rnd" and "rnd < 1"
  shows "((\<lambda>c. growBackoff c base cap) ^^ Suc n) 0 = min (2 ^ n * base) cap
    \<and> ClampRetryHint hint \<le> backoff_delay rnd (min (2 ^ n * base) cap) hint
    \<and> 3 * min (2 ^ n * base) cap - 4 < 4 * backoff_delay rnd (min (2 ^ n * base) cap) hint
    \<and> 4 * backoff_delay rnd (min (2 ^ n * base) cap) hint
        \<le> max (4 * MaxRetryHint) (5 * min (2 ^ n * base) cap)"
proof -
  have grow: "((\<lambda>c. growBackoff c base cap) ^^ Suc n) 0 = min (2 ^ n * base) cap"
    using assms(1-3) by (rule growBackoff_power)
  define b where "b = min (2 ^ n * base) cap"
  have nn: "0 \<le> b" using assms by (simp add: b_def)
  note jb = jitterBackoff_bounds [OF assms(4,5) nn] and cb = ClampRetryHint_bounds [of hint]
  have "ClampRetryHint hint \<le> backoff_delay rnd b hint" by (simp add: backoff_delay_def Let_def)
  moreover have "3 * b - 4 < 4 * backoff_delay rnd b hint"
    using jb by (simp add: backoff_delay_def Let_def)
  moreover have "4 * backoff_delay rnd b hint \<le> max (4 * MaxRetryHint) (5 * b)"
    using jb cb by (auto simp: backoff_delay_def Let_def)
  ultimately show ?thesis using grow by (simp only: b_def)
qed

theorem backoff_growth_and_delay_witness:
  "((\<lambda>c. growBackoff c (second) (10 * second)) ^^ Suc 4) 0 = 10 * second
   \<and> backoff_delay (1 / 2) (10 * second) (2100 * second) = 2100 * second
   \<and> ClampRetryHint (2100 * second) \<le> backoff_delay (1 / 2) (min (2 ^ 4 * second) (10 * second)) (2100 * second)"
proof -
  have h: "0 < second" "second \<le> 10 * second" "10 * second \<le> max_int64 div 2" "0 \<le> (1 / 2 :: rat)" "(1 / 2 :: rat) < 1"
    by (simp_all add: second_def max_int64_def)
  have "backoff_delay (1 / 2) (10 * second) (2100 * second) = 2100 * second"
    by code_simp
  with backoff_growth_and_delay [OF h, of 4 "2100 * second"]
  show ?thesis by (simp add: second_def)
qed


section \<open>The pacing memory of evicted groups\<close>

definition maxSchedulerPacingStates :: nat where
  "maxSchedulerPacingStates = 4096"

record pacingState =
  ps_nextAllowedAt :: time
  ps_backoff :: duration
  ps_requestBackoff :: duration
  ps_tripped :: bool

text \<open>
  The LRU holds its entries in the order of its \<^verbatim>\<open>recent\<close> list, oldest first; the map from
  keys to entries is the lookup in that list.
\<close>

type_synonym pacingLRU = "(string \<times> pacingState) list"

fun pacing_trim :: "nat \<Rightarrow> pacingLRU \<Rightarrow> pacingLRU" where
  "pacing_trim bound [] = []"
| "pacing_trim bound (e # es) = (if length (e # es) > bound then pacing_trim bound es else e # es)"

definition pacing_put :: "string \<Rightarrow> pacingState \<Rightarrow> pacingLRU \<Rightarrow> pacingLRU" where
  "pacing_put key st p = pacing_trim maxSchedulerPacingStates (adel key p @ [(key, st)])"

definition pacing_take :: "string \<Rightarrow> pacingLRU \<Rightarrow> pacingState option \<times> pacingLRU" where
  "pacing_take key p =
     (case map_of p key of
        None \<Rightarrow> (None, p)
      | Some st \<Rightarrow> (Some st, adel key p))"

definition pacing_wf :: "pacingLRU \<Rightarrow> bool" where
  "pacing_wf p \<longleftrightarrow> distinct (akeys p) \<and> length p \<le> maxSchedulerPacingStates"

lemma pacing_trim_drop: "pacing_trim bound p = drop (length p - bound) p"
  by (induction p) (auto simp: Suc_diff_le)

lemma adel_notin: "k \<notin> set (akeys p) \<Longrightarrow> adel k p = p"
  by (force simp: adel_def filter_id_conv)

lemma pacing_put_eq:
  assumes "pacing_wf p"
  shows "pacing_put key st p =
    (if length (adel key p) < maxSchedulerPacingStates then adel key p @ [(key, st)]
     else tl (adel key p) @ [(key, st)])"
proof -
  let ?b = maxSchedulerPacingStates
  have b: "?b = Suc 4095" by (simp add: maxSchedulerPacingStates_def)
  have le: "length (adel key p) \<le> ?b"
    using assms length_adel_le [of key p] by (auto simp: pacing_wf_def)
  show ?thesis
  proof (cases "length (adel key p) < ?b")
    case False
    with le have "length (adel key p) = ?b" by simp
    then show ?thesis
      using False b by (simp add: pacing_put_def pacing_trim_drop drop_Suc)
  qed (simp add: pacing_put_def pacing_trim_drop)
qed

lemma pacing_wf_put: "pacing_wf p \<Longrightarrow> pacing_wf (pacing_put key st p)"
proof -
  assume wf: "pacing_wf p"
  have d: "distinct (akeys (adel key p))" and k: "key \<notin> set (akeys (adel key p))"
    using wf by (simp_all add: pacing_wf_def distinct_akeys_adel)
  have le: "length (adel key p) \<le> maxSchedulerPacingStates"
    using wf length_adel_le [of key p] by (auto simp: pacing_wf_def)
  have "distinct (akeys (tl (adel key p)))" "key \<notin> set (akeys (tl (adel key p)))"
    using d k by (metis distinct_tl map_tl, metis list.set_sel(2) map_tl tl_Nil)
  with d k le show "pacing_wf (pacing_put key st p)"
    unfolding pacing_put_eq [OF wf] by (auto simp: pacing_wf_def maxSchedulerPacingStates_def)
qed

lemma pacing_wf_take: "pacing_wf p \<Longrightarrow> pacing_wf (snd (pacing_take key p))"
  using length_adel_le [of key p]
  by (auto simp: pacing_take_def pacing_wf_def distinct_akeys_adel split: option.splits)

lemma map_of_append_notin: "k \<notin> set (akeys xs) \<Longrightarrow> map_of (xs @ ys) k = map_of ys k"
  by (simp add: map_add_def map_of_eq_None_iff [THEN iffD2] split: option.splits)

lemma pacing_take_put:
  assumes wf: "pacing_wf p"
  shows "fst (pacing_take key (pacing_put key st p)) = Some st"
proof -
  have k: "key \<notin> set (akeys (adel key p))" by simp
  then have "key \<notin> set (akeys (tl (adel key p)))" by (metis list.set_sel(2) map_tl tl_Nil)
  with k have "map_of (pacing_put key st p) key = Some st"
    unfolding pacing_put_eq [OF wf]
    by (simp add: map_of_append_notin map_of_eq_None_iff map_add_Some_iff)
  then show ?thesis by (simp add: pacing_take_def)
qed

end
