(* ===== verification/Provider_Gate.thy ===== *)
theory Provider_Gate
  imports Strict_Window Wake_Timer Pacing "HOL-Library.Multiset"
begin

text \<open>
  The live limiter of one provider (\<^verbatim>\<open>internal/scheduler/throttle.go\<close>): the \<^verbatim>\<open>Limit\<close> policy, the
  token bucket, and the \<^verbatim>\<open>providerGate\<close> that combines the concurrency cap, the sliding
  request window and the bucket, with the \<^verbatim>\<open>admission\<close> lease captured at a grant and settled
  once. Bucket levels are exact rationals.
\<close>

section \<open>Policy\<close>

record Limit =
  Concurrency :: int
  Requests :: int
  ReqWindow :: duration
  Tokens :: int
  TokWindow :: duration
  AntiBurst :: bool
  RampDuration :: duration

definition zero_limit :: Limit where
  "zero_limit = \<lparr>Concurrency = 0, Requests = 0, ReqWindow = 0, Tokens = 0, TokWindow = 0,
     AntiBurst = False, RampDuration = 0\<rparr>"

definition limit_Active :: "Limit \<Rightarrow> bool" where
  "limit_Active l \<longleftrightarrow> Concurrency l > 0 \<or> (Requests l > 0 \<and> ReqWindow l > 0)
     \<or> (Tokens l > 0 \<and> TokWindow l > 0)"

definition rampActive :: "Limit \<Rightarrow> bool" where
  "rampActive l \<longleftrightarrow> AntiBurst l \<and> Concurrency l \<ge> 2 \<and> RampDuration l > 0"

definition normalized :: "Limit \<Rightarrow> Limit" where
  "normalized l =
     (let l1 = (if Requests l = 0 then l\<lparr>ReqWindow := 0\<rparr> else l)
      in if Tokens l1 = 0 then l1\<lparr>TokWindow := 0\<rparr> else l1)"

record Throttle =
  t_Provider :: string
  t_Limit :: Limit
  t_Source :: string
  t_UpdatedBy :: string
  t_UpdatedAt :: time

definition zero_throttle :: Throttle where
  "zero_throttle = \<lparr>t_Provider = [], t_Limit = zero_limit, t_Source = [], t_UpdatedBy = [],
     t_UpdatedAt = zero_time\<rparr>"

lemma normalized_Active [simp]: "limit_Active (normalized l) = limit_Active l"
  by (auto simp: normalized_def limit_Active_def Let_def)

lemma normalized_idem [simp]: "normalized (normalized l) = normalized l"
  by (simp add: normalized_def Let_def)


section \<open>Token bucket\<close>

record bucket =
  b_enabled :: bool
  b_rate :: rat
  b_capacity :: rat
  b_tokens :: rat
  b_last :: time

definition zero_bucket :: bucket where
  "zero_bucket = \<lparr>b_enabled = False, b_rate = 0, b_capacity = 0, b_tokens = 0, b_last = zero_time\<rparr>"

definition refill :: "time \<Rightarrow> bucket \<Rightarrow> bucket" where
  "refill now b =
     (if \<not> b_enabled b \<or> b_rate b \<le> 0 then b
      else if IsZero (b_last b) then b\<lparr>b_last := now\<rparr>
      else
        let elapsed = seconds (time_Sub now (b_last b)) in
        if elapsed \<le> 0 then b
        else
          let t = b_tokens b + elapsed * b_rate b
          in b\<lparr>b_tokens := (if t > b_capacity b then b_capacity b else t), b_last := now\<rparr>)"

definition bucket_reset :: "int \<Rightarrow> duration \<Rightarrow> time \<Rightarrow> bucket \<Rightarrow> bucket" where
  "bucket_reset cnt window now b =
     (if cnt \<le> 0 \<or> window \<le> 0
      then b\<lparr>b_enabled := False, b_rate := 0, b_capacity := 0, b_tokens := 0, b_last := zero_time\<rparr>
      else
        let cap = of_int cnt;
            rate = cap / seconds window;
            b1 = (if b_enabled b then
                    let b0 = refill now b in
                    if cap > b_capacity b0 then
                      let t = b_tokens b0 + (cap - b_capacity b0)
                      in b0\<lparr>b_tokens := (if t > cap then cap else t)\<rparr>
                    else if b_tokens b0 > cap then b0\<lparr>b_tokens := cap\<rparr>
                    else b0
                  else b\<lparr>b_tokens := cap\<rparr>)
        in b1\<lparr>b_enabled := True, b_capacity := cap, b_rate := rate, b_last := now\<rparr>)"

definition maxBucketWait :: duration where
  "maxBucketWait = MaxRetryHint"

definition bucket_waitFor :: "rat \<Rightarrow> time \<Rightarrow> bucket \<Rightarrow> duration \<times> bucket" where
  "bucket_waitFor n now b =
     (if \<not> b_enabled b \<or> b_rate b \<le> 0 then (0, b)
      else
        let b1 = refill now b in
        if b_tokens b1 \<ge> n then (0, b1)
        else
          let sec0 = (n - b_tokens b1) / b_rate b1;
              sec = (if sec0 > seconds maxBucketWait then seconds maxBucketWait else sec0);
              d = rat_trunc (sec * of_int second)
          in (if d < millisecond then millisecond else d, b1))"


section \<open>The gate\<close>

record providerGate =
  pg_throttle :: Throttle
  pg_inFlight :: int
  pg_reserved :: int
  pg_req :: strictWindow
  pg_tok :: bucket
  pg_tokEpoch :: nat
  pg_wake :: wakeTimer

definition zero_gate :: providerGate where
  "zero_gate = \<lparr>pg_throttle = zero_throttle, pg_inFlight = 0, pg_reserved = 0, pg_req = zero_window,
     pg_tok = zero_bucket, pg_tokEpoch = 0, pg_wake = zero_timer\<rparr>"

text \<open>The lease: \<open>adm_gate\<close> is the identity of the gate that granted it, \<open>None\<close> for the nil gate.\<close>

record admission =
  adm_gate :: "nat option"
  adm_reserved :: int
  adm_tokEpoch :: nat

definition no_admission :: admission where
  "no_admission = \<lparr>adm_gate = None, adm_reserved = 0, adm_tokEpoch = 0\<rparr>"

definition resetBuckets :: "Limit \<Rightarrow> time \<Rightarrow> providerGate \<Rightarrow> providerGate" where
  "resetBuckets l now g =
     (let g1 = (if b_enabled (pg_tok g) \<noteq> (Tokens l > 0 \<and> TokWindow l > 0)
                then g\<lparr>pg_tokEpoch := pg_tokEpoch g + 1\<rparr> else g)
      in g1\<lparr>pg_req := window_reset (Requests l) (ReqWindow l) now (pg_req g1),
            pg_tok := bucket_reset (Tokens l) (TokWindow l) now (pg_tok g1)\<rparr>)"

text \<open>
  \<^verbatim>\<open>blocked\<close>: whether the gate refuses an estimate, the wait, and the gate after the window
  prune and bucket refill. \<open>now\<close> is its own clock reading, \<open>nowW\<close> the one inside
  \<^verbatim>\<open>bucket.waitFor\<close>.
\<close>

definition gate_blocked :: "int \<Rightarrow> time \<Rightarrow> time \<Rightarrow> providerGate \<Rightarrow> bool \<times> duration \<times> providerGate" where
  "gate_blocked est now nowW g =
     (if \<not> limit_Active (t_Limit (pg_throttle g)) then (False, 0, g)
      else
        let g1 = g\<lparr>pg_tok := refill now (pg_tok g)\<rparr>;
            lim = t_Limit (pg_throttle g1)
        in if Concurrency lim > 0 \<and> pg_inFlight g1 \<ge> Concurrency lim then (True, 0, g1)
           else
             case window_waitFor now (pg_req g1) of
               (wait, b, req') \<Rightarrow>
                 let g2 = g1\<lparr>pg_req := req'\<rparr>;
                     need = of_int est;
                     wait_tok = (\<lambda>n. case bucket_waitFor n nowW (pg_tok g2) of
                                   (d, tok') \<Rightarrow> (True, d, g2\<lparr>pg_tok := tok'\<rparr>))
                 in if b then (True, wait, g2)
                    else if b_enabled (pg_tok g2) then
                      (if need \<le> 0 then
                         (if b_tokens (pg_tok g2) \<le> 0 then wait_tok 1 else (False, 0, g2))
                       else if need > b_capacity (pg_tok g2) then
                         (if b_tokens (pg_tok g2) \<le> 0 then wait_tok 1 else (False, 0, g2))
                       else if b_tokens (pg_tok g2) < need then wait_tok need
                       else (False, 0, g2))
                    else (False, 0, g2))"

text \<open>\<^verbatim>\<open>tryAdmit\<close> on the gate with identity \<open>i\<close>; \<open>nowA\<close> is the clock reading of the request stamp.\<close>

definition gate_tryAdmit ::
  "nat \<Rightarrow> int \<Rightarrow> time \<Rightarrow> time \<Rightarrow> time \<Rightarrow> providerGate \<Rightarrow> bool \<times> admission \<times> duration \<times> providerGate" where
  "gate_tryAdmit i est now nowW nowA g =
     (if \<not> limit_Active (t_Limit (pg_throttle g)) then (True, no_admission, 0, g)
      else
        case gate_blocked est now nowW g of
          (blocked, wait, g1) \<Rightarrow>
            if blocked then (False, no_admission, wait, g1)
            else
              let reserved = (if b_enabled (pg_tok g1) \<and> est > 0 then est else 0);
                  g2 = g1\<lparr>pg_inFlight := pg_inFlight g1 + 1, pg_req := window_admit nowA (pg_req g1)\<rparr>;
                  g3 = (if reserved > 0
                        then g2\<lparr>pg_tok := (pg_tok g2)\<lparr>b_tokens := b_tokens (pg_tok g2) - of_int reserved\<rparr>,
                                pg_reserved := pg_reserved g2 + reserved\<rparr>
                        else g2)
              in (True, \<lparr>adm_gate = Some i, adm_reserved = reserved, adm_tokEpoch = pg_tokEpoch g3\<rparr>, 0, g3))"

definition gate_settle :: "int \<Rightarrow> time \<Rightarrow> admission \<Rightarrow> providerGate \<Rightarrow> providerGate" where
  "gate_settle actual now a g =
     (let g1 = (if adm_reserved a \<noteq> 0
                then g\<lparr>pg_reserved := (if pg_reserved g - adm_reserved a < 0 then 0
                                       else pg_reserved g - adm_reserved a)\<rparr>
                else g);
          g2 = (if b_enabled (pg_tok g1) \<and> pg_tokEpoch g1 = adm_tokEpoch a
                then
                  let t = refill now (pg_tok g1)
                  in g1\<lparr>pg_tok := (if actual \<ge> 0
                                   then t\<lparr>b_tokens := b_tokens t - of_int (actual - adm_reserved a)\<rparr>
                                   else t)\<rparr>
                else g1)
      in if pg_inFlight g2 > 0 then g2\<lparr>pg_inFlight := pg_inFlight g2 - 1\<rparr> else g2)"

record ThrottleInfo =
  ti_Throttle :: Throttle
  ti_InFlight :: int
  ti_Queued :: int
  ti_ReqRemaining :: rat
  ti_TokRemaining :: rat
  ti_ReqCapacity :: rat
  ti_TokCapacity :: rat

definition gate_snapshot :: "int \<Rightarrow> time \<Rightarrow> providerGate \<Rightarrow> ThrottleInfo \<times> providerGate" where
  "gate_snapshot queued now g =
     (let g1 = g\<lparr>pg_tok := refill now (pg_tok g)\<rparr>
      in case window_remaining now (pg_req g1) of
           (rem, req') \<Rightarrow>
             let g2 = g1\<lparr>pg_req := req'\<rparr>
             in (\<lparr>ti_Throttle = pg_throttle g2, ti_InFlight = pg_inFlight g2, ti_Queued = queued,
                   ti_ReqRemaining = rem,
                   ti_TokRemaining = (if b_enabled (pg_tok g2) then b_tokens (pg_tok g2) else 0),
                   ti_ReqCapacity = window_capacity (pg_req g2),
                   ti_TokCapacity = (if b_enabled (pg_tok g2) then b_capacity (pg_tok g2) else 0)\<rparr>, g2))"


section \<open>Bucket lemmas\<close>

definition bucket_wf :: "bucket \<Rightarrow> bool" where
  "bucket_wf b \<longleftrightarrow> (b_enabled b \<longrightarrow> 0 < b_rate b \<and> 0 < b_capacity b)"

lemma refill_fields [simp]:
  "b_enabled (refill now b) = b_enabled b" "b_rate (refill now b) = b_rate b"
  "b_capacity (refill now b) = b_capacity b"
  by (simp_all add: refill_def Let_def)

lemma bucket_wf_refill [simp]: "bucket_wf (refill now b) = bucket_wf b"
  by (simp add: bucket_wf_def)

lemma bucket_wf_reset: "bucket_wf (bucket_reset cnt window now b)"
  by (auto simp: bucket_wf_def bucket_reset_def Let_def seconds_def second_def)

lemma bucket_reset_enabled: "b_enabled (bucket_reset cnt window now b) \<longleftrightarrow> 0 < cnt \<and> 0 < window"
  by (auto simp: bucket_reset_def Let_def)

lemma refill_le_capacity: "b_tokens b \<le> b_capacity b \<Longrightarrow> b_tokens (refill now b) \<le> b_capacity b"
  by (simp add: refill_def Let_def)

lemma refill_mono: "b_tokens b \<le> b_capacity b \<Longrightarrow> bucket_wf b \<Longrightarrow> b_tokens b \<le> b_tokens (refill now b)"
  by (auto simp: refill_def Let_def bucket_wf_def)

lemma refill_tokens:
  assumes "b_enabled b" "bucket_wf b" "\<not> IsZero (b_last b)" "b_last b \<le> now" "now - b_last b \<le> max_int64"
    and "b_tokens b \<le> b_capacity b"
  shows "b_tokens (refill now b) = min (b_capacity b) (b_tokens b + seconds (now - b_last b) * b_rate b)"
    and "b_last (refill now b) = now"
  using assms
  by (auto simp: refill_def bucket_wf_def time_Sub_small Let_def seconds_def second_def min_def)

lemma bucket_waitFor_fields [simp]:
  "b_enabled (snd (bucket_waitFor n now b)) = b_enabled b"
  "b_capacity (snd (bucket_waitFor n now b)) = b_capacity b"
  "b_rate (snd (bucket_waitFor n now b)) = b_rate b"
  "bucket_wf (snd (bucket_waitFor n now b)) = bucket_wf b"
  by (simp_all add: bucket_waitFor_def Let_def)

lemma bucket_waitFor_bounds:
  assumes wf: "bucket_wf b" and r: "bucket_waitFor n now b = (d, b')"
  shows "0 \<le> d \<and> d \<le> maxBucketWait \<and> (0 < d \<longrightarrow> millisecond \<le> d)"
proof -
  let ?m = "seconds maxBucketWait"
  have m: "?m = 86400" by (simp add: seconds_def maxBucketWait_def MaxRetryHint_def time_defs)
  have tr: "rat_trunc (x * of_int second) \<le> maxBucketWait" if "0 \<le> x" "x \<le> ?m" for x
  proof -
    have "x * of_int second \<le> of_int maxBucketWait"
      using that m by (simp add: maxBucketWait_def MaxRetryHint_def time_defs)
    then have "\<lfloor>x * of_int second\<rfloor> \<le> maxBucketWait" by (simp add: floor_le_iff)
    moreover have "0 \<le> x * of_int second" using that by (simp add: second_def)
    ultimately show ?thesis by (simp add: rat_trunc_nonneg)
  qed
  have small: "millisecond \<le> maxBucketWait" "0 < millisecond"
    by (simp_all add: maxBucketWait_def MaxRetryHint_def time_defs)
  show ?thesis
  proof (cases "\<not> b_enabled b \<or> b_rate b \<le> 0 \<or> n \<le> b_tokens (refill now b)")
    case True
    with r small show ?thesis
      by (auto simp: bucket_waitFor_def Let_def split: if_splits)
  next
    case False
    let ?s = "(n - b_tokens (refill now b)) / b_rate b"
    have "0 \<le> ?s" using False by simp
    with tr [of "min ?s ?m"] m small r False show ?thesis
      by (auto simp: bucket_waitFor_def Let_def min_def)
  qed
qed

text \<open>A later refill finds at least what an elapsed time \<open>e\<close> earned, up to the capacity.\<close>

lemma refill_earns:
  assumes "b_enabled b" "bucket_wf b" "0 < b_last b" "0 \<le> e" "e \<le> max_int64" "b_last b + e \<le> now"
  shows "min (b_capacity b) (b_tokens b + seconds e * b_rate b) \<le> b_tokens (refill now b)"
proof -
  let ?el = "time_Sub now (b_last b)"
  have el: "e \<le> ?el" using assms(4-6) by (simp add: time_Sub_def int64_defs)
  then have le: "seconds e \<le> seconds ?el" by (simp add: seconds_def second_def divide_right_mono)
  have rate: "0 < b_rate b" using assms(1,2) by (simp add: bucket_wf_def)
  show ?thesis
  proof (cases "seconds ?el \<le> 0")
    case True
    then have "seconds e \<le> 0" using le by simp
    then have "seconds e * b_rate b \<le> 0" using rate by (simp add: mult_nonpos_nonneg)
    then show ?thesis using True assms(1,3) rate by (simp add: refill_def Let_def min_le_iff_disj)
  next
    case False
    have "seconds e * b_rate b \<le> seconds ?el * b_rate b" using le rate by (simp add: mult_right_mono)
    then show ?thesis using False assms(1,3) rate by (auto simp: refill_def Let_def min_le_iff_disj)
  qed
qed

lemma refill_last:
  assumes "b_enabled b" "bucket_wf b" "0 < b_last b" "b_last b \<le> now"
  shows "b_last (refill now b) = now"
proof -
  have "seconds (time_Sub now (b_last b)) \<le> 0 \<Longrightarrow> b_last b = now"
    using assms(4) by (auto simp: seconds_def second_def divide_le_0_iff time_Sub_def int64_defs)
  then show ?thesis using assms by (auto simp: refill_def Let_def bucket_wf_def)
qed


section \<open>Gate lemmas\<close>

lemma gate_blocked_frame:
  assumes "gate_blocked est now nowW g = (b, wait, g')"
  shows "pg_throttle g' = pg_throttle g \<and> pg_inFlight g' = pg_inFlight g \<and> pg_reserved g' = pg_reserved g
    \<and> pg_tokEpoch g' = pg_tokEpoch g \<and> pg_wake g' = pg_wake g
    \<and> b_enabled (pg_tok g') = b_enabled (pg_tok g) \<and> b_capacity (pg_tok g') = b_capacity (pg_tok g)
    \<and> b_rate (pg_tok g') = b_rate (pg_tok g)"
  using assms
  by (auto simp: gate_blocked_def Let_def prod_eq_iff split: if_splits prod.splits)

lemma gate_blocked_False:
  assumes "gate_blocked est now nowW g = (False, wait, g')" and "limit_Active (t_Limit (pg_throttle g))"
  shows "Concurrency (t_Limit (pg_throttle g)) \<le> 0 \<or> pg_inFlight g < Concurrency (t_Limit (pg_throttle g))"
    and "pg_tok g' = refill now (pg_tok g)"
    and "window_waitFor now (pg_req g) = (d, b, w) \<Longrightarrow> \<not> b \<and> pg_req g' = w"
    and "b_enabled (pg_tok g) \<Longrightarrow> 0 < est \<Longrightarrow>
           of_int est \<le> b_tokens (refill now (pg_tok g))
           \<or> b_capacity (pg_tok g) < of_int est \<and> 0 < b_tokens (refill now (pg_tok g))"
  using assms by (auto simp: gate_blocked_def Let_def split: if_splits prod.splits)

lemma gate_blocked_wait:
  assumes "gate_blocked est now nowW g = (True, wait, g')" and "bucket_wf (pg_tok g)"
    and "\<And>d w. window_waitFor now (pg_req g) = (d, True, w) \<Longrightarrow> 0 \<le> d"
  shows "0 \<le> wait"
  using assms bucket_waitFor_bounds [of "refill now (pg_tok g)" _ nowW]
  by (auto simp: gate_blocked_def Let_def split: if_splits prod.splits)

lemma gate_tryAdmit_cases:
  assumes "gate_tryAdmit i est now nowW nowA g = (ok, a, wait, g')"
  obtains (inactive) "\<not> limit_Active (t_Limit (pg_throttle g))" "ok" "a = no_admission" "g' = g" "wait = 0"
  | (refused) "limit_Active (t_Limit (pg_throttle g))" "\<not> ok" "a = no_admission"
      "gate_blocked est now nowW g = (True, wait, g')"
  | (granted) g1 where "limit_Active (t_Limit (pg_throttle g))" "ok" "gate_blocked est now nowW g = (False, 0, g1)"
      "a = \<lparr>adm_gate = Some i, adm_reserved = (if b_enabled (pg_tok g) \<and> 0 < est then est else 0),
             adm_tokEpoch = pg_tokEpoch g\<rparr>"
      "g' = g1\<lparr>pg_inFlight := pg_inFlight g + 1, pg_req := window_admit nowA (pg_req g1),
              pg_tok := (pg_tok g1)\<lparr>b_tokens := b_tokens (pg_tok g1) - of_int (adm_reserved a)\<rparr>,
              pg_reserved := pg_reserved g + adm_reserved a\<rparr>"
proof (cases "limit_Active (t_Limit (pg_throttle g))")
  case False
  with assms have "ok" "a = no_admission" "g' = g" "wait = 0" by (simp_all add: gate_tryAdmit_def)
  with False show ?thesis by (rule inactive)
next
  case True
  obtain b w g1 where bl: "gate_blocked est now nowW g = (b, w, g1)" by (cases "gate_blocked est now nowW g") auto
  note fr = gate_blocked_frame [OF bl]
  show ?thesis
  proof (cases b)
    case True
    with \<open>limit_Active (t_Limit (pg_throttle g))\<close> bl assms
    have "\<not> ok" "a = no_admission" "gate_blocked est now nowW g = (True, wait, g')"
      by (simp_all add: gate_tryAdmit_def)
    with \<open>limit_Active (t_Limit (pg_throttle g))\<close> show ?thesis by (rule refused)
  next
    case False
    then have w: "w = 0"
      using bl by (auto simp: gate_blocked_def Let_def split: if_splits prod.splits)
    let ?r = "if b_enabled (pg_tok g) \<and> 0 < est then est else 0"
    let ?a = "\<lparr>adm_gate = Some i, adm_reserved = ?r, adm_tokEpoch = pg_tokEpoch g\<rparr>"
    let ?g = "g1\<lparr>pg_inFlight := pg_inFlight g + 1, pg_req := window_admit nowA (pg_req g1),
              pg_tok := (pg_tok g1)\<lparr>b_tokens := b_tokens (pg_tok g1) - of_int ?r\<rparr>,
              pg_reserved := pg_reserved g + ?r\<rparr>"
    have "gate_tryAdmit i est now nowW nowA g = (True, ?a, 0, ?g)"
      using bl False True fr by (simp add: gate_tryAdmit_def Let_def)
    with assms have "ok" "a = ?a" "g' = ?g" by simp_all
    with granted [of g1] bl False True w show ?thesis by simp
  qed
qed

lemma gate_settle_fields [simp]:
  "pg_throttle (gate_settle actual now a g) = pg_throttle g"
  "pg_req (gate_settle actual now a g) = pg_req g"
  "pg_tokEpoch (gate_settle actual now a g) = pg_tokEpoch g"
  "pg_wake (gate_settle actual now a g) = pg_wake g"
  "pg_inFlight (gate_settle actual now a g) = (if 0 < pg_inFlight g then pg_inFlight g - 1 else pg_inFlight g)"
  "pg_reserved (gate_settle actual now a g) =
     (if adm_reserved a = 0 then pg_reserved g else max 0 (pg_reserved g - adm_reserved a))"
  by (auto simp: gate_settle_def Let_def max_def)

lemma gate_settle_tok:
  "pg_tok (gate_settle actual now a g) =
     (if b_enabled (pg_tok g) \<and> pg_tokEpoch g = adm_tokEpoch a
      then (let t = refill now (pg_tok g)
            in if 0 \<le> actual then t\<lparr>b_tokens := b_tokens t - of_int (actual - adm_reserved a)\<rparr> else t)
      else pg_tok g)"
  by (simp add: gate_settle_def Let_def)


section \<open>The gate and its outstanding leases\<close>

text \<open>
  The states of one gate together with the leases its admissions handed out and not yet
  settled, under every operation that touches the gate: admissions granted and refused,
  settlements, policy installs and clears, and the dashboard snapshot.
\<close>

inductive gate_reach :: "nat \<Rightarrow> providerGate \<Rightarrow> admission multiset \<Rightarrow> bool" for i where
  gr_init: "gate_reach i (zero_gate\<lparr>pg_wake := w\<rparr>) {#}"
| gr_admit: "gate_reach i g L \<Longrightarrow> gate_tryAdmit i est now nowW nowA g = (ok, a, wait, g') \<Longrightarrow>
     gate_reach i g' (if adm_gate a = None then L else add_mset a L)"
| gr_settle: "gate_reach i g L \<Longrightarrow> a \<in># L \<Longrightarrow> gate_reach i (gate_settle actual now a g) (L - {#a#})"
| gr_policy: "gate_reach i g L \<Longrightarrow> gate_reach i (resetBuckets (t_Limit t) now (g\<lparr>pg_throttle := t\<rparr>)) L"
| gr_clear: "gate_reach i g L \<Longrightarrow> gate_reach i (g\<lparr>pg_throttle := zero_throttle\<rparr>) L"
| gr_snapshot: "gate_reach i g L \<Longrightarrow> gate_reach i (snd (gate_snapshot queued now g)) L"

definition gate_inv :: "nat \<Rightarrow> providerGate \<Rightarrow> admission multiset \<Rightarrow> bool" where
  "gate_inv i g L \<longleftrightarrow>
     pg_inFlight g = int (size L)
     \<and> pg_reserved g = sum_mset (image_mset adm_reserved L)
     \<and> (\<forall>a \<in># L. adm_gate a = Some i \<and> 0 \<le> adm_reserved a)
     \<and> bucket_wf (pg_tok g)"

lemma resetBuckets_fields [simp]:
  "pg_inFlight (resetBuckets l now g) = pg_inFlight g" "pg_reserved (resetBuckets l now g) = pg_reserved g"
  "pg_throttle (resetBuckets l now g) = pg_throttle g" "pg_wake (resetBuckets l now g) = pg_wake g"
  "bucket_wf (pg_tok (resetBuckets l now g))"
  by (simp_all add: resetBuckets_def Let_def bucket_wf_reset)

lemma sum_reserved_split:
  "a \<in># L \<Longrightarrow> sum_mset (image_mset adm_reserved L)
     = adm_reserved a + sum_mset (image_mset adm_reserved (L - {#a#}))"
  by (metis image_mset_add_mset insert_DiffM sum_mset.insert)

lemma sum_reserved_nonneg:
  "(\<forall>a \<in># L. 0 \<le> adm_reserved a) \<Longrightarrow> 0 \<le> sum_mset (image_mset adm_reserved L)"
  by (induction L) auto

lemma gate_inv_admit:
  assumes inv: "gate_inv i g L" and ad: "gate_tryAdmit i est now nowW nowA g = (ok, a, wait, g')"
  shows "gate_inv i g' (if adm_gate a = None then L else add_mset a L)"
  using ad
proof (cases rule: gate_tryAdmit_cases)
  case inactive
  with inv show ?thesis by (simp add: no_admission_def)
next
  case refused
  with refused gate_blocked_frame [OF refused(4)] inv show ?thesis
    by (simp add: no_admission_def gate_inv_def bucket_wf_def)
next
  case (granted g1)
  have "pg_tok g1 = refill now (pg_tok g)"
    using gate_blocked_False(2) [OF granted(3,1)] .
  with granted inv show ?thesis by (simp add: gate_inv_def bucket_wf_def)
qed

lemma gate_inv_settle:
  assumes inv: "gate_inv i g L" and a: "a \<in># L"
  shows "gate_inv i (gate_settle actual now a g) (L - {#a#})"
proof -
  have pos: "0 < size L" using a by (metis gr0I multi_member_last size_eq_0_iff_empty empty_iff set_mset_empty)
  have "0 \<le> sum_mset (image_mset adm_reserved (L - {#a#}))"
    using inv by (intro sum_reserved_nonneg) (auto simp: gate_inv_def dest: in_diffD)
  then have r: "pg_reserved (gate_settle actual now a g) = sum_mset (image_mset adm_reserved (L - {#a#}))"
    using inv a sum_reserved_split [OF a] by (auto simp: gate_inv_def)
  have "bucket_wf (pg_tok (gate_settle actual now a g))"
    using inv by (simp add: gate_inv_def gate_settle_tok Let_def bucket_wf_def)
  with r inv a pos show ?thesis
    by (auto simp: gate_inv_def size_Diff_singleton dest: in_diffD)
qed

lemma gate_reach_inv: "gate_reach i g L \<Longrightarrow> gate_inv i g L"
proof (induction rule: gate_reach.induct)
  case (gr_init w)
  show ?case by (simp add: gate_inv_def zero_gate_def zero_bucket_def bucket_wf_def)
next
  case (gr_admit g L est now nowW nowA ok a wait g')
  from gr_admit.IH gr_admit.hyps(2) show ?case by (rule gate_inv_admit)
next
  case (gr_settle g L a actual now)
  from gr_settle.IH gr_settle.hyps(2) show ?case by (rule gate_inv_settle)
next
  case (gr_snapshot g L queued now)
  then show ?case by (auto simp: gate_inv_def gate_snapshot_def Let_def split: prod.splits)
qed (simp_all add: gate_inv_def)


section \<open>Properties\<close>

lemma refill_again:
  "refill now ((refill now b)\<lparr>b_tokens := x\<rparr>) = (refill now b)\<lparr>b_tokens := x\<rparr>"
proof -
  have self: "seconds (time_Sub t t) = 0" for t by (simp add: time_Sub_def seconds_def int64_defs)
  show ?thesis
  proof (cases "\<not> b_enabled b \<or> b_rate b \<le> 0 \<or> IsZero (b_last b)")
    case True
    then show ?thesis by (cases "b_enabled b \<and> \<not> b_rate b \<le> 0") (auto simp: refill_def self)
  next
    case False
    then show ?thesis
      by (cases "seconds (time_Sub now (b_last b)) \<le> 0") (simp_all add: refill_def Let_def self)
  qed
qed

text \<open>
  C6. In every reachable state of a provider gate the in-flight count is the number of
  leases handed out and not yet settled and the reserved total is the sum of their
  reservations (so the floors in \<^verbatim>\<open>settle\<close> never act), whatever policy changes happen in
  between; and an admission under an active limit never takes the occupancy above a
  positive concurrency cap.
\<close>

theorem gate_occupancy_is_its_leases:
  assumes "gate_reach i g L" and "gate_tryAdmit i est now nowW nowA g = (ok, a, wait, g')"
  shows "pg_inFlight g = int (size L) \<and> pg_reserved g = sum_mset (image_mset adm_reserved L)
    \<and> (ok \<and> 0 < Concurrency (t_Limit (pg_throttle g)) \<longrightarrow>
         adm_gate a = Some i \<and> pg_inFlight g' = int (size (add_mset a L))
         \<and> pg_inFlight g' \<le> Concurrency (t_Limit (pg_throttle g)))"
proof -
  have inv: "gate_inv i g L" using assms(1) by (rule gate_reach_inv)
  have "adm_gate a = Some i \<and> pg_inFlight g' = int (size (add_mset a L))
      \<and> pg_inFlight g' \<le> Concurrency (t_Limit (pg_throttle g))"
    if ok: "ok" and C: "0 < Concurrency (t_Limit (pg_throttle g))"
    using assms(2)
  proof (cases rule: gate_tryAdmit_cases)
    case (granted g1)
    with gate_blocked_False(1) [OF granted(3,1)] C inv show ?thesis by (simp add: gate_inv_def)
  qed (use ok C in \<open>simp_all add: limit_Active_def\<close>)
  with inv show ?thesis unfolding gate_inv_def by blast
qed

definition demo_limit :: Limit where
  "demo_limit = zero_limit\<lparr>Concurrency := 2, Tokens := 100, TokWindow := 60 * second\<rparr>"

definition demo_gate :: providerGate where
  "demo_gate = resetBuckets demo_limit 1000 (zero_gate\<lparr>pg_throttle := zero_throttle\<lparr>t_Limit := demo_limit\<rparr>\<rparr>)"

lemma demo_gate_reach: "gate_reach i demo_gate {#}"
  using gr_policy [OF gr_init [of i zero_timer], of "zero_throttle\<lparr>t_Limit := demo_limit\<rparr>" 1000]
  by (simp add: demo_gate_def zero_gate_def)

lemmas demo_eval = demo_gate_def demo_limit_def zero_limit_def zero_gate_def zero_throttle_def zero_bucket_def
  zero_window_def resetBuckets_def window_reset_def bucket_reset_def gate_tryAdmit_def gate_blocked_def
  limit_Active_def window_waitFor_def window_admit_def refill_def seconds_def second_def time_Sub_def
  int64_defs Let_def paced_def

lemma demo_admit:
  "gate_tryAdmit 7 40 1000 1000 1000 demo_gate =
     (True, \<lparr>adm_gate = Some 7, adm_reserved = 40, adm_tokEpoch = 1\<rparr>, 0,
      demo_gate\<lparr>pg_inFlight := 1, pg_reserved := 40,
        pg_tok := (pg_tok demo_gate)\<lparr>b_tokens := 60\<rparr>\<rparr>)"
  by (simp add: demo_eval)

theorem gate_occupancy_is_its_leases_witness:
  "pg_inFlight demo_gate = int (size ({#} :: admission multiset)) \<and> (1::int) \<le> Concurrency demo_limit"
  using gate_occupancy_is_its_leases [OF demo_gate_reach demo_admit]
  by (simp add: demo_eval)

subsection \<open>Waiting for tokens\<close>

text \<open>
  A gate on which only the token bucket can refuse: a free concurrency slot, no request window.
  \<open>token_need\<close> is the level at which the bucket lets an estimate pass: the estimate, or one
  token where the request has none or is larger than the whole bucket.
\<close>

definition token_gate :: "providerGate \<Rightarrow> bool" where
  "token_gate g \<longleftrightarrow> limit_Active (t_Limit (pg_throttle g))
     \<and> (Concurrency (t_Limit (pg_throttle g)) \<le> 0 \<or> pg_inFlight g < Concurrency (t_Limit (pg_throttle g)))
     \<and> \<not> sw_enabled (pg_req g)
     \<and> b_enabled (pg_tok g) \<and> bucket_wf (pg_tok g) \<and> 1 \<le> b_capacity (pg_tok g) \<and> 0 < b_last (pg_tok g)"

definition token_need :: "int \<Rightarrow> bucket \<Rightarrow> rat" where
  "token_need est b = (if est \<le> 0 \<or> b_capacity b < of_int est then 1 else of_int est)"

text \<open>
  The provider timer: a refused request is tried again when the reported wait is over, at its
  deadline or \<open>late\<close>; it is admitted within \<open>k\<close> such wakes.
\<close>

primrec admits_within :: "nat \<Rightarrow> nat \<Rightarrow> int \<Rightarrow> (nat \<Rightarrow> duration) \<Rightarrow> time \<Rightarrow> providerGate \<Rightarrow> bool" where
  "admits_within 0 i est late now g = fst (gate_tryAdmit i est now now now g)"
| "admits_within (Suc k) i est late now g =
     (case gate_tryAdmit i est now now now g of
        (ok, a, wait, g') \<Rightarrow> ok \<or> 0 < wait \<and> admits_within k i est late (now + wait + late k) g')"

lemma token_need_le: "token_gate g \<Longrightarrow> token_need est (pg_tok g) \<le> b_capacity (pg_tok g)"
  by (auto simp: token_gate_def token_need_def)

lemma token_gate_admits:
  assumes "token_gate g" "token_need est (pg_tok g) \<le> b_tokens (refill now (pg_tok g))"
  shows "fst (gate_tryAdmit i est now now now g)" "admits_within k i est late now g"
proof -
  have "fst (gate_blocked est now now g) = False"
    using assms by (auto simp: gate_blocked_def token_gate_def token_need_def window_waitFor_def Let_def split: if_splits)
  then show ok: "fst (gate_tryAdmit i est now now now g)"
    by (auto simp: gate_tryAdmit_def Let_def split: prod.splits)
  then show "admits_within k i est late now g"
    by (cases k) (auto split: prod.splits)
qed

text \<open>A refusal reports the time to refill what is missing, in whole nanoseconds, between a millisecond and a day.\<close>

lemma token_gate_refuses:
  assumes g: "token_gate g" and r: "gate_tryAdmit i est now now now g = (False, a, d, g')"
  defines "b \<equiv> refill now (pg_tok g)"
  shows "g' = g\<lparr>pg_tok := b\<rparr>" "bucket_waitFor (token_need est (pg_tok g)) now b = (d, b)"
    and "b_tokens b < token_need est (pg_tok g)"
    and "d = max millisecond (rat_trunc (min ((token_need est (pg_tok g) - b_tokens b) / b_rate b) (seconds maxBucketWait) * of_int second))"
proof -
  have again: "refill now b = b" using refill_again [of now "b_tokens b" "pg_tok g"] by (simp add: b_def)
  show lt: "b_tokens b < token_need est (pg_tok g)"
    using token_gate_admits(1) [OF g, of est now i] r by (force simp: b_def)
  have bl: "gate_blocked est now now g = (True, d, g')"
    using r g by (auto simp: gate_tryAdmit_def token_gate_def Let_def split: prod.splits if_splits)
  have rate: "0 < b_rate b" "b_enabled b" using g by (simp_all add: b_def token_gate_def bucket_wf_def)
  have w: "snd (bucket_waitFor n now b) = b" for n by (simp add: bucket_waitFor_def Let_def again)
  show "g' = g\<lparr>pg_tok := b\<rparr>"
    using bl g w by (auto simp: gate_blocked_def token_gate_def window_waitFor_def Let_def b_def prod_eq_iff split: if_splits prod.splits)
  show wt: "bucket_waitFor (token_need est (pg_tok g)) now b = (d, b)"
    using bl g w by (auto simp: gate_blocked_def token_gate_def token_need_def window_waitFor_def Let_def b_def prod_eq_iff split: if_splits prod.splits)
  show "d = max millisecond (rat_trunc (min ((token_need est (pg_tok g) - b_tokens b) / b_rate b) (seconds maxBucketWait) * of_int second))"
    using wt lt rate by (auto simp: bucket_waitFor_def Let_def again min_def max_def split: if_splits)
qed

lemma token_gate_keeps:
  assumes "token_gate g" "b_last (pg_tok g) \<le> now" "0 < now"
  shows "token_gate (g\<lparr>pg_tok := refill now (pg_tok g)\<rparr>)"
    and "token_need est (refill now (pg_tok g)) = token_need est (pg_tok g)"
  using assms refill_last [of "pg_tok g" now] by (simp_all add: token_gate_def token_need_def)

lemma wait_earns:
  assumes "0 < x" "0 < r" and d: "d = max millisecond (rat_trunc (min (x / r) (seconds maxBucketWait) * of_int second))"
  shows "min (x / r) (seconds maxBucketWait) \<le> seconds (d + 1)"
    and "seconds maxBucketWait \<le> x / r \<Longrightarrow> d = maxBucketWait"
proof -
  let ?m = "min (x / r) (seconds maxBucketWait)"
  have m: "seconds maxBucketWait * of_int second = of_int maxBucketWait" "(0::rat) \<le> seconds maxBucketWait"
    by (simp_all add: seconds_def second_def maxBucketWait_def MaxRetryHint_def time_defs)
  have "0 \<le> ?m * of_int second" using assms(1,2) m(2) by (simp add: second_def)
  then have "\<lfloor>?m * of_int second\<rfloor> \<le> d" using d by (simp add: rat_trunc_nonneg)
  then have "?m * of_int second \<le> of_int (d + 1)" by linarith
  then show "?m \<le> seconds (d + 1)" by (simp add: seconds_def second_def field_simps)
  show "d = maxBucketWait" if "seconds maxBucketWait \<le> x / r"
    using d that m(1) by (simp add: min_def rat_trunc_def maxBucketWait_def MaxRetryHint_def time_defs)
qed

text \<open>Trying again at or after the deadline leaves a shortage of less than one nanosecond, or one day's refill less.\<close>

lemma token_gate_wakes:
  assumes g: "token_gate g" and last: "b_last (pg_tok g) \<le> now" "0 < now"
    and r: "gate_tryAdmit i est now now now g = (False, a, d, g')" and t: "now + d \<le> t"
  defines "need \<equiv> token_need est (pg_tok g)" and "b \<equiv> refill now (pg_tok g)"
  shows "millisecond \<le> d" "d \<le> maxBucketWait" "token_gate g'" "b_last (pg_tok g') \<le> t" "0 < t"
    and "need - b_tokens (refill t (pg_tok g')) \<le>
      (if need - b_tokens b \<le> b_rate b * seconds 1 then 0
       else if need - b_tokens b < b_rate b * seconds maxBucketWait then b_rate b * seconds 1
       else max 0 (need - b_tokens b - b_rate b * seconds maxBucketWait))"
proof -
  note ref = token_gate_refuses [OF g r, folded b_def need_def]
  have en: "b_enabled b" "bucket_wf b" "b_last b = now" "b_capacity b = b_capacity (pg_tok g)" "0 < b_rate b"
    using g refill_last [of "pg_tok g" now] last by (simp_all add: b_def token_gate_def bucket_wf_def)
  have need: "need \<le> b_capacity b" using token_need_le [OF g] en(4) by (simp add: need_def)
  show "millisecond \<le> d" using ref(4) by simp
  show d: "d \<le> maxBucketWait" using bucket_waitFor_bounds [OF en(2) ref(2)] by simp
  show "token_gate g'" using token_gate_keeps(1) [OF g last] by (simp add: ref(1) b_def)
  have d0: "0 < d" using \<open>millisecond \<le> d\<close> by (simp add: millisecond_def)
  then show "b_last (pg_tok g') \<le> t" "0 < t" using en(3) t last(2) by (simp_all add: ref(1))
  have "d \<le> max_int64" using d by (simp add: maxBucketWait_def MaxRetryHint_def time_defs int64_defs)
  then have earn: "min (b_capacity b) (b_tokens b + seconds d * b_rate b) \<le> b_tokens (refill t b)"
    using en d0 t last(2) by (intro refill_earns) simp_all
  let ?x = "need - b_tokens b"
  have x: "0 < ?x" using ref(3) by simp
  have sec: "seconds (d + 1) = seconds d + seconds 1" by (simp add: seconds_def add_divide_distrib)
  have ms: "b_rate b * seconds 1 \<le> seconds d * b_rate b"
    using d0 en(5) by (simp add: mult.commute [of _ "b_rate b"] seconds_def second_def divide_right_mono mult_left_mono)
  note we = wait_earns [OF x en(5) ref(4)]
  have short: "?x - seconds d * b_rate b \<le> b_rate b * seconds 1" if "?x < b_rate b * seconds maxBucketWait"
  proof -
    have "?x / b_rate b < seconds maxBucketWait" using that en(5) by (simp add: pos_divide_less_eq mult.commute)
    then have "?x / b_rate b \<le> seconds d + seconds 1" using we(1) sec by simp
    then show ?thesis using en(5) by (simp add: pos_divide_le_eq algebra_simps)
  qed
  have day: "d = maxBucketWait" if "\<not> ?x < b_rate b * seconds maxBucketWait"
    using we(2) that en(5) by (simp add: pos_le_divide_eq mult.commute)
  have pos: "0 \<le> b_rate b * seconds 1" using en(5) by (simp add: seconds_def second_def)
  show "need - b_tokens (refill t (pg_tok g')) \<le>
      (if ?x \<le> b_rate b * seconds 1 then 0
       else if ?x < b_rate b * seconds maxBucketWait then b_rate b * seconds 1
       else max 0 (?x - b_rate b * seconds maxBucketWait))"
    using earn need ms short day pos by (auto simp: ref(1) min_le_iff_disj mult.commute split: if_splits)
qed

lemma admits_when_short:
  assumes g: "token_gate g" "b_last (pg_tok g) \<le> now" "0 < now" and late: "\<forall>j. 0 \<le> late j"
    and short: "token_need est (pg_tok g) - b_tokens (refill now (pg_tok g)) \<le> b_rate (pg_tok g) * seconds 1"
  shows "admits_within (Suc k) i est late now g"
proof -
  obtain ok a d g' where r: "gate_tryAdmit i est now now now g = (ok, a, d, g')" by (metis prod.exhaust)
  show ?thesis
  proof (cases ok)
    case False
    then have r: "gate_tryAdmit i est now now now g = (False, a, d, g')" using r by simp
    have t: "now + d \<le> now + d + late k" using late by simp
    note w = token_gate_wakes [OF g r t]
    have "token_need est (pg_tok g') = token_need est (pg_tok g)"
      by (simp add: token_gate_refuses(1) [OF g(1) r] token_need_def)
    then have "admits_within k i est late (now + d + late k) g'"
      using w(6) short by (intro token_gate_admits(2) [OF w(3)]) simp
    then show ?thesis using r w(1) by (simp add: millisecond_def)
  qed (simp add: r)
qed

lemma admits_within_days:
  assumes "token_gate g" "b_last (pg_tok g) \<le> now" "0 < now" and late: "\<forall>j. 0 \<le> late j"
    and "token_need est (pg_tok g) - b_tokens (refill now (pg_tok g)) \<le> of_nat k * (b_rate (pg_tok g) * seconds maxBucketWait)"
  shows "admits_within (Suc k) i est late now g"
  using assms(1-3,5)
proof (induction k arbitrary: now g)
  case 0
  then show ?case using token_gate_admits(2) [of g est now "Suc 0"] by simp
next
  case (Suc k)
  obtain ok a d g' where r: "gate_tryAdmit i est now now now g = (ok, a, d, g')" by (metis prod.exhaust)
  show ?case
  proof (cases ok)
    case False
    then have r: "gate_tryAdmit i est now now now g = (False, a, d, g')" using r by simp
    define t where "t = now + d + late (Suc k)"
    have t: "now + d \<le> t" using late by (simp add: t_def)
    note w = token_gate_wakes [OF Suc.prems(1-3) r t]
    have same: "token_need est (pg_tok g') = token_need est (pg_tok g)" "b_rate (pg_tok g') = b_rate (pg_tok g)"
      by (simp_all add: token_gate_refuses(1) [OF Suc.prems(1) r] token_need_def)
    have rate: "0 < b_rate (pg_tok g)" using Suc.prems(1) by (simp add: token_gate_def bucket_wf_def)
    let ?x = "token_need est (pg_tok g) - b_tokens (refill now (pg_tok g))" and ?D = "b_rate (pg_tok g) * seconds maxBucketWait"
    have pos: "0 \<le> of_nat k * ?D" "0 \<le> b_rate (pg_tok g) * seconds 1"
      using rate by (simp_all add: seconds_def second_def maxBucketWait_def MaxRetryHint_def time_defs)
    have "admits_within (Suc k) i est late t g'"
    proof (cases "?x < ?D")
      case True
      then show ?thesis
        using w(6) pos(2) by (intro admits_when_short [OF w(3-5) late]) (auto simp: same split: if_splits)
    next
      case False
      moreover have "b_rate (pg_tok g) * seconds 1 \<le> ?D"
        using rate by (simp add: seconds_def second_def maxBucketWait_def MaxRetryHint_def time_defs)
      ultimately show ?thesis
        using w(6) Suc.prems(4) pos by (intro Suc.IH [OF w(3-5)]) (auto simp: same algebra_simps split: if_splits)
    qed
    then show ?thesis using r w(1) by (simp add: millisecond_def t_def)
  qed (simp add: r)
qed

text \<open>
  C8. Waiting for tokens ends. On a gate on which only the token bucket can refuse, a refused request is
  given a wait of at least a millisecond and at most one day, so a deep debt neither makes the provider timer
  spin nor overflows its duration. When the request is tried again each time its wait is over, however late
  the timer, it is admitted: a shortage of at most \<open>k\<close> days' refill takes at most \<open>k + 1\<close> wakes. This covers the
  estimate that is larger than the whole bucket and the debt that is cut at the one-day ceiling. The bucket's
  floating-point levels are exact rationals here.
\<close>

theorem token_wait_ends_in_admission:
  assumes "token_gate g" "b_last (pg_tok g) \<le> now" "0 < now" "\<forall>j. 0 \<le> late j"
    and "token_need est (pg_tok g) - b_tokens (refill now (pg_tok g)) \<le> of_nat k * (b_rate (pg_tok g) * seconds maxBucketWait)"
  shows "(case gate_tryAdmit i est now now now g of
      (ok, a, wait, g') \<Rightarrow> \<not> ok \<longrightarrow> millisecond \<le> wait \<and> wait \<le> maxBucketWait)
    \<and> admits_within (Suc k) i est late now g"
  using admits_within_days [OF assms, of i] token_gate_wakes(1,2) [OF assms(1-3) _ order_refl, of i est]
  by (auto simp del: admits_within.simps split: prod.splits)

definition demo_debt :: providerGate where
  "demo_debt = demo_gate\<lparr>pg_tok := (pg_tok demo_gate)\<lparr>b_tokens := - 200000\<rparr>\<rparr>"

lemma demo_debt_waits:
  "gate_tryAdmit 7 50 1000 1000 1000 demo_debt = (False, no_admission, maxBucketWait, demo_debt)"
  by (simp add: demo_debt_def demo_eval bucket_waitFor_def maxBucketWait_def MaxRetryHint_def time_defs rat_trunc_def)

theorem token_wait_ends_in_admission_witness:
  "gate_tryAdmit 7 50 1000 1000 1000 demo_debt = (False, no_admission, maxBucketWait, demo_debt)
   \<and> admits_within 3 7 50 (\<lambda>_. 5) 1000 demo_debt"
proof -
  have "admits_within (Suc 2) 7 50 (\<lambda>_. 5) 1000 demo_debt"
    by (rule conjunct2 [OF token_wait_ends_in_admission])
      (simp_all add: demo_debt_def demo_eval token_gate_def token_need_def bucket_wf_def maxBucketWait_def MaxRetryHint_def time_defs)
  with demo_debt_waits show ?thesis by (simp add: numeral_3_eq_3 numeral_2_eq_2)
qed

end
