(* ===== verification/Hold.thy ===== *)
theory Hold
  imports Prelude "HOL-Library.List_Lexorder" "HOL-Library.Char_ord"
begin

text \<open>
  Operator pauses (\<^verbatim>\<open>internal/scheduler/hold.go\<close>, policy part): the pause document, its
  snapshot, which requests a snapshot parks, when two pauses overlap, and the policy
  transitions \<^verbatim>\<open>AddHold\<close>, \<^verbatim>\<open>ReplaceHold\<close>, \<^verbatim>\<open>RemoveHold\<close> and \<^verbatim>\<open>RestoreHolds\<close>.

  A \<^verbatim>\<open>map[string]struct{}\<close> is a \<open>string set\<close> (nil and empty behave alike in every use), a
  \<^verbatim>\<open>policySnap\<close> is the list of its holds, and \<open>now\<close> is the clock of the critical section.
  The process-wide sequence of generated identifiers is passed and returned.

  The overlap test is shown to be exact, and the policy transitions to keep at most one pause
  responsible for every request.
\<close>

section \<open>Pauses and snapshots\<close>

record Hold =
  h_ID :: string
  h_All :: bool
  h_New :: bool
  h_Clients :: "string list"
  h_Providers :: "string list"
  h_KnownAtNew :: "string list"
  h_Until :: time
  h_MaxQueued :: int

record holdSnap =
  hs_id :: string
  hs_all :: bool
  hs_new :: bool
  hs_clients :: "string set"
  hs_providers :: "string set"
  hs_knownNew :: "string set"
  hs_until :: time
  hs_maxQueued :: int

type_synonym policySnap = "holdSnap list"

definition holdExpired :: "time \<Rightarrow> time \<Rightarrow> bool" where
  "holdExpired now until \<longleftrightarrow> \<not> IsZero until \<and> \<not> now < until"

definition hold_Active :: "time \<Rightarrow> Hold \<Rightarrow> bool" where
  "hold_Active now h \<longleftrightarrow>
     (if holdExpired now (h_Until h) then False
      else h_All h \<or> h_New h \<or> length (h_Clients h) > 0 \<or> length (h_Providers h) > 0)"

definition setFrom :: "string list \<Rightarrow> string set" where
  "setFrom ss = set (filter (\<lambda>s. s \<noteq> []) ss)"

definition keysOf :: "string set \<Rightarrow> string list" where
  "keysOf m = sorted_list_of_set m"

text \<open>\<^verbatim>\<open>strconv.FormatUint(n, 10)\<close> and the identifiers built from it.\<close>

fun FormatUint :: "nat \<Rightarrow> string" where
  "FormatUint n = (if n < 10 then [char_of (48 + n)] else FormatUint (n div 10) @ [char_of (48 + n mod 10)])"

declare FormatUint.simps [simp del]

definition newHoldID :: "nat \<Rightarrow> string \<times> nat" where
  "newHoldID seq = (''p'' @ FormatUint (seq + 1), seq + 1)"

definition snapHold :: "nat \<Rightarrow> Hold \<Rightarrow> holdSnap \<times> nat" where
  "snapHold seq h =
     (let (i, seq') = (if h_ID h = [] then newHoldID seq else (h_ID h, seq))
      in (\<lparr>hs_id = i, hs_all = h_All h, hs_new = h_New h, hs_clients = setFrom (h_Clients h),
           hs_providers = setFrom (h_Providers h), hs_knownNew = setFrom (h_KnownAtNew h),
           hs_until = h_Until h, hs_maxQueued = h_MaxQueued h\<rparr>, seq'))"

definition snap_hold :: "holdSnap \<Rightarrow> Hold" where
  "snap_hold h =
     \<lparr>h_ID = hs_id h, h_All = hs_all h, h_New = hs_new h, h_Clients = keysOf (hs_clients h),
      h_Providers = keysOf (hs_providers h), h_KnownAtNew = keysOf (hs_knownNew h),
      h_Until = hs_until h, h_MaxQueued = hs_maxQueued h\<rparr>"

definition snap_active :: "time \<Rightarrow> holdSnap \<Rightarrow> bool" where
  "snap_active now h \<longleftrightarrow>
     (if holdExpired now (hs_until h) then False
      else hs_all h \<or> hs_new h \<or> hs_clients h \<noteq> {} \<or> hs_providers h \<noteq> {})"

definition clientOK :: "holdSnap \<Rightarrow> string \<Rightarrow> bool" where
  "clientOK h client \<longleftrightarrow>
     (if hs_all h then True
      else let hasNamed = (hs_clients h \<noteq> {}) in
        if hasNamed \<and> client \<in> hs_clients h then True
        else if hs_new h then client \<notin> hs_knownNew h
        else if hasNamed then False
        else hs_providers h \<noteq> {})"

definition providerOK :: "holdSnap \<Rightarrow> string \<Rightarrow> bool" where
  "providerOK h provider \<longleftrightarrow>
     (if hs_all h \<or> hs_providers h = {} then True
      else if provider = [] then False
      else provider \<in> hs_providers h)"

definition snap_matches :: "time \<Rightarrow> holdSnap \<Rightarrow> string \<Rightarrow> string \<Rightarrow> bool" where
  "snap_matches now h client provider \<longleftrightarrow>
     (if \<not> snap_active now h then False
      else if hs_all h then True
      else if \<not> clientOK h client then False
      else providerOK h provider)"

fun policy_match :: "time \<Rightarrow> policySnap \<Rightarrow> string \<Rightarrow> string \<Rightarrow> holdSnap option" where
  "policy_match now [] client provider = None"
| "policy_match now (h # hs) client provider =
     (if snap_matches now h client provider then Some h else policy_match now hs client provider)"

fun policy_active :: "time \<Rightarrow> policySnap \<Rightarrow> bool" where
  "policy_active now [] = False"
| "policy_active now (h # hs) = (if snap_active now h then True else policy_active now hs)"

definition policy_list :: "time \<Rightarrow> policySnap \<Rightarrow> Hold list" where
  "policy_list now p = map snap_hold (filter (snap_active now) p)"

fun snapFromHolds :: "time \<Rightarrow> nat \<Rightarrow> Hold list \<Rightarrow> policySnap \<times> nat" where
  "snapFromHolds now seq [] = ([], seq)"
| "snapFromHolds now seq (h # hs) =
     (if \<not> hold_Active now h then snapFromHolds now seq hs
      else let (sh, seq1) = snapHold seq h; (p, seq2) = snapFromHolds now seq1 hs in (sh # p, seq2))"

definition holdEqual :: "holdSnap \<Rightarrow> holdSnap \<Rightarrow> bool" where
  "holdEqual a b \<longleftrightarrow>
     (if hs_id a \<noteq> hs_id b \<or> hs_all a \<noteq> hs_all b \<or> hs_new a \<noteq> hs_new b
         \<or> hs_maxQueued a \<noteq> hs_maxQueued b \<or> hs_until a \<noteq> hs_until b then False
      else if card (hs_clients a) \<noteq> card (hs_clients b) \<or> card (hs_providers a) \<noteq> card (hs_providers b)
         \<or> card (hs_knownNew a) \<noteq> card (hs_knownNew b) then False
      else (\<forall>k\<in>hs_clients a. k \<in> hs_clients b) \<and> (\<forall>k\<in>hs_providers a. k \<in> hs_providers b)
         \<and> (\<forall>k\<in>hs_knownNew a. k \<in> hs_knownNew b))"

definition snapEqual :: "policySnap \<Rightarrow> policySnap \<Rightarrow> bool" where
  "snapEqual a b \<longleftrightarrow>
     (if length a \<noteq> length b then False else \<forall>i\<in>set [0..<length a]. holdEqual (a ! i) (b ! i))"


section \<open>Overlap\<close>

record holdScope =
  sc_allClients :: bool
  sc_newClients :: bool
  sc_clients :: "string set"
  sc_knownNew :: "string set"
  sc_allProviders :: bool
  sc_providers :: "string set"

definition scopeOf :: "Hold \<Rightarrow> holdScope" where
  "scopeOf h =
     (let s = \<lparr>sc_allClients = False, sc_newClients = False, sc_clients = {},
               sc_knownNew = setFrom (h_KnownAtNew h), sc_allProviders = False, sc_providers = {}\<rparr>
      in if h_All h then s\<lparr>sc_allClients := True, sc_allProviders := True\<rparr>
         else
           let s1 = (if h_New h then s\<lparr>sc_newClients := True\<rparr> else s);
               s2 = s1\<lparr>sc_clients := setFrom (h_Clients h)\<rparr>;
               s3 = (if length (h_Providers h) = 0 then s2\<lparr>sc_allProviders := True\<rparr>
                     else s2\<lparr>sc_providers := setFrom (h_Providers h)\<rparr>)
           in if \<not> h_New h \<and> length (h_Clients h) = 0 then s3\<lparr>sc_allClients := True\<rparr> else s3)"

definition namedOverlap :: "string set \<Rightarrow> string set \<Rightarrow> bool" where
  "namedOverlap a b \<longleftrightarrow>
     (if a = {} \<or> b = {} then False
      else let (a, b) = (if card a > card b then (b, a) else (a, b)) in \<exists>k\<in>a. k \<in> b)"

definition clientsOverlap :: "holdScope \<Rightarrow> holdScope \<Rightarrow> bool" where
  "clientsOverlap a b \<longleftrightarrow>
     (if sc_allClients a \<or> sc_allClients b then True
      else if namedOverlap (sc_clients a) (sc_clients b) then True
      else if sc_newClients a \<and> sc_newClients b then True
      else if sc_newClients a \<and> (\<exists>c\<in>sc_clients b. c \<notin> sc_knownNew a) then True
      else if sc_newClients b \<and> (\<exists>c\<in>sc_clients a. c \<notin> sc_knownNew b) then True
      else False)"

definition providersOverlap :: "holdScope \<Rightarrow> holdScope \<Rightarrow> bool" where
  "providersOverlap a b \<longleftrightarrow>
     (if sc_allProviders a \<or> sc_allProviders b then True
      else namedOverlap (sc_providers a) (sc_providers b))"

definition HoldsOverlap :: "time \<Rightarrow> Hold \<Rightarrow> Hold \<Rightarrow> bool" where
  "HoldsOverlap now a b \<longleftrightarrow>
     (if \<not> hold_Active now a \<or> \<not> hold_Active now b then False
      else let sa = scopeOf a; sb = scopeOf b in clientsOverlap sa sb \<and> providersOverlap sa sb)"


section \<open>Policy transitions\<close>

datatype hold_error = ErrOverlap | ErrHoldNotFound

text \<open>\<^verbatim>\<open>commitPolicyLocked\<close>: whether the policy changed, and the policy stored.\<close>

definition commitPolicy :: "policySnap \<Rightarrow> policySnap \<Rightarrow> bool \<times> policySnap" where
  "commitPolicy cur nxt = (if snapEqual cur nxt then (False, cur) else (True, nxt))"

fun holdsWithoutID :: "policySnap \<Rightarrow> string \<Rightarrow> Hold list \<times> bool" where
  "holdsWithoutID [] key = ([], False)"
| "holdsWithoutID (sh # shs) key =
     (let (nxt, found) = holdsWithoutID shs key; hh = snap_hold sh
      in if h_ID hh = key then (nxt, True) else (hh # nxt, found))"

text \<open>
  A policy transition returns an error, or whether the policy changed and the policy after
  it; the identifier sequence is threaded. The epilogue of \<^verbatim>\<open>commitHolds\<close> (count pruning,
  seeding, drain) is run by the scheduler on a change.
\<close>

type_synonym policy_result = "hold_error + (bool \<times> policySnap)"

definition commitAppendedHolds :: "time \<Rightarrow> nat \<Rightarrow> policySnap \<Rightarrow> Hold list \<Rightarrow> Hold \<Rightarrow> policy_result \<times> nat" where
  "commitAppendedHolds now seq cur nextHolds h =
     (let (nxt, seq') = snapFromHolds now seq (nextHolds @ [h]) in (Inr (commitPolicy cur nxt), seq'))"

definition AddHold_policy :: "time \<Rightarrow> nat \<Rightarrow> Hold \<Rightarrow> policySnap \<Rightarrow> policy_result \<times> nat" where
  "AddHold_policy now seq h cur =
     (if \<not> hold_Active now h then (Inr (False, cur), seq)
      else
        let (h, seq) = (if h_ID h = [] then case newHoldID seq of (i, s) \<Rightarrow> (h\<lparr>h_ID := i\<rparr>, s) else (h, seq));
            hs = policy_list now cur
        in if \<exists>c\<in>set hs. HoldsOverlap now c h then (Inl ErrOverlap, seq)
           else commitAppendedHolds now seq cur hs h)"

definition RemoveHold_policy :: "time \<Rightarrow> nat \<Rightarrow> string \<Rightarrow> policySnap \<Rightarrow> (bool \<times> policySnap) \<times> nat" where
  "RemoveHold_policy now seq key cur =
     (if key = [] then ((False, cur), seq)
      else case holdsWithoutID cur key of
        (nextHolds, found) \<Rightarrow>
          if \<not> found then ((False, cur), seq)
          else let (nxt, seq') = snapFromHolds now seq nextHolds in (commitPolicy cur nxt, seq'))"

definition ReplaceHold_policy :: "time \<Rightarrow> nat \<Rightarrow> Hold \<Rightarrow> policySnap \<Rightarrow> policy_result \<times> nat" where
  "ReplaceHold_policy now seq h cur =
     (if h_ID h = [] then (Inl ErrHoldNotFound, seq)
      else if \<not> hold_Active now h then
        (case RemoveHold_policy now seq (h_ID h) cur of (r, seq') \<Rightarrow> (Inr r, seq'))
      else case holdsWithoutID cur (h_ID h) of
        (nextHolds, found) \<Rightarrow>
          if \<not> found then (Inl ErrHoldNotFound, seq)
          else if \<exists>c\<in>set nextHolds. HoldsOverlap now c h then (Inl ErrOverlap, seq)
          else commitAppendedHolds now seq cur nextHolds h)"

definition RestoreHolds_policy :: "time \<Rightarrow> nat \<Rightarrow> Hold list \<Rightarrow> policySnap \<Rightarrow> (bool \<times> policySnap) \<times> nat" where
  "RestoreHolds_policy now seq holds cur =
     (let (nxt, seq') = snapFromHolds now seq holds in (commitPolicy cur nxt, seq'))"


section \<open>What a hold covers\<close>

text \<open>
  The clients and providers a pause document covers, independent of the clock, and the
  documents the operator interface produces: it trims names and drops blank ones.
\<close>

definition covers_client :: "Hold \<Rightarrow> string \<Rightarrow> bool" where
  "covers_client h c \<longleftrightarrow> h_All h \<or> c \<in> setFrom (h_Clients h)
     \<or> (h_New h \<and> c \<notin> setFrom (h_KnownAtNew h)) \<or> (\<not> h_New h \<and> h_Clients h = [])"

definition covers_provider :: "Hold \<Rightarrow> string \<Rightarrow> bool" where
  "covers_provider h p \<longleftrightarrow> h_All h \<or> h_Providers h = [] \<or> p \<in> setFrom (h_Providers h)"

definition canonical :: "Hold \<Rightarrow> bool" where
  "canonical h \<longleftrightarrow> [] \<notin> set (h_Clients h) \<and> [] \<notin> set (h_Providers h)"

definition snap_wf :: "holdSnap \<Rightarrow> bool" where
  "snap_wf h \<longleftrightarrow> finite (hs_clients h) \<and> finite (hs_providers h) \<and> finite (hs_knownNew h)
     \<and> [] \<notin> hs_clients h \<and> [] \<notin> hs_providers h \<and> [] \<notin> hs_knownNew h"

lemma finite_setFrom [simp]: "finite (setFrom ss)"
  by (simp add: setFrom_def)

lemma blank_setFrom [simp]: "[] \<notin> setFrom ss"
  by (simp add: setFrom_def)

lemma setFrom_Nil [simp]: "setFrom [] = {}"
  by (simp add: setFrom_def)

lemma setFrom_canonical: "[] \<notin> set ss \<Longrightarrow> setFrom ss = set ss"
  by (auto simp: setFrom_def)

lemma setFrom_keysOf: "finite A \<Longrightarrow> [] \<notin> A \<Longrightarrow> setFrom (keysOf A) = A"
  by (simp add: keysOf_def setFrom_canonical)

lemma keysOf_Nil_iff: "finite A \<Longrightarrow> keysOf A = [] \<longleftrightarrow> A = {}"
  by (simp add: keysOf_def sorted_list_of_set_eq_Nil_iff)

lemma snapHold_wf: "snap_wf (fst (snapHold seq h))"
  by (simp add: snapHold_def snap_wf_def case_prod_beta Let_def)

lemma canonical_snap_hold: "snap_wf h \<Longrightarrow> canonical (snap_hold h)"
  by (simp add: canonical_def snap_hold_def snap_wf_def keysOf_def)

text \<open>A snapshot of a projected snapshot is the snapshot again.\<close>

lemma snapHold_snap_hold:
  "snap_wf h \<Longrightarrow> hs_id h \<noteq> [] \<Longrightarrow> snapHold seq (snap_hold h) = (h, seq)"
  by (simp add: snapHold_def snap_hold_def snap_wf_def setFrom_keysOf)

lemma active_snap_hold: "snap_wf h \<Longrightarrow> hold_Active now (snap_hold h) = snap_active now h"
  using keysOf_Nil_iff [of "hs_clients h"] keysOf_Nil_iff [of "hs_providers h"]
  by (simp add: hold_Active_def snap_active_def snap_hold_def snap_wf_def)

lemma snap_active_snapHold:
  assumes "canonical h" shows "snap_active now (fst (snapHold seq h)) = hold_Active now h"
  using assms
  by (auto simp: snap_active_def snapHold_def hold_Active_def canonical_def case_prod_beta Let_def setFrom_canonical)

lemma snap_matches_snapHold:
  assumes "canonical h"
  shows "snap_matches now (fst (snapHold seq h)) c p
    \<longleftrightarrow> hold_Active now h \<and> covers_client h c \<and> covers_provider h p"
proof -
  let ?s = "fst (snapHold seq h)"
  have "snap_active now ?s = hold_Active now h" by (rule snap_active_snapHold) fact
  moreover have "hs_clients ?s = set (h_Clients h)" "hs_providers ?s = set (h_Providers h)"
    "hs_all ?s = h_All h" "hs_new ?s = h_New h" "hs_knownNew ?s = setFrom (h_KnownAtNew h)"
    using assms by (simp_all add: snapHold_def canonical_def case_prod_beta Let_def setFrom_canonical)
  ultimately show ?thesis
    using assms
    by (auto simp: snap_matches_def clientOK_def providerOK_def covers_client_def covers_provider_def
        canonical_def setFrom_canonical hold_Active_def)
qed

lemma snap_matches_covers:
  assumes "snap_wf h"
  shows "snap_matches now h c p
    \<longleftrightarrow> snap_active now h \<and> covers_client (snap_hold h) c \<and> covers_provider (snap_hold h) p"
  using assms keysOf_Nil_iff [of "hs_clients h"] keysOf_Nil_iff [of "hs_providers h"]
  by (auto simp: snap_matches_def clientOK_def providerOK_def covers_client_def covers_provider_def
      snap_wf_def snap_hold_def setFrom_keysOf snap_active_def)

lemma namedOverlap_iff: "namedOverlap a b \<longleftrightarrow> a \<inter> b \<noteq> {}"
  by (auto simp: namedOverlap_def)

lemma fresh_name: "finite (A :: string set) \<Longrightarrow> \<exists>c. c \<notin> A"
  using ex_new_if_finite [of A] infinite_UNIV_listI by blast

lemma scopeOf_sel [simp]:
  "sc_allClients (scopeOf h) \<longleftrightarrow> h_All h \<or> (\<not> h_New h \<and> h_Clients h = [])"
  "sc_newClients (scopeOf h) \<longleftrightarrow> \<not> h_All h \<and> h_New h"
  "sc_clients (scopeOf h) = (if h_All h then {} else setFrom (h_Clients h))"
  "sc_knownNew (scopeOf h) = setFrom (h_KnownAtNew h)"
  "sc_allProviders (scopeOf h) \<longleftrightarrow> h_All h \<or> h_Providers h = []"
  "sc_providers (scopeOf h) = (if h_All h then {} else setFrom (h_Providers h))"
  by (auto simp: scopeOf_def Let_def)

lemma covers_some_client: "canonical h \<Longrightarrow> \<exists>c. covers_client h c"
proof (cases "h_Clients h = []")
  case False
  assume "canonical h"
  with False have "hd (h_Clients h) \<in> setFrom (h_Clients h)"
    by (simp add: canonical_def setFrom_canonical)
  then show ?thesis by (auto simp: covers_client_def)
next
  case True
  with fresh_name [OF finite_setFrom, of "h_KnownAtNew h"] show ?thesis
    by (auto simp: covers_client_def)
qed

lemma clientsOverlap_iff:
  assumes "canonical a" "canonical b"
  shows "clientsOverlap (scopeOf a) (scopeOf b) \<longleftrightarrow> (\<exists>c. covers_client a c \<and> covers_client b c)"
proof (cases "sc_allClients (scopeOf a) \<or> sc_allClients (scopeOf b)")
  case True
  then have "(\<forall>c. covers_client a c) \<or> (\<forall>c. covers_client b c)" by (auto simp: covers_client_def)
  with True covers_some_client [OF assms(1)] covers_some_client [OF assms(2)] show ?thesis
    by (auto simp: clientsOverlap_def)
next
  case False
  obtain c where "c \<notin> setFrom (h_KnownAtNew a) \<union> setFrom (h_KnownAtNew b)"
    using fresh_name [of "setFrom (h_KnownAtNew a) \<union> setFrom (h_KnownAtNew b)"] by auto
  with False show ?thesis
    by (auto simp: clientsOverlap_def covers_client_def namedOverlap_iff)
qed

lemma providersOverlap_iff:
  assumes "canonical a" "canonical b"
  shows "providersOverlap (scopeOf a) (scopeOf b) \<longleftrightarrow> (\<exists>p. covers_provider a p \<and> covers_provider b p)"
proof -
  have some: "\<exists>p. covers_provider h p" if "canonical h" for h
    using that by (cases "h_Providers h") (auto simp: covers_provider_def canonical_def setFrom_canonical)
  show ?thesis
    using some [OF assms(1)] some [OF assms(2)]
    by (auto simp: providersOverlap_def covers_provider_def namedOverlap_iff)
qed

lemma HoldsOverlap_iff:
  assumes "canonical a" "canonical b"
  shows "HoldsOverlap now a b \<longleftrightarrow> hold_Active now a \<and> hold_Active now b
    \<and> (\<exists>c p. covers_client a c \<and> covers_client b c \<and> covers_provider a p \<and> covers_provider b p)"
  using clientsOverlap_iff [OF assms] providersOverlap_iff [OF assms]
  by (auto simp: HoldsOverlap_def Let_def)


section \<open>The policy as a set of disjoint holds\<close>

definition disjoint_holds :: "Hold \<Rightarrow> Hold \<Rightarrow> bool" where
  "disjoint_holds a b \<longleftrightarrow>
     (\<forall>c p. \<not> (covers_client a c \<and> covers_provider a p \<and> covers_client b c \<and> covers_provider b p))"

definition policy_ok :: "policySnap \<Rightarrow> bool" where
  "policy_ok p \<longleftrightarrow> (\<forall>h\<in>set p. snap_wf h \<and> hs_id h \<noteq> [])
     \<and> sorted_wrt (\<lambda>a b. disjoint_holds (snap_hold a) (snap_hold b)) p"

lemma holdEqual_iff: "snap_wf a \<Longrightarrow> snap_wf b \<Longrightarrow> holdEqual a b \<longleftrightarrow> a = b"
proof
  assume wf: "snap_wf a" "snap_wf b" and eq: "holdEqual a b"
  have "A = B" if "\<forall>k\<in>A. k \<in> B" "card A = card B" "finite B" for A B :: "string set"
    using that by (metis card_subset_eq subsetI)
  with wf eq show "a = b"
    by (intro holdSnap.equality) (auto simp: holdEqual_def snap_wf_def split: if_splits)
qed (simp add: holdEqual_def)

lemma snapEqual_iff:
  assumes "\<forall>h\<in>set p. snap_wf h" "\<forall>h\<in>set q. snap_wf h"
  shows "snapEqual p q \<longleftrightarrow> p = q"
proof (cases "length p = length q")
  case True
  have "holdEqual (p ! i) (q ! i) \<longleftrightarrow> p ! i = q ! i" if "i < length p" for i
    using assms that True by (intro holdEqual_iff) simp_all
  with True show ?thesis unfolding snapEqual_def list_eq_iff_nth_eq [of p q] by (simp add: Ball_def)
qed (auto simp: snapEqual_def)

lemma snap_matches_active: "snap_matches now h c pr \<Longrightarrow> snap_active now h"
  by (simp add: snap_matches_def split: if_splits)

lemma policy_match_Some:
  "policy_match now p c pr = Some h \<Longrightarrow> h \<in> set p \<and> snap_matches now h c pr"
  by (induction p) (auto split: if_splits)

lemma policy_match_iff: "policy_match now p c pr \<noteq> None \<longleftrightarrow> (\<exists>h\<in>set p. snap_matches now h c pr)"
  by (induction p) auto

lemma snapHold_nonblank_id: "hs_id (fst (snapHold seq h)) \<noteq> []"
  by (simp add: snapHold_def newHoldID_def case_prod_beta Let_def)

lemma snapHold_covers:
  assumes "canonical h"
  shows "covers_client (snap_hold (fst (snapHold seq h))) = covers_client h"
    and "covers_provider (snap_hold (fst (snapHold seq h))) = covers_provider h"
  using assms keysOf_Nil_iff [of "set (h_Clients h)"] keysOf_Nil_iff [of "set (h_Providers h)"]
  by (auto simp: fun_eq_iff covers_client_def covers_provider_def snapHold_def snap_hold_def canonical_def
      case_prod_beta Let_def setFrom_canonical setFrom_keysOf)

lemma snapFromHolds_append:
  assumes "\<forall>s\<in>set p. snap_wf s \<and> hs_id s \<noteq> []"
  shows "snapFromHolds now seq (map snap_hold p @ hs) =
    (filter (snap_active now) p @ fst (snapFromHolds now seq hs), snd (snapFromHolds now seq hs))"
  using assms by (induction p) (simp_all add: active_snap_hold snapHold_snap_hold case_prod_beta Let_def)

lemma holdsWithoutID_eq:
  "holdsWithoutID p key = (map snap_hold (filter (\<lambda>s. hs_id s \<noteq> key) p), \<exists>s\<in>set p. hs_id s = key)"
  by (induction p) (auto simp: snap_hold_def)

lemma policy_ok_filter: "policy_ok p \<Longrightarrow> policy_ok (filter P p)"
  by (simp add: policy_ok_def sorted_wrt_filter)

lemma policy_ok_snoc:
  assumes "policy_ok p" "canonical h" "\<forall>s\<in>set p. disjoint_holds (snap_hold s) h"
  shows "policy_ok (p @ [fst (snapHold seq h)])"
  using assms
  by (auto simp: policy_ok_def sorted_wrt_append disjoint_holds_def snapHold_covers snapHold_wf snapHold_nonblank_id)

lemma policy_ok_at_most_one:
  assumes "policy_ok p"
  shows "length (filter (\<lambda>h. snap_matches now h c pr) p) \<le> 1"
  using assms
proof (induction p)
  case (Cons a p)
  have IH: "length (filter (\<lambda>h. snap_matches now h c pr) p) \<le> 1"
    using Cons by (simp add: policy_ok_def)
  have "\<not> snap_matches now b c pr" if "snap_matches now a c pr" "b \<in> set p" for b
    using Cons.prems that by (auto simp: policy_ok_def disjoint_holds_def snap_matches_covers)
  then have "filter (\<lambda>h. snap_matches now h c pr) p = []" if "snap_matches now a c pr"
    using that by (simp add: filter_empty_conv)
  with IH show ?case by auto
qed simp

lemma overlap_none_disjoint:
  assumes "policy_ok p" "canonical h" "hold_Active now h"
  shows "(\<exists>s\<in>set p. HoldsOverlap now (snap_hold s) h)
    \<longleftrightarrow> (\<exists>s\<in>set (filter (snap_active now) p). \<not> disjoint_holds (snap_hold s) h)"
  using assms
  by (auto simp: HoldsOverlap_iff canonical_snap_hold policy_ok_def active_snap_hold disjoint_holds_def)

lemma match_append_iff:
  assumes "canonical h" "hold_Active now h"
  shows "(\<exists>s\<in>set (filter (snap_active now) p @ [fst (snapHold seq h)]). snap_matches now s c pr)
    \<longleftrightarrow> (\<exists>s\<in>set p. snap_matches now s c pr) \<or> (covers_client h c \<and> covers_provider h pr)"
  using assms by (auto simp: snap_matches_snapHold dest: snap_matches_active)

text \<open>
  The common tail of the two additions: appending \<open>h\<close> to the active part of a disjoint
  policy none of whose active holds overlaps it.
\<close>

lemma commitAppendedHolds_ok:
  assumes ok: "policy_ok p" and wf: "\<forall>s\<in>set cur. snap_wf s" and h: "canonical h" "hold_Active now h"
    and none: "\<not> (\<exists>s\<in>set p. HoldsOverlap now (snap_hold s) h)"
    and res: "fst (commitAppendedHolds now seq cur (map snap_hold p) h) = Inr (ch, p')"
  shows "policy_ok p'"
    and "(\<exists>s\<in>set p'. snap_matches now s c pr) \<longleftrightarrow>
          (\<exists>s\<in>set p. snap_matches now s c pr) \<or> (covers_client h c \<and> covers_provider h pr)"
    and "p' = filter (snap_active now) p @ [fst (snapHold seq h)]"
    and "ch \<longleftrightarrow> p' \<noteq> cur"
proof -
  let ?p = "filter (snap_active now) p @ [fst (snapHold seq h)]"
  have "fst (snapFromHolds now seq (map snap_hold p @ [h])) = ?p"
    using ok h by (simp add: snapFromHolds_append policy_ok_def case_prod_beta Let_def)
  then have res': "(ch, p') = commitPolicy cur ?p"
    using res by (auto simp: commitAppendedHolds_def case_prod_beta)
  have okp: "policy_ok ?p"
    using none overlap_none_disjoint [OF ok h]
    by (intro policy_ok_snoc policy_ok_filter ok h) auto
  have eq: "snapEqual cur ?p \<longleftrightarrow> cur = ?p"
    using wf okp by (intro snapEqual_iff) (simp_all add: policy_ok_def)
  show p': "p' = ?p" and "ch \<longleftrightarrow> p' \<noteq> cur"
    using res' eq by (auto simp: commitPolicy_def split: if_splits)
  show "policy_ok p'" using okp p' by simp
  show "(\<exists>s\<in>set p'. snap_matches now s c pr) \<longleftrightarrow>
          (\<exists>s\<in>set p. snap_matches now s c pr) \<or> (covers_client h c \<and> covers_provider h pr)"
    unfolding p' by (rule match_append_iff) (fact h)+
qed


section \<open>Properties\<close>

text \<open>
  C11. The overlap test is exact: two pause documents with non-blank names overlap at a time
  when both are active exactly if some client and provider are parked by the snapshots of
  both.
\<close>

theorem HoldsOverlap_exact:
  assumes "canonical a" "canonical b"
  shows "HoldsOverlap now a b \<longleftrightarrow>
    (\<exists>client provider. snap_matches now (fst (snapHold i a)) client provider
                     \<and> snap_matches now (fst (snapHold j b)) client provider)"
  using assms by (auto simp: HoldsOverlap_iff snap_matches_snapHold)

definition demo_hold :: "string \<Rightarrow> bool \<Rightarrow> string list \<Rightarrow> string list \<Rightarrow> string list \<Rightarrow> time \<Rightarrow> Hold" where
  "demo_hold i new cs ps known until =
     \<lparr>h_ID = i, h_All = False, h_New = new, h_Clients = cs, h_Providers = ps, h_KnownAtNew = known,
      h_Until = until, h_MaxQueued = 0\<rparr>"

theorem HoldsOverlap_exact_witness:
  "\<exists>client provider.
     snap_matches 5 (fst (snapHold 0 (demo_hold ''p1'' True [] [] [''ann''] 0))) client provider
   \<and> snap_matches 5 (fst (snapHold 0 (demo_hold ''p2'' False [''bob''] [''acme''] [] 9))) client provider"
proof -
  have "HoldsOverlap 5 (demo_hold ''p1'' True [] [] [''ann''] 0) (demo_hold ''p2'' False [''bob''] [''acme''] [] 9)"
    by code_simp
  then show ?thesis
    using HoldsOverlap_exact [of "demo_hold ''p1'' True [] [] [''ann''] 0"
        "demo_hold ''p2'' False [''bob''] [''acme''] [] 9" 5 0 0]
    by (simp add: canonical_def demo_hold_def)
qed

text \<open>
  C12. Adding an active pause to a policy of disjoint holds is refused exactly when it would
  park a request some hold already parks; otherwise the policy changes, parks exactly the
  requests it parked before and those the new pause covers, and stays disjoint: at any later
  time at most one hold is responsible for a request.
\<close>

theorem AddHold_keeps_one_owner:
  assumes "policy_ok cur" "canonical h" "hold_Active now h"
  shows "case fst (AddHold_policy now seq h cur) of
      Inl e \<Rightarrow> e = ErrOverlap
        \<and> (\<exists>c p. policy_match now cur c p \<noteq> None \<and> covers_client h c \<and> covers_provider h p)
    | Inr (changed, cur') \<Rightarrow> changed \<and> policy_ok cur'
        \<and> \<not> (\<exists>c p. policy_match now cur c p \<noteq> None \<and> covers_client h c \<and> covers_provider h p)
        \<and> (\<forall>c p. policy_match now cur' c p \<noteq> None \<longleftrightarrow>
              policy_match now cur c p \<noteq> None \<or> (covers_client h c \<and> covers_provider h p))
        \<and> (\<forall>t c p. length (filter (\<lambda>s. snap_matches t s c p) cur') \<le> 1)"
proof -
  define hs where "hs = (if h_ID h = [] then (h\<lparr>h_ID := fst (newHoldID seq)\<rparr>, snd (newHoldID seq)) else (h, seq))"
  define h' s' where "h' = fst hs" and "s' = snd hs"
  have h': "canonical h'" "hold_Active now h'" "covers_client h' = covers_client h" "covers_provider h' = covers_provider h"
    using assms by (simp_all add: h'_def hs_def canonical_def hold_Active_def covers_client_def covers_provider_def
        fun_eq_iff split: if_splits)
  let ?p = "filter (snap_active now) cur"
  have okp: "policy_ok ?p" using assms by (simp add: policy_ok_filter)
  have step: "AddHold_policy now seq h cur =
      (if \<exists>c\<in>set (policy_list now cur). HoldsOverlap now c h' then (Inl ErrOverlap, s')
       else commitAppendedHolds now s' cur (policy_list now cur) h')"
    using assms by (simp add: AddHold_policy_def h'_def s'_def hs_def case_prod_beta Let_def) blast
  have ov: "(\<exists>c\<in>set (policy_list now cur). HoldsOverlap now c h')
      \<longleftrightarrow> (\<exists>c p. policy_match now cur c p \<noteq> None \<and> covers_client h c \<and> covers_provider h p)"
  proof -
    have "(\<exists>c\<in>set (policy_list now cur). HoldsOverlap now c h') \<longleftrightarrow> (\<exists>s\<in>set ?p. \<not> disjoint_holds (snap_hold s) h')"
      using overlap_none_disjoint [OF okp h'(1,2)] by (simp add: policy_list_def)
    also have "\<dots> \<longleftrightarrow> (\<exists>c p. (\<exists>s\<in>set cur. snap_matches now s c p) \<and> covers_client h c \<and> covers_provider h p)"
      using assms h' by (auto simp: disjoint_holds_def snap_matches_covers policy_ok_def)
    finally show ?thesis by (simp only: policy_match_iff)
  qed
  show ?thesis
  proof (cases "\<exists>c\<in>set (policy_list now cur). HoldsOverlap now c h'")
    case True
    with ov show ?thesis unfolding step by simp
  next
    case False
    obtain ch cur' where res: "fst (commitAppendedHolds now s' cur (map snap_hold ?p) h') = Inr (ch, cur')"
      by (cases "fst (commitAppendedHolds now s' cur (map snap_hold ?p) h')")
         (auto simp: commitAppendedHolds_def case_prod_beta)
    have wf: "\<forall>s\<in>set cur. snap_wf s" using assms by (simp add: policy_ok_def)
    have none: "\<not> (\<exists>s\<in>set ?p. HoldsOverlap now (snap_hold s) h')" using False by (simp add: policy_list_def)
    note tail = commitAppendedHolds_ok [OF okp wf h'(1,2) none res]
    have "length ?p < length cur \<or> ?p = cur"
      by (metis filter_id_conv length_filter_less)
    then have "cur' \<noteq> cur"
      using tail(3) snap_active_snapHold [OF h'(1), of now s'] h'(2)
      by (auto dest: arg_cong [where f = "filter (snap_active now)"] arg_cong [where f = length])
    moreover have "fst (AddHold_policy now seq h cur) = Inr (ch, cur')"
      unfolding step using False res by (simp add: policy_list_def)
    moreover have "policy_match now cur' c p \<noteq> None \<longleftrightarrow>
        policy_match now cur c p \<noteq> None \<or> (covers_client h c \<and> covers_provider h p)" for c p
      using tail(2) [of c p] h' unfolding policy_match_iff by (auto dest: snap_matches_active)
    ultimately show ?thesis
      using tail(1,4) ov False policy_ok_at_most_one [OF tail(1)] by simp
  qed
qed

theorem AddHold_keeps_one_owner_witness:
  "fst (AddHold_policy 5 0 (demo_hold [] False [''bob''] [] [] 0) []) \<noteq> Inl ErrOverlap
   \<and> (case fst (AddHold_policy 5 0 (demo_hold [] False [''bob''] [] [] 0) []) of
        Inl e \<Rightarrow> False | Inr (changed, cur') \<Rightarrow> changed \<and> policy_ok cur')"
  using AddHold_keeps_one_owner [of "[]" "demo_hold [] False [''bob''] [] [] 0" 5 0]
  by (auto simp: policy_ok_def canonical_def demo_hold_def hold_Active_def holdExpired_def split: sum.splits prod.splits)

text \<open>
  C13. Replacing a pause keeps the policy disjoint, fails with \<^verbatim>\<open>ErrHoldNotFound\<close> exactly for an
  unknown identifier and with \<^verbatim>\<open>ErrOverlap\<close> exactly when another hold already parks a request
  of the new scope, and otherwise parks exactly what the other holds park and what the new
  document covers.
\<close>

theorem ReplaceHold_in_place:
  assumes "policy_ok cur" "canonical h" "hold_Active now h" "h_ID h \<noteq> []"
  defines "others \<equiv> filter (\<lambda>s. hs_id s \<noteq> h_ID h) cur"
  shows "case fst (ReplaceHold_policy now seq h cur) of
      Inl ErrHoldNotFound \<Rightarrow> h_ID h \<notin> hs_id ` set cur
    | Inl ErrOverlap \<Rightarrow> h_ID h \<in> hs_id ` set cur
        \<and> (\<exists>c p. policy_match now others c p \<noteq> None \<and> covers_client h c \<and> covers_provider h p)
    | Inr (changed, cur') \<Rightarrow> policy_ok cur' \<and> (changed \<longleftrightarrow> cur' \<noteq> cur)
        \<and> h_ID h \<in> hs_id ` set cur
        \<and> (\<forall>c p. policy_match now cur' c p \<noteq> None \<longleftrightarrow>
              policy_match now others c p \<noteq> None \<or> (covers_client h c \<and> covers_provider h p))"
proof -
  have oko: "policy_ok others" using assms by (simp add: policy_ok_filter)
  have found: "(\<exists>s\<in>set cur. hs_id s = h_ID h) \<longleftrightarrow> h_ID h \<in> hs_id ` set cur"
    by (metis imageE rev_image_eqI)
  have step: "ReplaceHold_policy now seq h cur =
     (if h_ID h \<notin> hs_id ` set cur then (Inl ErrHoldNotFound, seq)
      else if \<exists>s\<in>set others. HoldsOverlap now (snap_hold s) h then (Inl ErrOverlap, seq)
      else commitAppendedHolds now seq cur (map snap_hold others) h)"
    using assms(2-4) found by (simp add: ReplaceHold_policy_def holdsWithoutID_eq others_def) blast
  have ov: "(\<exists>s\<in>set others. HoldsOverlap now (snap_hold s) h)
      \<longleftrightarrow> (\<exists>c p. policy_match now others c p \<noteq> None \<and> covers_client h c \<and> covers_provider h p)"
  proof -
    have "(\<exists>s\<in>set others. HoldsOverlap now (snap_hold s) h)
        \<longleftrightarrow> (\<exists>s\<in>set (filter (snap_active now) others). \<not> disjoint_holds (snap_hold s) h)"
      by (rule overlap_none_disjoint [OF oko assms(2,3)])
    also have "\<dots> \<longleftrightarrow> (\<exists>c p. (\<exists>s\<in>set others. snap_matches now s c p) \<and> covers_client h c \<and> covers_provider h p)"
      using oko by (auto simp: disjoint_holds_def snap_matches_covers policy_ok_def)
    finally show ?thesis by (simp only: policy_match_iff)
  qed
  show ?thesis
  proof (cases "h_ID h \<in> hs_id ` set cur \<and> \<not> (\<exists>s\<in>set others. HoldsOverlap now (snap_hold s) h)")
    case True
    obtain ch cur' where res: "fst (commitAppendedHolds now seq cur (map snap_hold others) h) = Inr (ch, cur')"
      by (cases "fst (commitAppendedHolds now seq cur (map snap_hold others) h)")
         (auto simp: commitAppendedHolds_def case_prod_beta)
    have wf: "\<forall>s\<in>set cur. snap_wf s" using assms by (simp add: policy_ok_def)
    note tail = commitAppendedHolds_ok [OF oko wf assms(2,3) conjunct2 [OF True] res]
    have "fst (ReplaceHold_policy now seq h cur) = Inr (ch, cur')"
      using step res True by simp
    moreover have "policy_match now cur' c p \<noteq> None \<longleftrightarrow>
        policy_match now others c p \<noteq> None \<or> (covers_client h c \<and> covers_provider h p)" for c p
      using tail(2) [of c p] unfolding policy_match_iff .
    ultimately show ?thesis using tail(1,4) True by simp
  next
    case False
    show ?thesis
    proof (cases "h_ID h \<in> hs_id ` set cur")
      case True
      with False have o: "\<exists>s\<in>set others. HoldsOverlap now (snap_hold s) h" by blast
      with True step have "fst (ReplaceHold_policy now seq h cur) = Inl ErrOverlap" by simp
      with True ov o show ?thesis by simp
    qed (simp add: step)
  qed
qed

theorem ReplaceHold_in_place_witness:
  "case fst (ReplaceHold_policy 5 0 (demo_hold ''p1'' False [''eve''] [] [] 0)
           [fst (snapHold 0 (demo_hold ''p1'' False [''bob''] [] [] 0))]) of
     Inr (changed, cur') \<Rightarrow> policy_ok cur' \<and> policy_match 5 cur' ''eve'' [] \<noteq> None \<and> policy_match 5 cur' ''bob'' [] = None
   | Inl e \<Rightarrow> False"
proof -
  let ?h = "demo_hold ''p1'' False [''eve''] [] [] 0"
  let ?c = "[fst (snapHold 0 (demo_hold ''p1'' False [''bob''] [] [] 0))]"
  have "policy_ok ?c" "canonical ?h" "hold_Active 5 ?h" "h_ID ?h \<noteq> []"
    by (simp_all add: policy_ok_def snapHold_wf snapHold_nonblank_id canonical_def demo_hold_def
        hold_Active_def holdExpired_def)
  note ok = ReplaceHold_in_place [OF this, of 0]
  have res: "fst (ReplaceHold_policy 5 0 ?h ?c) = Inr (True, [fst (snapHold 0 ?h)])" by code_simp
  have m: "policy_match 5 [fst (snapHold 0 ?h)] ''eve'' [] \<noteq> None"
    "policy_match 5 [fst (snapHold 0 ?h)] ''bob'' [] = None" by code_simp+
  from ok m show ?thesis unfolding res by simp
qed

end
