(* ===== verification/Hold_Queue.thy ===== *)
theory Hold_Queue
  imports Hold Provider_Gate
begin

text \<open>
  Attribution of parked waiters to holds (\<^verbatim>\<open>internal/scheduler/hold.go\<close>, second half): the
  waiter, the per-hold count of parked waiters, the callbacks of a waiter that starts and
  stops being held, and the seeding of waiters already queued when a hold is added.

  Every critical section of \<^verbatim>\<open>holdCountMu\<close> is one function; the interleaving of these
  sections by the waiters' own loops, the seeding scan and the policy writers is the step
  relation \<open>hold_step\<close>. A callback that may be nil is a flag of the waiter, and calling it
  appends to the log. The count map is a total function with Go's default \<open>0\<close>.
\<close>

section \<open>The waiter and its counts\<close>

datatype hook = OnWait | OnHold | OnUnhold | OnThrottle | OnUnthrottle

text \<open>
  \<^verbatim>\<open>w_granted\<close> is the one-element buffer of the grant channel. The context of the request is
  not a field: whether it is done is an argument of the operations that ask.
\<close>

record waiter =
  w_granted :: bool
  w_enqueued :: time
  w_pausedAt :: time
  w_client :: string
  w_provider :: string
  w_model :: string
  w_drainSeq :: nat
  w_holdID :: string
  w_holding :: bool
  w_onHold :: bool
  w_onUnhold :: bool
  w_estTokens :: int
  w_admission :: admission

type_synonym holdCounts = "string \<Rightarrow> int"

definition moveHoldCount :: "holdSnap \<Rightarrow> holdCounts \<Rightarrow> waiter \<Rightarrow> holdCounts \<times> waiter" where
  "moveHoldCount h c w =
     (if w_holdID w = hs_id h then (c, w)
      else
        let c1 = (if w_holdID w \<noteq> [] \<and> c (w_holdID w) > 0 then c(w_holdID w := c (w_holdID w) - 1) else c);
            c2 = c1(hs_id h := c1 (hs_id h) + 1)
        in (c2, w\<lparr>w_holdID := hs_id h\<rparr>))"

definition clearHoldCount :: "holdCounts \<Rightarrow> waiter \<Rightarrow> holdCounts \<times> waiter" where
  "clearHoldCount c w =
     (if w_holdID w = [] then (c, w)
      else
        let c1 = (if c (w_holdID w) > 0 then c(w_holdID w := c (w_holdID w) - 1) else c)
        in (c1, w\<lparr>w_holdID := []\<rparr>))"

definition reserveHold :: "holdSnap \<Rightarrow> holdCounts \<Rightarrow> waiter \<Rightarrow> bool \<times> holdCounts \<times> waiter" where
  "reserveHold h c w =
     (if w_holdID w = hs_id h then (True, c, w)
      else if hs_maxQueued h > 0 \<and> c (hs_id h) \<ge> hs_maxQueued h then (False, c, w)
      else (True, moveHoldCount h c w))"

definition fireHold :: "waiter \<Rightarrow> waiter \<times> hook list" where
  "fireHold w =
     (if \<not> w_holding w then (w\<lparr>w_holding := True\<rparr>, if w_onHold w then [OnHold] else []) else (w, []))"

definition fireUnhold :: "waiter \<Rightarrow> waiter \<times> hook list" where
  "fireUnhold w =
     (if w_holding w then (w\<lparr>w_holding := False\<rparr>, if w_onUnhold w then [OnUnhold] else []) else (w, []))"

definition dropHold :: "holdCounts \<Rightarrow> waiter \<Rightarrow> holdCounts \<times> waiter \<times> hook list" where
  "dropHold c w = (let (c1, w1) = clearHoldCount c w; (w2, ev) = fireUnhold w1 in (c1, w2, ev))"

definition adoptHold :: "holdSnap option \<Rightarrow> holdCounts \<Rightarrow> waiter \<Rightarrow> holdCounts \<times> waiter \<times> hook list" where
  "adoptHold oh c w =
     (case oh of
        None \<Rightarrow> dropHold c w
      | Some h \<Rightarrow> let (c1, w1) = moveHoldCount h c w; (w2, ev) = fireHold w1 in (c1, w2, ev))"

definition syncUnhold :: "time \<Rightarrow> policySnap \<Rightarrow> holdCounts \<Rightarrow> waiter \<Rightarrow> bool \<times> holdCounts \<times> waiter \<times> hook list" where
  "syncUnhold now p c w =
     (case policy_match now p (w_client w) (w_provider w) of
        Some h \<Rightarrow> let (c1, w1) = moveHoldCount h c w; (w2, ev) = fireHold w1 in (True, c1, w2, ev)
      | None \<Rightarrow> let (c1, w1) = clearHoldCount c w; (w2, ev) = fireUnhold w1 in (False, c1, w2, ev))"

definition pruneHoldCounts :: "policySnap \<Rightarrow> holdCounts \<Rightarrow> holdCounts" where
  "pruneHoldCounts nxt c = (\<lambda>i. if i \<in> hs_id ` set nxt then c i else 0)"

text \<open>
  The body of the seeding scan for one queued waiter; the last component is the hold of a
  deferred \<^verbatim>\<open>OnHold\<close>, which \<open>fireSeededHold\<close> delivers after the scan.
\<close>

definition seedQueuedHold ::
  "time \<Rightarrow> policySnap \<Rightarrow> holdCounts \<Rightarrow> waiter \<Rightarrow> holdCounts \<times> waiter \<times> holdSnap option" where
  "seedQueuedHold now p c w =
     (case policy_match now p (w_client w) (w_provider w) of
        None \<Rightarrow> (case clearHoldCount c w of (c1, w1) \<Rightarrow> (c1, w1, None))
      | Some h \<Rightarrow>
          (case moveHoldCount h c w of (c1, w1) \<Rightarrow>
             if \<not> w_holding w1
             then (c1, w1\<lparr>w_holding := True\<rparr>, if w_onHold w1 then Some h else None)
             else (c1, w1, None)))"

definition fireSeededHold :: "holdSnap \<Rightarrow> waiter \<Rightarrow> hook list" where
  "fireSeededHold h w = (if w_holding w \<and> w_holdID w = hs_id h \<and> w_onHold w then [OnHold] else [])"

definition HoldQueued :: "string \<Rightarrow> holdCounts \<Rightarrow> int" where
  "HoldQueued i c = (if i = [] then 0 else c i)"

lemma waiter_static [simp]:
  "w_onHold (snd (moveHoldCount h c w)) = w_onHold w" "w_onUnhold (snd (moveHoldCount h c w)) = w_onUnhold w"
  "w_holding (snd (moveHoldCount h c w)) = w_holding w" "w_holdID (snd (moveHoldCount h c w)) = hs_id h"
  "w_onHold (snd (clearHoldCount c w)) = w_onHold w" "w_onUnhold (snd (clearHoldCount c w)) = w_onUnhold w"
  "w_holding (snd (clearHoldCount c w)) = w_holding w" "w_holdID (snd (clearHoldCount c w)) = []"
  by (simp_all add: moveHoldCount_def clearHoldCount_def Let_def)


section \<open>Interleaved attribution\<close>

record holdSys =
  sys_policy :: policySnap
  sys_count :: holdCounts
  sys_live :: "nat list"
  sys_w :: "nat \<Rightarrow> waiter"
  sys_fire :: "(nat \<times> holdSnap) list"
  sys_log :: "(nat \<times> hook) list"
  sys_prunes :: "policySnap list"

definition carriers :: "(nat \<Rightarrow> waiter) \<Rightarrow> nat list \<Rightarrow> string \<Rightarrow> nat list" where
  "carriers f ids i = filter (\<lambda>j. w_holdID (f j) = i) ids"

text \<open>Writing back one waiter with the counts and the callbacks it fired.\<close>

definition put_waiter :: "nat \<Rightarrow> holdCounts \<Rightarrow> waiter \<Rightarrow> hook list \<Rightarrow> holdSys \<Rightarrow> holdSys" where
  "put_waiter j c w ev s =
     s\<lparr>sys_count := c, sys_w := (sys_w s)(j := w), sys_log := sys_log s @ map (Pair j) ev\<rparr>"

text \<open>
  Steps. \<open>prompt\<close> restricts the schedule to those in which a deferred \<^verbatim>\<open>OnHold\<close> is delivered
  before the next transition of the same waiter; the code does not enforce it. A policy
  writer publishes its snapshot under the policy lock, releases the lock, and only then prunes
  the counts and seeds: \<open>sys_prunes\<close> are the snapshots that are published and not yet pruned
  for, by any number of writers. An adopted hold may stem from a policy that is no longer the
  current one.
\<close>

inductive hold_step :: "bool \<Rightarrow> holdSys \<Rightarrow> holdSys \<Rightarrow> bool" for prompt where
  enqueue: "\<lbrakk> j \<notin> set (sys_live s); j \<notin> fst ` set (sys_fire s); j \<notin> fst ` set (sys_log s);
     w_holdID w = []; \<not> w_holding w \<rbrakk>
   \<Longrightarrow> hold_step prompt s ((put_waiter j (sys_count s) w [] s)\<lparr>sys_live := j # sys_live s\<rparr>)"
| enqueue_held: "\<lbrakk> j \<notin> set (sys_live s); j \<notin> fst ` set (sys_fire s); j \<notin> fst ` set (sys_log s);
     w_holdID w = []; \<not> w_holding w; hs_id h \<noteq> []; reserveHold h (sys_count s) w = (True, c, w') \<rbrakk>
   \<Longrightarrow> hold_step prompt s ((put_waiter j c w' [] s)\<lparr>sys_live := j # sys_live s\<rparr>)"
| adopt: "\<lbrakk> j \<in> set (sys_live s); prompt \<longrightarrow> j \<notin> fst ` set (sys_fire s); \<forall>h. oh = Some h \<longrightarrow> hs_id h \<noteq> [];
     adoptHold oh (sys_count s) (sys_w s j) = (c, w, ev) \<rbrakk>
   \<Longrightarrow> hold_step prompt s (put_waiter j c w ev s)"
| sync: "\<lbrakk> j \<in> set (sys_live s); prompt \<longrightarrow> j \<notin> fst ` set (sys_fire s);
     syncUnhold now (sys_policy s) (sys_count s) (sys_w s j) = (b, c, w, ev) \<rbrakk>
   \<Longrightarrow> hold_step prompt s (put_waiter j c w ev s)"
| depart: "\<lbrakk> j \<in> set (sys_live s); prompt \<longrightarrow> j \<notin> fst ` set (sys_fire s);
     dropHold (sys_count s) (sys_w s j) = (c, w, ev) \<rbrakk>
   \<Longrightarrow> hold_step prompt s ((put_waiter j c w ev s)\<lparr>sys_live := remove1 j (sys_live s)\<rparr>)"
| seed: "\<lbrakk> j \<in> set (sys_live s); prompt \<longrightarrow> j \<notin> fst ` set (sys_fire s);
     seedQueuedHold now (sys_policy s) (sys_count s) (sys_w s j) = (c, w, oh) \<rbrakk>
   \<Longrightarrow> hold_step prompt s ((put_waiter j c w [] s)
         \<lparr>sys_fire := sys_fire s @ (case oh of None \<Rightarrow> [] | Some h \<Rightarrow> [(j, h)])\<rparr>)"
| dispatch: "sys_fire s = xs @ (j, h) # ys
   \<Longrightarrow> hold_step prompt s ((put_waiter j (sys_count s) (sys_w s j) (fireSeededHold h (sys_w s j)) s)\<lparr>sys_fire := xs @ ys\<rparr>)"
| commit: "\<lbrakk> \<forall>h\<in>set p. hs_id h \<noteq> []; commitPolicy (sys_policy s) p = (True, p') \<rbrakk>
   \<Longrightarrow> hold_step prompt s (s\<lparr>sys_policy := p', sys_prunes := sys_prunes s @ [p']\<rparr>)"
| prune: "sys_prunes s = xs @ p # ys
   \<Longrightarrow> hold_step prompt s (s\<lparr>sys_count := pruneHoldCounts p (sys_count s), sys_prunes := xs @ ys\<rparr>)"

definition zero_waiter :: waiter where
  "zero_waiter = \<lparr>w_granted = False, w_enqueued = 0, w_pausedAt = 0, w_client = [], w_provider = [],
     w_model = [], w_drainSeq = 0, w_holdID = [], w_holding = False, w_onHold = True, w_onUnhold = True,
     w_estTokens = 0, w_admission = no_admission\<rparr>"

definition init_holds :: holdSys where
  "init_holds = \<lparr>sys_policy = [], sys_count = (\<lambda>_. 0), sys_live = [], sys_w = (\<lambda>_. zero_waiter),
     sys_fire = [], sys_log = [], sys_prunes = []\<rparr>"

inductive hold_reach :: "bool \<Rightarrow> holdSys \<Rightarrow> bool" for prompt where
  init: "hold_reach prompt init_holds"
| step: "hold_reach prompt s \<Longrightarrow> hold_step prompt s s' \<Longrightarrow> hold_reach prompt s'"


section \<open>The counts\<close>

text \<open>What every attribution does to the counts, whatever the branch it takes.\<close>

definition recounts :: "holdCounts \<Rightarrow> waiter \<Rightarrow> holdCounts \<Rightarrow> waiter \<Rightarrow> bool" where
  "recounts c w c' w' \<longleftrightarrow> (\<forall>i. i \<noteq> [] \<longrightarrow>
     c' i = c i - (if w_holdID w = i \<and> w_holdID w' \<noteq> i \<and> 0 < c i then 1 else 0)
              + (if w_holdID w \<noteq> i \<and> w_holdID w' = i then 1 else 0))"

lemma recounts_move: "moveHoldCount h c w = (c', w') \<Longrightarrow> recounts c w c' w'"
  by (auto simp: moveHoldCount_def recounts_def Let_def split: if_splits)

lemma recounts_clear: "clearHoldCount c w = (c', w') \<Longrightarrow> recounts c w c' w'"
  by (auto simp: clearHoldCount_def recounts_def Let_def split: if_splits)

lemma recounts_holding [simp]: "recounts c w c' (w'\<lparr>w_holding := b\<rparr>) = recounts c w c' w'"
  by (simp add: recounts_def)

lemma recounts_fire:
  "fireHold w' = (w'', ev) \<Longrightarrow> recounts c w c' w'' = recounts c w c' w'"
  "fireUnhold w' = (w'', ev) \<Longrightarrow> recounts c w c' w'' = recounts c w c' w'"
  by (auto simp: fireHold_def fireUnhold_def split: if_splits)

lemma recounts_refl [simp]: "recounts c w c w"
  by (simp add: recounts_def)

lemma recounts_pairs [simp]:
  "recounts c w (fst (moveHoldCount h c w)) (snd (moveHoldCount h c w))"
  "recounts c w (fst (clearHoldCount c w)) (snd (clearHoldCount c w))"
  by (simp_all add: recounts_move recounts_clear)

lemma recounts_drop: "dropHold c w = (c', w', ev) \<Longrightarrow> recounts c w c' w' \<and> w_holdID w' = []"
  by (auto simp: dropHold_def case_prod_beta Let_def recounts_fire prod_eq_iff [of _ "(w', ev)"]
      fireUnhold_def split: if_splits)

lemma recounts_adopt: "adoptHold oh c w = (c', w', ev) \<Longrightarrow> recounts c w c' w'"
  by (auto simp: adoptHold_def case_prod_beta Let_def recounts_fire recounts_drop split: option.splits)

lemma recounts_sync: "syncUnhold now p c w = (b, c', w', ev) \<Longrightarrow> recounts c w c' w'"
  by (auto simp: syncUnhold_def case_prod_beta Let_def recounts_fire split: option.splits)

lemma recounts_seed: "seedQueuedHold now p c w = (c', w', oh) \<Longrightarrow> recounts c w c' w'"
  by (auto simp: seedQueuedHold_def intro: recounts_move recounts_clear split: option.splits prod.splits if_splits)

lemma recounts_reserve: "reserveHold h c w = (True, c', w') \<Longrightarrow> recounts c w c' w'"
  by (auto simp: reserveHold_def intro: recounts_move split: if_splits)

text \<open>
  The count of hold \<open>i\<close> against the waiters that carry it: never more than these, and exactly
  these when \<open>exact\<close>.
\<close>

definition counted :: "bool \<Rightarrow> string \<Rightarrow> holdCounts \<Rightarrow> (nat \<Rightarrow> waiter) \<Rightarrow> nat list \<Rightarrow> bool" where
  "counted exact i c f ids \<longleftrightarrow> 0 \<le> c i \<and> c i \<le> int (length (carriers f ids i))
     \<and> (exact \<longrightarrow> c i = int (length (carriers f ids i)))"

lemma carriers_upd:
  assumes "j \<in> set ids" "distinct ids"
  shows "int (length (carriers (f(j := w)) ids i)) = int (length (carriers f ids i))
    - (if w_holdID (f j) = i then 1 else 0) + (if w_holdID w = i then 1 else 0)"
proof -
  obtain xs ys where ids: "ids = xs @ j # ys" using split_list [OF assms(1)] by blast
  have "filter (\<lambda>k. w_holdID ((f(j := w)) k) = i) zs = filter (\<lambda>k. w_holdID (f k) = i) zs"
    if "j \<notin> set zs" for zs using that by (intro filter_cong) auto
  with assms ids show ?thesis by (simp add: carriers_def)
qed

lemma carriers_Cons_upd:
  "j \<notin> set ids \<Longrightarrow> int (length (carriers (f(j := w)) (j # ids) i))
     = int (length (carriers f ids i)) + (if w_holdID w = i then 1 else 0)"
proof -
  assume "j \<notin> set ids"
  then have "filter (\<lambda>k. w_holdID ((f(j := w)) k) = i) ids = filter (\<lambda>k. w_holdID (f k) = i) ids"
    by (intro filter_cong) auto
  then show ?thesis by (simp add: carriers_def)
qed

lemma recount_arith:
  fixes c n c' n' :: int
  assumes "0 \<le> c \<and> c \<le> n \<and> (exact \<longrightarrow> c = n)" "A \<longrightarrow> 0 < n"
    and "n' = n - (if A then 1 else 0) + (if B then 1 else 0)"
    and "c' = c - (if A \<and> \<not> B \<and> 0 < c then 1 else 0) + (if \<not> A \<and> B then 1 else 0)"
  shows "0 \<le> c' \<and> c' \<le> n' \<and> (exact \<longrightarrow> c' = n')"
  using assms by (cases A; cases B) auto

lemma counted_upd:
  assumes "counted exact i c f ids" "recounts c (f j) c' w" "j \<in> set ids" "distinct ids" "i \<noteq> []"
  shows "counted exact i c' (f(j := w)) ids"
proof -
  have "w_holdID (f j) = i \<longrightarrow> 0 < int (length (carriers f ids i))"
    using assms(3) by (auto simp: carriers_def filter_empty_conv)
  with assms(1) [unfolded counted_def] show ?thesis
    unfolding counted_def
    using carriers_upd [OF assms(3,4), of f w i] assms(2) [unfolded recounts_def, rule_format, OF assms(5)]
    by (rule recount_arith)
qed

lemma counted_Cons:
  assumes "counted exact i c f ids" "recounts c w0 c' w" "w_holdID w0 = []" "j \<notin> set ids" "i \<noteq> []"
  shows "counted exact i c' (f(j := w)) (j # ids)"
proof -
  have n: "int (length (carriers (f(j := w)) (j # ids) i))
      = int (length (carriers f ids i)) - (if w_holdID w0 = i then 1 else 0) + (if w_holdID w = i then 1 else 0)"
    using carriers_Cons_upd [OF assms(4), of f w i] assms(3,5) by simp
  have pos: "w_holdID w0 = i \<longrightarrow> 0 < int (length (carriers f ids i))" using assms(3,5) by simp
  show ?thesis
    unfolding counted_def
    by (rule recount_arith [OF assms(1) [unfolded counted_def] pos n
          assms(2) [unfolded recounts_def, rule_format, OF assms(5)]])
qed

lemma counted_remove1:
  assumes "counted exact i c f ids" "w_holdID (f j) = []" "i \<noteq> []"
  shows "counted exact i c f (remove1 j ids)"
proof -
  have "carriers f (remove1 j ids) i = carriers f ids i"
    using assms(2,3) by (simp add: carriers_def filter_remove1 remove1_idem)
  with assms(1) show ?thesis by (simp add: counted_def)
qed

lemma counted_prune:
  "counted exact i c f ids \<Longrightarrow> exact \<longrightarrow> i \<in> hs_id ` set p \<Longrightarrow> counted exact i (pruneHoldCounts p c) f ids"
  by (auto simp: counted_def pruneHoldCounts_def)

text \<open>
  With \<open>exact\<close>, every snapshot still to be pruned for has the hold.
\<close>

definition hold_inv :: "bool \<Rightarrow> string \<Rightarrow> holdSys \<Rightarrow> bool" where
  "hold_inv exact i s \<longleftrightarrow> distinct (sys_live s)
     \<and> counted exact i (sys_count s) (sys_w s) (sys_live s)
     \<and> (exact \<longrightarrow> (\<forall>p\<in>set (sys_prunes s). i \<in> hs_id ` set p))"


section \<open>The callbacks\<close>

definition hooks_of :: "nat \<Rightarrow> (nat \<times> hook) list \<Rightarrow> hook list" where
  "hooks_of j es = map snd (filter (\<lambda>e. fst e = j) es)"

lemma hooks_of_append [simp]: "hooks_of j (xs @ ys) = hooks_of j xs @ hooks_of j ys"
  by (simp add: hooks_of_def)

lemma hooks_of_simps [simp]:
  "hooks_of j [] = []" "hooks_of j ((k, e) # es) = (if k = j then e # hooks_of j es else hooks_of j es)"
  by (simp_all add: hooks_of_def)

lemma hooks_of_map [simp]: "hooks_of j (map (Pair k) ev) = (if j = k then ev else [])"
  by (auto simp: hooks_of_def filter_map comp_def)

lemma hooks_of_fresh: "j \<notin> fst ` set es \<Longrightarrow> hooks_of j es = []"
  by (force simp: hooks_of_def filter_empty_conv)

text \<open>
  An edge: the callbacks a transition of a waiter fires, by the flag before and after it.
\<close>

definition edge :: "waiter \<Rightarrow> waiter \<Rightarrow> hook list \<Rightarrow> bool" where
  "edge w w' ev \<longleftrightarrow> w_onHold w' = w_onHold w \<and> w_onUnhold w' = w_onUnhold w
     \<and> (if w_holding w' = w_holding w then ev = []
        else if w_holding w' then ev = (if w_onHold w then [OnHold] else [])
        else ev = (if w_onUnhold w then [OnUnhold] else []))"

lemma edge_fire:
  "edge w (fst (fireHold w)) (snd (fireHold w))" "edge w (fst (fireUnhold w)) (snd (fireUnhold w))"
  by (auto simp: fireHold_def fireUnhold_def edge_def)

lemma edge_static:
  assumes "edge w1 w' ev" "w_onHold w1 = w_onHold w" "w_onUnhold w1 = w_onUnhold w" "w_holding w1 = w_holding w"
  shows "edge w w' ev"
  using assms by (simp add: edge_def split: if_splits)

lemma edge_after:
  "fireHold (snd (moveHoldCount h c w)) = (w', ev) \<Longrightarrow> edge w w' ev"
  "fireUnhold (snd (clearHoldCount c w)) = (w', ev) \<Longrightarrow> edge w w' ev \<and> \<not> w_holding w'"
  using edge_static [OF edge_fire(1) [of "snd (moveHoldCount h c w)"], of w]
    edge_static [OF edge_fire(2) [of "snd (clearHoldCount c w)"], of w]
  by (simp_all, auto simp: fireUnhold_def split: if_splits)

lemma edge_transitions:
  "dropHold c w = (c', w', ev) \<Longrightarrow> edge w w' ev \<and> \<not> w_holding w'"
  "adoptHold oh c w = (c', w', ev) \<Longrightarrow> edge w w' ev"
  "syncUnhold now p c w = (b, c', w', ev) \<Longrightarrow> edge w w' ev"
  by (auto simp: adoptHold_def dropHold_def syncUnhold_def case_prod_beta Let_def
      dest: edge_after split: option.splits)

lemma seed_cases:
  assumes "seedQueuedHold now p c w = (c', w', oh)"
  shows "(oh = None \<and> w_holding w' = (w_holding w \<or> (w_holding w' \<and> \<not> w_onHold w))
       \<or> (\<exists>h. oh = Some h \<and> \<not> w_holding w \<and> w_holding w' \<and> w_holdID w' = hs_id h \<and> w_onHold w))
     \<and> w_onHold w' = w_onHold w \<and> w_onUnhold w' = w_onUnhold w"
proof (cases "policy_match now p (w_client w) (w_provider w)")
  case None
  then show ?thesis using assms by (auto simp: seedQueuedHold_def case_prod_beta)
next
  case (Some h)
  show ?thesis
    using assms [unfolded seedQueuedHold_def Some] by (auto simp: case_prod_beta split: if_splits)
qed

text \<open>
  Whatever the schedule, a waiter that is not held has no \<^verbatim>\<open>OnHold\<close> outstanding.
\<close>

definition unheld_quiet :: "holdSys \<Rightarrow> bool" where
  "unheld_quiet s \<longleftrightarrow> (\<forall>j. \<not> w_holding (sys_w s j) \<and> w_onUnhold (sys_w s j) \<longrightarrow>
     hooks_of j (sys_log s) = [] \<or> last (hooks_of j (sys_log s)) = OnUnhold)"

lemma unheld_quiet_put:
  assumes "unheld_quiet s" "edge (sys_w s j) w ev"
  shows "unheld_quiet (put_waiter j c w ev s)"
  using assms by (auto simp: unheld_quiet_def put_waiter_def edge_def split: if_splits)

text \<open>
  When the deferred callback of the seeding scan is prompt, the callbacks of a waiter
  alternate, beginning with \<^verbatim>\<open>OnHold\<close>.
\<close>

definition alternating :: "hook list \<Rightarrow> bool" where
  "alternating es \<longleftrightarrow> (\<forall>i<length es. es ! i = (if even i then OnHold else OnUnhold))"

lemma alternating_Nil [simp]: "alternating []"
  by (simp add: alternating_def)

lemma alternating_snoc [simp]:
  "alternating (es @ [e]) \<longleftrightarrow> alternating es \<and> e = (if even (length es) then OnHold else OnUnhold)"
  by (auto simp: alternating_def nth_append less_Suc_eq)

definition pending_for :: "nat \<Rightarrow> holdSys \<Rightarrow> holdSnap list" where
  "pending_for j s = map snd (filter (\<lambda>e. fst e = j) (sys_fire s))"

definition bracketed :: "nat \<Rightarrow> holdSys \<Rightarrow> bool" where
  "bracketed j s \<longleftrightarrow> (w_onHold (sys_w s j) \<and> w_onUnhold (sys_w s j) \<longrightarrow>
     alternating (hooks_of j (sys_log s))
     \<and> (pending_for j s = [] \<and> w_holding (sys_w s j) = odd (length (hooks_of j (sys_log s)))
        \<or> (\<exists>h. pending_for j s = [h] \<and> w_holding (sys_w s j) \<and> w_holdID (sys_w s j) = hs_id h
             \<and> even (length (hooks_of j (sys_log s))))))"

lemma pending_none: "j \<notin> fst ` set (sys_fire s) \<Longrightarrow> pending_for j s = []"
  by (force simp: pending_for_def filter_empty_conv)

lemma pending_put [simp]: "pending_for j (put_waiter k c w ev s) = pending_for j s"
  by (simp add: pending_for_def put_waiter_def)

lemma bracketed_put:
  assumes "bracketed k s" "edge (sys_w s j) w ev" "j \<notin> fst ` set (sys_fire s)"
  shows "bracketed k (put_waiter j c w ev s)"
  using assms pending_none [OF assms(3)]
  by (cases "k = j") (auto simp: bracketed_def put_waiter_def edge_def pending_for_def split: if_splits)

lemma bracketed_frame [simp]:
  "bracketed k (s\<lparr>sys_live := l\<rparr>) = bracketed k s" "bracketed k (s\<lparr>sys_policy := p, sys_prunes := q\<rparr>) = bracketed k s"
  "bracketed k (s\<lparr>sys_count := c, sys_prunes := q\<rparr>) = bracketed k s"
  by (simp_all add: bracketed_def pending_for_def)

lemma bracketed_enqueue:
  assumes "bracketed k s" "j \<notin> fst ` set (sys_fire s)" "j \<notin> fst ` set (sys_log s)" "\<not> w_holding w"
  shows "bracketed k (put_waiter j c w [] s)"
  using assms pending_none [OF assms(2)] hooks_of_fresh [OF assms(3)]
  by (cases "k = j") (simp_all add: bracketed_def put_waiter_def pending_for_def)

lemma bracketed_seed:
  assumes "bracketed k s" "j \<notin> fst ` set (sys_fire s)"
    and "seedQueuedHold now (sys_policy s) (sys_count s) (sys_w s j) = (c, w, oh)"
  shows "bracketed k ((put_waiter j c w [] s)
         \<lparr>sys_fire := sys_fire s @ (case oh of None \<Rightarrow> [] | Some h \<Rightarrow> [(j, h)])\<rparr>)"
  using assms pending_none [OF assms(2)] seed_cases [OF assms(3)]
  by (cases "k = j") (auto simp: bracketed_def put_waiter_def pending_for_def split: option.splits)

lemma bracketed_dispatch:
  assumes "bracketed k s" "sys_fire s = xs @ (j, h) # ys"
  shows "bracketed k ((put_waiter j c (sys_w s j) (fireSeededHold h (sys_w s j)) s)\<lparr>sys_fire := xs @ ys\<rparr>)"
  using assms
  by (cases "k = j")
     (auto simp: bracketed_def put_waiter_def pending_for_def fireSeededHold_def Cons_eq_append_conv append_eq_Cons_conv)


section \<open>One contract for the attribution operations\<close>

text \<open>
  The operations a waiter's own loop runs under the count lock share a contract: they move
  the counts with the waiter's attribution and fire exactly the callback of the edge they
  walk. What they keep is proved once from it.
\<close>

locale attribution =
  fixes act :: "holdCounts \<Rightarrow> waiter \<Rightarrow> holdCounts \<times> waiter \<times> hook list"
  assumes counts: "act c w = (c', w', ev) \<Longrightarrow> recounts c w c' w'"
    and edges: "act c w = (c', w', ev) \<Longrightarrow> edge w w' ev"
begin

lemma keeps_counts:
  "hold_inv exact i s \<Longrightarrow> i \<noteq> [] \<Longrightarrow> j \<in> set (sys_live s) \<Longrightarrow> act (sys_count s) (sys_w s j) = (c, w, ev)
     \<Longrightarrow> hold_inv exact i (put_waiter j c w ev s)"
  by (auto simp: hold_inv_def put_waiter_def intro: counted_upd counts)

lemma keeps_quiet:
  "unheld_quiet s \<Longrightarrow> act (sys_count s) (sys_w s j) = (c, w, ev) \<Longrightarrow> unheld_quiet (put_waiter j c w ev s)"
  by (auto intro: unheld_quiet_put edges)

lemma keeps_brackets:
  "bracketed k s \<Longrightarrow> j \<notin> fst ` set (sys_fire s) \<Longrightarrow> act (sys_count s) (sys_w s j) = (c, w, ev)
     \<Longrightarrow> bracketed k (put_waiter j c w ev s)"
  by (auto intro: bracketed_put edges)

end

interpretation drop_op: attribution dropHold
  by unfold_locales (auto dest: recounts_drop edge_transitions(1))

interpretation adopt_op: attribution "adoptHold oh" for oh
  by unfold_locales (auto dest: recounts_adopt edge_transitions(2))

interpretation sync_op: attribution "\<lambda>c w. snd (syncUnhold now p c w)" for now p
  by unfold_locales (metis prod.collapse recounts_sync, metis prod.collapse edge_transitions(3))

lemma hold_inv_step:
  assumes "hold_step prompt s s'" "hold_inv exact i s" "i \<noteq> []" "exact \<longrightarrow> i \<in> hs_id ` set (sys_policy s')"
  shows "hold_inv exact i s'"
  using assms
proof (induction rule: hold_step.induct)
  case (enqueue j s w)
  then show ?case
    by (auto simp: hold_inv_def put_waiter_def intro: counted_Cons [OF _ recounts_refl])
next
  case (enqueue_held j s w h c w')
  then show ?case by (auto simp: hold_inv_def put_waiter_def intro: counted_Cons recounts_reserve)
next
  case (adopt j s oh c w ev)
  then show ?case by (simp add: adopt_op.keeps_counts)
next
  case (sync j s now b c w ev)
  then show ?case using sync_op.keeps_counts [of exact i s j now "sys_policy s" c w ev] by simp
next
  case (depart j s c w ev)
  then have "hold_inv exact i (put_waiter j c w ev s)" by (simp add: drop_op.keeps_counts)
  with recounts_drop [OF depart(3)] depart.prems show ?case
    by (auto simp: hold_inv_def put_waiter_def distinct_remove1 intro!: counted_remove1)
next
  case (seed j s now c w oh)
  then show ?case by (auto simp: hold_inv_def put_waiter_def intro: counted_upd recounts_seed)
next
  case (prune s xs p ys)
  then show ?case by (auto simp: hold_inv_def intro!: counted_prune)
qed (simp_all add: hold_inv_def put_waiter_def)

lemma hold_reach_inv: "hold_reach prompt s \<Longrightarrow> i \<noteq> [] \<Longrightarrow> hold_inv False i s"
proof (induction rule: hold_reach.induct)
  case init
  show ?case by (simp add: hold_inv_def init_holds_def counted_def carriers_def)
qed (auto intro: hold_inv_step)

lemma hold_reach_distinct: "hold_reach prompt s \<Longrightarrow> distinct (sys_live s)"
  using hold_reach_inv [of prompt s "''x''"] by (simp add: hold_inv_def)

text \<open>
  A run during which the hold \<open>i\<close> is in force: any steps of any callers, as long as every policy
  published has the hold.
\<close>

inductive in_force :: "bool \<Rightarrow> string \<Rightarrow> holdSys \<Rightarrow> holdSys \<Rightarrow> bool" for prompt i s where
  stays: "in_force prompt i s s"
| goes_on: "in_force prompt i s t \<Longrightarrow> hold_step prompt t t' \<Longrightarrow> i \<in> hs_id ` set (sys_policy t') \<Longrightarrow> in_force prompt i s t'"

lemma in_force_reach: "in_force prompt i s t \<Longrightarrow> hold_reach prompt s \<Longrightarrow> hold_reach prompt t"
  by (induction rule: in_force.induct) (auto intro: hold_reach.step)

lemma in_force_inv: "in_force prompt i s t \<Longrightarrow> hold_inv True i s \<Longrightarrow> i \<noteq> [] \<Longrightarrow> hold_inv True i t"
  by (induction rule: in_force.induct) (auto intro: hold_inv_step)

definition departed_unheld :: "holdSys \<Rightarrow> bool" where
  "departed_unheld s \<longleftrightarrow> unheld_quiet s \<and> (\<forall>j. j \<notin> set (sys_live s) \<longrightarrow> \<not> w_holding (sys_w s j))"

lemma unheld_quiet_frame [simp]:
  "unheld_quiet (s\<lparr>sys_live := l\<rparr>) = unheld_quiet s"
  "unheld_quiet (s\<lparr>sys_policy := p, sys_prunes := ps\<rparr>) = unheld_quiet s"
  "unheld_quiet (s\<lparr>sys_fire := q\<rparr>) = unheld_quiet s"
  "unheld_quiet (s\<lparr>sys_count := c, sys_prunes := ps\<rparr>) = unheld_quiet s"
  by (simp_all add: unheld_quiet_def)

lemma put_waiter_sel [simp]:
  "sys_live (put_waiter j c w ev s) = sys_live s" "sys_w (put_waiter j c w ev s) = (sys_w s)(j := w)"
  by (simp_all add: put_waiter_def)

lemma unheld_quiet_step: "hold_step prompt s s' \<Longrightarrow> unheld_quiet s \<Longrightarrow> unheld_quiet s'"
proof (induction rule: hold_step.induct)
  case (enqueue j s w)
  then show ?case by (simp add: unheld_quiet_def put_waiter_def hooks_of_fresh)
next
  case (enqueue_held j s w h c w')
  then show ?case by (simp add: unheld_quiet_def put_waiter_def hooks_of_fresh)
next
  case (sync j s now b c w ev)
  then show ?case using sync_op.keeps_quiet [of s now "sys_policy s" j c w ev] by simp
next
  case (seed j s now c w oh)
  then show ?case using seed_cases [OF seed(3)] by (auto simp: unheld_quiet_def put_waiter_def)
next
  case (dispatch s xs j h ys)
  then show ?case by (simp add: unheld_quiet_def put_waiter_def fireSeededHold_def)
qed (simp_all add: adopt_op.keeps_quiet drop_op.keeps_quiet)

lemma departed_unheld_step:
  "hold_step prompt s s' \<Longrightarrow> departed_unheld s \<Longrightarrow> distinct (sys_live s) \<Longrightarrow> departed_unheld s'"
proof -
  assume st: "hold_step prompt s s'" and d: "departed_unheld s" and dist: "distinct (sys_live s)"
  have "\<forall>j. j \<notin> set (sys_live s') \<longrightarrow> \<not> w_holding (sys_w s' j)"
    using st d dist
    by (induction rule: hold_step.induct) (auto simp: departed_unheld_def dest: edge_transitions(1))
  with unheld_quiet_step [OF st] d show ?thesis by (simp add: departed_unheld_def)
qed

lemma hold_reach_departed: "hold_reach prompt s \<Longrightarrow> departed_unheld s"
proof (induction rule: hold_reach.induct)
  case init
  show ?case by (simp add: departed_unheld_def unheld_quiet_def init_holds_def zero_waiter_def)
next
  case (step s s')
  then show ?case by (blast intro: departed_unheld_step hold_reach_distinct)
qed

lemma bracketed_step: "hold_step True s s' \<Longrightarrow> bracketed k s \<Longrightarrow> bracketed k s'"
proof (induction rule: hold_step.induct)
  case (enqueue j s w)
  then show ?case using bracketed_enqueue [of k s j w "sys_count s"] by simp
next
  case (enqueue_held j s w h c w')
  then have "\<not> w_holding w'"
    by (auto simp: reserveHold_def moveHoldCount_def Let_def split: if_splits)
  then show ?case using enqueue_held bracketed_enqueue [of k s j w' c] by simp
next
  case (sync j s now b c w ev)
  then show ?case using sync_op.keeps_brackets [of k s j now "sys_policy s" c w ev] by simp
next
  case (seed j s now c w oh)
  then show ?case using bracketed_seed by blast
next
  case (dispatch s xs j h ys)
  then show ?case using bracketed_dispatch by blast
qed (simp_all add: adopt_op.keeps_brackets drop_op.keeps_brackets)

lemma hold_reach_bracketed: "hold_reach True s \<Longrightarrow> bracketed k s"
proof (induction rule: hold_reach.induct)
  case init
  show ?case by (simp add: bracketed_def pending_for_def init_holds_def zero_waiter_def)
qed (rule bracketed_step)


section \<open>Properties\<close>

text \<open>
  A run used by the witnesses: a request of \<open>bob\<close> is queued, the operator pauses \<open>bob\<close>, and
  the seeding scan attributes the queued request.
\<close>

definition bob :: waiter where
  "bob = zero_waiter\<lparr>w_client := ''bob''\<rparr>"

definition pause_bob :: holdSnap where
  "pause_bob = fst (snapHold 0 (demo_hold ''p1'' False [''bob''] [] [] 0))"

definition demo_queued :: holdSys where
  "demo_queued = (put_waiter 0 (\<lambda>_. 0) bob [] init_holds)\<lparr>sys_live := [0]\<rparr>"

definition demo_paused :: holdSys where
  "demo_paused = demo_queued\<lparr>sys_policy := [pause_bob], sys_prunes := [[pause_bob]]\<rparr>"

definition demo_seeded :: holdSys where
  "demo_seeded = (put_waiter 0 ((\<lambda>_. 0)(''p1'' := 1)) (bob\<lparr>w_holdID := ''p1'', w_holding := True\<rparr>) [] demo_paused)
     \<lparr>sys_fire := [(0, pause_bob)]\<rparr>"

lemma pause_bob_id: "hs_id pause_bob = ''p1''" and pause_bob_max: "hs_maxQueued pause_bob = 0"
  by (simp_all add: pause_bob_def snapHold_def demo_hold_def)

lemma pause_bob_matches: "policy_match now [pause_bob] ''bob'' pr = Some pause_bob"
  by (simp add: pause_bob_def snapHold_def demo_hold_def setFrom_def snap_matches_def snap_active_def
      clientOK_def providerOK_def holdExpired_def)

lemma demo_seed_eq:
  "seedQueuedHold 7 [pause_bob] (\<lambda>_. 0) bob
     = ((\<lambda>_. 0)(''p1'' := 1), bob\<lparr>w_holdID := ''p1'', w_holding := True\<rparr>, Some pause_bob)"
  using pause_bob_matches [of 7 "w_provider bob"]
  by (simp add: seedQueuedHold_def bob_def zero_waiter_def moveHoldCount_def pause_bob_id)

lemma demo_steps: "hold_reach prompt demo_queued" "hold_step prompt demo_queued demo_paused" "hold_step prompt demo_paused demo_seeded"
proof -
  have "hold_step prompt init_holds demo_queued"
    using hold_step.enqueue [of 0 init_holds bob prompt]
    by (simp add: demo_queued_def init_holds_def bob_def zero_waiter_def)
  then show "hold_reach prompt demo_queued" by (rule hold_reach.step [OF hold_reach.init])
  show "hold_step prompt demo_queued demo_paused"
    using hold_step.commit [of "[pause_bob]" demo_queued "[pause_bob]" prompt]
    by (simp add: demo_paused_def demo_queued_def put_waiter_def init_holds_def pause_bob_id commitPolicy_def snapEqual_def)
  show "hold_step prompt demo_paused demo_seeded"
    using demo_seed_eq hold_step.seed [of 0 demo_paused prompt 7 "(\<lambda>_. 0)(''p1'' := 1)"
        "bob\<lparr>w_holdID := ''p1'', w_holding := True\<rparr>" "Some pause_bob"]
    by (simp add: demo_seeded_def demo_paused_def demo_queued_def put_waiter_def init_holds_def)
qed

lemma demo_seeded_reach: "hold_reach prompt demo_seeded"
  using demo_steps by (blast intro: hold_reach.step)

lemma demo_in_force: "in_force prompt ''p1'' demo_queued demo_seeded"
  using in_force.goes_on [OF in_force.goes_on [OF in_force.stays demo_steps(2)] demo_steps(3)]
  by (simp add: demo_seeded_def demo_paused_def put_waiter_def pause_bob_id)

text \<open>
  C14. The count behind \<^verbatim>\<open>HoldQueued\<close> and the \<^verbatim>\<open>MaxQueued\<close> cap, in every reachable state of every
  interleaving of waiters, seeding scans and policy writers: it is never negative and never more than the
  parked waiters attributed to the hold, so nothing leaks, and a waiter is refused only when the cap is
  reached by waiters that are parked there. From any reachable state in which nobody carries the hold and no
  writer is still to prune for a policy without it (as when it is installed by writers that take turns), the count
  equals the parked waiters attributed to it, and a waiter is refused exactly when these reach the cap, for as long as every
  policy published has the hold, under every interleaving.
\<close>

theorem hold_counts_exact:
  assumes "hold_reach prompt s" "i \<noteq> []" "in_force prompt i s t"
  shows "0 \<le> HoldQueued i (sys_count t)
    \<and> HoldQueued i (sys_count t) \<le> int (length (carriers (sys_w t) (sys_live t) i))
    \<and> (\<forall>h w. hs_id h = i \<longrightarrow> \<not> fst (reserveHold h (sys_count t) w) \<longrightarrow>
         0 < hs_maxQueued h \<and> hs_maxQueued h \<le> int (length (carriers (sys_w t) (sys_live t) i)))
    \<and> (carriers (sys_w s) (sys_live s) i = [] \<and> (\<forall>p\<in>set (sys_prunes s). i \<in> hs_id ` set p) \<longrightarrow>
        HoldQueued i (sys_count t) = int (length (carriers (sys_w t) (sys_live t) i))
      \<and> (\<forall>h w. hs_id h = i \<longrightarrow> w_holdID w \<noteq> i \<longrightarrow>
           (fst (reserveHold h (sys_count t) w) \<longleftrightarrow>
              \<not> (0 < hs_maxQueued h \<and> hs_maxQueued h \<le> int (length (carriers (sys_w t) (sys_live t) i))))))"
proof -
  have le: "counted False i (sys_count t) (sys_w t) (sys_live t)"
    using hold_reach_inv [OF in_force_reach [OF assms(3,1)] assms(2)] by (simp add: hold_inv_def)
  have eq: "counted True i (sys_count t) (sys_w t) (sys_live t)"
    if "carriers (sys_w s) (sys_live s) i = []" "\<forall>p\<in>set (sys_prunes s). i \<in> hs_id ` set p"
  proof -
    have "hold_inv True i s"
      using hold_reach_inv [OF assms(1,2)] that by (simp add: hold_inv_def counted_def)
    then show ?thesis using in_force_inv [OF assms(3) _ assms(2)] by (simp add: hold_inv_def)
  qed
  show ?thesis
    using le eq assms(2) by (auto simp: counted_def HoldQueued_def reserveHold_def split: if_splits)
qed

theorem hold_counts_exact_witness:
  "hold_reach True demo_queued \<and> HoldQueued ''p1'' (sys_count demo_seeded) = 1"
  using hold_counts_exact [OF demo_steps(1) [of True] _ demo_in_force] demo_steps(1)
  by (simp add: demo_seeded_def demo_paused_def demo_queued_def put_waiter_def init_holds_def carriers_def
      bob_def zero_waiter_def)

text \<open>
  The condition on the writers is needed. Writers that do not take turns can leave a snapshot without the hold
  to be pruned for; when that happens while waiters carry the hold, its count is deleted, they stay parked
  uncounted, and the cap admits further waiters.
\<close>

lemma stale_prune_uncounts:
  assumes "i \<notin> hs_id ` set p" "p \<in> set (sys_prunes s)" "i \<noteq> []"
  shows "\<exists>t. hold_step prompt s t \<and> sys_policy t = sys_policy s \<and> HoldQueued i (sys_count t) = 0
    \<and> carriers (sys_w t) (sys_live t) i = carriers (sys_w s) (sys_live s) i
    \<and> (\<forall>h w. hs_id h = i \<longrightarrow> fst (reserveHold h (sys_count t) w))"
proof -
  obtain xs ys where q: "sys_prunes s = xs @ p # ys" using assms(2) by (auto dest: split_list)
  show ?thesis
    by (rule exI, rule conjI, rule hold_step.prune [OF q])
      (use assms in \<open>auto simp: HoldQueued_def pruneHoldCounts_def reserveHold_def\<close>)
qed

lemma stale_prune_reachable:
  "\<exists>s. hold_reach prompt s \<and> ''p1'' \<in> hs_id ` set (sys_policy s) \<and> carriers (sys_w s) (sys_live s) ''p1'' = [0]
    \<and> (\<exists>p\<in>set (sys_prunes s). ''p1'' \<notin> hs_id ` set p)"
proof -
  let ?alice = "fst (snapHold 0 (demo_hold ''p2'' False [''alice''] [] [] 0))"
  have id: "hs_id ?alice = ''p2''" by (simp add: snapHold_def demo_hold_def)
  define s1 where "s1 = demo_queued\<lparr>sys_policy := [?alice], sys_prunes := [[?alice]]\<rparr>"
  define s2 where "s2 = s1\<lparr>sys_policy := [pause_bob], sys_prunes := [[?alice], [pause_bob]]\<rparr>"
  define s3 where "s3 = (put_waiter 0 ((\<lambda>_. 0)(''p1'' := 1)) (bob\<lparr>w_holdID := ''p1'', w_holding := True\<rparr>) [] s2)
     \<lparr>sys_fire := [(0, pause_bob)]\<rparr>"
  have "hold_step prompt demo_queued s1"
    using hold_step.commit [of "[?alice]" demo_queued "[?alice]" prompt]
    by (simp add: s1_def demo_queued_def put_waiter_def init_holds_def id commitPolicy_def snapEqual_def)
  moreover have "hold_step prompt s1 s2"
    using hold_step.commit [of "[pause_bob]" s1 "[pause_bob]" prompt]
    by (simp add: s2_def s1_def pause_bob_id id commitPolicy_def snapEqual_def holdEqual_def)
  moreover have "hold_step prompt s2 s3"
    using demo_seed_eq hold_step.seed [of 0 s2 prompt 7 "(\<lambda>_. 0)(''p1'' := 1)"
        "bob\<lparr>w_holdID := ''p1'', w_holding := True\<rparr>" "Some pause_bob"]
    by (simp add: s3_def s2_def s1_def demo_queued_def put_waiter_def init_holds_def)
  ultimately have "hold_reach prompt s3" using demo_steps(1) by (blast intro: hold_reach.step)
  then show ?thesis
    by (intro exI [of _ s3])
      (simp add: s3_def s2_def s1_def demo_queued_def put_waiter_def carriers_def pause_bob_id id)
qed

text \<open>
  C15. No request is left marked as paused: whatever the interleaving, and also when the
  deferred callback of a seeding scan runs after the request has left, the last callback of
  every departed request is \<^verbatim>\<open>OnUnhold\<close>, if it ever saw one.
\<close>

theorem departed_request_not_left_paused:
  assumes "hold_reach prompt s" "j \<notin> set (sys_live s)" "w_onUnhold (sys_w s j)"
  shows "hooks_of j (sys_log s) = [] \<or> last (hooks_of j (sys_log s)) = OnUnhold"
  using hold_reach_departed [OF assms(1)] assms(2,3) by (auto simp: departed_unheld_def unheld_quiet_def)

definition demo_left :: holdSys where
  "demo_left = (put_waiter 0 (\<lambda>_. 0) bob [OnUnhold] demo_seeded)\<lparr>sys_live := []\<rparr>"

lemma demo_left_reach: "hold_reach False demo_left"
proof -
  have "dropHold ((\<lambda>_. 0)(''p1'' := 1)) (bob\<lparr>w_holdID := ''p1'', w_holding := True\<rparr>) = (\<lambda>_. 0, bob, [OnUnhold])"
    by (auto simp: dropHold_def clearHoldCount_def fireUnhold_def bob_def zero_waiter_def fun_eq_iff)
  then have "hold_step False demo_seeded demo_left"
    using hold_step.depart [of 0 demo_seeded False "\<lambda>_. 0" bob "[OnUnhold]"]
    by (simp add: demo_left_def demo_seeded_def demo_paused_def demo_queued_def put_waiter_def)
  then show ?thesis by (rule hold_reach.step [OF demo_seeded_reach])
qed

theorem departed_request_not_left_paused_witness:
  "hold_reach False demo_left \<and> last (hooks_of 0 (sys_log demo_left)) = OnUnhold"
  using departed_request_not_left_paused [OF demo_left_reach, of 0] demo_left_reach
  by (simp add: demo_left_def demo_seeded_def demo_paused_def demo_queued_def put_waiter_def init_holds_def
      bob_def zero_waiter_def)

text \<open>
  C16. Provided a scan's deferred callback is delivered before the next transition of the same
  waiter, the callbacks of every waiter alternate, beginning with \<^verbatim>\<open>OnHold\<close>: each edge is
  announced exactly once, and a waiter with no announcement pending is held exactly when the
  last one was \<^verbatim>\<open>OnHold\<close>.
\<close>

theorem hold_callbacks_alternate:
  assumes "hold_reach True s" "w_onHold (sys_w s j)" "w_onUnhold (sys_w s j)"
  shows "alternating (hooks_of j (sys_log s))
    \<and> (j \<notin> fst ` set (sys_fire s) \<longrightarrow> w_holding (sys_w s j) = odd (length (hooks_of j (sys_log s))))"
  using hold_reach_bracketed [OF assms(1), of j] assms(2,3)
  by (auto simp: bracketed_def pending_none)

definition demo_announced :: holdSys where
  "demo_announced = (put_waiter 0 (sys_count demo_seeded) (sys_w demo_seeded 0) [OnHold] demo_seeded)\<lparr>sys_fire := []\<rparr>"

theorem hold_callbacks_alternate_witness:
  "hold_reach True demo_announced \<and> w_holding (sys_w demo_announced 0)
   \<and> odd (length (hooks_of 0 (sys_log demo_announced)))"
proof -
  have "hold_step True demo_seeded demo_announced"
    using hold_step.dispatch [of demo_seeded "[]" 0 pause_bob "[]" True]
    by (simp add: demo_announced_def demo_seeded_def fireSeededHold_def pause_bob_id bob_def zero_waiter_def)
  then have r: "hold_reach True demo_announced" by (rule hold_reach.step [OF demo_seeded_reach])
  from hold_callbacks_alternate [OF r, of 0] r show ?thesis
    by (simp add: demo_announced_def demo_seeded_def bob_def zero_waiter_def put_waiter_def)
qed

text \<open>The state after waiter \<open>j\<close> has left.\<close>

definition leaves :: "nat \<Rightarrow> holdSys \<Rightarrow> holdSys" where
  "leaves j s = (case dropHold (sys_count s) (sys_w s j) of
     (c, w, ev) \<Rightarrow> (put_waiter j c w ev s)\<lparr>sys_live := remove1 j (sys_live s)\<rparr>)"

text \<open>A waiter that has left and was told something is told nothing more.\<close>

definition silenced :: "nat \<Rightarrow> hook list \<Rightarrow> holdSys \<Rightarrow> bool" where
  "silenced j es s \<longleftrightarrow> distinct (sys_live s) \<and> j \<notin> set (sys_live s) \<and> \<not> w_holding (sys_w s j)
     \<and> es \<noteq> [] \<and> hooks_of j (sys_log s) = es"

lemma silenced_step: "hold_step prompt s s' \<Longrightarrow> silenced j es s \<Longrightarrow> silenced j es s'"
proof (induction rule: hold_step.induct)
  case (enqueue k s w)
  then have "k \<noteq> j" using hooks_of_fresh [of j "sys_log s"] by (auto simp: silenced_def)
  with enqueue show ?case by (simp add: silenced_def put_waiter_def)
next
  case (enqueue_held k s w h c w')
  then have "k \<noteq> j" using hooks_of_fresh [of j "sys_log s"] by (auto simp: silenced_def)
  with enqueue_held show ?case by (simp add: silenced_def put_waiter_def)
next
  case (dispatch s xs k h ys)
  then show ?case by (auto simp: silenced_def put_waiter_def fireSeededHold_def)
qed (auto simp: silenced_def put_waiter_def)

lemma leaves_step:
  assumes "j \<in> set (sys_live s)" "distinct (sys_live s)" "w_holding (sys_w s j)" "w_onUnhold (sys_w s j)"
  shows "hold_step False s (leaves j s)" "silenced j (hooks_of j (sys_log s) @ [OnUnhold]) (leaves j s)"
proof -
  obtain c w ev where d: "dropHold (sys_count s) (sys_w s j) = (c, w, ev)" by (metis prod.exhaust)
  show "hold_step False s (leaves j s)"
    using hold_step.depart [OF assms(1) _ d] by (simp add: leaves_def d)
  have "\<not> w_holding w" "ev = [OnUnhold]"
    using d assms(3,4) by (auto simp: dropHold_def clearHoldCount_def fireUnhold_def Let_def split: if_splits)
  then show "silenced j (hooks_of j (sys_log s) @ [OnUnhold]) (leaves j s)"
    using assms(2) by (simp add: silenced_def leaves_def d put_waiter_def)
qed

text \<open>
  C23. Without that proviso an \<^verbatim>\<open>OnHold\<close> can be lost. Whatever the interleaving, let a request be marked held and
  have been told nothing yet (the seeding scan marked it and its callback is deferred). If it leaves
  then, it is told \<^verbatim>\<open>OnUnhold\<close>, and that is all it is ever told: in no continuation, whenever the deferred callback runs,
  does \<^verbatim>\<open>OnHold\<close> follow or precede it.
\<close>

theorem seeded_callback_can_be_lost:
  assumes "hold_reach False s" "j \<in> set (sys_live s)" "w_holding (sys_w s j)" "w_onUnhold (sys_w s j)"
    and "hooks_of j (sys_log s) = []"
  shows "hold_step False s (leaves j s)
    \<and> (\<forall>t. (hold_step False)\<^sup>*\<^sup>* (leaves j s) t \<longrightarrow> hooks_of j (sys_log t) = [OnUnhold])"
proof -
  note l = leaves_step [OF assms(2) hold_reach_distinct [OF assms(1)] assms(3,4)]
  have "silenced j [OnUnhold] t" if "(hold_step False)\<^sup>*\<^sup>* (leaves j s) t" for t
    using that by (induction rule: rtranclp_induct) (use l(2) assms(5) in \<open>auto intro: silenced_step\<close>)
  with l(1) show ?thesis by (auto simp: silenced_def)
qed

theorem seeded_callback_can_be_lost_witness:
  "hold_reach False demo_seeded \<and> sys_fire demo_seeded = [(0, pause_bob)] \<and> hold_step False demo_seeded (leaves 0 demo_seeded)
   \<and> hooks_of 0 (sys_log (leaves 0 demo_seeded)) = [OnUnhold]"
  using seeded_callback_can_be_lost [OF demo_seeded_reach, of 0] demo_seeded_reach
  by (simp add: demo_seeded_def demo_paused_def demo_queued_def put_waiter_def init_holds_def bob_def zero_waiter_def)

end
