(* ===== verification/Ramp.thy ===== *)
theory Ramp
  imports Prelude
begin

text \<open>
  The anti-burst ramp of a provider+key group (\<^verbatim>\<open>internal/scheduler/scheduler_admission.go\<close>): the
  integer arithmetic with its 128-bit intermediate, the live allowance, the time of its next
  increase and the anchoring of an epoch. The theory shows that the two step functions are
  the two halves of a Galois connection, so that the timer of the next step fires exactly
  when the allowance has grown, and that the 128-bit division never traps.
\<close>

section \<open>Arithmetic\<close>

text \<open>\<^verbatim>\<open>bits.Mul64\<close> and \<^verbatim>\<open>bits.Div64\<close>; the latter panics unless \<open>div64_ok\<close>.\<close>

definition mul64 :: "int \<Rightarrow> int \<Rightarrow> int \<times> int" where
  "mul64 x y = (x * y div 2 ^ 64, x * y mod 2 ^ 64)"

definition div64_ok :: "int \<Rightarrow> int \<Rightarrow> bool" where
  "div64_ok hi y \<longleftrightarrow> y \<noteq> 0 \<and> hi < y"

definition div64 :: "int \<Rightarrow> int \<Rightarrow> int \<Rightarrow> int \<times> int" where
  "div64 hi lo y = ((hi * 2 ^ 64 + lo) div y, (hi * 2 ^ 64 + lo) mod y)"

definition rampSteps :: "duration \<Rightarrow> duration \<Rightarrow> int \<Rightarrow> int" where
  "rampSteps elapsed dur target =
     (if target < 2 \<or> dur \<le> 0 \<or> elapsed \<le> 0 then 0
      else if elapsed \<ge> dur then target - 1
      else case mul64 (target - 1) elapsed of (hi, lo) \<Rightarrow> fst (div64 hi lo dur))"

definition rampStepDuration :: "int \<Rightarrow> int \<Rightarrow> duration \<Rightarrow> duration" where
  "rampStepDuration steps target dur =
     (if steps \<le> 0 \<or> target < 2 \<or> dur \<le> 0 then 0
      else case mul64 steps dur of (hi, lo) \<Rightarrow>
        (case div64 hi lo (target - 1) of (q, r) \<Rightarrow> if r \<noteq> 0 then q + 1 else q))"

lemma div64_mul64: "div64 (fst (mul64 x y)) (snd (mul64 x y)) z = (x * y div z, x * y mod z)"
  by (simp add: mul64_def div64_def mult.commute [of "_ div _"] mult_div_mod_eq)

lemma rampSteps_eq:
  "2 \<le> target \<Longrightarrow> 0 < dur \<Longrightarrow> rampSteps e dur target =
     (if e \<le> 0 then 0 else if e \<ge> dur then target - 1 else (target - 1) * e div dur)"
  using div64_mul64 [of "target - 1" e dur] by (simp add: rampSteps_def case_prod_beta)

lemma rampStepDuration_eq:
  assumes "0 < k" "2 \<le> target" "0 < dur"
  shows "rampStepDuration k target dur = - ((- (k * dur)) div (target - 1))"
proof -
  have "rampStepDuration k target dur
      = (if k * dur mod (target - 1) \<noteq> 0 then k * dur div (target - 1) + 1 else k * dur div (target - 1))"
    using assms div64_mul64 [of k dur "target - 1"] by (simp add: rampStepDuration_def case_prod_beta)
  also have "\<dots> = - ((- (k * dur)) div (target - 1))"
    using zdiv_zminus1_eq_if [of "target - 1" "k * dur"] assms by auto
  finally show ?thesis .
qed

text \<open>
  Neither 128-bit division can trap: the high word is below the divisor for every duration
  and target of the 63-bit range.
\<close>

lemma rampSteps_no_trap:
  assumes "2 \<le> target" "target \<le> max_int64" "0 < e" "e < dur" "dur \<le> max_int64"
  shows "div64_ok (fst (mul64 (target - 1) e)) dur"
proof -
  have "(target - 1) * e < 2 ^ 64 * dur"
  proof -
    have "(target - 1) * e \<le> (target - 1) * dur" using assms by (intro mult_left_mono) simp_all
    also have "\<dots> < 2 ^ 64 * dur" using assms by (intro mult_strict_right_mono) (simp_all add: max_int64_def)
    finally show ?thesis .
  qed
  then have "(target - 1) * e div 2 ^ 64 < dur" by (simp add: div_less_iff_less_mult mult.commute)
  with assms show ?thesis by (simp add: div64_ok_def mul64_def)
qed

lemma rampStepDuration_no_trap:
  assumes "0 < k" "k \<le> target - 1" "0 < dur" "dur \<le> max_int64"
  shows "div64_ok (fst (mul64 k dur)) (target - 1)"
proof -
  have "k * dur \<le> (target - 1) * dur" using assms by (intro mult_right_mono) simp_all
  also have "\<dots> < (target - 1) * 2 ^ 64" using assms by (intro mult_strict_left_mono) (simp_all add: max_int64_def)
  finally have "k * dur div 2 ^ 64 < target - 1" by (simp add: div_less_iff_less_mult)
  with assms show ?thesis by (simp add: div64_ok_def mul64_def)
qed

lemma neg_div_le_iff: "0 < (b::int) \<Longrightarrow> - ((- a) div b) \<le> e \<longleftrightarrow> a \<le> e * b"
proof -
  assume b: "0 < b"
  have "- ((- a) div b) \<le> e \<longleftrightarrow> - e - 1 < (- a) div b" by linarith
  also have "\<dots> \<longleftrightarrow> \<not> (- a) div b < - e" by linarith
  also have "\<dots> \<longleftrightarrow> \<not> - a < - e * b" using b by (simp add: int_div_less_iff)
  finally show ?thesis by (simp add: not_less)
qed

text \<open>
  The two step functions are adjoint: the ramp has taken \<open>k\<close> steps at an elapsed time
  exactly when that time is at least the duration of \<open>k\<close> steps.
\<close>

lemma rampSteps_ge_iff:
  assumes "1 \<le> k" "k \<le> target - 1" "0 < dur"
  shows "k \<le> rampSteps e dur target \<longleftrightarrow> rampStepDuration k target dur \<le> e"
proof -
  have sd: "rampStepDuration k target dur \<le> e \<longleftrightarrow> k * dur \<le> e * (target - 1)"
    using assms by (simp add: rampStepDuration_eq neg_div_le_iff)
  consider "e \<le> 0" | "0 < e" "e < dur" | "dur \<le> e" "0 < e" by linarith
  then show ?thesis
  proof cases
    case 1
    have "e * (target - 1) \<le> 0" using 1 assms by (simp add: mult_nonpos_nonneg)
    moreover have "0 < k * dur" using assms by (intro mult_pos_pos) auto
    ultimately have "\<not> k * dur \<le> e * (target - 1)" by linarith
    then show ?thesis using 1 assms unfolding sd by (auto simp: rampSteps_eq)
  next
    case 2
    have "k \<le> (target - 1) * e div dur \<longleftrightarrow> \<not> (target - 1) * e div dur < k" by linarith
    also have "\<dots> \<longleftrightarrow> k * dur \<le> (target - 1) * e"
      using assms by (simp add: int_div_less_iff not_less)
    finally show ?thesis using 2 assms by (simp add: sd rampSteps_eq mult.commute)
  next
    case 3
    have "k * dur \<le> (target - 1) * e"
      by (rule mult_mono) (use 3 assms in auto)
    then show ?thesis using 3 assms by (simp add: sd rampSteps_eq mult.commute)
  qed
qed

lemma rampSteps_range:
  assumes "2 \<le> target" shows "0 \<le> rampSteps e dur target" "rampSteps e dur target \<le> target - 1"
proof -
  have "(target - 1) * e div dur \<le> target - 1" if "0 < e" "e < dur"
  proof -
    have "(target - 1) * e < target * dur"
      by (rule mult_strict_mono) (use that assms in auto)
    moreover have "(target - 1) * e \<le> (target - 1) * dur" using that assms by (intro mult_left_mono) auto
    ultimately have "(target - 1) * e div dur < target"
      using that by (simp add: int_div_less_iff)
    then show ?thesis by simp
  qed
  then show "rampSteps e dur target \<le> target - 1"
    using assms by (cases "0 < dur") (auto simp: rampSteps_eq, simp add: rampSteps_def)
  show "0 \<le> rampSteps e dur target"
    using assms by (cases "0 < dur") (auto simp: rampSteps_eq pos_imp_zdiv_nonneg_iff, simp add: rampSteps_def)
qed

lemma rampSteps_mono:
  assumes "2 \<le> target" "0 < dur" "e \<le> e'"
  shows "rampSteps e dur target \<le> rampSteps e' dur target"
proof (cases "1 \<le> rampSteps e dur target")
  case True
  let ?k = "rampSteps e dur target"
  have k: "?k \<le> target - 1" by (rule rampSteps_range) (fact assms)
  have "rampStepDuration ?k target dur \<le> e"
    using rampSteps_ge_iff [OF True k assms(2), of e] by simp
  then show ?thesis using rampSteps_ge_iff [OF True k assms(2), of e'] assms by simp
next
  case False
  then show ?thesis using rampSteps_range(1) [OF assms(1), of e' dur] by linarith
qed


section \<open>The epoch of a group\<close>

text \<open>The two fields of a group the ramp owns; the group's occupancy is an argument.\<close>

record rampState =
  rampStart :: time
  idleSince :: time

definition zero_ramp :: rampState where
  "zero_ramp = \<lparr> rampStart = 0, idleSince = 0 \<rparr>"

definition rampAllowance :: "rampState \<Rightarrow> time \<Rightarrow> int \<Rightarrow> duration \<Rightarrow> int" where
  "rampAllowance r now target dur =
     (if IsZero (rampStart r) \<or> target < 2 \<or> dur \<le> 0 then 1
      else let allowance = 1 + rampSteps (time_Sub now (rampStart r)) dur target in
        if allowance < 1 then 1 else if allowance > target then target else allowance)"

definition nextRampStep :: "rampState \<Rightarrow> time \<Rightarrow> int \<Rightarrow> duration \<Rightarrow> time" where
  "nextRampStep r now target dur =
     (if IsZero (rampStart r) \<or> target < 2 \<or> dur \<le> 0 then zero_time
      else let allowance = rampAllowance r now target dur in
        if allowance \<ge> target then zero_time
        else let next = rampStart r + rampStepDuration allowance target dur in
          if next < now + millisecond then now + millisecond else next)"

definition startRamp :: "rampState \<Rightarrow> int \<Rightarrow> time \<Rightarrow> duration \<Rightarrow> rampState" where
  "startRamp r occupied now dur =
     (if occupied \<noteq> 0 then r
      else let r = (if IsZero (rampStart r) \<or> (\<not> IsZero (idleSince r) \<and> time_Sub now (idleSince r) \<ge> dur)
                    then r\<lparr>rampStart := now\<rparr> else r)
           in r\<lparr>idleSince := zero_time\<rparr>)"

definition anchorRamp :: "rampState \<Rightarrow> int \<Rightarrow> time \<Rightarrow> int \<Rightarrow> duration \<Rightarrow> rampState" where
  "anchorRamp r occupied now target dur =
     (if \<not> IsZero (rampStart r) \<or> occupied \<le> 0 \<or> target < 2 \<or> dur \<le> 0 then r
      else let occupancy = min occupied (target - 1) in
        r\<lparr>rampStart := now + - rampStepDuration occupancy target dur, idleSince := zero_time\<rparr>)"

definition resetRamp :: "rampState \<Rightarrow> rampState" where
  "resetRamp r = r\<lparr>rampStart := zero_time, idleSince := zero_time\<rparr>"

lemma rampAllowance_bounds:
  assumes "2 \<le> target" shows "1 \<le> rampAllowance r now target dur \<and> rampAllowance r now target dur \<le> target"
  using assms by (simp add: rampAllowance_def Let_def)

lemma rampAllowance_eq:
  assumes "rampStart r \<noteq> 0" "2 \<le> target" "0 < dur"
  shows "rampAllowance r now target dur = 1 + rampSteps (time_Sub now (rampStart r)) dur target"
  using assms rampSteps_range [OF assms(2), of "time_Sub now (rampStart r)" dur]
  by (simp add: rampAllowance_def Let_def)

lemma rampStepDuration_le_dur:
  assumes "0 < k" "k \<le> target - 1" "0 < dur"
  shows "0 < rampStepDuration k target dur \<and> rampStepDuration k target dur \<le> dur"
proof
  have "k * dur \<le> dur * (target - 1)" using assms by (simp add: mult.commute)
  then show "rampStepDuration k target dur \<le> dur"
    using assms by (simp add: rampStepDuration_eq neg_div_le_iff)
  have "\<not> k * dur \<le> 0" using assms by (simp add: not_le)
  then have "\<not> rampStepDuration k target dur \<le> 0"
    using assms neg_div_le_iff [of "target - 1" "k * dur" 0] by (auto simp: rampStepDuration_eq)
  then show "0 < rampStepDuration k target dur" by simp
qed

lemma rampAllowance_ge_iff:
  assumes "rampStart r \<noteq> 0" "1 \<le> k" "k \<le> target - 1" "0 < dur" "dur \<le> max_int64"
  shows "k + 1 \<le> rampAllowance r now target dur \<longleftrightarrow> rampStart r + rampStepDuration k target dur \<le> now"
proof -
  let ?d = "rampStepDuration k target dur"
  have d: "0 < ?d" "?d \<le> dur" using rampStepDuration_le_dur [of k target dur] assms by simp_all
  have "k + 1 \<le> rampAllowance r now target dur \<longleftrightarrow> k \<le> rampSteps (time_Sub now (rampStart r)) dur target"
    using assms by (simp add: rampAllowance_eq)
  also have "\<dots> \<longleftrightarrow> ?d \<le> time_Sub now (rampStart r)"
    using assms by (simp add: rampSteps_ge_iff)
  also have "\<dots> \<longleftrightarrow> ?d \<le> now - rampStart r"
    using d assms by (intro time_Sub_le_iff) (simp_all add: int64_defs)
  finally show ?thesis by (simp add: algebra_simps)
qed

lemma rampAllowance_mono:
  assumes "2 \<le> target" "0 < dur" "now \<le> now'"
  shows "rampAllowance r now target dur \<le> rampAllowance r now' target dur"
proof (cases "rampStart r = 0")
  case False
  have "time_Sub now (rampStart r) \<le> time_Sub now' (rampStart r)"
    using assms by (simp add: time_Sub_def)
  with False assms show ?thesis by (simp add: rampAllowance_eq rampSteps_mono)
qed (simp add: rampAllowance_def)

lemma rampAllowance_full:
  assumes "rampStart r \<noteq> 0" "2 \<le> target" "0 < dur" "dur \<le> max_int64" "rampStart r + dur \<le> now"
  shows "rampAllowance r now target dur = target"
proof -
  have "(target - 1) + 1 \<le> rampAllowance r now target dur"
    using rampAllowance_ge_iff [OF assms(1), of "target - 1" target dur now]
      rampStepDuration_le_dur [of "target - 1" target dur] assms by simp
  with rampAllowance_bounds [OF assms(2)] show ?thesis by (simp add: order_antisym)
qed


section \<open>Properties\<close>

text \<open>
  C9. The anti-burst ramp of a key: with an epoch open, the allowance stays between one and
  the provider's target, never shrinks as time passes and is the whole target once the ramp
  duration has elapsed. While it is below the target the next step is in the future (at least
  one millisecond away); at that time the allowance has grown, and at no earlier time has it
  unless the millisecond floor delayed the step, in which case the wake comes within that
  millisecond. So the provider wake armed for the step always makes progress.
\<close>

theorem ramp_step_wakes_on_growth:
  assumes "rampStart r \<noteq> 0" "2 \<le> target" "0 < dur" "dur \<le> max_int64"
  shows "1 \<le> rampAllowance r now target dur \<and> rampAllowance r now target dur \<le> target
    \<and> (\<forall>now'. now \<le> now' \<longrightarrow> rampAllowance r now target dur \<le> rampAllowance r now' target dur)
    \<and> (\<forall>now'. rampStart r + dur \<le> now' \<longrightarrow> rampAllowance r now' target dur = target)
    \<and> (rampAllowance r now target dur < target \<longrightarrow>
        (let next = nextRampStep r now target dur in
           now + millisecond \<le> next
         \<and> rampAllowance r now target dur < rampAllowance r next target dur
         \<and> (\<forall>t. now \<le> t \<longrightarrow> t < next \<longrightarrow>
              rampAllowance r t target dur = rampAllowance r now target dur \<or> next = now + millisecond)))"
proof -
  let ?a = "rampAllowance r now target dur" and ?next = "nextRampStep r now target dur"
  have b: "1 \<le> ?a" "?a \<le> target" using rampAllowance_bounds [OF assms(2)] by simp_all
  have step: "now + millisecond \<le> ?next \<and> ?a < rampAllowance r ?next target dur
      \<and> (\<forall>t. now \<le> t \<longrightarrow> t < ?next \<longrightarrow> rampAllowance r t target dur = ?a \<or> ?next = now + millisecond)"
    if less: "?a < target"
  proof -
    have n: "?next = max (now + millisecond) (rampStart r + rampStepDuration ?a target dur)"
      using assms less by (simp add: nextRampStep_def Let_def max_def)
    have grow: "?a + 1 \<le> rampAllowance r t target dur \<longleftrightarrow> rampStart r + rampStepDuration ?a target dur \<le> t" for t
      using less b assms by (intro rampAllowance_ge_iff) simp_all
    have "?a < rampAllowance r ?next target dur" using grow [of ?next] n by simp
    moreover have "rampAllowance r t target dur = ?a \<or> ?next = now + millisecond"
      if "now \<le> t" "t < ?next" for t
      using grow [of t] n that rampAllowance_mono [OF assms(2,3) that(1), of r]
      by (auto simp: max_def split: if_splits)
    ultimately show ?thesis using n by simp
  qed
  show ?thesis
    using b step rampAllowance_mono [OF assms(2,3)] rampAllowance_full [OF assms(1-4)]
    by (simp add: Let_def)
qed

theorem ramp_step_wakes_on_growth_witness:
  "rampAllowance \<lparr> rampStart = 1000000000, idleSince = 0 \<rparr> 2500000000 5 4000000000 = 2
   \<and> nextRampStep \<lparr> rampStart = 1000000000, idleSince = 0 \<rparr> 2500000000 5 4000000000 = 3000000000
   \<and> rampAllowance \<lparr> rampStart = 1000000000, idleSince = 0 \<rparr> 2500000000 5 4000000000
      < rampAllowance \<lparr> rampStart = 1000000000, idleSince = 0 \<rparr> 3000000000 5 4000000000"
proof -
  let ?r = "\<lparr> rampStart = 1000000000, idleSince = 0 \<rparr>"
  have a: "rampAllowance ?r 2500000000 5 4000000000 = 2" by code_simp
  have n: "nextRampStep ?r 2500000000 5 4000000000 = 3000000000" by code_simp
  from ramp_step_wakes_on_growth [of ?r 5 4000000000 2500000000] a n show ?thesis
    by (simp add: max_int64_def Let_def)
qed

text \<open>
  Enabling the ramp on a busy key never stalls the work it already has: the anchored
  epoch gives an allowance of at least the occupancy plus one, up to the target, at the very
  moment of the anchor. A first grant of an idle key keeps its epoch over a gap shorter than
  the ramp duration and restarts it at one slot otherwise; a grant of a busy key changes
  nothing.
\<close>

lemma ramp_epoch_anchor_and_restart:
  assumes "2 \<le> target" "0 < dur" "dur \<le> max_int64" "0 < now" "dur < now"
  shows "(rampStart r = 0 \<longrightarrow> 0 < occupied \<longrightarrow>
            min (occupied + 1) target \<le> rampAllowance (anchorRamp r occupied now target dur) now target dur)
    \<and> (rampStart r \<noteq> 0 \<longrightarrow> anchorRamp r occupied now target dur = r)
    \<and> (occupied \<noteq> 0 \<longrightarrow> startRamp r occupied now dur = r)
    \<and> (let r' = startRamp r 0 now dur in idleSince r' = 0 \<and> rampStart r' \<noteq> 0
        \<and> (if rampStart r = 0 \<or> (idleSince r \<noteq> 0 \<and> dur \<le> now - idleSince r)
            then rampAllowance r' now target dur = 1 \<and> rampStart r' = now
            else rampStart r' = rampStart r))"
proof -
  have "min (occupied + 1) target \<le> rampAllowance (anchorRamp r occupied now target dur) now target dur"
    if "rampStart r = 0" "0 < occupied"
  proof -
    let ?k = "min occupied (target - 1)" and ?r = "anchorRamp r occupied now target dur"
    have k: "1 \<le> ?k" "?k \<le> target - 1" using that assms by simp_all
    have start: "rampStart ?r = now - rampStepDuration ?k target dur"
      using that assms by (simp add: anchorRamp_def Let_def)
    moreover have "rampStepDuration ?k target dur \<le> dur"
      using rampStepDuration_le_dur [of ?k target dur] k assms by simp
    ultimately have nz: "rampStart ?r \<noteq> 0" using assms by simp
    have "?k + 1 \<le> rampAllowance ?r now target dur"
      using rampAllowance_ge_iff [OF nz k assms(2,3), of now] start by simp
    then show ?thesis by (simp add: min_def split: if_splits)
  qed
  moreover have "dur \<le> time_Sub now t \<longleftrightarrow> dur \<le> now - t" for t
    using assms by (intro time_Sub_le_iff) (simp_all add: int64_defs)
  ultimately show ?thesis
    using assms by (auto simp: startRamp_def anchorRamp_def Let_def rampAllowance_def rampSteps_def time_Sub_def int64_defs)
qed

end
