(* ===== verification/Storm_Window.thy ===== *)
theory Storm_Window
  imports Wake_Timer
begin

text \<open>
  The rolling failure statistics of an outage scope (\<^verbatim>\<open>internal/scheduler/storm.go\<close>): sixty-four
  time buckets, the cached totals of the window, and the count of distinct requests that
  failed in it. The theory shows that the ring and its cache compute what they stand for: the
  attempts, the failed attempts and the distinct failed requests of the window.

  Counters are \<^verbatim>\<open>int64\<close> and saturate as \<open>stormAdd\<close> does; epochs are counted from the Unix epoch,
  which the clock is assumed to have passed.
\<close>

section \<open>Scopes and buckets\<close>

definition stormBucketCount :: int where
  "stormBucketCount = 64"

definition maxStormLabelBytes :: nat where
  "maxStormLabelBytes = 512"

definition maxStormReasonBytes :: nat where
  "maxStormReasonBytes = 96"

record stormKey =
  sk_provider :: string
  sk_model :: string
  sk_modelScope :: bool

record stormBucket =
  sb_epoch :: int
  sb_samples :: int
  sb_failures :: int
  sb_errorRequests :: int

definition zero_bucket64 :: stormBucket where
  "zero_bucket64 = \<lparr>sb_epoch = 0, sb_samples = 0, sb_failures = 0, sb_errorRequests = 0\<rparr>"

record stormScope =
  sc_key :: stormKey
  sc_buckets :: "stormBucket list"
  sc_cachedEpoch :: int
  sc_cachedSamples :: int
  sc_cachedFailures :: int
  sc_cachedErrorRequests :: int
  sc_reset :: nat
  sc_lastActivity :: time
  sc_active :: bool
  sc_probing :: bool
  sc_quota :: bool
  sc_epoch :: nat
  sc_backoff :: duration
  sc_retryAt :: time
  sc_recovered :: int
  sc_queued :: int
  sc_refs :: int
  sc_reason :: string
  sc_timer :: wakeTimer

definition new_scope :: "stormKey \<Rightarrow> time \<Rightarrow> stormScope" where
  "new_scope key now =
     \<lparr>sc_key = key, sc_buckets = replicate 64 zero_bucket64, sc_cachedEpoch = 0, sc_cachedSamples = 0,
      sc_cachedFailures = 0, sc_cachedErrorRequests = 0, sc_reset = 0, sc_lastActivity = now,
      sc_active = False, sc_probing = False, sc_quota = False, sc_epoch = 0, sc_backoff = 0, sc_retryAt = zero_time,
      sc_recovered = 0, sc_queued = 0, sc_refs = 0, sc_reason = [], sc_timer = zero_timer\<rparr>"

text \<open>A membership slot of one request; \<open>None\<close> is the nil scope.\<close>

record stormObservationSlot =
  slot_scope :: "nat option"
  slot_reset :: nat
  slot_epoch :: int

definition zero_slot :: stormObservationSlot where
  "zero_slot = \<lparr>slot_scope = None, slot_reset = 0, slot_epoch = 0\<rparr>"

definition UnixNano :: "time \<Rightarrow> int" where
  "UnixNano t = t - 62135596800 * second"

definition stormEpoch :: "time \<Rightarrow> duration \<Rightarrow> int" where
  "stormEpoch now window =
     (let width = window div stormBucketCount;
          width = (if width < 1 then 1 else width)
      in UnixNano now div width)"

definition stormAdd :: "int \<Rightarrow> int \<Rightarrow> int" where
  "stormAdd a b = (if a > max_int64 - b then max_int64 else a + b)"

definition foldCounters :: "int \<Rightarrow> int \<Rightarrow> int \<Rightarrow> int \<times> int" where
  "foldCounters bucket cached n =
     (if n \<ge> 0 then (stormAdd bucket n, stormAdd cached n)
      else if bucket > 0 then (bucket - 1, if cached > 0 then cached - 1 else cached)
      else (bucket, cached))"

definition bucket_index :: "int \<Rightarrow> nat" where
  "bucket_index epoch = nat (epoch mod stormBucketCount)"

definition in_span :: "int \<Rightarrow> int \<Rightarrow> bool" where
  "in_span epoch e \<longleftrightarrow> e > epoch - stormBucketCount \<and> e \<le> epoch"

definition sum_buckets :: "int \<Rightarrow> (stormBucket \<Rightarrow> int) \<Rightarrow> stormBucket list \<Rightarrow> int" where
  "sum_buckets epoch f bs = foldl (\<lambda>acc b. if in_span epoch (sb_epoch b) then stormAdd acc (f b) else acc) 0 bs"

definition totals :: "time \<Rightarrow> duration \<Rightarrow> stormScope \<Rightarrow> int \<times> int \<times> stormScope" where
  "totals now window s =
     (let epoch = stormEpoch now window
      in if sc_cachedEpoch s = epoch then (sc_cachedSamples s, sc_cachedFailures s, s)
         else
           let samples = sum_buckets epoch sb_samples (sc_buckets s);
               failures = sum_buckets epoch sb_failures (sc_buckets s);
               errorRequests = sum_buckets epoch sb_errorRequests (sc_buckets s)
           in (samples, failures,
               s\<lparr>sc_cachedEpoch := epoch, sc_cachedSamples := samples, sc_cachedFailures := failures,
                 sc_cachedErrorRequests := errorRequests\<rparr>))"

text \<open>
  \<^verbatim>\<open>observeRequest\<close> on the scope with identity \<open>sid\<close>; the slot of the request is an argument and a
  result, \<open>None\<close> when there is no observation.
\<close>

definition observeRequest ::
  "nat \<Rightarrow> time \<Rightarrow> duration \<Rightarrow> stormObservationSlot option \<Rightarrow> stormScope \<Rightarrow> stormObservationSlot option \<times> stormScope" where
  "observeRequest sid now window observation s =
     (let epoch = stormEpoch now window;
          bump = (\<lambda>s. let b = sc_buckets s ! bucket_index epoch;
                          (e, c) = foldCounters (sb_errorRequests b) (sc_cachedErrorRequests s) 1
                      in s\<lparr>sc_buckets := (sc_buckets s)[bucket_index epoch := b\<lparr>sb_errorRequests := e\<rparr>],
                           sc_cachedErrorRequests := c\<rparr>)
      in case observation of
           None \<Rightarrow> (None, bump s)
         | Some slot \<Rightarrow>
             if slot_scope slot = Some sid \<and> slot_reset slot = sc_reset s \<and> slot_epoch slot = epoch then (Some slot, s)
             else
               let s1 = (if slot_scope slot = Some sid \<and> slot_reset slot = sc_reset s then
                           let i = bucket_index (slot_epoch slot); previous = sc_buckets s ! i
                           in if slot_epoch slot > epoch - stormBucketCount \<and> sb_epoch previous = slot_epoch slot
                              then let (e, c) = foldCounters (sb_errorRequests previous) (sc_cachedErrorRequests s) (-1)
                                   in s\<lparr>sc_buckets := (sc_buckets s)[i := previous\<lparr>sb_errorRequests := e\<rparr>],
                                        sc_cachedErrorRequests := c\<rparr>
                              else s
                         else s)
               in (Some \<lparr>slot_scope = Some sid, slot_reset = sc_reset s1, slot_epoch = epoch\<rparr>, bump s1))"

definition resetSamples :: "stormScope \<Rightarrow> stormScope" where
  "resetSamples s =
     s\<lparr>sc_buckets := replicate 64 zero_bucket64, sc_cachedEpoch := 0, sc_cachedSamples := 0,
       sc_cachedFailures := 0, sc_cachedErrorRequests := 0, sc_reset := sc_reset s + 1\<rparr>"

definition sample :: "time \<Rightarrow> duration \<Rightarrow> bool \<Rightarrow> stormScope \<Rightarrow> stormScope" where
  "sample now window failed s0 =
     (let s = snd (snd (totals now window s0));
          epoch = stormEpoch now window;
          i = bucket_index epoch;
          b = (if sb_epoch (sc_buckets s ! i) \<noteq> epoch then zero_bucket64\<lparr>sb_epoch := epoch\<rparr> else sc_buckets s ! i);
          (n, c) = foldCounters (sb_samples b) (sc_cachedSamples s) 1;
          b1 = b\<lparr>sb_samples := n\<rparr>; s1 = s\<lparr>sc_cachedSamples := c\<rparr>;
          (b2, s2) = (if failed
                      then let (n, c) = foldCounters (sb_failures b1) (sc_cachedFailures s1) 1
                           in (b1\<lparr>sb_failures := n\<rparr>, s1\<lparr>sc_cachedFailures := c\<rparr>)
                      else (b1, s1))
      in s2\<lparr>sc_buckets := (sc_buckets s2)[i := b2], sc_lastActivity := now\<rparr>)"

text \<open>The float comparison of \<^verbatim>\<open>threshold\<close> is exact on rationals.\<close>

definition over_threshold :: "int \<Rightarrow> int \<Rightarrow> int \<Rightarrow> int \<Rightarrow> bool" where
  "over_threshold samples failures minSamples errorPercent \<longleftrightarrow>
     samples \<ge> minSamples \<and> samples > 0 \<and> failures > 0
     \<and> 100 * of_int failures / of_int samples \<ge> (of_int errorPercent :: rat)"



section \<open>The ring of buckets\<close>

abbreviation tally :: "int list \<Rightarrow> int \<Rightarrow> int" where
  "tally xs e \<equiv> int (length (filter (\<lambda>x. x = e) xs))"

definition spanned :: "int \<Rightarrow> int list \<Rightarrow> int" where
  "spanned epoch xs = int (length (filter (in_span epoch) xs))"

lemma spanned_simps [simp]:
  "spanned e [] = 0" "spanned e (x # xs) = (if in_span e x then 1 else 0) + spanned e xs"
  by (simp_all add: spanned_def)

lemma spanned_bounds: "0 \<le> spanned e xs \<and> spanned e xs \<le> int (length xs)"
  by (simp add: spanned_def)

definition shape_ok :: "stormBucket list \<Rightarrow> bool" where
  "shape_ok bs \<longleftrightarrow> length bs = 64
     \<and> (\<forall>i<64. sb_epoch (bs ! i) = 0 \<or> bucket_index (sb_epoch (bs ! i)) = i)"

text \<open>
  The counter \<open>get\<close> of the buckets stands for the list \<open>xs\<close> of epochs of what it has counted,
  at a clock whose last epoch is \<open>l\<close>.
\<close>

definition field_ok :: "(stormBucket \<Rightarrow> int) \<Rightarrow> int \<Rightarrow> stormBucket list \<Rightarrow> int list \<Rightarrow> bool" where
  "field_ok get l bs xs \<longleftrightarrow> (\<forall>x\<in>set xs. 0 < x \<and> x \<le> l)
     \<and> (\<forall>i<64. l - stormBucketCount < sb_epoch (bs ! i) \<longrightarrow> get (bs ! i) = tally xs (sb_epoch (bs ! i)))
     \<and> (\<forall>x\<in>set xs. l - stormBucketCount < x \<longrightarrow> sb_epoch (bs ! bucket_index x) = x)"

lemma shape_ok_length [simp]: "shape_ok bs \<Longrightarrow> length bs = 64"
  by (simp add: shape_ok_def)

lemma shape_ok_index: "shape_ok bs \<Longrightarrow> i < 64 \<Longrightarrow> sb_epoch (bs ! i) \<noteq> 0 \<Longrightarrow> bucket_index (sb_epoch (bs ! i)) = i"
  by (auto simp: shape_ok_def)

lemma field_okD:
  assumes "field_ok get l bs xs"
  shows "x \<in> set xs \<Longrightarrow> 0 < x" "x \<in> set xs \<Longrightarrow> x \<le> l"
    and "i < 64 \<Longrightarrow> l - stormBucketCount < sb_epoch (bs ! i) \<Longrightarrow> get (bs ! i) = tally xs (sb_epoch (bs ! i))"
    and "x \<in> set xs \<Longrightarrow> l - stormBucketCount < x \<Longrightarrow> sb_epoch (bs ! bucket_index x) = x"
  using assms by (simp_all add: field_ok_def)

lemma bucket_index_less [simp]: "bucket_index e < 64"
  by (simp add: bucket_index_def stormBucketCount_def nat_less_iff)

lemma same_index:
  assumes "in_span epoch x" "in_span epoch y" "bucket_index x = bucket_index y" shows "x = y"
proof -
  have "x mod 64 = y mod 64"
    using assms(3) by (simp add: bucket_index_def stormBucketCount_def)
  then have "64 dvd x - y" by (simp add: mod_eq_dvd_iff)
  then obtain k where "x - y = 64 * k" ..
  moreover have "- 64 < x - y" "x - y < 64"
    using assms(1,2) by (auto simp: in_span_def stormBucketCount_def)
  ultimately show ?thesis by presburger
qed

lemma stormAdd_exact: "a + b \<le> max_int64 \<Longrightarrow> stormAdd a b = a + b"
  by (simp add: stormAdd_def)

lemma foldl_stormAdd:
  assumes "acc + sum_list (map (\<lambda>b. if P b then f b else 0) bs) \<le> max_int64" "\<forall>b\<in>set bs. P b \<longrightarrow> 0 \<le> f b"
  shows "foldl (\<lambda>acc b. if P b then stormAdd acc (f b) else acc) acc bs
    = acc + sum_list (map (\<lambda>b. if P b then f b else 0) bs)"
  using assms
proof (induction bs arbitrary: acc)
  case (Cons b bs)
  have "0 \<le> sum_list (map (\<lambda>b. if P b then f b else 0) bs)"
    using Cons.prems(2) by (intro sum_list_nonneg) auto
  with Cons show ?case by (auto simp: stormAdd_exact algebra_simps)
qed simp

lemma sum_partition:
  "(\<Sum>i<64. int (length (filter (\<lambda>x. P x \<and> bucket_index x = i) xs))) = int (length (filter P xs))"
proof (induction xs)
  case (Cons x xs)
  have split: "int (length (filter (\<lambda>y. P y \<and> bucket_index y = i) (x # xs)))
      = (if bucket_index x = i then (if P x then 1 else 0) else 0) + int (length (filter (\<lambda>y. P y \<and> bucket_index y = i) xs))" for i
    by simp
  show ?case unfolding split sum.distrib Cons.IH by (simp add: sum.delta)
qed simp

lemma bucket_term:
  assumes "shape_ok bs" "field_ok get l bs xs" "l \<le> epoch" "i < 64"
  shows "(if in_span epoch (sb_epoch (bs ! i)) then get (bs ! i) else 0)
      = int (length (filter (\<lambda>x. in_span epoch x \<and> bucket_index x = i) xs))"
proof -
  let ?e = "sb_epoch (bs ! i)"
  have cover: "?e = x" if "x \<in> set xs" "in_span epoch x" "bucket_index x = i" for x
    using field_okD(4) [OF assms(2) that(1)] that(2,3) assms(3) by (simp add: in_span_def)
  show ?thesis
  proof (cases "in_span epoch ?e")
    case True
    have "in_span epoch x \<and> bucket_index x = i \<longleftrightarrow> x = ?e" if x: "x \<in> set xs" for x
    proof
      assume eq: "x = ?e"
      then have "?e \<noteq> 0" using field_okD(1) [OF assms(2) x] by simp
      then show "in_span epoch x \<and> bucket_index x = i" using eq True shape_ok_index [OF assms(1,4)] by simp
    qed (use cover x in simp)
    then have "filter (\<lambda>x. in_span epoch x \<and> bucket_index x = i) xs = filter (\<lambda>x. x = ?e) xs"
      by (rule filter_cong [OF refl])
    with True show ?thesis using field_okD(3) [OF assms(2,4)] assms(3) by (simp add: in_span_def)
  next
    case False
    have "\<not> (in_span epoch x \<and> bucket_index x = i)" if "x \<in> set xs" for x
      using cover [OF that] False by auto
    then have "filter (\<lambda>x. in_span epoch x \<and> bucket_index x = i) xs = []" by (simp add: filter_empty_conv)
    with False show ?thesis by simp
  qed
qed

lemma sum_buckets_exact:
  assumes "shape_ok bs" "field_ok get l bs xs" "l \<le> epoch" "int (length xs) \<le> max_int64"
  shows "sum_buckets epoch get bs = spanned epoch xs"
proof -
  have len: "length bs = 64" using assms(1) by simp
  have "sum_list (map (\<lambda>b. if in_span epoch (sb_epoch b) then get b else 0) bs)
      = (\<Sum>i<64. if in_span epoch (sb_epoch (bs ! i)) then get (bs ! i) else 0)"
    unfolding sum_list_sum_nth length_map len atLeast0LessThan
    by (rule sum.cong [OF refl]) (simp add: len del: sum.lessThan_Suc)
  also have "\<dots> = (\<Sum>i<64. int (length (filter (\<lambda>x. in_span epoch x \<and> bucket_index x = i) xs)))"
    by (rule sum.cong [OF refl]) (rule bucket_term [OF assms(1-3)], simp)
  finally have sum: "sum_list (map (\<lambda>b. if in_span epoch (sb_epoch b) then get b else 0) bs) = spanned epoch xs"
    by (simp only: sum_partition spanned_def)
  have "0 \<le> get b" if "b \<in> set bs" "in_span epoch (sb_epoch b)" for b
    using that field_okD(3) [OF assms(2)] len assms(3) by (auto simp: in_set_conv_nth in_span_def)
  moreover have "spanned epoch xs \<le> max_int64"
    using assms(4) spanned_bounds [of epoch xs] by linarith
  ultimately show ?thesis
    using foldl_stormAdd [of 0 "\<lambda>b. in_span epoch (sb_epoch b)" get bs] sum by (simp add: sum_buckets_def)
qed

text \<open>Claiming the bucket of the current epoch, as \<^verbatim>\<open>sample\<close> does, loses nothing of the window.\<close>

definition claim_bucket :: "int \<Rightarrow> stormBucket list \<Rightarrow> stormBucket list" where
  "claim_bucket epoch bs =
     (let i = bucket_index epoch
      in bs[i := (if sb_epoch (bs ! i) \<noteq> epoch then zero_bucket64\<lparr>sb_epoch := epoch\<rparr> else bs ! i)])"

lemma claim_bucket_epoch: "shape_ok bs \<Longrightarrow> sb_epoch (claim_bucket epoch bs ! bucket_index epoch) = epoch"
  by (simp add: claim_bucket_def shape_ok_def Let_def)

lemma shape_ok_update:
  assumes "shape_ok bs" "bucket_index (sb_epoch b) = i" shows "shape_ok (bs[i := b])"
  unfolding shape_ok_def
proof (intro conjI allI impI)
  fix j :: nat assume "j < 64"
  then show "sb_epoch (bs[i := b] ! j) = 0 \<or> bucket_index (sb_epoch (bs[i := b] ! j)) = j"
    using assms by (cases "j = i") (auto simp: shape_ok_def)
qed (simp add: assms)

lemma shape_ok_claim: "shape_ok bs \<Longrightarrow> shape_ok (claim_bucket epoch bs)"
  by (auto simp: claim_bucket_def Let_def intro!: shape_ok_update)

lemma field_ok_claim:
  assumes "shape_ok bs" "field_ok get l bs xs" "l \<le> epoch" "0 < epoch"
    and zero: "get (zero_bucket64\<lparr>sb_epoch := epoch\<rparr>) = 0"
  shows "field_ok get epoch (claim_bucket epoch bs) xs"
proof (cases "sb_epoch (bs ! bucket_index epoch) = epoch")
  case True
  then have "claim_bucket epoch bs = bs" by (simp add: claim_bucket_def Let_def)
  with assms show ?thesis by (auto simp: field_ok_def)
next
  case False
  let ?i = "bucket_index epoch"
  have cb: "claim_bucket epoch bs = bs[?i := zero_bucket64\<lparr>sb_epoch := epoch\<rparr>]"
    using False by (simp add: claim_bucket_def Let_def)
  have len: "length bs = 64" using assms(1) by (simp add: shape_ok_def)
  have notin: "x \<noteq> epoch" if "x \<in> set xs" for x
    using that False assms(2,3) by (auto simp: field_ok_def stormBucketCount_def)
  have other: "bucket_index x \<noteq> ?i" if "x \<in> set xs" "epoch - stormBucketCount < x" for x
    using same_index [of epoch x epoch] that notin assms(2,3)
    by (auto simp: in_span_def field_ok_def stormBucketCount_def)
  have none: "tally xs epoch = 0" using notin by (auto simp: filter_empty_conv)
  show ?thesis unfolding field_ok_def cb
  proof (intro conjI ballI allI impI)
    fix i :: nat
    assume "i < 64" "epoch - stormBucketCount < sb_epoch (bs[?i := zero_bucket64\<lparr>sb_epoch := epoch\<rparr>] ! i)"
    then show "get (bs[?i := zero_bucket64\<lparr>sb_epoch := epoch\<rparr>] ! i)
        = tally xs (sb_epoch (bs[?i := zero_bucket64\<lparr>sb_epoch := epoch\<rparr>] ! i))"
      using none zero field_okD(3) [OF assms(2), of i] len assms(3) by (cases "i = ?i") simp_all
  next
    fix x assume x: "x \<in> set xs" "epoch - stormBucketCount < x"
    then have "sb_epoch (bs ! bucket_index x) = x"
      using field_okD(4) [OF assms(2)] assms(3) by simp
    then show "sb_epoch (bs[?i := zero_bucket64\<lparr>sb_epoch := epoch\<rparr>] ! bucket_index x) = x"
      using other [OF x] by simp
  qed (use field_okD(1,2) [OF assms(2)] assms(3) in force)+
qed

text \<open>Counting up and down in a bucket, for each of the three counters.\<close>

locale bucket_field =
  fixes get :: "stormBucket \<Rightarrow> int" and put :: "int \<Rightarrow> stormBucket \<Rightarrow> stormBucket"
  assumes get_put: "get (put v b) = v"
    and epoch_put: "sb_epoch (put v b) = sb_epoch b"
    and get_zero: "get (zero_bucket64\<lparr>sb_epoch := e\<rparr>) = 0"
begin

lemma shape_put: "shape_ok bs \<Longrightarrow> i < 64 \<Longrightarrow> shape_ok (bs[i := put v (bs ! i)])"
  by (auto simp: shape_ok_def nth_list_update epoch_put)

lemma bump:
  assumes "shape_ok bs" "field_ok get l bs xs" "sb_epoch (bs ! bucket_index e) = e" "0 < e" "e \<le> l"
    and tal: "\<And>x. tally ys x = tally xs x + (if x = e then d else 0)" and sub: "set ys \<subseteq> insert e (set xs)"
  shows "field_ok get l (bs[bucket_index e := put (get (bs ! bucket_index e) + d) (bs ! bucket_index e)]) ys"
    (is "field_ok get l ?bs ys")
proof -
  have ep: "sb_epoch (?bs ! i) = sb_epoch (bs ! i)" if "i < 64" for i
    using that assms(1) by (cases "i = bucket_index e") (simp_all add: epoch_put)
  have other: "sb_epoch (bs ! i) \<noteq> e" if "i < 64" "i \<noteq> bucket_index e" for i
    using shape_ok_index [OF assms(1) that(1)] that(2) assms(4) by auto
  show ?thesis unfolding field_ok_def
  proof (intro conjI ballI allI impI)
    fix i :: nat assume i: "i < 64" and recent: "l - stormBucketCount < sb_epoch (?bs ! i)"
    note recent [unfolded ep [OF i]]
    note old = field_okD(3) [OF assms(2) i this]
    show "get (?bs ! i) = tally ys (sb_epoch (?bs ! i))"
    proof (cases "i = bucket_index e")
      case True
      then show ?thesis
        using assms(1,3) old tal [of e] by (simp add: get_put epoch_put)
    next
      case False
      then show ?thesis
        using other [OF i False] old tal [of "sb_epoch (bs ! i)"] by simp
    qed
  next
    fix x assume "x \<in> set ys" "l - stormBucketCount < x"
    with sub show "sb_epoch (?bs ! bucket_index x) = x"
      using ep [of "bucket_index x"] assms(3) field_okD(4) [OF assms(2), of x] by auto
  qed (use sub assms(4,5) field_okD(1,2) [OF assms(2)] in blast)+
qed

lemma count_up:
  assumes "shape_ok bs" "field_ok get epoch bs xs" "0 < epoch"
    and "sb_epoch (bs ! bucket_index epoch) = epoch"
  shows "field_ok get epoch (bs[bucket_index epoch := put (get (bs ! bucket_index epoch) + 1) (bs ! bucket_index epoch)])
    (epoch # xs)"
  using assms by (intro bump [where d = 1 and xs = xs]) auto

lemma count_down:
  assumes "shape_ok bs" "field_ok get l bs xs" "e \<in> set xs" "sb_epoch (bs ! bucket_index e) = e"
    and "\<And>x. tally ys x = tally xs x - (if x = e then 1 else 0)" "set ys \<subseteq> set xs"
  shows "field_ok get l (bs[bucket_index e := put (get (bs ! bucket_index e) - 1) (bs ! bucket_index e)]) ys"
proof -
  have "tally ys x = tally xs x + (if x = e then - 1 else 0)" for x by (simp add: assms(5))
  from bump [OF assms(1,2,4) field_okD(1,2) [OF assms(2,3)] this] assms(6) show ?thesis by auto
qed

end

interpretation samples: bucket_field sb_samples "\<lambda>v b. b\<lparr>sb_samples := v\<rparr>"
  by unfold_locales (simp_all add: zero_bucket64_def)

interpretation failures: bucket_field sb_failures "\<lambda>v b. b\<lparr>sb_failures := v\<rparr>"
  by unfold_locales (simp_all add: zero_bucket64_def)

interpretation errors: bucket_field sb_errorRequests "\<lambda>v b. b\<lparr>sb_errorRequests := v\<rparr>"
  by unfold_locales (simp_all add: zero_bucket64_def)

text \<open>A counter is untouched by an update that keeps it and the epoch.\<close>

lemma field_ok_other:
  assumes "get b = get (bs ! i)" "sb_epoch b = sb_epoch (bs ! i)"
  shows "field_ok get l (bs[i := b]) xs = field_ok get l bs xs"
proof -
  have "get (bs[i := b] ! j) = get (bs ! j)" for j
    using assms(1) by (cases "i < length bs \<and> j = i") (auto simp: nth_list_update not_less list_update_beyond)
  moreover have "sb_epoch (bs[i := b] ! j) = sb_epoch (bs ! j)" for j
    using assms(2) by (cases "i < length bs \<and> j = i") (auto simp: nth_list_update not_less list_update_beyond)
  ultimately show ?thesis unfolding field_ok_def by presburger
qed



section \<open>The statistics a scope stands for\<close>

text \<open>
  The attempts since the last reset, as epoch and outcome, and the failed requests: one entry
  for each named request, at the epoch of its latest failure, and one for each anonymous
  failure.
\<close>

record stats =
  st_hist :: "(int \<times> bool) list"
  st_errs :: "(nat option \<times> int) list"

definition record_err :: "nat option \<Rightarrow> int \<Rightarrow> (nat option \<times> int) list \<Rightarrow> (nat option \<times> int) list" where
  "record_err r e errs =
     (case r of
        None \<Rightarrow> (None, e) # errs
      | Some n \<Rightarrow> if (Some n, e) \<in> set errs then errs else (Some n, e) # filter (\<lambda>x. fst x \<noteq> Some n) errs)"

definition spec_attempt :: "int \<Rightarrow> bool \<Rightarrow> nat option \<Rightarrow> stats \<Rightarrow> stats" where
  "spec_attempt e failed r st =
     st\<lparr>st_hist := (e, failed) # st_hist st, st_errs := (if failed then record_err r e (st_errs st) else st_errs st)\<rparr>"

definition empty_stats :: stats where
  "empty_stats = \<lparr>st_hist = [], st_errs = []\<rparr>"

text \<open>The same on a scope: one settled attempt, as \<^verbatim>\<open>settle\<close> records it.\<close>

type_synonym slots = "nat \<Rightarrow> stormObservationSlot"

definition attempt ::
  "nat \<Rightarrow> time \<Rightarrow> duration \<Rightarrow> bool \<Rightarrow> nat option \<Rightarrow> slots \<times> stormScope \<Rightarrow> slots \<times> stormScope" where
  "attempt sid now window failed r x =
     (case x of (slots, s) \<Rightarrow>
        let s1 = sample now window failed s
        in if \<not> failed then (slots, s1)
           else case r of
             None \<Rightarrow> (slots, snd (observeRequest sid now window None s1))
           | Some n \<Rightarrow>
               (case observeRequest sid now window (Some (slots n)) s1 of
                  (o', s2) \<Rightarrow> (slots(n := the o'), s2)))"

definition attempts_of :: "stats \<Rightarrow> int list" where
  "attempts_of st = map fst (st_hist st)"

definition failures_of :: "stats \<Rightarrow> int list" where
  "failures_of st = map fst (filter snd (st_hist st))"

definition errors_of :: "stats \<Rightarrow> int list" where
  "errors_of st = map snd (st_errs st)"

definition buckets_ok :: "int \<Rightarrow> stats \<Rightarrow> stormBucket list \<Rightarrow> bool" where
  "buckets_ok l st bs \<longleftrightarrow> shape_ok bs
     \<and> field_ok sb_samples l bs (attempts_of st)
     \<and> field_ok sb_failures l bs (failures_of st)
     \<and> field_ok sb_errorRequests l bs (errors_of st)"

definition cache_ok :: "stats \<Rightarrow> stormScope \<Rightarrow> bool" where
  "cache_ok st s \<longleftrightarrow>
     sc_cachedSamples s = spanned (sc_cachedEpoch s) (attempts_of st)
     \<and> sc_cachedFailures s = spanned (sc_cachedEpoch s) (failures_of st)
     \<and> sc_cachedErrorRequests s = spanned (sc_cachedEpoch s) (errors_of st)"

definition slots_ok :: "nat \<Rightarrow> slots \<Rightarrow> nat \<Rightarrow> (nat option \<times> int) list \<Rightarrow> bool" where
  "slots_ok sid slots reset errs \<longleftrightarrow>
     (\<forall>n. slot_scope (slots n) = Some sid \<longrightarrow> slot_reset (slots n) \<le> reset)
     \<and> (\<forall>n e. (Some n, e) \<in> set errs \<longleftrightarrow> slot_scope (slots n) = Some sid \<and> slot_reset (slots n) = reset \<and> slot_epoch (slots n) = e)
     \<and> distinct (map fst (filter (\<lambda>x. fst x \<noteq> None) errs))"

definition stats_ok :: "nat \<Rightarrow> int \<Rightarrow> stats \<Rightarrow> slots \<times> stormScope \<Rightarrow> bool" where
  "stats_ok sid l st x \<longleftrightarrow> (case x of (slots, s) \<Rightarrow>
     buckets_ok l st (sc_buckets s) \<and> cache_ok st s \<and> sc_cachedEpoch s \<le> l
     \<and> slots_ok sid slots (sc_reset s) (st_errs st) \<and> length (st_errs st) \<le> length (st_hist st))"

lemma stats_lengths:
  "length (attempts_of st) = length (st_hist st)" "length (failures_of st) \<le> length (st_hist st)"
  "length (errors_of st) = length (st_errs st)"
  by (simp_all add: attempts_of_def failures_of_def errors_of_def)

lemma length_record_err: "length (record_err r e errs) \<le> Suc (length errs)"
  by (auto simp: record_err_def split: option.splits)

lemma tally_le: "tally xs e \<le> int (length xs)"
  by simp

lemma in_span_self [simp]: "in_span e e"
  by (simp add: in_span_def stormBucketCount_def)

lemma totals_ok:
  assumes "buckets_ok l st (sc_buckets s)" "cache_ok st s" "l \<le> stormEpoch now window"
    and "length (st_errs st) \<le> length (st_hist st)" "int (length (st_hist st)) \<le> max_int64"
  shows "totals now window s =
    (let e = stormEpoch now window; st_s = spanned e (attempts_of st);
         st_f = spanned e (failures_of st);
         st_e = spanned e (errors_of st)
     in (st_s, st_f, s\<lparr>sc_cachedEpoch := e, sc_cachedSamples := st_s, sc_cachedFailures := st_f,
                        sc_cachedErrorRequests := st_e\<rparr>))"
proof (cases "sc_cachedEpoch s = stormEpoch now window")
  case True
  then show ?thesis using assms(2) by (simp add: totals_def Let_def cache_ok_def)
next
  case False
  have b: "int (length (attempts_of st)) \<le> max_int64" "int (length (failures_of st)) \<le> max_int64"
    "int (length (errors_of st)) \<le> max_int64"
    using assms(4,5) stats_lengths [of st] by linarith+
  have "sum_buckets (stormEpoch now window) get (sc_buckets s) = spanned (stormEpoch now window) xs"
    if "field_ok get l (sc_buckets s) xs" "int (length xs) \<le> max_int64" for get xs
    using sum_buckets_exact [OF _ that(1) assms(3) that(2)] assms(1) by (simp add: buckets_ok_def)
  with False assms(1,5) b show ?thesis
    by (simp add: totals_def Let_def buckets_ok_def)
qed


lemma field_ok_le:
  "field_ok get l bs xs \<Longrightarrow> i < 64 \<Longrightarrow> l - stormBucketCount < sb_epoch (bs ! i) \<Longrightarrow> get (bs ! i) \<le> int (length xs)"
  using field_okD(3) [of get l bs xs i] by simp

lemma foldCounters_up:
  "bucket < max_int64 \<Longrightarrow> cached < max_int64 \<Longrightarrow> foldCounters bucket cached 1 = (bucket + 1, cached + 1)"
  by (simp add: foldCounters_def stormAdd_def)

text \<open>What a sample does when no counter is about to overflow.\<close>

definition sample_buckets :: "int \<Rightarrow> bool \<Rightarrow> stormBucket list \<Rightarrow> stormBucket list" where
  "sample_buckets e failed bs0 =
     (let i = bucket_index e; bs = claim_bucket e bs0;
          bs1 = bs[i := (bs ! i)\<lparr>sb_samples := sb_samples (bs ! i) + 1\<rparr>]
      in if failed then bs1[i := (bs1 ! i)\<lparr>sb_failures := sb_failures (bs1 ! i) + 1\<rparr>] else bs1)"

lemma sample_buckets_ok:
  assumes "buckets_ok l st bs" "l \<le> e" "0 < e"
  shows "buckets_ok e (st\<lparr>st_hist := (e, failed) # st_hist st\<rparr>) (sample_buckets e failed bs)
    \<and> sb_epoch (sample_buckets e failed bs ! bucket_index e) = e"
proof -
  let ?i = "bucket_index e" and ?c = "claim_bucket e bs"
  define bs1 where "bs1 = ?c[?i := (?c ! ?i)\<lparr>sb_samples := sb_samples (?c ! ?i) + 1\<rparr>]"
  have sh: "shape_ok ?c" using assms(1) by (simp add: buckets_ok_def shape_ok_claim)
  have ep: "sb_epoch (?c ! ?i) = e" using assms(1) by (simp add: buckets_ok_def claim_bucket_epoch)
  note claim = field_ok_claim [OF _ _ assms(2,3), of bs]
  have c1: "field_ok sb_samples e ?c (attempts_of st)" and c2: "field_ok sb_failures e ?c (failures_of st)"
    and c3: "field_ok sb_errorRequests e ?c (errors_of st)"
    using assms(1) by (auto simp: buckets_ok_def zero_bucket64_def intro!: claim)
  have sh1: "shape_ok bs1" unfolding bs1_def by (rule samples.shape_put [OF sh]) simp
  have ep1: "sb_epoch (bs1 ! ?i) = e" using sh ep by (simp add: bs1_def)
  have s1: "field_ok sb_samples e bs1 (e # attempts_of st)"
    unfolding bs1_def by (rule samples.count_up [OF sh c1 assms(3) ep])
  have f1: "field_ok sb_failures e bs1 (failures_of st)" and r1: "field_ok sb_errorRequests e bs1 (errors_of st)"
    using c2 c3 by (simp_all add: bs1_def field_ok_other)
  show ?thesis
  proof (cases failed)
    case False
    then have "sample_buckets e failed bs = bs1" by (simp add: sample_buckets_def bs1_def Let_def)
    with False sh1 ep1 s1 f1 r1 show ?thesis
      by (simp add: buckets_ok_def attempts_of_def failures_of_def errors_of_def)
  next
    case True
    let ?bs2 = "bs1[?i := (bs1 ! ?i)\<lparr>sb_failures := sb_failures (bs1 ! ?i) + 1\<rparr>]"
    have eq: "sample_buckets e failed bs = ?bs2" using True by (simp add: sample_buckets_def bs1_def Let_def)
    have "field_ok sb_failures e ?bs2 (e # failures_of st)"
      by (rule failures.count_up [OF sh1 f1 assms(3) ep1])
    moreover have "shape_ok ?bs2" by (rule failures.shape_put [OF sh1]) simp
    moreover have "field_ok sb_samples e ?bs2 (e # attempts_of st)" "field_ok sb_errorRequests e ?bs2 (errors_of st)"
      using s1 r1 by (simp_all add: field_ok_other)
    ultimately show ?thesis unfolding eq
      using True sh1 ep1 by (simp add: buckets_ok_def attempts_of_def failures_of_def errors_of_def)
  qed
qed

lemma sample_eq:
  assumes ok: "buckets_ok l st (sc_buckets s)" "cache_ok st s" "l \<le> e" "0 < e"
    and len: "length (st_errs st) \<le> length (st_hist st)" "int (length (st_hist st)) < max_int64"
    and e: "e = stormEpoch now window"
  shows "sample now window failed s =
    s\<lparr>sc_cachedEpoch := e, sc_cachedSamples := spanned e (attempts_of st) + 1,
      sc_cachedFailures := spanned e (failures_of st) + (if failed then 1 else 0),
      sc_cachedErrorRequests := spanned e (errors_of st),
      sc_buckets := sample_buckets e failed (sc_buckets s), sc_lastActivity := now\<rparr>"
proof -
  let ?i = "bucket_index e" and ?c = "claim_bucket e (sc_buckets s)"
  have tot: "snd (snd (totals now window s)) = s\<lparr>sc_cachedEpoch := e, sc_cachedSamples := spanned e (attempts_of st),
      sc_cachedFailures := spanned e (failures_of st), sc_cachedErrorRequests := spanned e (errors_of st)\<rparr>"
    using totals_ok [OF ok(1,2)] ok(3) len e by (simp add: Let_def)
  have sh: "shape_ok (sc_buckets s)" using ok(1) by (simp add: buckets_ok_def)
  have c: "field_ok sb_samples e ?c (attempts_of st)" "field_ok sb_failures e ?c (failures_of st)"
    using ok by (auto simp: buckets_ok_def zero_bucket64_def intro!: field_ok_claim)
  have ep: "e - stormBucketCount < sb_epoch (?c ! ?i)"
    using sh by (simp add: claim_bucket_epoch stormBucketCount_def)
  have b: "sb_samples (?c ! ?i) < max_int64" "sb_failures (?c ! ?i) < max_int64"
    "spanned e (attempts_of st) < max_int64" "spanned e (failures_of st) < max_int64"
    using field_ok_le [OF c(1) _ ep] field_ok_le [OF c(2) _ ep] len(2) stats_lengths [of st]
      spanned_bounds [of e "attempts_of st"] spanned_bounds [of e "failures_of st"] by simp_all
  have ci: "?c ! ?i = (if sb_epoch (sc_buckets s ! ?i) \<noteq> e then zero_bucket64\<lparr>sb_epoch := e\<rparr> else sc_buckets s ! ?i)"
    and cu: "?c[?i := x] = (sc_buckets s)[?i := x]" for x
    using sh by (simp_all add: claim_bucket_def Let_def)
  show ?thesis
    unfolding sample_def tot Let_def sample_buckets_def e [symmetric]
    using b sh unfolding ci cu
    by (cases failed; cases "sb_epoch (sc_buckets s ! ?i) = e") (simp_all add: foldCounters_up zero_bucket64_def)
qed


text \<open>Moving the entry of a request to the current epoch.\<close>

lemma named_once:
  assumes "slots_ok sid slots reset errs" "(Some n, e) \<in> set errs"
  shows "tally (map snd (filter (\<lambda>x. fst x \<noteq> Some n) errs)) x = tally (map snd errs) x - (if x = e then 1 else 0)"
proof -
  have dist: "distinct (map fst (filter (\<lambda>x. fst x \<noteq> None) errs))"
    and same: "\<And>e'. (Some n, e') \<in> set errs \<Longrightarrow> e' = e"
    using assms by (auto simp: slots_ok_def)
  obtain ys zs where split: "errs = ys @ (Some n, e) # zs" using split_list [OF assms(2)] by blast
  have none: "\<forall>x\<in>set ys \<union> set zs. fst x \<noteq> Some n"
    using dist by (auto simp: split image_iff)
  then have "filter (\<lambda>x. fst x \<noteq> Some n) ys = ys" "filter (\<lambda>x. fst x \<noteq> Some n) zs = zs"
    by (simp_all add: filter_id_conv)
  then show ?thesis by (simp add: split)
qed

lemma slots_ok_named:
  assumes "slots_ok sid slots reset errs"
  shows "slots_ok sid (slots(n := \<lparr>slot_scope = Some sid, slot_reset = reset, slot_epoch = e\<rparr>)) reset
    ((Some n, e) # filter (\<lambda>x. fst x \<noteq> Some n) errs)"
proof -
  have swap: "filter (\<lambda>x. fst x \<noteq> None) (filter (\<lambda>x. fst x \<noteq> Some n) errs)
      = filter (\<lambda>x. fst x \<noteq> Some n) (filter (\<lambda>x. fst x \<noteq> None) errs)"
    by (simp add: conj_commute)
  have "distinct (map fst (filter (\<lambda>x. fst x \<noteq> None) errs))" using assms by (simp add: slots_ok_def)
  then have "distinct (map fst (filter (\<lambda>x. fst x \<noteq> None) (filter (\<lambda>x. fst x \<noteq> Some n) errs)))"
    unfolding swap by (rule distinct_map_filter)
  then have "distinct (map fst (filter (\<lambda>x. fst x \<noteq> None) ((Some n, e) # filter (\<lambda>x. fst x \<noteq> Some n) errs)))"
    by (auto simp del: filter_filter)
  with assms show ?thesis unfolding slots_ok_def by auto
qed

lemma tally_pos: "e \<in> set xs \<Longrightarrow> 0 < tally xs e"
  by (auto simp: filter_empty_conv)

lemma spanned_pos: "e \<in> set xs \<Longrightarrow> in_span epoch e \<Longrightarrow> 0 < spanned epoch xs"
  by (auto simp: spanned_def filter_empty_conv)

text \<open>The two halves of \<^verbatim>\<open>observeRequest\<close>: leaving the previous bucket and entering the current one.\<close>

lemma enter_ok:
  assumes "buckets_ok e st bs" "sb_epoch (bs ! bucket_index e) = e" "0 < e"
    and "errors_of st' = e # errors_of st" "st_hist st' = st_hist st"
  shows "buckets_ok e st' (bs[bucket_index e := (bs ! bucket_index e)\<lparr>sb_errorRequests := sb_errorRequests (bs ! bucket_index e) + 1\<rparr>])"
proof -
  have sh: "shape_ok bs" using assms(1) by (simp add: buckets_ok_def)
  have "field_ok sb_errorRequests e bs (errors_of st)" using assms(1) by (simp add: buckets_ok_def)
  note errors.count_up [OF sh this assms(3,2)]
  moreover have "shape_ok (bs[bucket_index e := (bs ! bucket_index e)\<lparr>sb_errorRequests := sb_errorRequests (bs ! bucket_index e) + 1\<rparr>])"
    by (rule errors.shape_put [OF sh]) simp
  moreover have "attempts_of st' = attempts_of st" "failures_of st' = failures_of st"
    using assms(5) by (simp_all add: attempts_of_def failures_of_def)
  ultimately show ?thesis
    using assms(1,4) by (simp add: buckets_ok_def field_ok_other)
qed

lemma leave_ok:
  assumes "buckets_ok l st bs" "slots_ok sid slots reset (st_errs st)" "(Some n, e) \<in> set (st_errs st)"
    and "sb_epoch (bs ! bucket_index e) = e"
  shows "buckets_ok l (st\<lparr>st_errs := filter (\<lambda>x. fst x \<noteq> Some n) (st_errs st)\<rparr>)
    (bs[bucket_index e := (bs ! bucket_index e)\<lparr>sb_errorRequests := sb_errorRequests (bs ! bucket_index e) - 1\<rparr>])"
proof -
  have sh: "shape_ok bs" and f: "field_ok sb_errorRequests l bs (map snd (st_errs st))"
    using assms(1) by (simp_all add: buckets_ok_def errors_of_def)
  have "e \<in> set (map snd (st_errs st))" using assms(3) by force
  moreover have "set (map snd (filter (\<lambda>x. fst x \<noteq> Some n) (st_errs st))) \<subseteq> set (map snd (st_errs st))" by auto
  ultimately have "field_ok sb_errorRequests l
      (bs[bucket_index e := (bs ! bucket_index e)\<lparr>sb_errorRequests := sb_errorRequests (bs ! bucket_index e) - 1\<rparr>])
      (map snd (filter (\<lambda>x. fst x \<noteq> Some n) (st_errs st)))"
    by (rule errors.count_down [OF sh f _ assms(4) named_once [OF assms(2,3)]])
  moreover have "shape_ok (bs[bucket_index e := (bs ! bucket_index e)\<lparr>sb_errorRequests := sb_errorRequests (bs ! bucket_index e) - 1\<rparr>])"
    by (rule errors.shape_put [OF sh]) simp
  ultimately show ?thesis
    using assms(1) by (simp add: buckets_ok_def errors_of_def field_ok_other attempts_of_def failures_of_def)
qed

text \<open>An entry outside the window may be forgotten without touching the ring.\<close>

lemma field_ok_shrink:
  assumes "field_ok get l bs xs" "\<And>x. l - stormBucketCount < x \<Longrightarrow> tally ys x = tally xs x" "set ys \<subseteq> set xs"
  shows "field_ok get l bs ys"
  unfolding field_ok_def
proof (intro conjI ballI allI impI)
  fix i :: nat assume "i < 64" "l - stormBucketCount < sb_epoch (bs ! i)"
  then show "get (bs ! i) = tally ys (sb_epoch (bs ! i))"
    using field_okD(3) [OF assms(1)] assms(2) by simp
qed (use assms(3) field_okD(1,2,4) [OF assms(1)] in blast)+

lemma forget_ok:
  assumes "buckets_ok l st bs" "slots_ok sid slots reset (st_errs st)" "(Some n, e) \<in> set (st_errs st)"
    and "e \<le> l - stormBucketCount"
  shows "buckets_ok l (st\<lparr>st_errs := filter (\<lambda>x. fst x \<noteq> Some n) (st_errs st)\<rparr>) bs"
proof -
  let ?ys = "map snd (filter (\<lambda>x. fst x \<noteq> Some n) (st_errs st))"
  have f: "field_ok sb_errorRequests l bs (map snd (st_errs st))"
    using assms(1) by (simp add: buckets_ok_def errors_of_def)
  have "tally ?ys x = tally (map snd (st_errs st)) x" if "l - stormBucketCount < x" for x
    using named_once [OF assms(2,3), of x] assms(4) that by simp
  moreover have "set ?ys \<subseteq> set (map snd (st_errs st))" by auto
  ultimately have "field_ok sb_errorRequests l bs ?ys"
    by (rule field_ok_shrink [OF f])
  with assms(1) show ?thesis
    by (simp add: buckets_ok_def errors_of_def attempts_of_def failures_of_def)
qed


lemma foldCounters_down: "0 < bucket \<Longrightarrow> 0 < cached \<Longrightarrow> foldCounters bucket cached (-1) = (bucket - 1, cached - 1)"
  by (simp add: foldCounters_def)

lemma spanned_named:
  assumes "slots_ok sid slots reset errs" "(Some n, e) \<in> set errs"
  shows "spanned l (map snd (filter (\<lambda>x. fst x \<noteq> Some n) errs))
    = spanned l (map snd errs) - (if in_span l e then 1 else 0)"
proof -
  have dist: "distinct (map fst (filter (\<lambda>x. fst x \<noteq> None) errs))" using assms by (simp add: slots_ok_def)
  obtain ys zs where split: "errs = ys @ (Some n, e) # zs" using split_list [OF assms(2)] by blast
  have "filter (\<lambda>x. fst x \<noteq> Some n) ys = ys" "filter (\<lambda>x. fst x \<noteq> Some n) zs = zs"
    using dist by (auto simp: split image_iff filter_id_conv)
  then show ?thesis by (simp add: split spanned_def)
qed

text \<open>
  Entering the current bucket, as a function on scopes, and leaving the previous one.
\<close>

definition enter_scope :: "int \<Rightarrow> stormScope \<Rightarrow> stormScope" where
  "enter_scope e s = s\<lparr>sc_buckets := (sc_buckets s)[bucket_index e := (sc_buckets s ! bucket_index e)
       \<lparr>sb_errorRequests := sb_errorRequests (sc_buckets s ! bucket_index e) + 1\<rparr>],
     sc_cachedErrorRequests := sc_cachedErrorRequests s + 1\<rparr>"

definition leave_scope :: "int \<Rightarrow> stormScope \<Rightarrow> stormScope" where
  "leave_scope e s = s\<lparr>sc_buckets := (sc_buckets s)[bucket_index e := (sc_buckets s ! bucket_index e)
       \<lparr>sb_errorRequests := sb_errorRequests (sc_buckets s ! bucket_index e) - 1\<rparr>],
     sc_cachedErrorRequests := sc_cachedErrorRequests s - 1\<rparr>"

text \<open>The state between the sample and the end of an attempt: everything is at the current epoch.\<close>

definition current :: "int \<Rightarrow> stats \<Rightarrow> stormScope \<Rightarrow> bool" where
  "current e st s \<longleftrightarrow> buckets_ok e st (sc_buckets s) \<and> cache_ok st s \<and> sc_cachedEpoch s = e
     \<and> sb_epoch (sc_buckets s ! bucket_index e) = e \<and> 0 < e"

lemma enter_scope_ok:
  assumes "current e st s" "st_errs st' = (r, e) # st_errs st" "st_hist st' = st_hist st"
  shows "current e st' (enter_scope e s)"
proof -
  have e: "errors_of st' = e # errors_of st" "attempts_of st' = attempts_of st" "failures_of st' = failures_of st"
    using assms(2,3) by (simp_all add: errors_of_def attempts_of_def failures_of_def)
  have sh: "shape_ok (sc_buckets s)" using assms(1) by (simp add: current_def buckets_ok_def)
  have "buckets_ok e st' (sc_buckets (enter_scope e s))"
    using enter_ok [of e st "sc_buckets s" st'] assms e by (simp add: current_def enter_scope_def)
  with assms(1) e sh show ?thesis by (simp add: current_def enter_scope_def cache_ok_def)
qed

lemma leave_scope_ok:
  assumes "current l st s" "slots_ok sid slots reset (st_errs st)" "(Some n, e) \<in> set (st_errs st)" "in_span l e"
  defines "st' \<equiv> st\<lparr>st_errs := filter (\<lambda>x. fst x \<noteq> Some n) (st_errs st)\<rparr>"
  shows "current l st' (leave_scope e s)"
proof -
  have cover: "sb_epoch (sc_buckets s ! bucket_index e) = e"
    using assms(1,3,4) field_okD(4) [of sb_errorRequests l "sc_buckets s" "errors_of st" e]
    by (force simp: current_def buckets_ok_def in_span_def errors_of_def)
  have sh: "shape_ok (sc_buckets s)" using assms(1) by (simp add: current_def buckets_ok_def)
  have "buckets_ok l st' (sc_buckets (leave_scope e s))"
    using leave_ok [of l st "sc_buckets s", OF _ assms(2,3) cover] assms(1) by (simp add: current_def leave_scope_def st'_def)
  moreover have "cache_ok st' (leave_scope e s)"
    using assms(1,4) spanned_named [OF assms(2,3), of l]
    by (simp add: current_def cache_ok_def leave_scope_def st'_def errors_of_def attempts_of_def failures_of_def)
  moreover have "sb_epoch (sc_buckets (leave_scope e s) ! bucket_index l) = l"
    using assms(1) sh by (simp add: current_def leave_scope_def nth_list_update)
  ultimately show ?thesis using assms(1) by (simp add: current_def leave_scope_def)
qed

lemma forget_scope_ok:
  assumes "current l st s" "slots_ok sid slots reset (st_errs st)" "(Some n, e) \<in> set (st_errs st)" "\<not> in_span l e" "e \<le> l"
  shows "current l (st\<lparr>st_errs := filter (\<lambda>x. fst x \<noteq> Some n) (st_errs st)\<rparr>) s"
  using assms forget_ok [of l st "sc_buckets s", OF _ assms(2,3)] spanned_named [OF assms(2,3), of l]
  by (simp add: current_def cache_ok_def in_span_def errors_of_def attempts_of_def failures_of_def)


lemma enter_counters:
  assumes "current e st s" "int (length (st_errs st)) < max_int64"
  shows "foldCounters (sb_errorRequests (sc_buckets s ! bucket_index e)) (sc_cachedErrorRequests s) 1
    = (sb_errorRequests (sc_buckets s ! bucket_index e) + 1, sc_cachedErrorRequests s + 1)"
proof (rule foldCounters_up)
  have "field_ok sb_errorRequests e (sc_buckets s) (errors_of st)"
    using assms(1) by (simp add: current_def buckets_ok_def)
  from field_ok_le [OF this, of "bucket_index e"] assms
  show "sb_errorRequests (sc_buckets s ! bucket_index e) < max_int64"
    using stats_lengths(3) [of st] by (simp add: current_def stormBucketCount_def)
  show "sc_cachedErrorRequests s < max_int64"
    using assms spanned_bounds [of e "errors_of st"] stats_lengths(3) [of st] by (simp add: current_def cache_ok_def)
qed

lemma leave_counters:
  assumes "current l st s" "(Some n, e) \<in> set (st_errs st)" "in_span l e"
  shows "foldCounters (sb_errorRequests (sc_buckets s ! bucket_index e)) (sc_cachedErrorRequests s) (-1)
    = (sb_errorRequests (sc_buckets s ! bucket_index e) - 1, sc_cachedErrorRequests s - 1)
    \<and> sb_epoch (sc_buckets s ! bucket_index e) = e"
proof -
  have f: "field_ok sb_errorRequests l (sc_buckets s) (errors_of st)"
    using assms(1) by (simp add: current_def buckets_ok_def)
  have e: "e \<in> set (errors_of st)" using assms(2) by (force simp: errors_of_def)
  have cover: "sb_epoch (sc_buckets s ! bucket_index e) = e"
    using field_okD(4) [OF f e] assms(3) by (simp add: in_span_def)
  have "0 < sb_errorRequests (sc_buckets s ! bucket_index e)"
    using field_okD(3) [OF f, of "bucket_index e"] cover assms(3) tally_pos [OF e] by (simp add: in_span_def)
  moreover have "0 < sc_cachedErrorRequests s"
    using spanned_pos [OF e assms(3)] assms(1) by (simp add: current_def cache_ok_def)
  ultimately show ?thesis using cover by (simp add: foldCounters_down)
qed

lemma observe_anonymous:
  assumes "current e st s" "int (length (st_errs st)) < max_int64" "e = stormEpoch now window"
  shows "observeRequest sid now window None s = (None, enter_scope e s)"
  using enter_counters [OF assms(1,2)] by (simp add: observeRequest_def enter_scope_def Let_def assms(3) [symmetric])

lemma observe_named:
  fixes n :: nat
  assumes cur: "current l st s" and len: "int (length (st_errs st)) < max_int64" and l: "l = stormEpoch now window"
    and sl: "slots_ok sid slots (sc_reset s) (st_errs st)"
  defines "st' \<equiv> st\<lparr>st_errs := record_err (Some n) l (st_errs st)\<rparr>"
  shows "\<exists>slot s'. observeRequest sid now window (Some (slots n)) s = (Some slot, s') \<and> current l st' s'
    \<and> sc_reset s' = sc_reset s \<and> slots_ok sid (slots(n := slot)) (sc_reset s) (st_errs st')"
proof -
  let ?slot = "slots n" and ?new = "\<lparr>slot_scope = Some sid, slot_reset = sc_reset s, slot_epoch = l\<rparr>"
  let ?gone = "st\<lparr>st_errs := filter (\<lambda>x. fst x \<noteq> Some n) (st_errs st)\<rparr>"
  let ?mine = "slot_scope ?slot = Some sid \<and> slot_reset ?slot = sc_reset s"
  have mine: "(Some n, e) \<in> set (st_errs st) \<longleftrightarrow> ?mine \<and> slot_epoch ?slot = e" for e
    using sl by (simp add: slots_ok_def)
  have len': "int (length (st_errs ?gone)) < max_int64"
  proof -
    have "length (st_errs ?gone) \<le> length (st_errs st)" by simp
    with len show ?thesis by linarith
  qed
  show ?thesis
  proof (cases "?mine \<and> slot_epoch ?slot = l")
    case True
    then have "observeRequest sid now window (Some ?slot) s = (Some ?slot, s)"
      by (simp add: observeRequest_def Let_def l)
    moreover have "st' = st" using True mine [of l] by (simp add: st'_def record_err_def)
    ultimately show ?thesis using cur sl by simp
  next
    case False
    have st': "st_errs st' = (Some n, l) # st_errs ?gone" "st_hist st' = st_hist ?gone"
      using False mine [of l] by (auto simp: st'_def record_err_def)
    have slots': "slots_ok sid (slots(n := ?new)) (sc_reset s) (st_errs st')"
      using slots_ok_named [OF sl, of n l] st' by simp
    show ?thesis
    proof (cases "?mine")
      case True
      let ?e = "slot_epoch ?slot"
      have mem: "(Some n, ?e) \<in> set (st_errs st)" using mine True by simp
      have le: "?e \<le> l"
        using field_okD(2) [of sb_errorRequests l "sc_buckets s" "errors_of st" ?e] mem cur
        by (force simp: current_def buckets_ok_def errors_of_def)
      define s1 where "s1 = (if in_span l ?e then leave_scope ?e s else s)"
      have c1: "current l ?gone s1"
        using leave_scope_ok [OF cur sl mem] forget_scope_ok [OF cur sl mem _ le] by (simp add: s1_def)
      have r1: "sc_reset s1 = sc_reset s" by (simp add: s1_def leave_scope_def)
      have "observeRequest sid now window (Some ?slot) s = (Some ?new, enter_scope l s1)"
      proof (cases "in_span l ?e")
        case True
        with leave_counters [OF cur mem True] enter_counters [OF c1 len'] False \<open>?mine\<close> show ?thesis
          by (simp add: observeRequest_def Let_def l [symmetric] s1_def leave_scope_def enter_scope_def in_span_def)
      next
        case out: False
        with enter_counters [OF c1 len'] False \<open>?mine\<close> le show ?thesis
          by (simp add: observeRequest_def Let_def l [symmetric] s1_def enter_scope_def in_span_def)
      qed
      then show ?thesis using enter_scope_ok [OF c1 st'] slots' r1 by (simp add: enter_scope_def)
    next
      case other: False
      then have "(Some n, e) \<notin> set (st_errs st)" for e using mine by blast
      then have gone: "filter (\<lambda>x. fst x \<noteq> Some n) (st_errs st) = st_errs st"
        by (force simp: filter_id_conv)
      have "observeRequest sid now window (Some ?slot) s = (Some ?new, enter_scope l s)"
        using other enter_counters [OF cur len]
        by (auto simp: observeRequest_def Let_def l [symmetric] enter_scope_def)
      moreover have "current l st' (enter_scope l s)" using enter_scope_ok [OF cur] st' gone by simp
      ultimately show ?thesis using slots' by (simp add: enter_scope_def)
    qed
  qed
qed


lemma attempt_ok:
  assumes ok: "stats_ok sid l st x" and e: "e = stormEpoch now window" "l \<le> e" "0 < e"
    and len: "int (length (st_hist st)) < max_int64"
  shows "stats_ok sid e (spec_attempt e failed r st) (attempt sid now window failed r x)"
proof -
  obtain slots s where x: "x = (slots, s)" by (cases x)
  have b: "buckets_ok l st (sc_buckets s)" and c: "cache_ok st s" and sl: "slots_ok sid slots (sc_reset s) (st_errs st)"
    and le: "length (st_errs st) \<le> length (st_hist st)"
    using ok by (auto simp: stats_ok_def x)
  let ?st1 = "st\<lparr>st_hist := (e, failed) # st_hist st\<rparr>" and ?s1 = "sample now window failed s"
  note sample = sample_eq [OF b c e(2,3) le len e(1), of failed]
  have cur: "current e ?st1 ?s1"
    using sample_buckets_ok [OF b e(2,3), of failed] e(3) unfolding sample
    by (simp add: current_def cache_ok_def attempts_of_def failures_of_def errors_of_def)
  have r1: "sc_reset ?s1 = sc_reset s" unfolding sample by simp
  have fin: "stats_ok sid e st' (slots', s')"
    if "current e st' s'" "slots_ok sid slots' (sc_reset s') (st_errs st')" "length (st_errs st') \<le> length (st_hist st')" for st' slots' s'
    using that by (simp add: stats_ok_def current_def)
  have len1: "int (length (st_errs ?st1)) < max_int64" using le len by simp
  have sp: "spec_attempt e failed r st = (if failed then ?st1\<lparr>st_errs := record_err r e (st_errs ?st1)\<rparr> else ?st1)"
    by (simp add: spec_attempt_def)
  show ?thesis
  proof (cases failed)
    case False
    then show ?thesis using fin [OF cur] sl r1 le sp by (simp add: attempt_def x)
  next
    case True
    show ?thesis
    proof (cases r)
      case None
      let ?st2 = "?st1\<lparr>st_errs := (None, e) # st_errs ?st1\<rparr>"
      have "current e ?st2 (enter_scope e ?s1)" by (rule enter_scope_ok [OF cur]) simp_all
      moreover have "slots_ok sid slots (sc_reset (enter_scope e ?s1)) (st_errs ?st2)"
        using sl r1 by (simp add: slots_ok_def enter_scope_def)
      moreover have "attempt sid now window failed r x = (slots, enter_scope e ?s1)"
        using True None observe_anonymous [OF cur len1 e(1)] by (simp add: attempt_def x Let_def)
      ultimately show ?thesis
        using fin [of ?st2] True None le sp by (simp add: record_err_def)
    next
      case (Some n)
      have sl1: "slots_ok sid slots (sc_reset ?s1) (st_errs ?st1)" using sl r1 by simp
      obtain slot s' where o: "observeRequest sid now window (Some (slots n)) ?s1 = (Some slot, s')"
        and c': "current e (?st1\<lparr>st_errs := record_err (Some n) e (st_errs ?st1)\<rparr>) s'" and r': "sc_reset s' = sc_reset ?s1"
        and sl': "slots_ok sid (slots(n := slot)) (sc_reset ?s1) (record_err (Some n) e (st_errs ?st1))"
        using observe_named [OF cur len1 e(1) sl1, of n] by auto
      have "attempt sid now window failed r x = (slots(n := slot), s')"
        using True Some o by (simp add: attempt_def x Let_def)
      then show ?thesis
        using fin [OF c', of "slots(n := slot)"] sl' r' sp True Some le length_record_err [of "Some n" e "st_errs st"] by simp
    qed
  qed
qed

lemma reset_ok:
  assumes "stats_ok sid l st (slots, s)" "0 < l"
  shows "stats_ok sid l empty_stats (slots, resetSamples s)"
proof -
  have "shape_ok (replicate 64 zero_bucket64)" by (simp add: shape_ok_def zero_bucket64_def)
  moreover have "field_ok get l (replicate 64 zero_bucket64) []" if "get zero_bucket64 = 0" for get
    using that by (simp add: field_ok_def)
  moreover have "slots_ok sid slots (Suc (sc_reset s)) []"
  proof -
    have "slot_reset (slots n) \<le> sc_reset s" if "slot_scope (slots n) = Some sid" for n
      using assms(1) that by (simp add: stats_ok_def slots_ok_def)
    then show ?thesis by (fastforce simp: slots_ok_def)
  qed
  ultimately show ?thesis
    using assms(2)
    by (simp add: stats_ok_def resetSamples_def empty_stats_def buckets_ok_def cache_ok_def attempts_of_def
        failures_of_def errors_of_def zero_bucket64_def)
qed

lemma look_ok:
  assumes "stats_ok sid l st (slots, s)" "l \<le> stormEpoch now window" "int (length (st_hist st)) \<le> max_int64"
  shows "stats_ok sid (stormEpoch now window) st (slots, snd (snd (totals now window s)))"
proof -
  let ?e = "stormEpoch now window"
  have "field_ok get ?e bs xs" if "field_ok get l bs xs" for get bs xs
    using that assms(2) by (auto simp: field_ok_def)
  with assms show ?thesis
    using totals_ok [of l st s now window]
    by (auto simp: stats_ok_def buckets_ok_def cache_ok_def Let_def)
qed


section \<open>Properties\<close>

datatype scope_op = Attempt time bool "nat option" | Look time | Reset

fun run_scope :: "nat \<Rightarrow> duration \<Rightarrow> scope_op list \<Rightarrow> slots \<times> stormScope \<Rightarrow> slots \<times> stormScope" where
  "run_scope sid window [] x = x"
| "run_scope sid window (Attempt now failed r # ops) x = run_scope sid window ops (attempt sid now window failed r x)"
| "run_scope sid window (Look now # ops) x = run_scope sid window ops (fst x, snd (snd (totals now window (snd x))))"
| "run_scope sid window (Reset # ops) x = run_scope sid window ops (fst x, resetSamples (snd x))"

fun run_stats :: "duration \<Rightarrow> scope_op list \<Rightarrow> stats \<Rightarrow> stats" where
  "run_stats window [] st = st"
| "run_stats window (Attempt now failed r # ops) st = run_stats window ops (spec_attempt (stormEpoch now window) failed r st)"
| "run_stats window (Look now # ops) st = run_stats window ops st"
| "run_stats window (Reset # ops) st = run_stats window ops empty_stats"

text \<open>The clock of a run: positive epochs that never go back; the last one is returned.\<close>

fun run_clock :: "duration \<Rightarrow> int \<Rightarrow> scope_op list \<Rightarrow> int option" where
  "run_clock window l [] = Some l"
| "run_clock window l (Attempt now failed r # ops) =
     (if l \<le> stormEpoch now window then run_clock window (stormEpoch now window) ops else None)"
| "run_clock window l (Look now # ops) =
     (if l \<le> stormEpoch now window then run_clock window (stormEpoch now window) ops else None)"
| "run_clock window l (Reset # ops) = run_clock window l ops"

lemma run_ok:
  assumes "stats_ok sid l st x" "0 < l" "run_clock window l ops = Some l'"
    and "int (length (st_hist st) + length ops) \<le> max_int64"
  shows "stats_ok sid l' (run_stats window ops st) (run_scope sid window ops x)
    \<and> int (length (st_hist (run_stats window ops st))) \<le> max_int64"
  using assms
proof (induction window l ops arbitrary: st x rule: run_clock.induct)
  case (2 window l now failed r ops)
  from 2(4) have c: "l \<le> stormEpoch now window" "run_clock window (stormEpoch now window) ops = Some l'"
    by (auto split: if_splits)
  have "stats_ok sid (stormEpoch now window) (spec_attempt (stormEpoch now window) failed r st) (attempt sid now window failed r x)"
    by (rule attempt_ok [OF 2(2) refl c(1)]) (use 2 c in auto)
  from 2(1) [OF c(1) this _ c(2)] 2(3,5) c(1) show ?case by (simp add: spec_attempt_def)
next
  case (3 window l now ops)
  from 3(4) have c: "l \<le> stormEpoch now window" "run_clock window (stormEpoch now window) ops = Some l'"
    by (auto split: if_splits)
  have "stats_ok sid (stormEpoch now window) st (fst x, snd (snd (totals now window (snd x))))"
    using look_ok [of sid l st "fst x" "snd x" now window] 3(2,5) c(1) by simp
  from 3(1) [OF c(1) this _ c(2)] 3(3,5) c(1) show ?case by simp
next
  case (4 window l ops)
  have "stats_ok sid l empty_stats (fst x, resetSamples (snd x))"
    using reset_ok [of sid l st "fst x" "snd x"] 4(2,3) by simp
  from 4(1) [OF this 4(3)] 4(4,5) show ?case by (simp add: empty_stats_def)
qed (simp_all)

lemma new_scope_ok: "0 < l \<Longrightarrow> stats_ok sid l empty_stats (\<lambda>_. zero_slot, new_scope key now)"
  by (simp add: stats_ok_def new_scope_def empty_stats_def buckets_ok_def shape_ok_def zero_bucket64_def field_ok_def
      cache_ok_def slots_ok_def zero_slot_def attempts_of_def failures_of_def errors_of_def)

text \<open>
  C17. The sixty-four buckets and their cache compute the rolling statistics exactly: after
  any run of settled attempts, reads and recoveries with a clock that does not go back, the
  totals read at a later time are the number of attempts and of failed attempts since the
  last reset whose epoch is among the last sixty-four, and the count of affected requests is
  the number of distinct requests (plus anonymous failures) whose latest failure is.
\<close>

theorem rolling_window_exact:
  assumes "0 < l" "run_clock window l ops = Some l'" "l' \<le> stormEpoch now window"
    and "int (length ops) \<le> max_int64"
  shows "let st = run_stats window ops empty_stats; e = stormEpoch now window;
             (slots, s) = run_scope sid window ops (\<lambda>_. zero_slot, new_scope key t0);
             (samples, failures, s') = totals now window s
         in samples = int (length (filter (\<lambda>h. in_span e (fst h)) (st_hist st)))
          \<and> failures = int (length (filter (\<lambda>h. snd h \<and> in_span e (fst h)) (st_hist st)))
          \<and> sc_cachedErrorRequests s' = int (length (filter (\<lambda>r. in_span e (snd r)) (st_errs st)))
          \<and> distinct (filter (\<lambda>r. r \<noteq> None) (map fst (st_errs st)))"
proof -
  let ?st = "run_stats window ops empty_stats"
  obtain slots s where x: "run_scope sid window ops (\<lambda>_. zero_slot, new_scope key t0) = (slots, s)"
    by (cases "run_scope sid window ops (\<lambda>_. zero_slot, new_scope key t0)")
  have "int (length (st_hist empty_stats) + length ops) \<le> max_int64" using assms(4) by (simp add: empty_stats_def)
  from run_ok [OF new_scope_ok [OF assms(1), of sid key t0] assms(1,2) this]
  have ok: "stats_ok sid l' ?st (slots, s)" and len: "int (length (st_hist ?st)) \<le> max_int64" by (simp_all add: x)
  have tot: "totals now window s =
    (let e = stormEpoch now window; st_s = spanned e (attempts_of ?st); st_f = spanned e (failures_of ?st);
         st_e = spanned e (errors_of ?st)
     in (st_s, st_f, s\<lparr>sc_cachedEpoch := e, sc_cachedSamples := st_s, sc_cachedFailures := st_f,
                        sc_cachedErrorRequests := st_e\<rparr>))"
    using ok assms(3) len by (intro totals_ok [of l']) (simp_all add: stats_ok_def)
  have "distinct (filter (\<lambda>r. r \<noteq> None) (map fst (st_errs ?st)))"
    using ok by (simp add: stats_ok_def slots_ok_def filter_map comp_def)
  then show ?thesis
    by (simp add: x tot Let_def spanned_def attempts_of_def failures_of_def errors_of_def filter_map comp_def)
qed

theorem rolling_window_exact_witness:
  "let t = 62135596800 * second + 640; ops = [Attempt t True (Some 7), Attempt (t + 1) True (Some 7), Attempt (t + 2) False None];
       (slots, s) = run_scope 3 64 ops (\<lambda>_. zero_slot, new_scope \<lparr>sk_provider = ''p'', sk_model = ''m'', sk_modelScope = True\<rparr> 0);
       (samples, failures, s') = totals (t + 3) 64 s
   in samples = 3 \<and> failures = 2 \<and> sc_cachedErrorRequests s' = 1"
proof -
  let ?t = "62135596800 * second + 640"
  let ?ops = "[Attempt ?t True (Some 7), Attempt (?t + 1) True (Some 7), Attempt (?t + 2) False None]"
  have c: "run_clock 64 1 ?ops = Some 642" by code_simp
  have e: "stormEpoch (?t + 3) 64 = 643" by code_simp
  have st: "run_stats 64 ?ops empty_stats = \<lparr>st_hist = [(642, False), (641, True), (640, True)], st_errs = [(Some 7, 641)]\<rparr>"
    by code_simp
  show ?thesis
    using rolling_window_exact [OF _ c, of "?t + 3" 3 "\<lparr>sk_provider = ''p'', sk_model = ''m'', sk_modelScope = True\<rparr>" 0]
    unfolding e st by (simp add: max_int64_def in_span_def stormBucketCount_def Let_def case_prod_beta)
qed

end
