(* ===== verification/Storm.thy ===== *)
theory Storm
  imports Storm_Window Pacing "HOL-Library.List_Lexorder" "HOL-Library.Char_ord" "HOL-Library.Product_Lexorder"
begin

text \<open>
  Outage gates (\<^verbatim>\<open>internal/scheduler/storm.go\<close>): threshold storms per provider and model, the
  durable quota gate of a provider, admission of a send with its permit, and the settlement
  of the permit.

  Scopes are objects of a heap, because a permit keeps pointers to its scopes while a
  reconfiguration replaces the map: a scope is a number, \<open>ss_heap\<close> its fields, \<open>ss_scopes\<close> the
  map. The kick channel is the number of the channel currently installed. Each critical
  section of \<^verbatim>\<open>stormState.mu\<close> is one function of the state; \<open>now\<close> is its clock, \<open>rnd\<close> its random
  numbers. \<^verbatim>\<open>WaitStorm\<close> is a loop of such sections: \<open>wait_iter\<close> is one round.
\<close>

section \<open>Configuration and state\<close>

record StormOptions =
  so_PolicyKey :: string
  so_Enabled :: bool
  so_ProviderEnabled :: bool
  so_ModelEnabled :: bool
  so_Window :: duration
  so_MinSamples :: int
  so_ErrorPercent :: int
  so_InitialBackoff :: duration
  so_MaxBackoff :: duration
  so_BackoffMultiplier :: int
  so_JitterPercent :: int
  so_RecoverySuccesses :: int
  so_MaxQueue :: int
  so_MaxScopes :: int
  so_MaxWait :: duration
  so_QuotaEnabled :: bool
  so_QuotaRecoverySuccesses :: int

datatype storm_error = ErrStormQueueFull | ErrStormMaxWait | ErrStormCapacity | ErrStormContext

record stormState =
  ss_opts :: StormOptions
  ss_scopes :: "(stormKey \<times> nat) list"
  ss_kick :: "nat option"
  ss_generation :: nat
  ss_queued :: int
  ss_heap :: "nat \<Rightarrow> stormScope"
  ss_next :: nat

record stormClaim =
  cl_scope :: nat
  cl_epoch :: nat
  cl_probe :: bool

text \<open>
  A permit: \<open>pm_state\<close> says that it has a state (the disabled permit has none), \<open>pm_once\<close> that it
  was settled.
\<close>

record StormPermit =
  pm_state :: bool
  pm_generation :: nat
  pm_claims :: "stormClaim list"
  pm_once :: bool
  pm_active :: bool

definition disabledStormPermit :: StormPermit where
  "disabledStormPermit = \<lparr>pm_state = False, pm_generation = 0, pm_claims = [], pm_once = False, pm_active = False\<rparr>"

definition upd_scope :: "nat \<Rightarrow> (stormScope \<Rightarrow> stormScope) \<Rightarrow> stormState \<Rightarrow> stormState" where
  "upd_scope i f s = s\<lparr>ss_heap := (ss_heap s)(i := f (ss_heap s i))\<rparr>"

fun upd_scopes :: "nat list \<Rightarrow> (stormScope \<Rightarrow> stormScope) \<Rightarrow> stormState \<Rightarrow> stormState" where
  "upd_scopes [] f s = s"
| "upd_scopes (i # is) f s = upd_scopes is f (upd_scope i f s)"

definition clearCooldown :: "stormScope \<Rightarrow> stormScope" where
  "clearCooldown sc = sc\<lparr>sc_backoff := 0, sc_retryAt := zero_time, sc_timer := stop (sc_timer sc)\<rparr>"

definition storm_wake :: "stormState \<Rightarrow> stormState" where
  "storm_wake s = s\<lparr>ss_kick := Some (case ss_kick s of None \<Rightarrow> 0 | Some n \<Rightarrow> n + 1)\<rparr>"

definition storm_configure :: "StormOptions \<Rightarrow> stormState \<Rightarrow> stormState" where
  "storm_configure opts s =
     (if ss_kick s \<noteq> None \<and> ss_opts s = opts then s
      else
        let s1 = upd_scopes (map snd (ss_scopes s)) (\<lambda>sc. sc\<lparr>sc_timer := stop (sc_timer sc)\<rparr>) s
        in storm_wake (s1\<lparr>ss_opts := opts, ss_scopes := [], ss_generation := ss_generation s1 + 1\<rparr>))"

definition provider_key :: "string \<Rightarrow> stormKey" where
  "provider_key provider = \<lparr>sk_provider = provider, sk_model = [], sk_modelScope = False\<rparr>"

definition evictable :: "time \<Rightarrow> stormKey list \<Rightarrow> stormState \<Rightarrow> stormKey \<times> nat \<Rightarrow> bool" where
  "evictable now keys s e \<longleftrightarrow>
     (let scope = ss_heap s (snd e)
      in \<not> sc_active scope \<and> \<not> sc_quota scope \<and> sc_refs scope = 0 \<and> sc_queued scope = 0
         \<and> time_Sub now (sc_lastActivity scope) \<ge> so_Window (ss_opts s) \<and> fst e \<notin> set keys)"

fun ensure_scopes :: "time \<Rightarrow> stormKey list \<Rightarrow> stormState \<Rightarrow> nat list \<times> stormState" where
  "ensure_scopes now [] s = ([], s)"
| "ensure_scopes now (key # keys) s =
     (let (i, s1) = (case map_of (ss_scopes s) key of
           Some i \<Rightarrow> (i, s)
         | None \<Rightarrow> (ss_next s, s\<lparr>ss_heap := (ss_heap s)(ss_next s := new_scope key now),
                                ss_scopes := aput key (ss_next s) (ss_scopes s), ss_next := ss_next s + 1\<rparr>));
          (is, s2) = ensure_scopes now keys s1
      in (i # is, s2))"

definition scope_keys :: "string \<Rightarrow> string \<Rightarrow> stormState \<Rightarrow> stormKey list" where
  "scope_keys provider model s =
     \<lparr>sk_provider = provider, sk_model = model, sk_modelScope = True\<rparr>
     # (if so_ProviderEnabled (ss_opts s) \<or> so_QuotaEnabled (ss_opts s) then [provider_key provider] else [])"

definition scopesFor :: "string \<Rightarrow> string \<Rightarrow> time \<Rightarrow> stormState \<Rightarrow> (storm_error + nat list) \<times> stormState" where
  "scopesFor provider model now s =
     (if length provider > maxStormLabelBytes \<or> length model > maxStormLabelBytes then (Inl ErrStormCapacity, s)
      else
        let keys = scope_keys provider model s;
            needed = length (filter (\<lambda>k. map_of (ss_scopes s) k = None) keys);
            full = (\<lambda>s. int (length (ss_scopes s) + needed) > so_MaxScopes (ss_opts s));
            s1 = (if full s then
                    let gone = filter (evictable now keys s) (ss_scopes s)
                    in (upd_scopes (map snd gone) (\<lambda>sc. sc\<lparr>sc_timer := stop (sc_timer sc)\<rparr>) s)
                         \<lparr>ss_scopes := filter (\<lambda>e. \<not> evictable now keys s e) (ss_scopes s)\<rparr>
                  else s)
        in if full s1 then (Inl ErrStormCapacity, s1)
           else case ensure_scopes now keys s1 of (is, s2) \<Rightarrow> (Inr is, s2))"

definition storm_gates :: "stormState \<Rightarrow> stormScope \<Rightarrow> bool" where
  "storm_gates s scope \<longleftrightarrow> \<not> sk_modelScope (sc_key scope) \<or> so_ModelEnabled (ss_opts s)"

definition gateOpen :: "stormState \<Rightarrow> stormScope \<Rightarrow> bool" where
  "gateOpen s scope \<longleftrightarrow> (storm_gates s scope \<and> sc_active scope) \<or> sc_quota scope"

definition gateHeld :: "stormState \<Rightarrow> time \<Rightarrow> stormScope \<Rightarrow> bool" where
  "gateHeld s now scope \<longleftrightarrow> (if \<not> gateOpen s scope then False else sc_probing scope \<or> now < sc_retryAt scope)"


section \<open>Waiting\<close>

definition unqueue :: "nat list \<Rightarrow> stormState \<Rightarrow> stormState" where
  "unqueue is s = upd_scopes is (\<lambda>sc. sc\<lparr>sc_queued := sc_queued sc - 1\<rparr>) (s\<lparr>ss_queued := ss_queued s - 1\<rparr>)"

text \<open>The variables of one \<^verbatim>\<open>waitStorm\<close> call that live across its rounds.\<close>

record wait_local =
  wl_queued :: "nat list option"
  wl_started :: time
  wl_activity :: nat

datatype wait_result = WaitErr storm_error | WaitDisabled | WaitReady | WaitGranted StormPermit | WaitParked

fun claim_scopes :: "nat list \<Rightarrow> stormState \<Rightarrow> stormClaim list \<times> stormState" where
  "claim_scopes [] s = ([], s)"
| "claim_scopes (i # is) s =
     (let probe = gateOpen s (ss_heap s i);
          s1 = upd_scope i (\<lambda>sc. sc\<lparr>sc_probing := sc_probing sc \<or> probe, sc_refs := sc_refs sc + 1\<rparr>) s;
          c = \<lparr>cl_scope = i, cl_epoch = sc_epoch (ss_heap s i), cl_probe = probe\<rparr>;
          (cs, s2) = claim_scopes is s1
      in (c # cs, s2))"

text \<open>The second half of a round, on the scopes the first half looked up.\<close>

definition wait_admit ::
  "bool \<Rightarrow> time \<Rightarrow> nat list \<Rightarrow> wait_local \<Rightarrow> stormState \<Rightarrow> wait_result \<times> wait_local \<times> stormState" where
  "wait_admit reserve now is l s1 =
     (let s2 = (if wl_activity l \<noteq> ss_generation s1
                then upd_scopes is (\<lambda>sc. sc\<lparr>sc_lastActivity := now\<rparr>) s1 else s1);
          l2 = l\<lparr>wl_activity := ss_generation s2\<rparr>;
          blocked = (\<exists>i\<in>set is. gateHeld s2 now (ss_heap s2 i))
      in if \<not> blocked then
           (if \<not> reserve then (WaitReady, l2, s2)
            else case claim_scopes is s2 of
              (cs, s3) \<Rightarrow> (WaitGranted \<lparr>pm_state = True, pm_generation = ss_generation s3, pm_claims = cs,
                                         pm_once = False, pm_active = False\<rparr>, l2, s3))
         else if ss_queued s2 \<ge> so_MaxQueue (ss_opts s2) then (WaitErr ErrStormQueueFull, l2, s2)
         else
           let s3 = upd_scopes is (\<lambda>sc. sc\<lparr>sc_queued := sc_queued sc + 1\<rparr>) (s2\<lparr>ss_queued := ss_queued s2 + 1\<rparr>);
               l3 = l2\<lparr>wl_queued := Some is, wl_started := (if IsZero (wl_started l2) then now else wl_started l2)\<rparr>
           in (WaitParked, l3, s3))"

definition wait_iter ::
  "bool \<Rightarrow> bool \<Rightarrow> string \<Rightarrow> string \<Rightarrow> time \<Rightarrow> wait_local \<Rightarrow> stormState \<Rightarrow> wait_result \<times> wait_local \<times> stormState" where
  "wait_iter reserve cancelled provider model now l s0 =
     (let s = (case wl_queued l of None \<Rightarrow> s0 | Some q \<Rightarrow> unqueue q s0);
          l = l\<lparr>wl_queued := None\<rparr>;
          opts = ss_opts s
      in if cancelled then (WaitErr ErrStormContext, l, s)
         else if (\<not> so_Enabled opts \<or> (\<not> so_ProviderEnabled opts \<and> \<not> so_ModelEnabled opts)) \<and> \<not> so_QuotaEnabled opts
         then (WaitDisabled, l, s)
         else if \<not> IsZero (wl_started l) \<and> so_MaxWait opts > 0 \<and> time_Sub now (wl_started l) \<ge> so_MaxWait opts
         then (WaitErr ErrStormMaxWait, l, s)
         else case scopesFor provider model now s of
           (Inl e, s1) \<Rightarrow> (WaitErr e, l, s1)
         | (Inr is, s1) \<Rightarrow> wait_admit reserve now is l s1)"

text \<open>The deferred exit of a parked caller whose timeout or context fires.\<close>

definition wait_exit :: "wait_local \<Rightarrow> stormState \<Rightarrow> stormState" where
  "wait_exit l s = (case wl_queued l of None \<Rightarrow> s | Some q \<Rightarrow> unqueue q s)"


section \<open>Recovery pacing\<close>

definition storm_delay :: "StormOptions \<Rightarrow> rat \<Rightarrow> time \<Rightarrow> duration \<Rightarrow> bool \<Rightarrow> stormScope \<Rightarrow> stormScope" where
  "storm_delay opts rnd now retryAfter grow scope =
     (let b = (if \<not> grow \<or> sc_backoff scope \<le> 0 then so_InitialBackoff opts
               else if so_BackoffMultiplier opts > 0
                    \<and> sc_backoff scope \<le> so_MaxBackoff opts div so_BackoffMultiplier opts
               then sc_backoff scope * so_BackoffMultiplier opts
               else so_MaxBackoff opts);
          b = (if b > so_MaxBackoff opts then so_MaxBackoff opts else b);
          delay = (if so_JitterPercent opts > 0 then
                     let factor = 1 + (2 * rnd - 1) * of_int (so_JitterPercent opts) / 100;
                         value = of_int b * factor
                     in if value \<ge> of_int (so_MaxBackoff opts) then so_MaxBackoff opts
                        else if value > 0 then rat_trunc value else 0
                   else b);
          retryAfter = ClampRetryHint retryAfter;
          delay = (if retryAfter > delay then retryAfter else delay);
          until = now + delay;
          due = (if until > sc_retryAt scope then until else sc_retryAt scope)
      in scope\<lparr>sc_backoff := b, sc_retryAt := due, sc_timer := armed due False (sc_timer scope)\<rparr>)"

definition storm_threshold :: "time \<Rightarrow> StormOptions \<Rightarrow> stormScope \<Rightarrow> bool \<times> stormScope" where
  "storm_threshold now opts scope =
     (case totals now (so_Window opts) scope of
        (samples, failures, scope') \<Rightarrow>
          (over_threshold samples failures (so_MinSamples opts) (so_ErrorPercent opts), scope'))"

definition modelFold :: "time \<Rightarrow> StormOptions \<Rightarrow> stormScope \<Rightarrow> bool \<times> bool \<times> stormScope" where
  "modelFold now opts scope =
     (if \<not> sk_modelScope (sc_key scope) \<or> time_Sub now (sc_lastActivity scope) \<ge> so_Window opts
      then (False, False, scope)
      else case storm_threshold now opts scope of (b, scope') \<Rightarrow> (True, b, scope'))"

fun affectedModels :: "string \<Rightarrow> time \<Rightarrow> (stormKey \<times> nat) list \<Rightarrow> stormState \<Rightarrow> int \<times> int \<times> stormState" where
  "affectedModels provider now [] s = (0, 0, s)"
| "affectedModels provider now ((key, i) # es) s =
     (if sk_provider key \<noteq> provider then affectedModels provider now es s
      else case modelFold now (ss_opts s) (ss_heap s i) of
        (isActive, isAffected, sc) \<Rightarrow>
          (case affectedModels provider now es (upd_scope i (\<lambda>_. sc) s) of
             (active, affected, s') \<Rightarrow>
               (if isActive then (active + 1, if isAffected then affected + 1 else affected, s')
                else (active, affected, s'))))"

definition allActiveModelsAffected :: "string \<Rightarrow> time \<Rightarrow> stormState \<Rightarrow> bool \<times> stormState" where
  "allActiveModelsAffected provider now s =
     (case affectedModels provider now (ss_scopes s) s of
        (active, affected, s') \<Rightarrow> (active > 0 \<and> active = affected, s'))"



section \<open>Settling a permit\<close>

text \<open>\<^verbatim>\<open>strings.TrimSpace\<close> on ASCII white space, and the cut to the reason's bound.\<close>

definition is_space :: "char \<Rightarrow> bool" where
  "is_space c \<longleftrightarrow> (let n = of_char c :: nat in (9 \<le> n \<and> n \<le> 13) \<or> n = 32)"

definition trim_space :: "string \<Rightarrow> string" where
  "trim_space s = rev (dropWhile is_space (rev (dropWhile is_space s)))"

definition storm_reason :: "string \<Rightarrow> string" where
  "storm_reason r = take maxStormReasonBytes (trim_space r)"

definition drop_refs :: "stormClaim list \<Rightarrow> stormState \<Rightarrow> stormState" where
  "drop_refs cs s = upd_scopes (map cl_scope cs) (\<lambda>sc. sc\<lparr>sc_refs := sc_refs sc - 1\<rparr>) s"

text \<open>
  The samples of \<^verbatim>\<open>settle\<close>: the \<open>k\<close>-th claim uses the \<open>k\<close>-th slot of the request's observation.
\<close>

fun sample_claims ::
  "time \<Rightarrow> bool \<Rightarrow> stormClaim list \<Rightarrow> nat \<Rightarrow> stormObservationSlot list option \<Rightarrow> stormState
     \<Rightarrow> stormObservationSlot list option \<times> stormState" where
  "sample_claims now failed [] k ob s = (ob, s)"
| "sample_claims now failed (c # cs) k ob s =
     (let i = cl_scope c; w = so_Window (ss_opts s);
          sc = sample now w failed (ss_heap s i);
          (slot, sc) = (if failed then observeRequest i now w (map_option (\<lambda>xs. xs ! k) ob) sc else (None, sc));
          ob = (case (ob, slot) of (Some xs, Some sl) \<Rightarrow> Some (xs[k := sl]) | _ \<Rightarrow> ob)
      in sample_claims now failed cs (k + 1) ob (upd_scope i (\<lambda>_. sc) s))"

text \<open>The state transition of one claim of a current permit; the flag says whether waiters must wake.\<close>

definition release_probe :: "stormClaim \<Rightarrow> stormState \<Rightarrow> bool \<times> stormState" where
  "release_probe c s =
     (if cl_probe c \<and> sc_probing (ss_heap s (cl_scope c))
      then (True, upd_scope (cl_scope c) (\<lambda>sc. sc\<lparr>sc_probing := False\<rparr>) s) else (False, s))"

definition recover_scope :: "StormOptions \<Rightarrow> rat \<Rightarrow> time \<Rightarrow> stormScope \<Rightarrow> stormScope" where
  "recover_scope opts rnd now sc =
     (let sc = sc\<lparr>sc_recovered := sc_recovered sc + 1\<rparr>;
          quotaClosed = (sc_quota sc \<and> sc_recovered sc \<ge> so_QuotaRecoverySuccesses opts);
          stormClosed = (sc_active sc \<and> sc_recovered sc \<ge> so_RecoverySuccesses opts);
          sc = (if quotaClosed then sc\<lparr>sc_quota := False\<rparr> else sc);
          sc = (if stormClosed then resetSamples (sc\<lparr>sc_active := False\<rparr>) else sc)
      in if \<not> sc_active sc \<and> \<not> sc_quota sc then clearCooldown sc
         else storm_delay opts rnd now 0 False sc)"

definition settle_claim ::
  "bool \<Rightarrow> bool \<Rightarrow> string \<Rightarrow> duration \<Rightarrow> time \<Rightarrow> rat \<Rightarrow> stormClaim \<Rightarrow> stormState \<Rightarrow> bool \<times> stormState" where
  "settle_claim ob failed reason retryAfter now rnd c s0 =
     (let i = cl_scope c; opts = ss_opts s0;
          (changed, s) = release_probe c s0;
          sc = ss_heap s i
      in if cl_probe c \<and> cl_epoch c = sc_epoch sc \<and> (sc_active sc \<or> sc_quota sc) then
           (if ob \<and> failed then
              (changed, upd_scope i (\<lambda>sc. storm_delay opts rnd now retryAfter True
                                        (sc\<lparr>sc_recovered := 0, sc_reason := reason\<rparr>)) s)
            else if ob then (changed, upd_scope i (recover_scope opts rnd now) s)
            else (changed, s))
         else
           let pre = so_Enabled opts \<and> (sk_modelScope (sc_key sc) \<or> so_ProviderEnabled opts) \<and> ob \<and> failed \<and> \<not> sc_active sc;
               (th, s) = (if pre then case storm_threshold now opts (ss_heap s i) of (b, sc') \<Rightarrow> (b, upd_scope i (\<lambda>_. sc') s)
                          else (False, s));
               (opens, s) = (if \<not> th then (False, s)
                             else if sk_modelScope (sc_key sc) then (True, s)
                             else allActiveModelsAffected (sk_provider (sc_key sc)) now s)
           in if opens then
                (True, upd_scope i (\<lambda>sc. storm_delay opts rnd now retryAfter False
                   (sc\<lparr>sc_active := True, sc_epoch := sc_epoch sc + 1, sc_recovered := 0, sc_reason := reason\<rparr>)) s)
              else if ob \<and> failed \<and> sc_active sc \<and> retryAfter > 0 \<and> now + retryAfter > sc_retryAt sc then
                (True, upd_scope i (\<lambda>sc. sc\<lparr>sc_retryAt := now + retryAfter, sc_reason := reason,
                                            sc_timer := armed (now + retryAfter) False (sc_timer sc)\<rparr>) s)
              else (changed, s))"

text \<open>The loop over the claims: whether something changed, and whether a relevant gate is active.\<close>

fun settle_claims ::
  "bool \<Rightarrow> bool \<Rightarrow> string \<Rightarrow> duration \<Rightarrow> time \<Rightarrow> rat list \<Rightarrow> stormClaim list \<Rightarrow> stormState \<Rightarrow> bool \<times> bool \<times> stormState" where
  "settle_claims ob failed reason retryAfter now rnds [] s = (False, False, s)"
| "settle_claims ob failed reason retryAfter now rnds (c # cs) s =
     (if \<not> storm_gates s (ss_heap s (cl_scope c)) \<and> \<not> sc_quota (ss_heap s (cl_scope c))
      then settle_claims ob failed reason retryAfter now (tl rnds) cs s
      else case settle_claim ob failed reason retryAfter now (hd rnds) c s of
        (ch, s1) \<Rightarrow>
          (case settle_claims ob failed reason retryAfter now (tl rnds) cs s1 of
             (ch', act', s2) \<Rightarrow> (ch \<or> ch', sc_active (ss_heap s1 (cl_scope c)) \<or> act', s2)))"

definition settle ::
  "bool \<Rightarrow> bool \<Rightarrow> string \<Rightarrow> duration \<Rightarrow> stormObservationSlot list option \<Rightarrow> time \<Rightarrow> rat list \<Rightarrow> StormPermit \<Rightarrow> stormState
     \<Rightarrow> bool \<times> stormObservationSlot list option \<times> stormState" where
  "settle ob failed reason retryAfter obs now rnds p s0 =
     (let s = drop_refs (pm_claims p) s0
      in if pm_generation p \<noteq> ss_generation s then (False, obs, s)
         else
           let reason = storm_reason reason; retryAfter = ClampRetryHint retryAfter;
               (obs, s) = (if ob then sample_claims now failed (pm_claims p) 0 obs s else (obs, s))
           in case settle_claims ob failed reason retryAfter now rnds (pm_claims p) s of
                (changed, active, s) \<Rightarrow> (active, obs, if changed then storm_wake s else s))"

definition settleQuota_claim ::
  "string \<Rightarrow> duration \<Rightarrow> time \<Rightarrow> rat \<Rightarrow> stormClaim \<Rightarrow> stormState \<Rightarrow> bool \<times> stormState" where
  "settleQuota_claim reason retryAfter now rnd c s0 =
     (let i = cl_scope c; opts = ss_opts s0; (changed, s) = release_probe c s0; sc = ss_heap s i
      in if sk_modelScope (sc_key sc) then (changed, s)
         else if cl_probe c \<and> cl_epoch c = sc_epoch sc \<and> sc_quota sc then
           (changed, upd_scope i (\<lambda>sc. storm_delay opts rnd now retryAfter True
                                    (sc\<lparr>sc_recovered := 0, sc_reason := reason\<rparr>)) s)
         else if \<not> sc_quota sc then
           (changed, upd_scope i (\<lambda>sc. storm_delay opts rnd now retryAfter False
              (sc\<lparr>sc_quota := True, sc_epoch := sc_epoch sc + 1, sc_recovered := 0, sc_reason := reason\<rparr>)) s)
         else (changed, s))"

fun settleQuota_claims ::
  "string \<Rightarrow> duration \<Rightarrow> time \<Rightarrow> rat list \<Rightarrow> stormClaim list \<Rightarrow> stormState \<Rightarrow> bool \<times> stormState" where
  "settleQuota_claims reason retryAfter now rnds [] s = (False, s)"
| "settleQuota_claims reason retryAfter now rnds (c # cs) s =
     (case settleQuota_claim reason retryAfter now (hd rnds) c s of
        (ch, s1) \<Rightarrow> (case settleQuota_claims reason retryAfter now (tl rnds) cs s1 of (ch', s2) \<Rightarrow> (ch \<or> ch', s2)))"

definition settleQuota :: "string \<Rightarrow> duration \<Rightarrow> time \<Rightarrow> rat list \<Rightarrow> StormPermit \<Rightarrow> stormState \<Rightarrow> stormState" where
  "settleQuota reason retryAfter now rnds p s0 =
     (let s = drop_refs (pm_claims p) s0
      in if pm_generation p \<noteq> ss_generation s then s
         else case settleQuota_claims (storm_reason reason) (ClampRetryHint retryAfter) now rnds (pm_claims p) s of
           (changed, s) \<Rightarrow> if changed then storm_wake s else s)"

definition ReleaseQuota :: "string \<Rightarrow> stormState \<Rightarrow> bool \<times> stormState" where
  "ReleaseQuota provider s =
     (case map_of (ss_scopes s) (provider_key provider) of
        None \<Rightarrow> (False, s)
      | Some i \<Rightarrow>
          if \<not> sc_quota (ss_heap s i) then (False, s)
          else (True, storm_wake (upd_scope i (\<lambda>sc.
                 let sc = sc\<lparr>sc_quota := False, sc_recovered := 0\<rparr>
                 in if \<not> sc_active sc then clearCooldown sc else sc) s)))"

text \<open>The public methods of a permit: each settles it at most once.\<close>

definition permit_Observe ::
  "bool \<Rightarrow> string \<Rightarrow> duration \<Rightarrow> stormObservationSlot list option \<Rightarrow> time \<Rightarrow> rat list \<Rightarrow> StormPermit \<Rightarrow> stormState
     \<Rightarrow> bool \<times> StormPermit \<times> stormObservationSlot list option \<times> stormState" where
  "permit_Observe failed reason retryAfter obs now rnds p s =
     (if \<not> pm_state p then (False, p, obs, s)
      else if pm_once p then (pm_active p, p, obs, s)
      else case settle True failed reason retryAfter obs now rnds p s of
        (active, obs', s') \<Rightarrow> (active, p\<lparr>pm_once := True, pm_active := active\<rparr>, obs', s'))"

definition permit_Cancel :: "time \<Rightarrow> rat list \<Rightarrow> StormPermit \<Rightarrow> stormState \<Rightarrow> StormPermit \<times> stormState" where
  "permit_Cancel now rnds p s =
     (if \<not> pm_state p \<or> pm_once p then (p, s)
      else case settle False False [] 0 None now rnds p s of
        (active, obs', s') \<Rightarrow> (p\<lparr>pm_once := True, pm_active := active\<rparr>, s'))"

definition permit_ObserveQuota ::
  "string \<Rightarrow> duration \<Rightarrow> time \<Rightarrow> rat list \<Rightarrow> StormPermit \<Rightarrow> stormState \<Rightarrow> StormPermit \<times> stormState" where
  "permit_ObserveQuota reason retryAfter now rnds p s =
     (if \<not> pm_state p \<or> pm_once p then (p, s)
      else (p\<lparr>pm_once := True\<rparr>, settleQuota reason retryAfter now rnds p s))"


section \<open>What an operation leaves alone\<close>

definition scope_core :: "stormScope \<Rightarrow> stormKey \<times> int \<times> int" where
  "scope_core sc = (sc_key sc, sc_refs sc, sc_queued sc)"

text \<open>
  \<open>frame X s s'\<close>: the map, the configuration, the references and the queue counts are
  unchanged, the probe flags are cleared exactly on \<open>X\<close>, and a quota gate is new only on a
  provider scope.
\<close>

definition keeps :: "stormScope \<Rightarrow> stormScope \<Rightarrow> bool" where
  "keeps sc sc' \<longleftrightarrow> scope_core sc' = scope_core sc \<and> sc_probing sc' = sc_probing sc
     \<and> (sc_quota sc' \<longrightarrow> sc_quota sc \<or> \<not> sk_modelScope (sc_key sc))"

definition frame :: "nat set \<Rightarrow> stormState \<Rightarrow> stormState \<Rightarrow> bool" where
  "frame X s s' \<longleftrightarrow> ss_opts s' = ss_opts s \<and> ss_scopes s' = ss_scopes s \<and> ss_next s' = ss_next s
     \<and> ss_generation s' = ss_generation s \<and> ss_queued s' = ss_queued s
     \<and> (\<forall>j. scope_core (ss_heap s' j) = scope_core (ss_heap s j)
          \<and> (sc_probing (ss_heap s' j) \<longleftrightarrow> sc_probing (ss_heap s j) \<and> j \<notin> X)
          \<and> (sc_quota (ss_heap s' j) \<longrightarrow> sc_quota (ss_heap s j) \<or> \<not> sk_modelScope (sc_key (ss_heap s j))))"

lemma frame_refl [simp]: "frame {} s s"
  by (simp add: frame_def)

lemma frame_trans: "frame X s s' \<Longrightarrow> frame Y s' s'' \<Longrightarrow> frame (X \<union> Y) s s''"
  by (auto simp: frame_def scope_core_def)

lemma frame_trans0: "frame {} s s' \<Longrightarrow> frame Y s' s'' \<Longrightarrow> frame Y s s''"
  using frame_trans [of "{}" s s' Y s''] by simp

lemma frame_upd: "keeps (ss_heap s i) (f (ss_heap s i)) \<Longrightarrow> frame {} s (upd_scope i f s)"
  by (auto simp: frame_def upd_scope_def keeps_def)

lemma frame_wake [simp]: "frame X s (storm_wake s') = frame X s s'"
  by (simp add: frame_def storm_wake_def)

lemma frame_if: "frame X s a \<Longrightarrow> frame X s b \<Longrightarrow> frame X s (if c then a else b)"
  by simp

lemma keeps_refl [simp]: "keeps sc sc"
  by (simp add: keeps_def)

lemma keeps_trans: "keeps a b \<Longrightarrow> keeps b c \<Longrightarrow> keeps a c"
  by (auto simp: keeps_def scope_core_def)

lemma keeps_delay [simp]: "keeps sc (storm_delay opts rnd now ra g sc') = keeps sc sc'"
  by (simp add: storm_delay_def Let_def keeps_def scope_core_def)

lemma keeps_totals: "keeps sc (snd (snd (totals now w sc)))"
  by (simp add: totals_def Let_def keeps_def scope_core_def)

lemma keeps_threshold: "storm_threshold now opts sc = (b, sc') \<Longrightarrow> keeps sc sc'"
  using keeps_totals [of sc now "so_Window opts"] by (auto simp: storm_threshold_def split: prod.splits)

lemma keeps_sample: "keeps sc (sample now w failed sc)"
proof -
  have "keeps (snd (snd (totals now w sc))) (sample now w failed sc)"
    by (simp add: sample_def Let_def case_prod_beta keeps_def scope_core_def)
  then show ?thesis by (rule keeps_trans [OF keeps_totals])
qed

lemma keeps_observe: "observeRequest i now w ob sc = (ob', sc') \<Longrightarrow> keeps sc sc'"
  by (auto simp: observeRequest_def Let_def case_prod_beta keeps_def scope_core_def split: option.splits if_splits)

lemma keeps_recover: "keeps sc (recover_scope opts rnd now sc)"
  by (simp add: recover_scope_def Let_def keeps_def scope_core_def clearCooldown_def resetSamples_def storm_delay_def)

lemma frame_affectedModels: "affectedModels pr now es s = (a, b, s') \<Longrightarrow> frame {} s s'"
proof (induction es arbitrary: s a b s')
  case (Cons e es)
  obtain key i where e: "e = (key, i)" by (cases e)
  show ?case
  proof (cases "sk_provider key = pr")
    case True
    obtain x y sc where m: "modelFold now (ss_opts s) (ss_heap s i) = (x, y, sc)" by (metis prod_cases3)
    have k: "keeps (ss_heap s i) sc"
      using m by (auto simp: modelFold_def dest: keeps_threshold split: if_splits prod.splits)
    obtain a' b' where "affectedModels pr now es (upd_scope i (\<lambda>_. sc) s) = (a', b', s')"
      using Cons.prems True m by (auto simp: e split: prod.splits if_splits)
    from frame_trans0 [OF frame_upd Cons.IH [OF this]] k show ?thesis by simp
  next
    case False
    with Cons.prems Cons.IH show ?thesis by (simp add: e)
  qed
qed simp

lemma frame_release: "release_probe c s = (b, s') \<Longrightarrow> frame (if cl_probe c then {cl_scope c} else {}) s s'"
  by (auto simp: release_probe_def frame_def upd_scope_def scope_core_def split: if_splits)

lemma frame_settle_claim:
  assumes "settle_claim ob failed reason ra now rnd c s = (b, s')"
  shows "frame (if cl_probe c then {cl_scope c} else {}) s s'"
proof -
  obtain ch s1 where r: "release_probe c s = (ch, s1)" by (cases "release_probe c s")
  let ?i = "cl_scope c" and ?X = "if cl_probe c then {cl_scope c} else {}"
  have f1: "frame ?X s s1" by (rule frame_release [OF r])
  have k: "keeps sc (sc\<lparr>sc_recovered := n, sc_reason := rs\<rparr>)" "keeps sc (recover_scope (ss_opts s) rnd now sc)"
    "keeps sc (sc\<lparr>sc_active := True, sc_epoch := ep, sc_recovered := n, sc_reason := rs\<rparr>)"
    "keeps sc (sc\<lparr>sc_retryAt := t, sc_reason := rs, sc_timer := tm\<rparr>)" for sc n rs ep t tm
    by (simp_all add: keeps_recover) (simp_all add: keeps_def scope_core_def)
  have rest: "frame {} s1 s'"
  proof (cases "cl_probe c \<and> cl_epoch c = sc_epoch (ss_heap s1 ?i) \<and> (sc_active (ss_heap s1 ?i) \<or> sc_quota (ss_heap s1 ?i))")
    case True
    then show ?thesis
      using assms by (auto simp: settle_claim_def r Let_def k intro!: frame_upd split: if_splits)
  next
    case False
    define pre where "pre = (so_Enabled (ss_opts s) \<and> (sk_modelScope (sc_key (ss_heap s1 ?i)) \<or> so_ProviderEnabled (ss_opts s))
      \<and> ob \<and> failed \<and> \<not> sc_active (ss_heap s1 ?i))"
    obtain th s2 where t: "(if pre then case storm_threshold now (ss_opts s) (ss_heap s1 ?i) of (b, sc') \<Rightarrow> (b, upd_scope ?i (\<lambda>_. sc') s1)
        else (False, s1)) = (th, s2)" by fastforce
    have f2: "frame {} s1 s2"
      using t by (auto intro!: frame_upd dest: keeps_threshold split: if_splits prod.splits)
    obtain opens s3 where o: "(if \<not> th then (False, s2) else if sk_modelScope (sc_key (ss_heap s1 ?i)) then (True, s2)
        else allActiveModelsAffected (sk_provider (sc_key (ss_heap s1 ?i))) now s2) = (opens, s3)" by fastforce
    have f3: "frame {} s2 s3"
      using o by (auto simp: allActiveModelsAffected_def dest: frame_affectedModels split: if_splits prod.splits)
    have "s' = (if opens then upd_scope ?i (\<lambda>sc. storm_delay (ss_opts s) rnd now ra False
              (sc\<lparr>sc_active := True, sc_epoch := sc_epoch sc + 1, sc_recovered := 0, sc_reason := reason\<rparr>)) s3
        else if ob \<and> failed \<and> sc_active (ss_heap s1 ?i) \<and> ra > 0 \<and> now + ra > sc_retryAt (ss_heap s1 ?i)
        then upd_scope ?i (\<lambda>sc. sc\<lparr>sc_retryAt := now + ra, sc_reason := reason, sc_timer := armed (now + ra) False (sc_timer sc)\<rparr>) s3
        else s3)"
      using assms False t o by (auto simp: settle_claim_def r Let_def pre_def split: if_splits)
    then have "frame {} s3 s'" by (auto simp: k intro!: frame_upd)
    with f2 f3 show ?thesis by (blast intro: frame_trans0)
  qed
  from frame_trans [OF f1 rest] show ?thesis by simp
qed


definition probe_scopes :: "stormClaim list \<Rightarrow> nat set" where
  "probe_scopes cs = cl_scope ` set (filter cl_probe cs)"

lemma frame_gates: "frame X s s' \<Longrightarrow> storm_gates s' (ss_heap s' i) = storm_gates s (ss_heap s i)"
  by (simp add: frame_def storm_gates_def scope_core_def)

lemma frame_settle_claims:
  assumes "settle_claims ob failed reason ra now rnds cs s = (a, b, s')"
    and "\<forall>c\<in>set cs. cl_probe c \<longrightarrow> storm_gates s (ss_heap s (cl_scope c))"
  shows "frame (probe_scopes cs) s s'"
  using assms
proof (induction cs arbitrary: rnds s a b s')
  case (Cons c cs)
  show ?case
  proof (cases "\<not> storm_gates s (ss_heap s (cl_scope c)) \<and> \<not> sc_quota (ss_heap s (cl_scope c))")
    case True
    with Cons show ?thesis by (auto simp: probe_scopes_def)
  next
    case False
    obtain ch s1 where c: "settle_claim ob failed reason ra now (hd rnds) c s = (ch, s1)" by fastforce
    obtain a' b' where r: "settle_claims ob failed reason ra now (tl rnds) cs s1 = (a', b', s')"
      using Cons.prems(1) False c by (auto split: prod.splits)
    note f1 = frame_settle_claim [OF c]
    have "\<forall>d\<in>set cs. cl_probe d \<longrightarrow> storm_gates s1 (ss_heap s1 (cl_scope d))"
      using Cons.prems(2) by (simp add: frame_gates [OF f1])
    from frame_trans [OF f1 Cons.IH [OF r this]] show ?thesis by (simp add: probe_scopes_def split: if_splits)
  qed
qed (simp add: probe_scopes_def)

lemma frame_sample_claims: "sample_claims now failed cs k ob s = (ob', s') \<Longrightarrow> frame {} s s'"
proof (induction cs arbitrary: k ob s)
  case (Cons c cs)
  let ?i = "cl_scope c" and ?w = "so_Window (ss_opts s)"
  let ?sc = "sample now ?w failed (ss_heap s ?i)"
  obtain slot sc where o: "(if failed then observeRequest ?i now ?w (map_option (\<lambda>xs. xs ! k) ob) ?sc else (None, ?sc)) = (slot, sc)"
    by fastforce
  have "keeps (ss_heap s ?i) sc"
    using o keeps_trans [OF keeps_sample keeps_observe] keeps_sample by (auto split: if_splits)
  then have f: "frame {} s (upd_scope ?i (\<lambda>_. sc) s)" by (rule frame_upd)
  obtain k' ob1 where "sample_claims now failed cs k' ob1 (upd_scope ?i (\<lambda>_. sc) s) = (ob', s')"
    using Cons.prems o by (auto simp: Let_def)
  from frame_trans0 [OF f Cons.IH [OF this]] show ?case .
qed simp

lemma frame_settleQuota_claim:
  assumes "settleQuota_claim reason ra now rnd c s = (b, s')"
  shows "frame (if cl_probe c then {cl_scope c} else {}) s s'"
proof -
  obtain ch s1 where r: "release_probe c s = (ch, s1)" by (cases "release_probe c s")
  have "keeps sc (sc\<lparr>sc_recovered := n, sc_reason := rs\<rparr>)"
    "\<not> sk_modelScope (sc_key sc) \<Longrightarrow> keeps sc (sc\<lparr>sc_quota := True, sc_epoch := ep, sc_recovered := n, sc_reason := rs\<rparr>)"
    for sc n rs ep by (simp_all add: keeps_def scope_core_def)
  then have "frame {} s1 s'"
    using assms by (auto simp: settleQuota_claim_def r Let_def intro!: frame_upd split: if_splits)
  from frame_trans [OF frame_release [OF r] this] show ?thesis by simp
qed

lemma frame_settleQuota_claims:
  "settleQuota_claims reason ra now rnds cs s = (b, s') \<Longrightarrow> frame (probe_scopes cs) s s'"
proof (induction cs arbitrary: rnds s b s')
  case (Cons c cs)
  obtain ch s1 where c: "settleQuota_claim reason ra now (hd rnds) c s = (ch, s1)" by fastforce
  obtain b' where r: "settleQuota_claims reason ra now (tl rnds) cs s1 = (b', s')"
    using Cons.prems c by (auto split: prod.splits)
  from frame_trans [OF frame_settleQuota_claim [OF c] Cons.IH [OF r]] show ?case
    by (simp add: probe_scopes_def split: if_splits)
qed (simp add: probe_scopes_def)


section \<open>Ownership of probes, references and queue places\<close>

definition live_scopes :: "stormState \<Rightarrow> nat set" where
  "live_scopes s = snd ` set (ss_scopes s)"

definition claims_on :: "StormPermit list \<Rightarrow> nat \<Rightarrow> int" where
  "claims_on ps i = sum_list (map (\<lambda>p. int (length (filter (\<lambda>c. cl_scope c = i) (pm_claims p)))) ps)"

definition probes_on :: "StormPermit list \<Rightarrow> nat \<Rightarrow> int" where
  "probes_on ps i = sum_list (map (\<lambda>p. int (length (filter (\<lambda>c. cl_scope c = i \<and> cl_probe c) (pm_claims p)))) ps)"

definition waiters_on :: "nat list list \<Rightarrow> nat \<Rightarrow> int" where
  "waiters_on q i = int (length (filter (\<lambda>is. i \<in> set is) q))"

definition map_ok :: "stormState \<Rightarrow> bool" where
  "map_ok s \<longleftrightarrow> distinct (map fst (ss_scopes s)) \<and> distinct (map snd (ss_scopes s))
     \<and> (\<forall>(k, i)\<in>set (ss_scopes s). i < ss_next s \<and> sc_key (ss_heap s i) = k)
     \<and> int (length (ss_scopes s)) \<le> max 0 (so_MaxScopes (ss_opts s))"

definition scope_ok :: "stormState \<Rightarrow> StormPermit list \<Rightarrow> nat list list \<Rightarrow> nat \<Rightarrow> bool" where
  "scope_ok s ps q i \<longleftrightarrow> sc_refs (ss_heap s i) = claims_on ps i
     \<and> probes_on ps i = (if sc_probing (ss_heap s i) then 1 else 0)
     \<and> sc_queued (ss_heap s i) = waiters_on q i
     \<and> (sc_quota (ss_heap s i) \<longrightarrow> \<not> sk_modelScope (sc_key (ss_heap s i)))"

definition permit_ok :: "stormState \<Rightarrow> StormPermit \<Rightarrow> bool" where
  "permit_ok s p \<longleftrightarrow> distinct (map cl_scope (pm_claims p)) \<and> pm_generation p \<le> ss_generation s
     \<and> (\<forall>c\<in>set (pm_claims p). cl_scope c < ss_next s
          \<and> (if pm_generation p = ss_generation s
             then cl_scope c \<in> live_scopes s \<and> (cl_probe c \<longrightarrow> storm_gates s (ss_heap s (cl_scope c)))
             else cl_scope c \<notin> live_scopes s))"

definition queue_ok :: "stormState \<Rightarrow> nat list list \<Rightarrow> bool" where
  "queue_ok s q \<longleftrightarrow> ss_queued s = int (length q) \<and> (\<forall>is\<in>set q. distinct is \<and> (\<forall>i\<in>set is. i < ss_next s))"

definition storm_inv :: "stormState \<Rightarrow> StormPermit list \<Rightarrow> nat list list \<Rightarrow> bool" where
  "storm_inv s ps q \<longleftrightarrow> map_ok s \<and> (\<forall>i\<in>live_scopes s. scope_ok s ps q i)
     \<and> (\<forall>p\<in>set ps. permit_ok s p) \<and> queue_ok s q"

lemma frame_live: "frame X s s' \<Longrightarrow> live_scopes s' = live_scopes s"
  by (simp add: frame_def live_scopes_def)

lemma frame_map_ok: "frame X s s' \<Longrightarrow> map_ok s' = map_ok s"
  by (simp add: frame_def map_ok_def scope_core_def)

lemma frame_permit_ok: "frame X s s' \<Longrightarrow> permit_ok s' p = permit_ok s p"
  using frame_gates [of X s s'] frame_live [of X s s'] by (simp add: permit_ok_def) (simp add: frame_def)

lemma frame_queue_ok: "frame X s s' \<Longrightarrow> queue_ok s' q = queue_ok s q"
  by (simp add: frame_def queue_ok_def)

lemma inv_frame0: "storm_inv s ps q \<Longrightarrow> frame {} s s' \<Longrightarrow> storm_inv s' ps q"
  using frame_live [of "{}" s s'] frame_map_ok [of "{}" s s'] frame_permit_ok [of "{}" s s'] frame_queue_ok [of "{}" s s']
  by (auto simp: storm_inv_def scope_ok_def) (auto simp: frame_def scope_core_def)

text \<open>Taking a permit out of the outstanding ones.\<close>

lemma sum_list_remove1: "p \<in> set ps \<Longrightarrow> sum_list (map f (remove1 p ps)) = sum_list (map f ps) - (f p :: int)"
  by (induction ps) auto

lemma claims_on_remove1: "p \<in> set ps \<Longrightarrow> claims_on (remove1 p ps) i
    = claims_on ps i - int (length (filter (\<lambda>c. cl_scope c = i) (pm_claims p)))"
  by (simp add: claims_on_def sum_list_remove1)

lemma probes_on_remove1: "p \<in> set ps \<Longrightarrow> probes_on (remove1 p ps) i
    = probes_on ps i - int (length (filter (\<lambda>c. cl_scope c = i \<and> cl_probe c) (pm_claims p)))"
  by (simp add: probes_on_def sum_list_remove1)

lemma distinct_filter_scope:
  "distinct (map cl_scope cs) \<Longrightarrow>
     int (length (filter (\<lambda>c. cl_scope c = i \<and> P c) cs)) = (if \<exists>c\<in>set cs. cl_scope c = i \<and> P c then 1 else 0)"
proof (induction cs)
  case (Cons c cs)
  have ne: "cl_scope d \<noteq> cl_scope c" if "d \<in> set cs" for d
    using Cons.prems that by (metis distinct.simps(2) image_eqI list.set_map list.simps(9))
  show ?case
  proof (cases "cl_scope c = i")
    case True
    then have "filter (\<lambda>d. cl_scope d = i \<and> P d) cs = []" using ne by (auto simp: filter_empty_conv)
    then show ?thesis using True ne by auto
  next
    case False
    then show ?thesis using Cons by auto
  qed
qed simp

lemma upd_scopes_other [simp]:
  "ss_opts (upd_scopes is f s) = ss_opts s" "ss_scopes (upd_scopes is f s) = ss_scopes s"
  "ss_next (upd_scopes is f s) = ss_next s" "ss_generation (upd_scopes is f s) = ss_generation s"
  "ss_queued (upd_scopes is f s) = ss_queued s" "ss_kick (upd_scopes is f s) = ss_kick s"
  by (induction "is" arbitrary: s) (simp_all add: upd_scope_def)

lemma upd_scopes_heap:
  "distinct is \<Longrightarrow> ss_heap (upd_scopes is f s) = (\<lambda>j. if j \<in> set is then f (ss_heap s j) else ss_heap s j)"
proof (induction "is" arbitrary: s)
  case (Cons i "is")
  then show ?case by (auto simp: upd_scope_def fun_eq_iff)
qed (simp add: fun_eq_iff)

lemma frame_upd_scopes: "distinct is \<Longrightarrow> (\<And>sc. keeps sc (f sc)) \<Longrightarrow> frame {} s (upd_scopes is f s)"
  by (simp add: frame_def upd_scopes_heap) (simp add: keeps_def)

lemma live_upd_scopes [simp]: "live_scopes (upd_scopes is f s) = live_scopes s"
  by (simp add: live_scopes_def)

lemma permit_distinct: "permit_ok s p \<Longrightarrow> distinct (map cl_scope (pm_claims p))"
  by (simp add: permit_ok_def)

text \<open>
  Settling a permit: the references of its scopes drop by one and, for a permit of the
  current generation, exactly the flags of its probes are released. That is the whole effect
  on ownership.
\<close>

lemma inv_settled:
  assumes inv: "storm_inv s ps q" and p: "p \<in> set ps"
    and fr: "frame X (drop_refs (pm_claims p) s) s'"
    and X: "if pm_generation p = ss_generation s then X = probe_scopes (pm_claims p) else X = {}"
  shows "storm_inv s' (remove1 p ps) q"
proof -
  let ?cs = "pm_claims p" and ?d = "drop_refs (pm_claims p) s"
  have pok: "permit_ok s p" using inv p by (simp add: storm_inv_def)
  have dist: "distinct (map cl_scope ?cs)" by (rule permit_distinct [OF pok])
  have dheap: "ss_heap ?d = (\<lambda>j. if j \<in> cl_scope ` set ?cs then (ss_heap s j)\<lparr>sc_refs := sc_refs (ss_heap s j) - 1\<rparr> else ss_heap s j)"
    using dist by (simp add: drop_refs_def upd_scopes_heap)
  have gates: "storm_gates ?d (ss_heap ?d i) = storm_gates s (ss_heap s i)" for i
    by (simp add: storm_gates_def dheap) (simp add: drop_refs_def)
  have live: "live_scopes s' = live_scopes s" using frame_live [OF fr] by (simp add: drop_refs_def)
  have sel [simp]: "ss_opts ?d = ss_opts s" "ss_scopes ?d = ss_scopes s" "ss_next ?d = ss_next s"
    "ss_generation ?d = ss_generation s" "ss_queued ?d = ss_queued s" "live_scopes ?d = live_scopes s"
    by (simp_all add: drop_refs_def)
  have "map_ok s'"
    using inv frame_map_ok [OF fr] by (auto simp: storm_inv_def map_ok_def dheap)
  moreover have "\<forall>p'\<in>set (remove1 p ps). permit_ok s' p'"
  proof
    fix p' assume "p' \<in> set (remove1 p ps)"
    then have "p' \<in> set ps" using set_remove1_subset by fast
    then have "permit_ok s p'" using inv by (simp add: storm_inv_def)
    then show "permit_ok s' p'" unfolding frame_permit_ok [OF fr] by (simp add: permit_ok_def gates)
  qed
  moreover have "queue_ok s' q" using inv frame_queue_ok [OF fr, of q] by (simp add: storm_inv_def queue_ok_def)
  moreover have "scope_ok s' (remove1 p ps) q i" if i: "i \<in> live_scopes s" for i
  proof -
    have ok: "scope_ok s ps q i" using inv i by (simp add: storm_inv_def)
    have core: "sc_key (ss_heap s' i) = sc_key (ss_heap s i)" "sc_queued (ss_heap s' i) = sc_queued (ss_heap s i)"
      "sc_refs (ss_heap s' i) = sc_refs (ss_heap s i) - (if i \<in> cl_scope ` set ?cs then 1 else 0)"
      "sc_probing (ss_heap s' i) \<longleftrightarrow> sc_probing (ss_heap s i) \<and> i \<notin> X"
      "sc_quota (ss_heap s' i) \<longrightarrow> sc_quota (ss_heap s i) \<or> \<not> sk_modelScope (sc_key (ss_heap s i))"
    proof -
      have fi: "scope_core (ss_heap s' i) = scope_core (ss_heap ?d i)
          \<and> (sc_probing (ss_heap s' i) \<longleftrightarrow> sc_probing (ss_heap ?d i) \<and> i \<notin> X)
          \<and> (sc_quota (ss_heap s' i) \<longrightarrow> sc_quota (ss_heap ?d i) \<or> \<not> sk_modelScope (sc_key (ss_heap ?d i)))"
        using fr by (simp add: frame_def)
      have di: "ss_heap ?d i = (if i \<in> cl_scope ` set ?cs then (ss_heap s i)\<lparr>sc_refs := sc_refs (ss_heap s i) - 1\<rparr> else ss_heap s i)"
        by (simp add: dheap)
      show "sc_key (ss_heap s' i) = sc_key (ss_heap s i)" "sc_queued (ss_heap s' i) = sc_queued (ss_heap s i)"
        "sc_refs (ss_heap s' i) = sc_refs (ss_heap s i) - (if i \<in> cl_scope ` set ?cs then 1 else 0)"
        "sc_probing (ss_heap s' i) \<longleftrightarrow> sc_probing (ss_heap s i) \<and> i \<notin> X"
        "sc_quota (ss_heap s' i) \<longrightarrow> sc_quota (ss_heap s i) \<or> \<not> sk_modelScope (sc_key (ss_heap s i))"
        using fi di by (cases "i \<in> cl_scope ` set ?cs"; simp add: scope_core_def)+
    qed
    have "int (length (filter (\<lambda>c. cl_scope c = i) ?cs)) = (if i \<in> cl_scope ` set ?cs then 1 else 0)"
      using distinct_filter_scope [OF dist, of i "\<lambda>_. True"] by auto
    then have refs: "sc_refs (ss_heap s' i) = claims_on (remove1 p ps) i"
      using ok core(3) claims_on_remove1 [OF p, of i] by (simp add: scope_ok_def)
    have "i \<in> X \<longleftrightarrow> (\<exists>c\<in>set ?cs. cl_scope c = i \<and> cl_probe c)"
      using X pok i by (auto simp: permit_ok_def probe_scopes_def split: if_splits)
    then have "int (length (filter (\<lambda>c. cl_scope c = i \<and> cl_probe c) ?cs)) = (if i \<in> X then 1 else 0)"
      using distinct_filter_scope [OF dist, of i cl_probe] by simp
    moreover have "0 \<le> probes_on (remove1 p ps) i"
      unfolding probes_on_def by (rule sum_list_nonneg) auto
    ultimately have "probes_on (remove1 p ps) i = (if sc_probing (ss_heap s' i) then 1 else 0)"
      using ok core(4) probes_on_remove1 [OF p, of i] by (auto simp: scope_ok_def split: if_splits)
    with refs core ok show ?thesis by (auto simp: scope_ok_def)
  qed
  ultimately show ?thesis by (simp add: storm_inv_def live)
qed

lemma inv_settle:
  assumes inv: "storm_inv s ps q" and p: "p \<in> set ps" and r: "settle ob failed reason ra obs now rnds p s = (a, obs', s')"
  shows "storm_inv s' (remove1 p ps) q"
proof -
  let ?d = "drop_refs (pm_claims p) s"
  have g: "ss_generation ?d = ss_generation s" by (simp add: drop_refs_def)
  show ?thesis
  proof (cases "pm_generation p = ss_generation s")
    case True
    obtain obs1 s1 where sa: "(if ob then sample_claims now failed (pm_claims p) 0 obs ?d else (obs, ?d)) = (obs1, s1)" by fastforce
    have f1: "frame {} ?d s1" using sa frame_sample_claims by (auto split: if_splits)
    obtain ch act s2 where sc: "settle_claims ob failed (storm_reason reason) (ClampRetryHint ra) now rnds (pm_claims p) s1 = (ch, act, s2)"
      by (metis prod_cases3)
    have s': "s' = (if ch then storm_wake s2 else s2)"
      using r True sa sc g by (auto simp: settle_def Let_def split: if_splits)
    have "storm_gates s1 (ss_heap s1 (cl_scope c))" if "c \<in> set (pm_claims p)" "cl_probe c" for c
    proof -
      have pok: "permit_ok s p" using inv p by (simp add: storm_inv_def)
      then have "storm_gates s (ss_heap s (cl_scope c))" using that True by (simp add: permit_ok_def)
      moreover have "storm_gates ?d (ss_heap ?d i) = storm_gates s (ss_heap s i)" for i
        using permit_distinct [OF pok] by (simp add: storm_gates_def drop_refs_def upd_scopes_heap)
      ultimately show ?thesis by (simp add: frame_gates [OF f1])
    qed
    then have "frame (probe_scopes (pm_claims p)) s1 s2" by (intro frame_settle_claims [OF sc]) simp
    then have "frame (probe_scopes (pm_claims p)) ?d s'" using frame_trans0 [OF f1] s' by simp
    then show ?thesis using inv_settled [OF inv p] True by simp
  next
    case False
    then have "s' = ?d" using r g by (simp add: settle_def Let_def)
    then show ?thesis using inv_settled [OF inv p, of "{}" s'] False by simp
  qed
qed

lemma inv_settleQuota:
  assumes inv: "storm_inv s ps q" and p: "p \<in> set ps"
  shows "storm_inv (settleQuota reason ra now rnds p s) (remove1 p ps) q"
proof -
  let ?d = "drop_refs (pm_claims p) s"
  have g: "ss_generation ?d = ss_generation s" by (simp add: drop_refs_def)
  obtain ch s2 where sc: "settleQuota_claims (storm_reason reason) (ClampRetryHint ra) now rnds (pm_claims p) ?d = (ch, s2)" by fastforce
  have "frame (if pm_generation p = ss_generation s then probe_scopes (pm_claims p) else {}) ?d
      (settleQuota reason ra now rnds p s)"
    using sc g frame_settleQuota_claims [OF sc] by (simp add: settleQuota_def Let_def)
  then show ?thesis using inv_settled [OF inv p] by simp
qed


text \<open>Queue places.\<close>

lemma waiters_on_Cons: "waiters_on (x # q) i = waiters_on q i + (if i \<in> set x then 1 else 0)"
  by (simp add: waiters_on_def)

lemma waiters_on_remove1:
  "x \<in> set q \<Longrightarrow> waiters_on (remove1 x q) i = waiters_on q i - (if i \<in> set x then 1 else 0)"
  by (induction q) (auto simp: waiters_on_def)

lemma inv_requeue:
  assumes inv: "storm_inv s ps q" and d: "distinct is" "\<forall>i\<in>set is. i < ss_next s"
    and n: "\<And>i. waiters_on q' i = waiters_on q i + (if i \<in> set is then n else 0)"
    and q': "int (length q') = int (length q) + n" "set q' \<subseteq> insert is (set q)"
  shows "storm_inv (upd_scopes is (\<lambda>sc. sc\<lparr>sc_queued := sc_queued sc + n\<rparr>) (s\<lparr>ss_queued := ss_queued s + n\<rparr>)) ps q'"
proof -
  let ?s = "upd_scopes is (\<lambda>sc. sc\<lparr>sc_queued := sc_queued sc + n\<rparr>) (s\<lparr>ss_queued := ss_queued s + n\<rparr>)"
  have heap: "ss_heap ?s = (\<lambda>j. if j \<in> set is then (ss_heap s j)\<lparr>sc_queued := sc_queued (ss_heap s j) + n\<rparr> else ss_heap s j)"
    using d(1) by (simp add: upd_scopes_heap fun_eq_iff)
  have gates: "storm_gates ?s (ss_heap ?s i) = storm_gates s (ss_heap s i)" for i
    by (simp add: storm_gates_def heap)
  have live: "live_scopes ?s = live_scopes s" by (simp add: live_scopes_def)
  have "map_ok ?s" using inv by (auto simp: storm_inv_def map_ok_def heap)
  moreover have "scope_ok ?s ps q' i" if "i \<in> live_scopes s" for i
    using inv that by (auto simp: storm_inv_def scope_ok_def heap n)
  moreover have "permit_ok ?s p" if "p \<in> set ps" for p
    using inv that gates live by (simp add: storm_inv_def permit_ok_def)
  moreover have "queue_ok ?s q'" using inv d q' by (auto simp: storm_inv_def queue_ok_def)
  ultimately show ?thesis unfolding storm_inv_def live by blast
qed

lemma inv_unqueue:
  assumes inv: "storm_inv s ps q" and q: "is \<in> set q"
  shows "storm_inv (unqueue is s) ps (remove1 is q)"
proof -
  have "distinct is" "\<forall>i\<in>set is. i < ss_next s" using inv q by (simp_all add: storm_inv_def queue_ok_def)
  moreover have "0 < length q" using q by (cases q) auto
  moreover have "waiters_on (remove1 is q) i = waiters_on q i + (if i \<in> set is then - 1 else 0)" for i
    using q by (simp add: waiters_on_remove1)
  moreover have "int (length (remove1 is q)) = int (length q) + - 1"
  proof -
    have "length (remove1 is q) = length q - 1" using q by (simp add: length_remove1)
    with \<open>0 < length q\<close> show ?thesis by linarith
  qed
  moreover have "set (remove1 is q) \<subseteq> insert is (set q)" using set_remove1_subset [of "is" q] by auto
  ultimately show ?thesis
    using inv_requeue [OF inv, of "is" "remove1 is q" "- 1"] by (simp add: unqueue_def)
qed

lemma inv_park:
  assumes inv: "storm_inv s ps q" and "distinct is" "set is \<subseteq> live_scopes s"
  shows "storm_inv (upd_scopes is (\<lambda>sc. sc\<lparr>sc_queued := sc_queued sc + 1\<rparr>) (s\<lparr>ss_queued := ss_queued s + 1\<rparr>)) ps (is # q)"
proof -
  have "\<forall>i\<in>set is. i < ss_next s" using assms(3) inv by (force simp: storm_inv_def map_ok_def live_scopes_def)
  then show ?thesis
    using inv_requeue [OF inv assms(2), of "is # q" 1] by (auto simp: waiters_on_Cons)
qed

text \<open>Granting a permit.\<close>

lemma claim_scopes_eq:
  assumes "claim_scopes is s = (cs, s')" "distinct is"
  shows "map cl_scope cs = is
    \<and> (\<forall>c\<in>set cs. cl_probe c = gateOpen s (ss_heap s (cl_scope c)))
    \<and> s' = s\<lparr>ss_heap := (\<lambda>j. if j \<in> set is then (ss_heap s j)\<lparr>sc_probing := sc_probing (ss_heap s j) \<or> gateOpen s (ss_heap s j),
            sc_refs := sc_refs (ss_heap s j) + 1\<rparr> else ss_heap s j)\<rparr>"
  using assms
proof (induction "is" arbitrary: s cs s')
  case (Cons i "is")
  let ?s1 = "upd_scope i (\<lambda>sc. sc\<lparr>sc_probing := sc_probing sc \<or> gateOpen s (ss_heap s i), sc_refs := sc_refs sc + 1\<rparr>) s"
  obtain cs1 where r: "claim_scopes is ?s1 = (cs1, s')"
    and cs: "cs = \<lparr>cl_scope = i, cl_epoch = sc_epoch (ss_heap s i), cl_probe = gateOpen s (ss_heap s i)\<rparr> # cs1"
    using Cons.prems(1) by (auto simp: Let_def split: prod.splits)
  have g: "gateOpen ?s1 sc = gateOpen s sc" for sc by (simp add: gateOpen_def storm_gates_def upd_scope_def)
  have h: "ss_heap ?s1 j = ss_heap s j" if "j \<in> set is" for j using that Cons.prems(2) by (auto simp: upd_scope_def)
  note IH = Cons.IH [OF r]
  have m: "map cl_scope cs1 = is" using IH Cons.prems(2) by simp
  have "set is = cl_scope ` set cs1" using m by (metis list.set_map)
  then have "\<forall>c\<in>set cs1. cl_probe c = gateOpen s (ss_heap s (cl_scope c))"
    using IH Cons.prems(2) h g by simp
  moreover note m
  moreover have "s' = s\<lparr>ss_heap := (\<lambda>j. if j \<in> set (i # is) then (ss_heap s j)\<lparr>sc_probing := sc_probing (ss_heap s j) \<or> gateOpen s (ss_heap s j),
            sc_refs := sc_refs (ss_heap s j) + 1\<rparr> else ss_heap s j)\<rparr>"
    using IH Cons.prems(2) g by (auto simp: upd_scope_def fun_eq_iff)
  ultimately show ?case using cs by simp
qed (simp add: fun_eq_iff)

lemma inv_grant:
  assumes inv: "storm_inv s ps q" and d: "distinct is" "set is \<subseteq> live_scopes s"
    and held: "\<forall>i\<in>set is. \<not> gateHeld s now (ss_heap s i)"
    and r: "claim_scopes is s = (cs, s')"
    and p: "pm_claims p = cs" "pm_generation p = ss_generation s'"
  shows "storm_inv s' (p # ps) q"
proof -
  note eq = claim_scopes_eq [OF r d(1)]
  have sel: "ss_opts s' = ss_opts s" "ss_scopes s' = ss_scopes s" "ss_next s' = ss_next s"
    "ss_generation s' = ss_generation s" "ss_queued s' = ss_queued s" "live_scopes s' = live_scopes s"
    using eq by (simp_all add: live_scopes_def)
  have heap: "ss_heap s' j = (if j \<in> set is then (ss_heap s j)\<lparr>sc_probing := sc_probing (ss_heap s j) \<or> gateOpen s (ss_heap s j),
            sc_refs := sc_refs (ss_heap s j) + 1\<rparr> else ss_heap s j)" for j using eq by simp
  have key: "sc_key (ss_heap s' j) = sc_key (ss_heap s j)" "sc_quota (ss_heap s' j) = sc_quota (ss_heap s j)"
    "sc_queued (ss_heap s' j) = sc_queued (ss_heap s j)" for j by (simp_all add: heap)
  have gates: "storm_gates s' (ss_heap s' j) = storm_gates s (ss_heap s j)" for j by (simp add: storm_gates_def key sel)
  have dist: "distinct (map cl_scope cs)" using eq d(1) by simp
  have sis: "set is = cl_scope ` set cs" using conjunct1 [OF eq] by (metis list.set_map)
  have probe: "\<forall>c\<in>set cs. cl_probe c = gateOpen s (ss_heap s (cl_scope c))" using eq by simp
  have scopes: "cl_scope c \<in> set is" if "c \<in> set cs" for c using sis that by simp
  have "map_ok s'" using inv by (simp add: storm_inv_def map_ok_def sel key)
  moreover have "queue_ok s' q" using inv by (simp add: storm_inv_def queue_ok_def sel)
  moreover have "permit_ok s' p"
  proof -
    have "cl_scope c < ss_next s \<and> cl_scope c \<in> live_scopes s \<and> (cl_probe c \<longrightarrow> storm_gates s (ss_heap s (cl_scope c)))"
      if c: "c \<in> set cs" for c
    proof -
      have l: "cl_scope c \<in> live_scopes s" using scopes [OF c] d(2) by auto
      then have "cl_scope c < ss_next s" using inv by (force simp: storm_inv_def map_ok_def live_scopes_def)
      moreover have "storm_gates s (ss_heap s (cl_scope c))" if "cl_probe c"
        using probe c that inv l by (auto simp: gateOpen_def storm_inv_def scope_ok_def storm_gates_def)
      ultimately show ?thesis using l by simp
    qed
    then show ?thesis using dist by (simp add: permit_ok_def p sel gates)
  qed
  moreover have "permit_ok s' p'" if "p' \<in> set ps" for p'
    using inv that by (simp add: storm_inv_def permit_ok_def sel gates)
  moreover have "scope_ok s' (p # ps) q i" if i: "i \<in> live_scopes s" for i
  proof -
    have ok: "scope_ok s ps q i" using inv i by (simp add: storm_inv_def)
    have "(\<exists>c\<in>set cs. cl_scope c = i) \<longleftrightarrow> i \<in> set is" using sis by auto
    then have "int (length (filter (\<lambda>c. cl_scope c = i) cs)) = (if i \<in> set is then 1 else 0)"
      using distinct_filter_scope [OF dist, of i "\<lambda>_. True"] by simp
    moreover have "(\<exists>c\<in>set cs. cl_scope c = i \<and> cl_probe c) \<longleftrightarrow> i \<in> set is \<and> gateOpen s (ss_heap s i)"
      using sis probe by auto
    then have "int (length (filter (\<lambda>c. cl_scope c = i \<and> cl_probe c) cs)) = (if i \<in> set is \<and> gateOpen s (ss_heap s i) then 1 else 0)"
      using distinct_filter_scope [OF dist, of i cl_probe] by simp
    moreover have "gateOpen s (ss_heap s i) \<Longrightarrow> i \<in> set is \<Longrightarrow> \<not> sc_probing (ss_heap s i)"
      using held by (auto simp: gateHeld_def)
    ultimately show ?thesis
      using ok by (auto simp: scope_ok_def key claims_on_def probes_on_def p heap)
  qed
  ultimately show ?thesis by (simp add: storm_inv_def sel)
qed


text \<open>Making room for scopes and creating them.\<close>

lemma distinct_snd_filter: "distinct (map snd xs) \<Longrightarrow> distinct (map snd (filter P xs))"
  by (induction xs) auto

lemma live_scopesD: "i \<in> live_scopes s \<Longrightarrow> \<exists>k. (k, i) \<in> set (ss_scopes s)"
  by (simp add: live_scopes_def image_iff) (metis prod.collapse)

lemma inv_evict:
  assumes inv: "storm_inv s ps q" and s': "s' = s\<lparr>ss_scopes := filter (\<lambda>e. \<not> evictable now keys s0 e) (ss_scopes s)\<rparr>"
    and same: "ss_heap s = ss_heap s0" "ss_opts s = ss_opts s0" and dist: "distinct (map snd (ss_scopes s))"
  shows "storm_inv s' ps q"
proof -
  have live: "live_scopes s' \<subseteq> live_scopes s" by (auto simp: s' live_scopes_def)
  have gone: "claims_on ps i = 0" if l: "i \<in> live_scopes s" and n: "i \<notin> live_scopes s'" for i
  proof -
    obtain k where k: "(k, i) \<in> set (ss_scopes s)" using live_scopesD [OF l] by blast
    then have "evictable now keys s0 (k, i)" using n by (force simp: s' live_scopes_def)
    then have "sc_refs (ss_heap s i) = 0" by (simp add: evictable_def Let_def same)
    then show ?thesis using inv l by (simp add: storm_inv_def scope_ok_def)
  qed
  have none: "cl_scope c \<noteq> i" if "claims_on ps i = 0" "p \<in> set ps" "c \<in> set (pm_claims p)" for c p i
  proof -
    let ?f = "\<lambda>p. int (length (filter (\<lambda>c. cl_scope c = i) (pm_claims p)))"
    have "\<forall>x\<in>set (map ?f ps). x = 0"
      using that(1) sum_list_nonneg_eq_0_iff [of "map ?f ps"] unfolding claims_on_def by fastforce
    then have "?f p = 0" using that(2) by simp
    then show ?thesis using that(3) by (auto simp: filter_empty_conv)
  qed
  have "map_ok s'"
  proof -
    have "length (ss_scopes s') \<le> length (ss_scopes s)" by (simp add: s')
    moreover have "int (length (ss_scopes s)) \<le> max 0 (so_MaxScopes (ss_opts s'))"
      using inv by (simp add: storm_inv_def map_ok_def s')
    ultimately have "int (length (ss_scopes s')) \<le> max 0 (so_MaxScopes (ss_opts s'))" by linarith
    then show ?thesis
      using inv dist by (auto simp: storm_inv_def map_ok_def s' distinct_map_filter)
  qed
  moreover have "scope_ok s' ps q i" if "i \<in> live_scopes s'" for i
    using inv live that by (auto simp: storm_inv_def scope_ok_def s')
  moreover have "permit_ok s' p" if p: "p \<in> set ps" for p
  proof -
    have pok: "permit_ok s p" using inv p by (simp add: storm_inv_def)
    have "cl_scope c \<in> live_scopes s'" if "c \<in> set (pm_claims p)" "pm_generation p = ss_generation s" for c
      using pok that gone none [OF _ p that(1)] by (auto simp: permit_ok_def)
    with pok live show ?thesis by (auto simp: permit_ok_def s' storm_gates_def)
  qed
  moreover have "queue_ok s' q" using inv by (simp add: storm_inv_def queue_ok_def s')
  ultimately show ?thesis by (simp add: storm_inv_def)
qed

lemma aput_absent: "k \<notin> set (map fst xs) \<Longrightarrow> aput k v xs = xs @ [(k, v)]"
  by (induction xs) auto

lemma permit_claim_less: "permit_ok s p \<Longrightarrow> c \<in> set (pm_claims p) \<Longrightarrow> cl_scope c < ss_next s"
  by (simp add: permit_ok_def)

lemma inv_new_scope:
  assumes inv: "storm_inv s ps q" and none: "map_of (ss_scopes s) key = None"
    and room: "int (length (ss_scopes s)) < so_MaxScopes (ss_opts s)"
  shows "storm_inv (s\<lparr>ss_heap := (ss_heap s)(ss_next s := new_scope key now),
      ss_scopes := aput key (ss_next s) (ss_scopes s), ss_next := ss_next s + 1\<rparr>) ps q" (is "storm_inv ?s1 ps q")
proof -
  let ?i = "ss_next s"
  have sc: "ss_scopes ?s1 = ss_scopes s @ [(key, ?i)]" using none by (simp add: aput_absent map_of_eq_None_iff)
  have live: "live_scopes ?s1 = insert ?i (live_scopes s)" unfolding live_scopes_def sc by simp
  have old: "i < ?i" if "i \<in> live_scopes s" for i
    using inv that by (force simp: storm_inv_def map_ok_def live_scopes_def)
  have "map_ok ?s1"
  proof -
    have "?i \<notin> snd ` set (ss_scopes s)" using old by (force simp: live_scopes_def)
    moreover have "key \<notin> fst ` set (ss_scopes s)" using none by (simp add: map_of_eq_None_iff)
    moreover have "\<forall>(k, i)\<in>set (ss_scopes s). i < ?i \<and> sc_key (ss_heap s i) = k"
      using inv by (simp add: storm_inv_def map_ok_def)
    ultimately show ?thesis using inv room
      unfolding map_ok_def sc by (auto simp: storm_inv_def map_ok_def new_scope_def)
  qed
  moreover have "scope_ok ?s1 ps q i" if "i \<in> live_scopes ?s1" for i
  proof (cases "i = ?i")
    case True
    have "cl_scope c \<noteq> ?i" if "p \<in> set ps" "c \<in> set (pm_claims p)" for p c
      using inv that permit_claim_less [of s p c] by (simp add: storm_inv_def)
    then have "\<forall>p\<in>set ps. filter (\<lambda>c. cl_scope c = ?i) (pm_claims p) = [] \<and> filter (\<lambda>c. cl_scope c = ?i \<and> cl_probe c) (pm_claims p) = []"
      by (simp add: filter_empty_conv)
    then have "claims_on ps ?i = 0" "probes_on ps ?i = 0"
      by (simp_all add: claims_on_def probes_on_def cong: map_cong)
    moreover have "waiters_on q ?i = 0"
      using inv by (force simp: storm_inv_def queue_ok_def waiters_on_def filter_empty_conv)
    ultimately show ?thesis using True by (simp add: scope_ok_def new_scope_def)
  next
    case False
    then have "i \<in> live_scopes s" using that live by blast
    then have "scope_ok s ps q i" using inv by (simp add: storm_inv_def)
    then show ?thesis using False by (simp add: scope_ok_def)
  qed
  moreover have "permit_ok ?s1 p" if "p \<in> set ps" for p
  proof -
    have pok: "permit_ok s p" using inv that by (simp add: storm_inv_def)
    have "cl_scope c \<noteq> ?i" if "c \<in> set (pm_claims p)" for c
      using permit_claim_less [OF pok that] by simp
    with pok show ?thesis unfolding permit_ok_def live by (auto simp: storm_gates_def)
  qed
  moreover have "queue_ok ?s1 q" using inv by (simp add: storm_inv_def queue_ok_def less_Suc_eq)
  ultimately show ?thesis by (simp add: storm_inv_def)
qed

lemma map_of_inj_snd:
  assumes "distinct (map snd xs)" "map_of xs k = Some i" "map_of xs k' = Some i" shows "k = k'"
proof -
  have "(k, i) \<in> set xs" "(k', i) \<in> set xs" using assms(2,3) by (auto dest: map_of_SomeD)
  moreover have "inj_on snd (set xs)" using assms(1) by (simp add: distinct_map)
  ultimately have "(k, i) = (k', i)" by (metis inj_onD snd_conv)
  then show ?thesis by simp
qed

lemma ensure_scopes_inv:
  assumes "storm_inv s ps q" "ensure_scopes now keys s = (is, s')" "distinct keys"
    and "int (length (ss_scopes s) + length (filter (\<lambda>k. map_of (ss_scopes s) k = None) keys)) \<le> so_MaxScopes (ss_opts s)"
  shows "storm_inv s' ps q \<and> set is \<subseteq> live_scopes s' \<and> distinct is \<and> live_scopes s \<subseteq> live_scopes s'
    \<and> map (map_of (ss_scopes s')) keys = map Some is \<and> (\<forall>k i. map_of (ss_scopes s) k = Some i \<longrightarrow> map_of (ss_scopes s') k = Some i)
    \<and> ss_opts s' = ss_opts s \<and> ss_generation s' = ss_generation s"
  using assms
proof (induction keys arbitrary: s "is" s')
  case (Cons key keys)
  show ?case
  proof (cases "map_of (ss_scopes s) key")
    case (Some i)
    obtain is1 where r: "ensure_scopes now keys s = (is1, s')" and i: "is = i # is1"
      using Cons.prems(2) Some by (auto split: prod.splits)
    note IH = Cons.IH [OF Cons.prems(1) r]
    have IH': "storm_inv s' ps q \<and> set is1 \<subseteq> live_scopes s' \<and> distinct is1 \<and> live_scopes s \<subseteq> live_scopes s'
      \<and> map (map_of (ss_scopes s')) keys = map Some is1 \<and> (\<forall>k i. map_of (ss_scopes s) k = Some i \<longrightarrow> map_of (ss_scopes s') k = Some i)
      \<and> ss_opts s' = ss_opts s \<and> ss_generation s' = ss_generation s"
      using IH Cons.prems Some by simp
    have m: "map_of (ss_scopes s') key = Some i" using IH' Some by blast
    have "i \<notin> set is1"
    proof
      assume "i \<in> set is1"
      then obtain k where k: "k \<in> set keys" "map_of (ss_scopes s') k = Some i"
        using IH' by (metis (no_types, lifting) image_iff list.set_map option.inject)
      have "distinct (map snd (ss_scopes s'))" using IH' by (simp add: storm_inv_def map_ok_def)
      then have "k = key" using k(2) m by (rule map_of_inj_snd)
      with k(1) Cons.prems(3) show False by simp
    qed
    moreover have "i \<in> live_scopes s'" using m by (force simp: live_scopes_def dest: map_of_SomeD)
    ultimately show ?thesis using IH' i m by simp
  next
    case None
    let ?i = "ss_next s"
    let ?s1 = "s\<lparr>ss_heap := (ss_heap s)(?i := new_scope key now), ss_scopes := aput key ?i (ss_scopes s), ss_next := ?i + 1\<rparr>"
    obtain is1 where r: "ensure_scopes now keys ?s1 = (is1, s')" and i: "is = ?i # is1"
      using Cons.prems(2) None by (auto split: prod.splits)
    have "int (length (ss_scopes s)) < so_MaxScopes (ss_opts s)" using Cons.prems(4) None by simp
    then have inv1: "storm_inv ?s1 ps q" by (rule inv_new_scope [OF Cons.prems(1) None])
    have sc: "ss_scopes ?s1 = ss_scopes s @ [(key, ?i)]" using None by (simp add: aput_absent map_of_eq_None_iff)
    have "filter (\<lambda>k. map_of (ss_scopes ?s1) k = None) keys = filter (\<lambda>k. map_of (ss_scopes s) k = None) keys"
      using Cons.prems(3) by (intro filter_cong refl) auto
    then have room: "int (length (ss_scopes ?s1) + length (filter (\<lambda>k. map_of (ss_scopes ?s1) k = None) keys)) \<le> so_MaxScopes (ss_opts ?s1)"
      using Cons.prems(4) None unfolding sc by simp
    note IH = Cons.IH [OF inv1 r _ room]
    have IH': "storm_inv s' ps q \<and> set is1 \<subseteq> live_scopes s' \<and> distinct is1 \<and> live_scopes ?s1 \<subseteq> live_scopes s'
      \<and> map (map_of (ss_scopes s')) keys = map Some is1 \<and> (\<forall>k i. map_of (ss_scopes ?s1) k = Some i \<longrightarrow> map_of (ss_scopes s') k = Some i)
      \<and> ss_opts s' = ss_opts ?s1 \<and> ss_generation s' = ss_generation ?s1"
      using IH Cons.prems(3) by simp
    have m: "map_of (ss_scopes s') key = Some ?i" using IH' by simp
    have "?i \<notin> set is1"
    proof
      assume "?i \<in> set is1"
      then obtain k where k: "k \<in> set keys" "map_of (ss_scopes s') k = Some ?i"
        using IH' by (metis (no_types, lifting) image_iff list.set_map option.inject)
      have "distinct (map snd (ss_scopes s'))" using IH' by (simp add: storm_inv_def map_ok_def)
      then have "k = key" using k(2) m by (rule map_of_inj_snd)
      with k(1) Cons.prems(3) show False by simp
    qed
    moreover have "?i \<in> live_scopes s'" using m by (force simp: live_scopes_def dest: map_of_SomeD)
    moreover have "live_scopes ?s1 = insert ?i (live_scopes s)" unfolding live_scopes_def sc by simp
    then have "live_scopes s \<subseteq> live_scopes s'" using IH' by blast
    moreover have "\<forall>k i. map_of (ss_scopes s) k = Some i \<longrightarrow> map_of (ss_scopes s') k = Some i"
    proof (intro allI impI)
      fix k j assume k: "map_of (ss_scopes s) k = Some j"
      then have "map_of (ss_scopes ?s1) k = Some j" using None by auto
      then show "map_of (ss_scopes s') k = Some j" using IH' by blast
    qed
    ultimately show ?thesis using IH' i m by simp
  qed
qed simp


lemma scope_keys_distinct: "distinct (scope_keys provider model s)"
  by (simp add: scope_keys_def provider_key_def)

lemma keeps_timer [simp]: "keeps sc (sc\<lparr>sc_timer := t\<rparr>)" "keeps sc (sc\<lparr>sc_lastActivity := x\<rparr>)"
  by (simp_all add: keeps_def scope_core_def)

lemma scopesFor_inv:
  assumes inv: "storm_inv s ps q" and r: "scopesFor provider model now s = (res, s')"
  shows "storm_inv s' ps q \<and> ss_generation s' = ss_generation s \<and> ss_opts s' = ss_opts s
    \<and> (\<forall>is. res = Inr is \<longrightarrow> set is \<subseteq> live_scopes s' \<and> distinct is
          \<and> (\<forall>i\<in>set is. sk_provider (sc_key (ss_heap s' i)) = provider))"
proof (cases "length provider > maxStormLabelBytes \<or> length model > maxStormLabelBytes")
  case True
  with assms show ?thesis by (auto simp: scopesFor_def)
next
  case False
  define keys where "keys = scope_keys provider model s"
  define needed where "needed = length (filter (\<lambda>k. map_of (ss_scopes s) k = None) keys)"
  define full where "full = (\<lambda>s :: stormState. int (length (ss_scopes s) + needed) > so_MaxScopes (ss_opts s))"
  define t where "t = upd_scopes (map snd (filter (evictable now keys s) (ss_scopes s))) (\<lambda>sc. sc\<lparr>sc_timer := stop (sc_timer sc)\<rparr>) s"
  define s1 where "s1 = (if full s then t\<lparr>ss_scopes := filter (\<lambda>e. \<not> evictable now keys s e) (ss_scopes s)\<rparr> else s)"
  have dist: "distinct (map snd (ss_scopes s))" using inv by (simp add: storm_inv_def map_ok_def)
  have fr: "frame {} s t"
    unfolding t_def by (intro frame_upd_scopes distinct_snd_filter dist) simp
  have inv_t: "storm_inv t ps q" by (rule inv_frame0 [OF inv fr])
  have keep: "k \<in> set keys \<Longrightarrow> map_of (filter (\<lambda>e. \<not> evictable now keys s e) xs) k = map_of xs k" for k xs
    by (induction xs) (auto simp: evictable_def Let_def)
  have ev: "evictable now keys t e = evictable now keys s e" if "e \<in> set (ss_scopes s)" for e
  proof -
    have "sc_refs (ss_heap t j) = sc_refs (ss_heap s j) \<and> sc_queued (ss_heap t j) = sc_queued (ss_heap s j)
        \<and> sc_active (ss_heap t j) = sc_active (ss_heap s j) \<and> sc_quota (ss_heap t j) = sc_quota (ss_heap s j)
        \<and> sc_lastActivity (ss_heap t j) = sc_lastActivity (ss_heap s j)" for j
      unfolding t_def using distinct_snd_filter [OF dist] by (simp add: upd_scopes_heap)
    then show ?thesis by (simp add: evictable_def Let_def) (simp add: t_def)
  qed
  have t_sc: "ss_scopes t = ss_scopes s" "ss_opts t = ss_opts s" "ss_generation t = ss_generation s" by (simp_all add: t_def)
  have "filter (\<lambda>e. \<not> evictable now keys s e) (ss_scopes s) = filter (\<lambda>e. \<not> evictable now keys t e) (ss_scopes t)"
    unfolding t_sc by (rule filter_cong) (simp_all add: ev)
  then have inv1: "storm_inv s1 ps q"
    using inv inv_evict [OF inv_t _ refl refl, of _ now keys] dist by (simp add: s1_def t_sc)
  have g1: "ss_generation s1 = ss_generation s" "ss_opts s1 = ss_opts s" by (simp_all add: s1_def t_sc)
  have m1: "map_of (ss_scopes s1) k = map_of (ss_scopes s) k" if "k \<in> set keys" for k
    using keep [OF that] by (simp add: s1_def)
  have res: "(res, s') = (if full s1 then (Inl ErrStormCapacity, s1)
      else case ensure_scopes now keys s1 of (is, s2) \<Rightarrow> (Inr is, s2))"
    using r unfolding scopesFor_def Let_def s1_def t_def full_def needed_def keys_def by (simp only: False if_False)
  show ?thesis
  proof (cases "full s1")
    case True
    with res inv1 g1 show ?thesis by simp
  next
    case nf: False
    obtain is' s2 where e: "ensure_scopes now keys s1 = (is', s2)" by (cases "ensure_scopes now keys s1")
    have "filter (\<lambda>k. map_of (ss_scopes s1) k = None) keys = filter (\<lambda>k. map_of (ss_scopes s) k = None) keys"
      by (rule filter_cong) (simp_all add: m1)
    then have room: "int (length (ss_scopes s1) + length (filter (\<lambda>k. map_of (ss_scopes s1) k = None) keys)) \<le> so_MaxScopes (ss_opts s1)"
      using nf by (simp add: full_def needed_def)
    have en: "storm_inv s2 ps q \<and> set is' \<subseteq> live_scopes s2 \<and> distinct is'
        \<and> map (map_of (ss_scopes s2)) keys = map Some is' \<and> ss_opts s2 = ss_opts s1 \<and> ss_generation s2 = ss_generation s1"
      using ensure_scopes_inv [OF inv1 e _ room] scope_keys_distinct by (simp add: keys_def)
    have "sk_provider (sc_key (ss_heap s2 i)) = provider" if "i \<in> set is'" for i
    proof -
      have "Some i \<in> map_of (ss_scopes s2) ` set keys" using en that by (metis image_eqI list.set_map)
      then obtain k where k: "k \<in> set keys" "(k, i) \<in> set (ss_scopes s2)" by (metis imageE map_of_SomeD)
      then have "sc_key (ss_heap s2 i) = k" using en by (auto simp: storm_inv_def map_ok_def)
      with k(1) show ?thesis by (auto simp: keys_def scope_keys_def provider_key_def split: if_splits)
    qed
    with en g1 nf res e show ?thesis by simp
  qed
qed


text \<open>One round of \<^verbatim>\<open>waitStorm\<close>, and the other operations.\<close>

definition requeued :: "wait_local \<Rightarrow> nat list list \<Rightarrow> nat list list" where
  "requeued l q = (case wl_queued l of None \<Rightarrow> q | Some is \<Rightarrow> remove1 is q)"

definition outstanding :: "wait_result \<Rightarrow> StormPermit list \<Rightarrow> StormPermit list" where
  "outstanding res ps = (case res of WaitGranted p \<Rightarrow> p # ps | _ \<Rightarrow> ps)"

definition parked :: "wait_local \<Rightarrow> nat list list \<Rightarrow> nat list list" where
  "parked l q = (case wl_queued l of None \<Rightarrow> q | Some is \<Rightarrow> is # q)"

lemma outstanding_simps [simp]:
  "outstanding (WaitErr e) ps = ps" "outstanding WaitDisabled ps = ps" "outstanding WaitReady ps = ps"
  "outstanding WaitParked ps = ps" "outstanding (WaitGranted p) ps = p # ps"
  by (simp_all add: outstanding_def)

lemma parked_simps [simp]:
  "parked (l\<lparr>wl_queued := None\<rparr>) q = q" "parked (l\<lparr>wl_queued := None, wl_activity := n\<rparr>) q = q"
  "wl_queued l = None \<Longrightarrow> parked (l\<lparr>wl_activity := n\<rparr>) q = q"
  "parked (l\<lparr>wl_queued := Some is, wl_started := t\<rparr>) q = is # q"
  by (simp_all add: parked_def)

lemma wait_admit_inv:
  assumes inv: "storm_inv s ps q" and d: "set is \<subseteq> live_scopes s" "distinct is" and l: "wl_queued l = None"
    and r: "wait_admit reserve now is l s = (res, l', s')"
  shows "storm_inv s' (outstanding res ps) (parked l' q)"
proof -
  define s2 where "s2 = (if wl_activity l \<noteq> ss_generation s then upd_scopes is (\<lambda>sc. sc\<lparr>sc_lastActivity := now\<rparr>) s else s)"
  have fr: "frame {} s s2" unfolding s2_def by (intro frame_if frame_upd_scopes d) simp_all
  have inv2: "storm_inv s2 ps q" by (rule inv_frame0 [OF inv fr])
  have d2: "set is \<subseteq> live_scopes s2" using d frame_live [OF fr] by simp
  obtain cs s3 where cl: "claim_scopes is s2 = (cs, s3)" by (cases "claim_scopes is s2")
  have r2: "(res, l', s') = (let l2 = l\<lparr>wl_activity := ss_generation s2\<rparr> in
      if \<not> (\<exists>i\<in>set is. gateHeld s2 now (ss_heap s2 i)) then
        (if \<not> reserve then (WaitReady, l2, s2)
         else (WaitGranted \<lparr>pm_state = True, pm_generation = ss_generation s3, pm_claims = cs, pm_once = False, pm_active = False\<rparr>, l2, s3))
      else if ss_queued s2 \<ge> so_MaxQueue (ss_opts s2) then (WaitErr ErrStormQueueFull, l2, s2)
      else (WaitParked, l2\<lparr>wl_queued := Some is, wl_started := (if IsZero (wl_started l2) then now else wl_started l2)\<rparr>,
        upd_scopes is (\<lambda>sc. sc\<lparr>sc_queued := sc_queued sc + 1\<rparr>) (s2\<lparr>ss_queued := ss_queued s2 + 1\<rparr>)))"
    using r cl unfolding wait_admit_def Let_def s2_def [symmetric] by (simp only: prod.case)
  show ?thesis
  proof (cases "\<exists>i\<in>set is. gateHeld s2 now (ss_heap s2 i)")
    case nb: False
    then have "\<forall>i\<in>set is. \<not> gateHeld s2 now (ss_heap s2 i)" by blast
    note grant = inv_grant [OF inv2 d(2) d2 this cl]
    show ?thesis
    proof (cases reserve)
      case True
      with r2 nb have "res = WaitGranted \<lparr>pm_state = True, pm_generation = ss_generation s3, pm_claims = cs, pm_once = False, pm_active = False\<rparr>"
        "l' = l\<lparr>wl_activity := ss_generation s2\<rparr>" "s' = s3" by (simp_all add: Let_def)
      then show ?thesis using grant l by simp
    next
      case False
      with r2 nb have "res = WaitReady" "l' = l\<lparr>wl_activity := ss_generation s2\<rparr>" "s' = s2" by (simp_all add: Let_def)
      then show ?thesis using inv2 l by simp
    qed
  next
    case b: True
    show ?thesis
    proof (cases "ss_queued s2 \<ge> so_MaxQueue (ss_opts s2)")
      case True
      with r2 b have "res = WaitErr ErrStormQueueFull" "l' = l\<lparr>wl_activity := ss_generation s2\<rparr>" "s' = s2" by (simp_all add: Let_def)
      then show ?thesis using inv2 l by simp
    next
      case False
      with r2 b have "res = WaitParked" "wl_queued l' = Some is"
        "s' = upd_scopes is (\<lambda>sc. sc\<lparr>sc_queued := sc_queued sc + 1\<rparr>) (s2\<lparr>ss_queued := ss_queued s2 + 1\<rparr>)"
        by (simp_all add: Let_def)
      then show ?thesis using inv_park [OF inv2 d(2) d2] by (simp add: parked_def)
    qed
  qed
qed

lemma wait_iter_inv:
  assumes inv: "storm_inv s ps q" and l: "\<forall>is. wl_queued l = Some is \<longrightarrow> is \<in> set q"
    and r: "wait_iter reserve cancelled provider model now l s = (res, l', s')"
  shows "storm_inv s' (outstanding res ps) (parked l' (requeued l q))"
proof -
  define s0 where "s0 = (case wl_queued l of None \<Rightarrow> s | Some q \<Rightarrow> unqueue q s)"
  let ?q = "requeued l q" and ?l = "l\<lparr>wl_queued := None\<rparr>"
  have inv0: "storm_inv s0 ps ?q"
    using inv l by (auto simp: s0_def requeued_def inv_unqueue split: option.splits)
  obtain sres s1 where sf: "scopesFor provider model now s0 = (sres, s1)" by (cases "scopesFor provider model now s0")
  note sf1 = scopesFor_inv [OF inv0 sf]
  consider "(s' = s0 \<or> s' = s1) \<and> l' = ?l \<and> (res = WaitDisabled \<or> (\<exists>e. res = WaitErr e))"
    | "is" where "sres = Inr is" "wait_admit reserve now is ?l s1 = (res, l', s')"
    using r unfolding wait_iter_def Let_def s0_def [symmetric] sf prod.case
    by (cases sres) (auto split: if_splits)
  then show ?thesis
  proof cases
    case 1
    then show ?thesis using inv0 sf1 by auto
  next
    case 2
    then show ?thesis using wait_admit_inv [of s1 ps ?q "is" ?l] sf1 by simp
  qed
qed

lemma configure_inv:
  assumes inv: "storm_inv s ps q"
  shows "storm_inv (storm_configure opts s) ps q"
proof (cases "ss_kick s \<noteq> None \<and> ss_opts s = opts")
  case True
  then show ?thesis using inv by (simp add: storm_configure_def)
next
  case False
  let ?s1 = "upd_scopes (map snd (ss_scopes s)) (\<lambda>sc. sc\<lparr>sc_timer := stop (sc_timer sc)\<rparr>) s"
  have eq: "storm_configure opts s = storm_wake (?s1\<lparr>ss_opts := opts, ss_scopes := [], ss_generation := ss_generation s + 1\<rparr>)"
    using False by (auto simp: storm_configure_def Let_def)
  have "permit_ok (storm_configure opts s) p" if "p \<in> set ps" for p
    using inv that by (auto simp: eq storm_inv_def permit_ok_def storm_wake_def live_scopes_def)
  then show ?thesis
    using inv by (simp add: storm_inv_def map_ok_def live_scopes_def queue_ok_def) (simp add: eq storm_wake_def)
qed

lemma releaseQuota_inv:
  assumes "storm_inv s ps q" "ReleaseQuota provider s = (b, s')"
  shows "storm_inv s' ps q"
proof -
  have "keeps sc (let sc = sc\<lparr>sc_quota := False, sc_recovered := 0\<rparr> in if \<not> sc_active sc then clearCooldown sc else sc)" for sc
    by (simp add: keeps_def scope_core_def clearCooldown_def Let_def)
  then have "frame {} s s'"
    using assms(2) by (auto simp: ReleaseQuota_def split: option.splits if_splits intro!: frame_upd)
  then show ?thesis by (rule inv_frame0 [OF assms(1)])
qed



section \<open>The gate as a state machine\<close>

record stormSys =
  sy_state :: stormState
  sy_permits :: "StormPermit list"
  sy_waiting :: "nat list list"

text \<open>
  Steps: a round of a waiting call (a new one, or one that is parked and wakes up), a parked
  call that gives up, the settlement of an outstanding permit in each of its forms, the
  operator's release of a quota gate, and a reconfiguration. \<open>sy_permits\<close> are the permits not
  yet settled.
\<close>

inductive storm_step :: "stormSys \<Rightarrow> stormSys \<Rightarrow> bool" where
  wait: "\<lbrakk> \<forall>is. wl_queued l = Some is \<longrightarrow> is \<in> set (sy_waiting y);
      wait_iter reserve cancelled provider model now l (sy_state y) = (res, l', s') \<rbrakk>
    \<Longrightarrow> storm_step y (y\<lparr>sy_state := s', sy_permits := outstanding res (sy_permits y),
                        sy_waiting := parked l' (requeued l (sy_waiting y))\<rparr>)"
| leave: "is \<in> set (sy_waiting y)
    \<Longrightarrow> storm_step y (y\<lparr>sy_state := unqueue is (sy_state y), sy_waiting := remove1 is (sy_waiting y)\<rparr>)"
| observe: "\<lbrakk> p \<in> set (sy_permits y); settle ob failed reason ra obs now rnds p (sy_state y) = (a, obs', s') \<rbrakk>
    \<Longrightarrow> storm_step y (y\<lparr>sy_state := s', sy_permits := remove1 p (sy_permits y)\<rparr>)"
| quota: "p \<in> set (sy_permits y)
    \<Longrightarrow> storm_step y (y\<lparr>sy_state := settleQuota reason ra now rnds p (sy_state y), sy_permits := remove1 p (sy_permits y)\<rparr>)"
| release: "ReleaseQuota provider (sy_state y) = (b, s') \<Longrightarrow> storm_step y (y\<lparr>sy_state := s'\<rparr>)"
| configure: "storm_step y (y\<lparr>sy_state := storm_configure opts (sy_state y)\<rparr>)"

definition no_options :: StormOptions where
  "no_options = \<lparr>so_PolicyKey = [], so_Enabled = False, so_ProviderEnabled = False, so_ModelEnabled = False,
     so_Window = 0, so_MinSamples = 0, so_ErrorPercent = 0, so_InitialBackoff = 0, so_MaxBackoff = 0,
     so_BackoffMultiplier = 0, so_JitterPercent = 0, so_RecoverySuccesses = 0, so_MaxQueue = 0, so_MaxScopes = 0,
     so_MaxWait = 0, so_QuotaEnabled = False, so_QuotaRecoverySuccesses = 0\<rparr>"

definition zero_storms :: stormState where
  "zero_storms = \<lparr>ss_opts = no_options, ss_scopes = [], ss_kick = None, ss_generation = 0, ss_queued = 0,
     ss_heap = (\<lambda>_. new_scope (provider_key []) 0), ss_next = 0\<rparr>"

inductive storm_reach :: "stormSys \<Rightarrow> bool" where
  init: "storm_reach \<lparr>sy_state = storm_configure opts zero_storms, sy_permits = [], sy_waiting = []\<rparr>"
| step: "storm_reach y \<Longrightarrow> storm_step y y' \<Longrightarrow> storm_reach y'"

lemma zero_storms_inv: "storm_inv zero_storms [] []"
  by (simp add: storm_inv_def zero_storms_def map_ok_def live_scopes_def queue_ok_def no_options_def)

lemma storm_step_inv:
  "storm_step y y' \<Longrightarrow> storm_inv (sy_state y) (sy_permits y) (sy_waiting y)
     \<Longrightarrow> storm_inv (sy_state y') (sy_permits y') (sy_waiting y')"
proof (induction rule: storm_step.induct)
  case (wait l y reserve cancelled provider model now res l' s')
  then show ?case by (simp add: wait_iter_inv)
qed (simp_all add: inv_unqueue inv_settle inv_settleQuota releaseQuota_inv configure_inv)

lemma storm_reach_inv: "storm_reach y \<Longrightarrow> storm_inv (sy_state y) (sy_permits y) (sy_waiting y)"
proof (induction rule: storm_reach.induct)
  case (init opts)
  show ?case by (simp add: configure_inv zero_storms_inv)
qed (rule storm_step_inv)


section \<open>The operator's view\<close>

record StormStatus =
  sst_Provider :: string
  sst_Model :: string
  sst_Scope :: string
  sst_State :: string
  sst_Reason :: string
  sst_Quota :: bool
  sst_ErrorPercent :: rat
  sst_Failures :: int
  sst_ErrorRequests :: int
  sst_Samples :: int
  sst_WindowMs :: int
  sst_Queued :: int
  sst_RetryAt :: time
  sst_RecoverySuccesses :: int
  sst_RecoveryRequired :: int
  sst_ActiveModels :: int
  sst_AffectedModels :: int
  sst_AffectedModelPercent :: rat

fun snapshot_counts :: "time \<Rightarrow> (stormKey \<times> nat) list \<Rightarrow> stormState \<Rightarrow> (string \<Rightarrow> int \<times> int) \<times> stormState" where
  "snapshot_counts now [] s = (\<lambda>_. (0, 0), s)"
| "snapshot_counts now ((key, i) # es) s =
     (case modelFold now (ss_opts s) (ss_heap s i) of
        (isActive, isAffected, sc) \<Rightarrow>
          (case snapshot_counts now es (upd_scope i (\<lambda>_. sc) s) of
             (counts, s') \<Rightarrow>
               (if isActive
                then (counts(sk_provider key := (case counts (sk_provider key) of
                        (a, f) \<Rightarrow> (a + 1, if isAffected then f + 1 else f))), s')
                else (counts, s'))))"

definition storm_row :: "time \<Rightarrow> StormOptions \<Rightarrow> (string \<Rightarrow> int \<times> int) \<Rightarrow> stormScope \<Rightarrow> StormStatus \<times> stormScope" where
  "storm_row now opts counts scope0 =
     (case totals now (so_Window opts) scope0 of
        (samples, failures, scope) \<Rightarrow>
          let (active, affected) = counts (sk_provider (sc_key scope)); model = sk_modelScope (sc_key scope)
          in (\<lparr>sst_Provider = sk_provider (sc_key scope), sst_Model = sk_model (sc_key scope),
               sst_Scope = (if model then ''model'' else ''provider''),
               sst_State = (if sc_probing scope \<or> \<not> now < sc_retryAt scope then ''half_open'' else ''open''),
               sst_Reason = sc_reason scope, sst_Quota = sc_quota scope,
               sst_ErrorPercent = (if samples > 0 then 100 * of_int failures / of_int samples else 0),
               sst_Failures = failures, sst_ErrorRequests = sc_cachedErrorRequests scope, sst_Samples = samples,
               sst_WindowMs = so_Window opts div millisecond, sst_Queued = sc_queued scope, sst_RetryAt = sc_retryAt scope,
               sst_RecoverySuccesses = sc_recovered scope,
               sst_RecoveryRequired = (if sc_quota scope \<and> \<not> sc_active scope then so_QuotaRecoverySuccesses opts
                                       else so_RecoverySuccesses opts),
               sst_ActiveModels = (if model then 0 else active), sst_AffectedModels = (if model then 0 else affected),
               sst_AffectedModelPercent = (if \<not> model \<and> active > 0 then 100 * of_int affected / of_int active else 0)\<rparr>, scope))"

fun snapshot_rows :: "time \<Rightarrow> (string \<Rightarrow> int \<times> int) \<Rightarrow> (stormKey \<times> nat) list \<Rightarrow> stormState \<Rightarrow> StormStatus list \<times> stormState" where
  "snapshot_rows now counts [] s = ([], s)"
| "snapshot_rows now counts ((key, i) # es) s =
     (let scope = ss_heap s i
      in if \<not> sc_quota scope \<and> (\<not> sc_active scope \<or> \<not> storm_gates s scope) then snapshot_rows now counts es s
         else case storm_row now (ss_opts s) counts scope of
           (row, sc) \<Rightarrow> (case snapshot_rows now counts es (upd_scope i (\<lambda>_. sc) s) of (rows, s') \<Rightarrow> (row # rows, s')))"

definition StormSnapshot :: "time \<Rightarrow> stormState \<Rightarrow> StormStatus list \<times> stormState" where
  "StormSnapshot now s =
     (case snapshot_counts now (ss_scopes s) s of
        (counts, s1) \<Rightarrow>
          (case snapshot_rows now counts (ss_scopes s1) s1 of
             (rows, s2) \<Rightarrow> (sort_key (\<lambda>r. (sst_Provider r, sst_Scope r \<noteq> ''provider'', sst_Model r)) rows, s2)))"

lemma frame_snapshot_counts: "snapshot_counts now es s = (c, s') \<Longrightarrow> frame {} s s'"
proof (induction es arbitrary: s c s')
  case (Cons e es)
  obtain key i where e: "e = (key, i)" by (cases e)
  obtain x y sc where m: "modelFold now (ss_opts s) (ss_heap s i) = (x, y, sc)" by (metis prod_cases3)
  have k: "keeps (ss_heap s i) sc"
    using m by (auto simp: modelFold_def dest: keeps_threshold split: if_splits prod.splits)
  obtain c' where "snapshot_counts now es (upd_scope i (\<lambda>_. sc) s) = (c', s')"
    using Cons.prems m by (auto simp: e split: prod.splits if_splits)
  from frame_trans0 [OF frame_upd Cons.IH [OF this]] k show ?case by simp
qed simp

lemma frame_snapshot_rows: "snapshot_rows now counts es s = (rows, s') \<Longrightarrow> frame {} s s'"
proof (induction es arbitrary: s rows s')
  case (Cons e es)
  obtain key i where e: "e = (key, i)" by (cases e)
  obtain row sc where m: "storm_row now (ss_opts s) counts (ss_heap s i) = (row, sc)"
    by (cases "storm_row now (ss_opts s) counts (ss_heap s i)")
  have k: "keeps (ss_heap s i) sc"
    using m keeps_totals [of "ss_heap s i" now "so_Window (ss_opts s)"]
    by (auto simp: storm_row_def Let_def split: prod.splits)
  show ?case
  proof (cases "\<not> sc_quota (ss_heap s i) \<and> (\<not> sc_active (ss_heap s i) \<or> \<not> storm_gates s (ss_heap s i))")
    case True
    with Cons show ?thesis by (auto simp: e Let_def)
  next
    case False
    obtain rows' where "snapshot_rows now counts es (upd_scope i (\<lambda>_. sc) s) = (rows', s')"
      using Cons.prems m False by (auto simp: e Let_def split: prod.splits if_splits)
    from frame_trans0 [OF frame_upd Cons.IH [OF this]] k show ?thesis by simp
  qed
qed simp



section \<open>Properties\<close>

text \<open>A concrete run for the witnesses: one provider and model, one granted send.\<close>

definition demo_opts :: StormOptions where
  "demo_opts = no_options\<lparr>so_Enabled := True, so_ProviderEnabled := True, so_ModelEnabled := True, so_Window := 64,
     so_MinSamples := 1, so_ErrorPercent := 50, so_InitialBackoff := 100, so_MaxBackoff := 1000, so_BackoffMultiplier := 2,
     so_RecoverySuccesses := 1, so_MaxQueue := 10, so_MaxScopes := 4, so_QuotaEnabled := True, so_QuotaRecoverySuccesses := 1\<rparr>"

definition demo_start :: stormSys where
  "demo_start = \<lparr>sy_state = storm_configure demo_opts zero_storms, sy_permits = [], sy_waiting = []\<rparr>"

definition demo_local :: wait_local where
  "demo_local = \<lparr>wl_queued = None, wl_started = 0, wl_activity = 0\<rparr>"

definition demo_time :: time where
  "demo_time = 62135596800 * second + 640"

definition send_once :: "time \<Rightarrow> stormSys \<Rightarrow> stormSys" where
  "send_once now y = (case wait_iter True False ''p'' ''m'' now demo_local (sy_state y) of
     (res, l', s') \<Rightarrow> y\<lparr>sy_state := s', sy_permits := outstanding res (sy_permits y),
                        sy_waiting := parked l' (requeued demo_local (sy_waiting y))\<rparr>)"

definition fail_quota :: "time \<Rightarrow> stormSys \<Rightarrow> stormSys" where
  "fail_quota now y = y\<lparr>sy_state := settleQuota ''quota'' 0 now [] (hd (sy_permits y)) (sy_state y),
                        sy_permits := remove1 (hd (sy_permits y)) (sy_permits y)\<rparr>"

lemma send_once_reach: "storm_reach y \<Longrightarrow> storm_reach (send_once now y)"
proof -
  assume y: "storm_reach y"
  obtain res l' s' where w: "wait_iter True False ''p'' ''m'' now demo_local (sy_state y) = (res, l', s')"
    by (metis prod_cases3)
  have "storm_step y (send_once now y)"
    using storm_step.wait [OF _ w] by (simp add: send_once_def w) (simp add: demo_local_def)
  with y show ?thesis by (rule storm_reach.step)
qed

lemma fail_quota_reach: "storm_reach y \<Longrightarrow> sy_permits y \<noteq> [] \<Longrightarrow> storm_reach (fail_quota now y)"
  unfolding fail_quota_def by (erule storm_reach.step) (auto intro: storm_step.quota)

lemma demo_start_reach: "storm_reach demo_start"
  unfolding demo_start_def by (rule storm_reach.init)

text \<open>
  C18. Ownership of an outage gate, under every interleaving of sends, settlements, operator
  releases and reconfigurations: for each scope of the current configuration there is exactly
  one outstanding probe while its probe flag is set and none otherwise, its reference count is
  the number of outstanding claims on it, its queue count the number of callers parked on it;
  the scope map respects its bound and the global queue count is the number of parked callers.
\<close>

theorem storm_ownership:
  assumes "storm_reach y" "(key, i) \<in> set (ss_scopes (sy_state y))"
  shows "probes_on (sy_permits y) i = (if sc_probing (ss_heap (sy_state y) i) then 1 else 0)
    \<and> sc_refs (ss_heap (sy_state y) i) = claims_on (sy_permits y) i
    \<and> sc_queued (ss_heap (sy_state y) i) = waiters_on (sy_waiting y) i
    \<and> sc_key (ss_heap (sy_state y) i) = key
    \<and> int (length (ss_scopes (sy_state y))) \<le> max 0 (so_MaxScopes (ss_opts (sy_state y)))
    \<and> ss_queued (sy_state y) = int (length (sy_waiting y))"
proof -
  have inv: "storm_inv (sy_state y) (sy_permits y) (sy_waiting y)" by (rule storm_reach_inv) fact
  have "i \<in> live_scopes (sy_state y)" using assms(2) by (force simp: live_scopes_def)
  then have "scope_ok (sy_state y) (sy_permits y) (sy_waiting y) i" using inv by (simp add: storm_inv_def)
  then show ?thesis
    using inv assms(2) by (auto simp: storm_inv_def scope_ok_def map_ok_def queue_ok_def)
qed

theorem storm_ownership_witness:
  "storm_reach (send_once demo_time demo_start)
   \<and> sc_refs (ss_heap (sy_state (send_once demo_time demo_start)) 0) = 1"
proof -
  have r: "storm_reach (send_once demo_time demo_start)" by (rule send_once_reach [OF demo_start_reach])
  have m: "ss_scopes (sy_state (send_once demo_time demo_start)) =
      [(\<lparr>sk_provider = ''p'', sk_model = ''m'', sk_modelScope = True\<rparr>, 0), (provider_key ''p'', 1)]" by code_simp
  have c: "claims_on (sy_permits (send_once demo_time demo_start)) 0 = 1" by code_simp
  from storm_ownership [OF r, of "\<lparr>sk_provider = ''p'', sk_model = ''m'', sk_modelScope = True\<rparr>" 0] r m c show ?thesis by simp
qed

lemma scopesFor_not_queueFull: "scopesFor provider model now s = (Inl e, s') \<Longrightarrow> e = ErrStormCapacity"
  by (auto simp: scopesFor_def Let_def split: if_splits prod.splits)

lemma wait_admit_blocked:
  assumes "wait_admit reserve now is l s = (res, l', s')" "res = WaitParked \<or> res = WaitErr ErrStormQueueFull" "distinct is"
  shows "(\<exists>i\<in>set is. gateHeld s now (ss_heap s i)) \<and> live_scopes s' = live_scopes s
    \<and> (\<forall>j. sc_retryAt (ss_heap s' j) = sc_retryAt (ss_heap s j) \<and> sc_key (ss_heap s' j) = sc_key (ss_heap s j)
          \<and> sc_active (ss_heap s' j) = sc_active (ss_heap s j) \<and> sc_quota (ss_heap s' j) = sc_quota (ss_heap s j)
          \<and> sc_probing (ss_heap s' j) = sc_probing (ss_heap s j))"
proof -
  define s2 where "s2 = (if wl_activity l \<noteq> ss_generation s then upd_scopes is (\<lambda>sc. sc\<lparr>sc_lastActivity := now\<rparr>) s else s)"
  have h2: "sc_retryAt (ss_heap s2 j) = sc_retryAt (ss_heap s j) \<and> sc_key (ss_heap s2 j) = sc_key (ss_heap s j)
      \<and> sc_active (ss_heap s2 j) = sc_active (ss_heap s j) \<and> sc_quota (ss_heap s2 j) = sc_quota (ss_heap s j)
      \<and> sc_probing (ss_heap s2 j) = sc_probing (ss_heap s j)" for j
    using assms(3) by (simp add: s2_def upd_scopes_heap)
  have l2: "live_scopes s2 = live_scopes s" "ss_opts s2 = ss_opts s" by (simp_all add: s2_def)
  have g: "gateHeld s2 now (ss_heap s2 j) = gateHeld s now (ss_heap s j)" for j
    using h2 [of j] l2 by (simp add: gateHeld_def gateOpen_def storm_gates_def)
  have r: "(\<exists>i\<in>set is. gateHeld s2 now (ss_heap s2 i)) \<and> (s' = s2 \<or>
      s' = upd_scopes is (\<lambda>sc. sc\<lparr>sc_queued := sc_queued sc + 1\<rparr>) (s2\<lparr>ss_queued := ss_queued s2 + 1\<rparr>))"
    using assms(1,2) unfolding wait_admit_def Let_def s2_def [symmetric] by (auto split: if_splits prod.splits)
  have h': "sc_retryAt (ss_heap s' j) = sc_retryAt (ss_heap s2 j) \<and> sc_key (ss_heap s' j) = sc_key (ss_heap s2 j)
      \<and> sc_active (ss_heap s' j) = sc_active (ss_heap s2 j) \<and> sc_quota (ss_heap s' j) = sc_quota (ss_heap s2 j)
      \<and> sc_probing (ss_heap s' j) = sc_probing (ss_heap s2 j)" for j
    using conjunct2 [OF r] assms(3) by (elim disjE) (simp_all add: upd_scopes_heap)
  have "live_scopes s' = live_scopes s2" using conjunct2 [OF r] by (elim disjE) (simp_all add: live_scopes_def)
  moreover have "\<exists>i\<in>set is. gateHeld s now (ss_heap s i)" using conjunct1 [OF r] by (simp add: g)
  ultimately show ?thesis using h2 h' l2 by simp
qed

text \<open>
  C19. A gate is never stranded: once every permit is settled, a send is held back only by a
  recovery delay that is still running on an open gate of its own provider or model. So when
  the delay is over the next send goes through, whatever failed, panicked or was
  reconfigured before.
\<close>

theorem storm_gate_never_stranded:
  assumes "storm_reach y" "sy_permits y = []"
    and "\<forall>is. wl_queued l = Some is \<longrightarrow> is \<in> set (sy_waiting y)"
    and "wait_iter reserve cancelled provider model now l (sy_state y) = (res, l', s')"
    and "res = WaitParked \<or> res = WaitErr ErrStormQueueFull"
  shows "\<exists>i\<in>live_scopes s'. now < sc_retryAt (ss_heap s' i) \<and> (sc_active (ss_heap s' i) \<or> sc_quota (ss_heap s' i))
    \<and> sk_provider (sc_key (ss_heap s' i)) = provider"
proof -
  note inv = storm_reach_inv [OF assms(1), unfolded assms(2)]
  have inv': "storm_inv s' [] (parked l' (requeued l (sy_waiting y)))"
    using wait_iter_inv [OF inv assms(3,4)] assms(5) by auto
  define s0 where "s0 = (case wl_queued l of None \<Rightarrow> sy_state y | Some q \<Rightarrow> unqueue q (sy_state y))"
  have inv0: "storm_inv s0 [] (requeued l (sy_waiting y))"
    using inv assms(3) by (auto simp: s0_def requeued_def inv_unqueue split: option.splits)
  obtain sres s1 where sf: "scopesFor provider model now s0 = (sres, s1)" by (cases "scopesFor provider model now s0")
  obtain "is" where sres: "sres = Inr is" and ad: "wait_admit reserve now is (l\<lparr>wl_queued := None\<rparr>) s1 = (res, l', s')"
    using assms(4,5) unfolding wait_iter_def Let_def s0_def [symmetric] sf prod.case
    using sf by (cases sres) (auto split: if_splits dest: scopesFor_not_queueFull)
  note sf1 = scopesFor_inv [OF inv0 sf]
  have d: "set is \<subseteq> live_scopes s1" "distinct is" and pr: "\<forall>i\<in>set is. sk_provider (sc_key (ss_heap s1 i)) = provider"
    using sf1 sres by auto
  note bl = wait_admit_blocked [OF ad assms(5) d(2)]
  then obtain i where i: "i \<in> set is" "gateHeld s1 now (ss_heap s1 i)" by blast
  have "scope_ok s1 [] (requeued l (sy_waiting y)) i" using sf1 i(1) d(1) by (auto simp: storm_inv_def)
  then have "\<not> sc_probing (ss_heap s1 i)" by (auto simp: scope_ok_def probes_on_def split: if_splits)
  then have "now < sc_retryAt (ss_heap s1 i)" "sc_active (ss_heap s1 i) \<or> sc_quota (ss_heap s1 i)"
    using i(2) by (auto simp: gateHeld_def gateOpen_def split: if_splits)
  then show ?thesis using bl i(1) d(1) pr by (intro bexI [of _ i]) auto
qed

theorem storm_gate_never_stranded_witness:
  "let y = fail_quota demo_time (send_once demo_time demo_start)
   in fst (wait_iter True False ''p'' ''m'' demo_time demo_local (sy_state y)) = WaitParked
    \<and> (\<exists>i\<in>live_scopes (snd (snd (wait_iter True False ''p'' ''m'' demo_time demo_local (sy_state y)))).
          demo_time < sc_retryAt (ss_heap (snd (snd (wait_iter True False ''p'' ''m'' demo_time demo_local (sy_state y)))) i))
    \<and> (\<exists>p. fst (wait_iter True False ''p'' ''m'' (demo_time + 100) demo_local (sy_state y)) = WaitGranted p)"
proof -
  let ?y = "fail_quota demo_time (send_once demo_time demo_start)"
  let ?w = "wait_iter True False ''p'' ''m'' demo_time demo_local (sy_state ?y)"
  have "storm_reach (send_once demo_time demo_start)" by (rule send_once_reach [OF demo_start_reach])
  moreover have "sy_permits (send_once demo_time demo_start) \<noteq> []" by code_simp
  ultimately have r: "storm_reach ?y" by (rule fail_quota_reach)
  have p: "sy_permits ?y = []" by code_simp
  have parked: "fst ?w = WaitParked" by code_simp
  have later: "\<exists>p. fst (wait_iter True False ''p'' ''m'' (demo_time + 100) demo_local (sy_state ?y)) = WaitGranted p"
    by (rule exI [where x = "\<lparr>pm_state = True, pm_generation = 1,
          pm_claims = [\<lparr>cl_scope = 0, cl_epoch = 0, cl_probe = False\<rparr>, \<lparr>cl_scope = 1, cl_epoch = 1, cl_probe = True\<rparr>],
          pm_once = False, pm_active = False\<rparr>"]) code_simp
  have "wl_queued demo_local = None" by (simp add: demo_local_def)
  then have none: "\<forall>is. wl_queued demo_local = Some is \<longrightarrow> is \<in> set (sy_waiting ?y)" by simp
  have "?w = (fst ?w, fst (snd ?w), snd (snd ?w))" by (simp only: prod.collapse)
  from storm_gate_never_stranded [OF r p none this disjI1 [OF parked]]
  have "\<exists>i\<in>live_scopes (snd (snd ?w)). demo_time < sc_retryAt (ss_heap (snd (snd ?w)) i)" by blast
  with parked later show ?thesis unfolding Let_def by blast
qed


text \<open>
  The recovery delay: the backoff stays between zero and its maximum and grows by the
  multiplier up to the maximum; the next probe is never moved earlier, never comes before a
  provider's clamped retry hint, and never later than the larger of the maximum backoff and
  that hint (or the time already announced). The wakeup is armed for exactly that time.
\<close>

lemma storm_delay_bounds:
  assumes "0 \<le> rnd" "rnd < 1" "0 \<le> so_InitialBackoff opts" "0 \<le> so_MaxBackoff opts"
    and "0 \<le> so_JitterPercent opts" "so_JitterPercent opts \<le> 100" "1 \<le> so_BackoffMultiplier opts"
  shows "let sc' = storm_delay opts rnd now ra grow sc; hint = ClampRetryHint ra
    in 0 \<le> sc_backoff sc' \<and> sc_backoff sc' \<le> so_MaxBackoff opts
     \<and> (grow \<longrightarrow> 0 < sc_backoff sc \<longrightarrow> sc_backoff sc' = min (so_MaxBackoff opts) (sc_backoff sc * so_BackoffMultiplier opts))
     \<and> (\<not> grow \<longrightarrow> sc_backoff sc' = min (so_MaxBackoff opts) (so_InitialBackoff opts))
     \<and> sc_retryAt sc \<le> sc_retryAt sc' \<and> now + hint \<le> sc_retryAt sc'
     \<and> sc_retryAt sc' \<le> max (sc_retryAt sc) (now + max (so_MaxBackoff opts) hint)
     \<and> (so_JitterPercent opts = 0 \<longrightarrow> sc_retryAt sc' = max (sc_retryAt sc) (now + max (sc_backoff sc') hint))
     \<and> wt_timer (sc_timer sc') \<and> wt_at (sc_timer sc') = sc_retryAt sc'"
proof -
  let ?M = "so_MaxBackoff opts" and ?m = "so_BackoffMultiplier opts"
  define b where "b = (let b = (if \<not> grow \<or> sc_backoff sc \<le> 0 then so_InitialBackoff opts
               else if ?m > 0 \<and> sc_backoff sc \<le> ?M div ?m then sc_backoff sc * ?m else ?M)
       in if b > ?M then ?M else b)"
  define v where "v = of_int b * (1 + (2 * rnd - 1) * of_int (so_JitterPercent opts) / 100)"
  define d where "d = (if so_JitterPercent opts > 0 then
      (if v \<ge> of_int ?M then ?M else if v > 0 then rat_trunc v else 0) else b)"
  have mul: "x \<le> ?M div ?m \<longleftrightarrow> x * ?m \<le> ?M" for x
  proof -
    have "x \<le> ?M div ?m \<longleftrightarrow> \<not> ?M div ?m < x" by linarith
    also have "\<dots> \<longleftrightarrow> \<not> ?M < x * ?m" using assms(7) by (simp add: int_div_less_iff)
    finally show ?thesis by (simp add: not_less)
  qed
  have b: "0 \<le> b" "b \<le> ?M" "grow \<longrightarrow> 0 < sc_backoff sc \<longrightarrow> b = min ?M (sc_backoff sc * ?m)"
    "\<not> grow \<longrightarrow> b = min ?M (so_InitialBackoff opts)"
    using assms(3,4,7) by (auto simp: b_def Let_def mul min_def)
  have d: "0 \<le> d" "d \<le> ?M" "so_JitterPercent opts = 0 \<longrightarrow> d = b"
  proof -
    have "rat_trunc v \<le> ?M" if "v < of_int ?M" "0 < v"
      using that by (simp add: rat_trunc_nonneg) linarith
    moreover have "0 \<le> rat_trunc v" if "0 < v" using that by (simp add: rat_trunc_nonneg)
    ultimately show "0 \<le> d" "d \<le> ?M" "so_JitterPercent opts = 0 \<longrightarrow> d = b"
      using b assms(4) by (auto simp: d_def)
  qed
  define h where "h = ClampRetryHint ra"
  define due where "due = (if now + (if h > d then h else d) > sc_retryAt sc then now + (if h > d then h else d) else sc_retryAt sc)"
  have eq: "storm_delay opts rnd now ra grow sc =
      sc\<lparr>sc_backoff := b, sc_retryAt := due, sc_timer := armed due False (sc_timer sc)\<rparr>"
    unfolding storm_delay_def b_def d_def v_def due_def h_def Let_def ..
  have due: "due = max (sc_retryAt sc) (now + max d h)" by (simp add: due_def max_def)
  have "sc_retryAt sc \<le> due" "now + h \<le> due" "due \<le> max (sc_retryAt sc) (now + max ?M h)"
    "so_JitterPercent opts = 0 \<longrightarrow> due = max (sc_retryAt sc) (now + max b h)"
    using d unfolding due by auto
  with b show ?thesis unfolding eq Let_def h_def [symmetric] by (simp add: arm_is_armed arm_deadline)
qed

text \<open>
  C21. A permit granted before a reconfiguration cannot touch the gates opened after it: its
  settlement, of whatever kind, changes no scope of the current map, wakes nobody and reports
  no active gate.
\<close>

theorem stale_permit_inert:
  assumes "storm_reach y" "p \<in> set (sy_permits y)" "pm_generation p \<noteq> ss_generation (sy_state y)"
    and "i \<in> live_scopes (sy_state y)"
  shows "(case settle ob failed reason ra obs now rnds p (sy_state y) of
           (active, obs', s') \<Rightarrow> \<not> active \<and> obs' = obs \<and> ss_heap s' i = ss_heap (sy_state y) i
              \<and> ss_scopes s' = ss_scopes (sy_state y) \<and> ss_kick s' = ss_kick (sy_state y))
    \<and> ss_heap (settleQuota reason ra now rnds p (sy_state y)) i = ss_heap (sy_state y) i
    \<and> ss_scopes (settleQuota reason ra now rnds p (sy_state y)) = ss_scopes (sy_state y)
    \<and> ss_kick (settleQuota reason ra now rnds p (sy_state y)) = ss_kick (sy_state y)"
proof -
  have pok: "permit_ok (sy_state y) p" using storm_reach_inv [OF assms(1)] assms(2) by (simp add: storm_inv_def)
  then have "i \<notin> cl_scope ` set (pm_claims p)" using assms(3,4) by (auto simp: permit_ok_def)
  then have "ss_heap (drop_refs (pm_claims p) (sy_state y)) i = ss_heap (sy_state y) i"
    using permit_distinct [OF pok] by (simp add: drop_refs_def upd_scopes_heap)
  then show ?thesis using assms(3) by (simp add: settle_def settleQuota_def Let_def) (simp add: drop_refs_def)
qed

definition reconfigured :: stormSys where
  "reconfigured = send_once demo_time ((send_once demo_time demo_start)
     \<lparr>sy_state := storm_configure (demo_opts\<lparr>so_Window := 128\<rparr>) (sy_state (send_once demo_time demo_start))\<rparr>)"

theorem stale_permit_inert_witness:
  "storm_reach reconfigured \<and> 2 \<in> live_scopes (sy_state reconfigured)
   \<and> pm_generation (last (sy_permits reconfigured)) \<noteq> ss_generation (sy_state reconfigured)
   \<and> ss_heap (settleQuota [] 0 9 [] (last (sy_permits reconfigured)) (sy_state reconfigured)) 2
       = ss_heap (sy_state reconfigured) 2"
proof -
  have r: "storm_reach reconfigured"
    unfolding reconfigured_def
    by (rule send_once_reach, rule storm_reach.step [OF send_once_reach [OF demo_start_reach] storm_step.configure])
  have "sy_permits reconfigured \<noteq> []" by code_simp
  then have m: "last (sy_permits reconfigured) \<in> set (sy_permits reconfigured)" by simp
  have g: "pm_generation (last (sy_permits reconfigured)) \<noteq> ss_generation (sy_state reconfigured)" by code_simp
  have "map snd (ss_scopes (sy_state reconfigured)) = [2, 3]" by code_simp
  then have l: "2 \<in> live_scopes (sy_state reconfigured)"
    unfolding live_scopes_def by (metis list.set_intros(1) list.set_map)
  from stale_permit_inert [OF r m g l, where reason = "[]" and ra = 0 and now = 9 and rnds = "[]"] r l g show ?thesis by simp
qed


text \<open>
  A quota outcome is never storm evidence: its settlement leaves the samples, the failure
  counts, the storm flag and the activity stamp of every scope as they were. A current permit
  with a claim on the provider's scope leaves that scope with an open quota gate.
\<close>

definition evidence :: "stormScope \<Rightarrow> stormBucket list \<times> int \<times> int \<times> int \<times> int \<times> nat \<times> bool \<times> time" where
  "evidence sc = (sc_buckets sc, sc_cachedEpoch sc, sc_cachedSamples sc, sc_cachedFailures sc, sc_cachedErrorRequests sc,
     sc_reset sc, sc_active sc, sc_lastActivity sc)"

lemma evidence_delay [simp]:
  "evidence (storm_delay opts rnd now ra g sc) = evidence sc" "sc_quota (storm_delay opts rnd now ra g sc) = sc_quota sc"
  "sc_key (storm_delay opts rnd now ra g sc) = sc_key sc"
  by (simp_all add: storm_delay_def Let_def evidence_def)

lemma evidence_fields [simp]:
  "evidence (sc\<lparr>sc_quota := q\<rparr>) = evidence sc" "evidence (sc\<lparr>sc_epoch := n\<rparr>) = evidence sc"
  "evidence (sc\<lparr>sc_recovered := k\<rparr>) = evidence sc" "evidence (sc\<lparr>sc_reason := r\<rparr>) = evidence sc"
  "evidence (sc\<lparr>sc_probing := q\<rparr>) = evidence sc"
  by (simp_all add: evidence_def)

lemma quota_claim_evidence:
  assumes "settleQuota_claim reason ra now rnd c s = (b, s')"
  shows "evidence (ss_heap s' i) = evidence (ss_heap s i) \<and> sc_key (ss_heap s' i) = sc_key (ss_heap s i)
    \<and> (sc_quota (ss_heap s i) \<longrightarrow> sc_quota (ss_heap s' i))
    \<and> (i = cl_scope c \<longrightarrow> \<not> sk_modelScope (sc_key (ss_heap s i)) \<longrightarrow> sc_quota (ss_heap s' i))"
proof -
  obtain ch s1 where r: "release_probe c s = (ch, s1)" by (cases "release_probe c s")
  have h1: "evidence (ss_heap s1 j) = evidence (ss_heap s j) \<and> sc_key (ss_heap s1 j) = sc_key (ss_heap s j)
      \<and> sc_quota (ss_heap s1 j) = sc_quota (ss_heap s j)" for j
    using r by (auto simp: release_probe_def upd_scope_def evidence_def split: if_splits)
  show ?thesis
    using assms h1 [of i] h1 [of "cl_scope c"]
    by (auto simp: settleQuota_claim_def r Let_def upd_scope_def split: if_splits)
qed

lemma quota_claims_evidence:
  assumes "settleQuota_claims reason ra now rnds cs s = (b, s')"
  shows "evidence (ss_heap s' i) = evidence (ss_heap s i)
    \<and> (sc_quota (ss_heap s i) \<longrightarrow> sc_quota (ss_heap s' i))
    \<and> (i \<in> cl_scope ` set cs \<longrightarrow> \<not> sk_modelScope (sc_key (ss_heap s i)) \<longrightarrow> sc_quota (ss_heap s' i))"
  using assms
proof (induction cs arbitrary: rnds s b s')
  case (Cons c cs)
  obtain ch s1 where c: "settleQuota_claim reason ra now (hd rnds) c s = (ch, s1)" by fastforce
  obtain b' where r: "settleQuota_claims reason ra now (tl rnds) cs s1 = (b', s')"
    using Cons.prems c by (auto split: prod.splits)
  show ?case using quota_claim_evidence [OF c, of i] Cons.IH [OF r] by auto
qed simp

lemma quota_is_not_storm_evidence:
  assumes "storm_reach y" "p \<in> set (sy_permits y)"
  shows "let s' = settleQuota reason ra now rnds p (sy_state y)
    in evidence (ss_heap s' i) = evidence (ss_heap (sy_state y) i)
    \<and> (pm_generation p = ss_generation (sy_state y) \<longrightarrow> i \<in> cl_scope ` set (pm_claims p) \<longrightarrow>
         \<not> sk_modelScope (sc_key (ss_heap (sy_state y) i)) \<longrightarrow> sc_quota (ss_heap s' i))"
proof -
  let ?d = "drop_refs (pm_claims p) (sy_state y)"
  have pok: "permit_ok (sy_state y) p" using storm_reach_inv [OF assms(1)] assms(2) by (simp add: storm_inv_def)
  have d: "evidence (ss_heap ?d j) = evidence (ss_heap (sy_state y) j) \<and> sc_key (ss_heap ?d j) = sc_key (ss_heap (sy_state y) j)" for j
    using permit_distinct [OF pok] by (simp add: drop_refs_def upd_scopes_heap evidence_def)
  have g: "ss_generation ?d = ss_generation (sy_state y)" by (simp add: drop_refs_def)
  obtain ch s2 where q: "settleQuota_claims (storm_reason reason) (ClampRetryHint ra) now rnds (pm_claims p) ?d = (ch, s2)" by fastforce
  have wake: "ss_heap (storm_wake s2) = ss_heap s2" by (simp add: storm_wake_def)
  show ?thesis
    using quota_claims_evidence [OF q, of i] d [of i] q g wake by (auto simp: settleQuota_def Let_def)
qed

end
