(* ===== verification/Drain.thy ===== *)
theory Drain
  imports Prelude
begin

text \<open>
  Operator drains (\<^verbatim>\<open>internal/scheduler/scheduler.go\<close>): the scope of a drain, the short history
  of drain tickets and the question a parked request asks after every wake-up. The
  generation counter is a natural number: \<^verbatim>\<open>uint64\<close> does not wrap within the life of a process.
\<close>

section \<open>Scopes and tickets\<close>

record DrainScope =
  ds_Provider :: string
  ds_Model :: string
  ds_Client :: string

definition scope_matches :: "DrainScope \<Rightarrow> string \<Rightarrow> string \<Rightarrow> string \<Rightarrow> bool" where
  "scope_matches scope provider model client \<longleftrightarrow>
     (if ds_Provider scope \<noteq> [] \<and> ds_Provider scope \<noteq> provider then False
      else if ds_Model scope \<noteq> [] \<and> ds_Model scope \<noteq> model then False
      else if ds_Client scope \<noteq> [] \<and> ds_Client scope \<noteq> client then False
      else True)"

definition drainTicketHistory :: nat where
  "drainTicketHistory = 8"

record drainTicket =
  dt_seq :: nat
  dt_scope :: DrainScope

text \<open>The published state: the generation and the stored ticket list (nil before the first drain).\<close>

record drainState =
  dr_seq :: nat
  dr_tickets :: "drainTicket list option"

definition no_drains :: drainState where
  "no_drains = \<lparr>dr_seq = 0, dr_tickets = None\<rparr>"

fun keep_tickets :: "drainTicket list \<Rightarrow> drainTicket list \<Rightarrow> drainTicket list" where
  "keep_tickets kept [] = kept"
| "keep_tickets kept (t # prev) =
     (if length kept = drainTicketHistory then kept else keep_tickets (kept @ [t]) prev)"

text \<open>The section of \<^verbatim>\<open>DrainQueue\<close> under \<^verbatim>\<open>drainMu\<close>.\<close>

definition issueDrain :: "DrainScope \<Rightarrow> drainState \<Rightarrow> nat \<times> drainState" where
  "issueDrain scope d =
     (let s = dr_seq d + 1;
          kept = [\<lparr>dt_seq = s, dt_scope = scope\<rparr>];
          kept = (case dr_tickets d of None \<Rightarrow> kept | Some prev \<Rightarrow> keep_tickets kept prev)
      in (s, \<lparr>dr_seq = s, dr_tickets = Some kept\<rparr>))"

fun any_ticket :: "nat \<Rightarrow> string \<Rightarrow> string \<Rightarrow> string \<Rightarrow> drainTicket list \<Rightarrow> bool" where
  "any_ticket from provider model client [] = False"
| "any_ticket from provider model client (t # ts) =
     (if dt_seq t > from \<and> scope_matches (dt_scope t) provider model client then True
      else any_ticket from provider model client ts)"

definition queueDrained :: "nat \<Rightarrow> string \<Rightarrow> string \<Rightarrow> string \<Rightarrow> drainState \<Rightarrow> bool" where
  "queueDrained from provider model client d \<longleftrightarrow>
     (if dr_seq d \<le> from then False
      else case dr_tickets d of
             None \<Rightarrow> False
           | Some ts \<Rightarrow> any_ticket from provider model client ts)"


section \<open>The history\<close>

text \<open>The state after a whole sequence of drains, oldest first.\<close>

definition after_drains :: "DrainScope list \<Rightarrow> drainState" where
  "after_drains scopes = fold (\<lambda>sc d. snd (issueDrain sc d)) scopes no_drains"

definition tickets_of :: "DrainScope list \<Rightarrow> drainTicket list" where
  "tickets_of scopes = map (\<lambda>k. \<lparr>dt_seq = Suc k, dt_scope = scopes ! k\<rparr>) (rev [0..<length scopes])"

lemma keep_tickets_take:
  "length kept \<le> drainTicketHistory \<Longrightarrow> keep_tickets kept prev = kept @ take (drainTicketHistory - length kept) prev"
proof (induction kept prev rule: keep_tickets.induct)
  case (2 kept t prev)
  show ?case
  proof (cases "length kept = drainTicketHistory")
    case False
    then have "drainTicketHistory - length kept = Suc (drainTicketHistory - Suc (length kept))" using 2 by simp
    with False 2 show ?thesis by simp
  qed simp
qed simp

lemma any_ticket_iff:
  "any_ticket from p m c ts \<longleftrightarrow> (\<exists>t \<in> set ts. from < dt_seq t \<and> scope_matches (dt_scope t) p m c)"
  by (induction ts) auto

lemma tickets_of_snoc: "tickets_of (scopes @ [sc]) = \<lparr>dt_seq = Suc (length scopes), dt_scope = sc\<rparr> # tickets_of scopes"
  by (auto simp: tickets_of_def nth_append)

lemma after_drains_state:
  "after_drains scopes = \<lparr>dr_seq = length scopes,
     dr_tickets = (if scopes = [] then None else Some (take drainTicketHistory (tickets_of scopes)))\<rparr>"
proof (induction scopes rule: rev_induct)
  case Nil
  show ?case by (simp add: after_drains_def no_drains_def)
next
  case (snoc sc scopes)
  have "after_drains (scopes @ [sc]) = snd (issueDrain sc (after_drains scopes))" by (simp add: after_drains_def)
  also have "\<dots> = \<lparr>dr_seq = Suc (length scopes), dr_tickets = Some (take drainTicketHistory (tickets_of (scopes @ [sc])))\<rparr>"
    using keep_tickets_take [of "[\<lparr>dt_seq = Suc (length scopes), dt_scope = sc\<rparr>]"]
    by (simp add: snoc issueDrain_def tickets_of_snoc) (simp add: drainTicketHistory_def tickets_of_def)
  finally show ?case by simp
qed

lemma in_recent_tickets:
  "t \<in> set (take n (tickets_of scopes)) \<longleftrightarrow>
     (\<exists>k. k < length scopes \<and> length scopes \<le> k + n \<and> t = \<lparr>dt_seq = Suc k, dt_scope = scopes ! k\<rparr>)"
proof -
  have "set (take n (rev [0..<length scopes])) = {k. k < length scopes \<and> length scopes \<le> k + n}"
    by (auto simp: take_rev)
  then show ?thesis by (auto simp: tickets_of_def take_map)
qed

text \<open>
  C24. After any sequence of operator drains, a request that began to wait when \<open>from\<close> drains
  had been issued is released exactly if one of the drains issued since then selects it and
  is among the last eight: an earlier drain never releases it, a later one is never masked
  by a narrower drain that follows it, and it is forgotten only once eight newer drains exist.
\<close>

theorem drain_releases_exactly_recent_matches:
  "queueDrained from provider model client (after_drains scopes) \<longleftrightarrow>
     (\<exists>k. from \<le> k \<and> k < length scopes \<and> length scopes - k \<le> 8
          \<and> (let sc = scopes ! k in ds_Provider sc \<in> {[], provider} \<and> ds_Model sc \<in> {[], model}
               \<and> ds_Client sc \<in> {[], client}))"
proof -
  have m: "scope_matches sc provider model client \<longleftrightarrow> ds_Provider sc \<in> {[], provider} \<and> ds_Model sc \<in> {[], model}
      \<and> ds_Client sc \<in> {[], client}" for sc
    by (auto simp: scope_matches_def)
  have "queueDrained from provider model client (after_drains scopes) \<longleftrightarrow>
      (\<exists>k. from \<le> k \<and> k < length scopes \<and> length scopes \<le> k + drainTicketHistory
          \<and> scope_matches (scopes ! k) provider model client)"
    unfolding after_drains_state queueDrained_def any_ticket_iff Bex_def in_recent_tickets
    by (auto 0 4 simp: less_Suc_eq_le any_ticket_iff Bex_def in_recent_tickets)
  then show ?thesis unfolding m drainTicketHistory_def Let_def by (simp add: le_diff_conv add.commute)
qed

end
