(* ===== verification/Scheduler_State.thy ===== *)
theory Scheduler_State
  imports Hold_Queue Ramp Storm Drain
begin

text \<open>
  The state of the scheduler (\<^verbatim>\<open>scheduler.go\<close>, \<^verbatim>\<open>scheduler_admission.go\<close>, \<^verbatim>\<open>scheduler_groups.go\<close>): options,
  groups, provider indices, and the primitive operations on the provider index and on the
  idle order. Objects the code reaches through pointers (groups, waiters, provider indices,
  provider gates) live in heaps indexed by identities; a linked list is the sequence of the
  identities it links (theory \<open>Linked_List\<close> justifies it) and an intrusive node the list that
  owns it. A channel is the number of times it was replaced. \<open>s_now\<close> is what
  \<^verbatim>\<open>time.Now()\<close> returns, the same instant throughout one critical section; \<open>s_ctxDone\<close> says which
  waiters have a cancelled context; \<open>s_log\<close> records the callbacks and \<open>s_panic\<close> a panic of the
  intrusive list.
\<close>

section \<open>Options and hooks\<close>

record Options =
  o_MaxConcurrent :: int
  o_MaxQueueSize :: int
  o_MaxWait :: duration
  o_BaseBackoff :: duration
  o_MaxBackoff :: duration
  o_Storm :: StormOptions

text \<open>A callback is present or nil.\<close>

record WaiterHooks =
  wh_Client :: string
  wh_Provider :: string
  wh_Model :: string
  wh_EstTokens :: int
  wh_OnWait :: bool
  wh_OnHold :: bool
  wh_OnUnhold :: bool
  wh_OnThrottle :: bool
  wh_OnUnthrottle :: bool

datatype sched_error = ErrQueueFull | ErrQueueDrained | ErrGroupLimit | errMaxWait | errGroupRetired | CtxErr


section \<open>Groups and provider indices\<close>

record group =
  g_key :: string
  g_provider :: string
  g_providerIdx :: "nat option"
  g_providerNode :: "nat option"
  g_idleNode :: bool
  g_idleListed :: bool
  g_retired :: bool
  g_maxConcurrent :: int
  g_inFlight :: int
  g_nextAllowedAt :: time
  g_backoff :: duration
  g_requestBackoff :: duration
  g_tripped :: bool
  g_probing :: bool
  g_sendWaiters :: int
  g_sendKick :: "nat option"
  g_pacer :: wakeTimer
  g_queue :: "nat list"
  g_hasQueued :: bool
  g_providerQueued :: "nat option"
  g_gateWaiting :: bool
  g_providerFair :: "nat option"
  g_fairNode :: "nat option"
  g_ramp :: rampState

definition zero_group :: group where
  "zero_group = \<lparr>g_key = [], g_provider = [], g_providerIdx = None, g_providerNode = None, g_idleNode = False,
     g_idleListed = False, g_retired = False, g_maxConcurrent = 0, g_inFlight = 0, g_nextAllowedAt = zero_time,
     g_backoff = 0, g_requestBackoff = 0, g_tripped = False, g_probing = False, g_sendWaiters = 0,
     g_sendKick = None, g_pacer = zero_timer, g_queue = [], g_hasQueued = False, g_providerQueued = None,
     g_gateWaiting = False, g_providerFair = None, g_fairNode = None, g_ramp = zero_ramp\<rparr>"

record providerIndex =
  pi_groups :: "nat list"
  pi_fair :: "nat list"
  pi_cursor :: "nat option"
  pi_fairCount :: int
  pi_queued :: int

definition zero_index :: providerIndex where
  "zero_index = \<lparr>pi_groups = [], pi_fair = [], pi_cursor = None, pi_fairCount = 0, pi_queued = 0\<rparr>"

definition maxSchedulerGroups :: nat where
  "maxSchedulerGroups = 100000"

record Scheduler =
  s_opts :: Options
  s_groups :: "(string \<times> nat) list"
  s_groupCap :: nat
  s_providerGroups :: "(string \<times> nat) list"
  s_storms :: stormState
  s_idle :: "nat list"
  s_pacing :: pacingLRU
  s_policy :: policySnap
  s_kick :: nat
  s_holdCount :: holdCounts
  s_gates :: "(string \<times> nat) list"
  s_gateSnap :: "(string \<times> nat) list"
  s_drains :: drainState
  s_group :: "nat \<Rightarrow> group"
  s_index :: "nat \<Rightarrow> providerIndex"
  s_gate :: "nat \<Rightarrow> providerGate"
  s_waiter :: "nat \<Rightarrow> waiter"
  s_next :: nat
  s_holdSeq :: nat
  s_now :: time
  s_ctxDone :: "nat \<Rightarrow> bool"
  s_log :: "(nat \<times> hook) list"
  s_panic :: bool

definition upd_group :: "nat \<Rightarrow> (group \<Rightarrow> group) \<Rightarrow> Scheduler \<Rightarrow> Scheduler" where
  "upd_group i f s = s\<lparr>s_group := (s_group s)(i := f (s_group s i))\<rparr>"

definition upd_index :: "nat \<Rightarrow> (providerIndex \<Rightarrow> providerIndex) \<Rightarrow> Scheduler \<Rightarrow> Scheduler" where
  "upd_index x f s = s\<lparr>s_index := (s_index s)(x := f (s_index s x))\<rparr>"

definition upd_gate :: "nat \<Rightarrow> (providerGate \<Rightarrow> providerGate) \<Rightarrow> Scheduler \<Rightarrow> Scheduler" where
  "upd_gate q f s = s\<lparr>s_gate := (s_gate s)(q := f (s_gate s q))\<rparr>"

definition upd_waiter :: "nat \<Rightarrow> (waiter \<Rightarrow> waiter) \<Rightarrow> Scheduler \<Rightarrow> Scheduler" where
  "upd_waiter w f s = s\<lparr>s_waiter := (s_waiter s)(w := f (s_waiter s w))\<rparr>"

lemma upd_other [simp]:
  "s_group (upd_index x f s) = s_group s" "s_group (upd_gate x h s) = s_group s" "s_group (upd_waiter x k s) = s_group s"
  "s_index (upd_group x l s) = s_index s" "s_index (upd_gate x h s) = s_index s" "s_index (upd_waiter x k s) = s_index s"
  "s_gate (upd_group x l s) = s_gate s" "s_gate (upd_index x f s) = s_gate s" "s_gate (upd_waiter x k s) = s_gate s"
  "s_waiter (upd_group x l s) = s_waiter s" "s_waiter (upd_index x f s) = s_waiter s" "s_waiter (upd_gate x h s) = s_waiter s"
  "s_now (upd_group x l s) = s_now s" "s_now (upd_index x f s) = s_now s" "s_now (upd_gate x h s) = s_now s"
  "s_now (upd_waiter x k s) = s_now s" "s_gateSnap (upd_group x l s) = s_gateSnap s"
  "s_gateSnap (upd_index x f s) = s_gateSnap s" "s_gateSnap (upd_gate x h s) = s_gateSnap s"
  "s_gateSnap (upd_waiter x k s) = s_gateSnap s"
  by (simp_all add: upd_group_def upd_index_def upd_gate_def upd_waiter_def)


section \<open>The provider index\<close>

definition linkLocked :: "nat \<Rightarrow> nat \<Rightarrow> Scheduler \<Rightarrow> Scheduler" where
  "linkLocked x i s =
     (if g_providerNode (s_group s i) \<noteq> None then s
      else upd_index x (\<lambda>idx. idx\<lparr>pi_groups := pi_groups idx @ [i]\<rparr>)
             (upd_group i (\<lambda>g. g\<lparr>g_providerNode := Some x\<rparr>) s))"

definition unlinkLocked :: "nat \<Rightarrow> nat \<Rightarrow> Scheduler \<Rightarrow> Scheduler" where
  "unlinkLocked x i s =
     (if g_providerNode (s_group s i) \<noteq> Some x then s
      else
        let s1 = upd_index x (\<lambda>idx. idx\<lparr>pi_groups := remove1 i (pi_groups idx)\<rparr>)
                   (upd_group i (\<lambda>g. g\<lparr>g_providerNode := None\<rparr>) s)
        in if pi_cursor (s_index s1 x) = Some i then upd_index x (\<lambda>idx. idx\<lparr>pi_cursor := None\<rparr>) s1 else s1)"

definition markFair :: "nat \<Rightarrow> nat \<Rightarrow> Scheduler \<Rightarrow> Scheduler" where
  "markFair x i s =
     (let s1 = upd_group i (\<lambda>g. g\<lparr>g_gateWaiting := True\<rparr>) s
      in if g_fairNode (s_group s1 i) \<noteq> None then s1\<lparr>s_panic := True\<rparr>
         else upd_index x (\<lambda>idx. idx\<lparr>pi_fair := pi_fair idx @ [i], pi_fairCount := pi_fairCount idx + 1\<rparr>)
                (upd_group i (\<lambda>g. g\<lparr>g_fairNode := Some x\<rparr>) s1))"

definition clearFair :: "nat \<Rightarrow> nat \<Rightarrow> Scheduler \<Rightarrow> Scheduler" where
  "clearFair x i s =
     (if \<not> g_gateWaiting (s_group s i) then s
      else
        let s1 = upd_index x (\<lambda>idx. idx\<lparr>pi_fairCount := pi_fairCount idx - 1\<rparr>)
                   (upd_group i (\<lambda>g. g\<lparr>g_gateWaiting := False\<rparr>) s)
        in if g_fairNode (s_group s1 i) \<noteq> Some x then s1
           else upd_index x (\<lambda>idx. idx\<lparr>pi_fair := remove1 i (pi_fair idx)\<rparr>)
                  (upd_group i (\<lambda>g. g\<lparr>g_fairNode := None\<rparr>) s1))"

text \<open>The snapshot, and the index with its cursor dropped where the code drops it.\<close>

definition fairSnapshot :: "providerIndex \<Rightarrow> nat list \<times> providerIndex" where
  "fairSnapshot idx =
     (if pi_fair idx = [] then ([], idx\<lparr>pi_cursor := None\<rparr>)
      else case pi_cursor idx of
        None \<Rightarrow> (pi_fair idx, idx)
      | Some c \<Rightarrow>
          (case dropWhile (\<lambda>i. i \<noteq> c) (pi_fair idx) of
             [] \<Rightarrow> (pi_fair idx, idx\<lparr>pi_cursor := None\<rparr>)
           | start # rest \<Rightarrow> (rest @ takeWhile (\<lambda>i. i \<noteq> c) (pi_fair idx) @ [start], idx)))"

definition advanceFair :: "nat \<Rightarrow> providerIndex \<Rightarrow> providerIndex" where
  "advanceFair i idx = idx\<lparr>pi_cursor := Some i\<rparr>"

definition snapshotAll :: "providerIndex \<Rightarrow> nat list" where
  "snapshotAll idx = pi_groups idx"


section \<open>The idle order\<close>

definition idlePush :: "nat \<Rightarrow> Scheduler \<Rightarrow> Scheduler" where
  "idlePush i s =
     (if g_idleListed (s_group s i) then s
      else if g_idleNode (s_group s i) then s\<lparr>s_panic := True\<rparr>
      else upd_group i (\<lambda>g. g\<lparr>g_idleNode := True, g_idleListed := True\<rparr>) (s\<lparr>s_idle := s_idle s @ [i]\<rparr>))"

definition idleUnlink :: "nat \<Rightarrow> Scheduler \<Rightarrow> bool \<times> Scheduler" where
  "idleUnlink i s =
     (if \<not> g_idleListed (s_group s i) then (False, s)
      else
        let s1 = upd_group i (\<lambda>g. g\<lparr>g_idleListed := False\<rparr>) s
        in if \<not> g_idleNode (s_group s1 i) then (False, s1)
           else (True, upd_group i (\<lambda>g. g\<lparr>g_idleNode := False\<rparr>) (s1\<lparr>s_idle := remove1 i (s_idle s1)\<rparr>)))"

definition markGroupBusy :: "nat \<Rightarrow> Scheduler \<Rightarrow> Scheduler" where
  "markGroupBusy i s = (if \<not> g_idleListed (s_group s i) then s else snd (idleUnlink i s))"

definition markGroupIdle :: "nat \<Rightarrow> Scheduler \<Rightarrow> Scheduler" where
  "markGroupIdle i s =
     (let g = s_group s i
      in if g_retired g \<or> g_inFlight g \<noteq> 0 \<or> g_queue g \<noteq> [] then s
         else
           let s1 = (if \<not> IsZero (rampStart (g_ramp g)) \<and> IsZero (idleSince (g_ramp g))
                     then upd_group i (\<lambda>g. g\<lparr>g_ramp := (g_ramp g)\<lparr>idleSince := s_now s\<rparr>\<rparr>) s else s)
           in idlePush i s1)"

definition popIdleGroup :: "Scheduler \<Rightarrow> nat option \<times> Scheduler" where
  "popIdleGroup s =
     (case s_idle s of
        [] \<Rightarrow> (None, s)
      | i # _ \<Rightarrow> (Some i, snd (idleUnlink i s)))"


section \<open>Membership of the fair-waiting set\<close>

definition admissionWindowOpen :: "time \<Rightarrow> group \<Rightarrow> bool" where
  "admissionWindowOpen now g \<longleftrightarrow>
     (if g_maxConcurrent g \<noteq> 0 \<and> g_inFlight g \<ge> g_maxConcurrent g then False
      else \<not> now < g_nextAllowedAt g)"

definition markGateWaiting :: "nat \<Rightarrow> Scheduler \<Rightarrow> Scheduler" where
  "markGateWaiting i s =
     (let g = s_group s i
      in case g_providerIdx g of
           None \<Rightarrow> s
         | Some x \<Rightarrow>
             if g_gateWaiting g then s
             else if g_queue g = [] \<or> \<not> admissionWindowOpen (s_now s) g then s
             else markFair x i s)"

definition clearGateWaiting :: "nat \<Rightarrow> Scheduler \<Rightarrow> Scheduler" where
  "clearGateWaiting i s =
     (case g_providerIdx (s_group s i) of
        None \<Rightarrow> s
      | Some x \<Rightarrow> if \<not> g_gateWaiting (s_group s i) then s else clearFair x i s)"

text \<open>\<^verbatim>\<open>syncQueueLocked\<close>: the queue's empty edge and the provider's queued-group counter.\<close>

definition syncQueue :: "nat \<Rightarrow> Scheduler \<Rightarrow> Scheduler" where
  "syncQueue i s =
     (let nonEmpty = (g_queue (s_group s i) \<noteq> []);
          s1 = (if \<not> nonEmpty then clearGateWaiting i s else s)
      in if g_hasQueued (s_group s1 i) = nonEmpty then s1
         else
           let s2 = upd_group i (\<lambda>g. g\<lparr>g_hasQueued := nonEmpty\<rparr>) s1
           in case g_providerQueued (s_group s2 i) of
                None \<Rightarrow> s2
              | Some x \<Rightarrow> upd_index x (\<lambda>idx. idx\<lparr>pi_queued := pi_queued idx + (if nonEmpty then 1 else -1)\<rparr>) s2)"

end
