(* ===== verification/Admission.thy ===== *)
theory Admission
  imports Scheduler_State
begin

text \<open>
  Admission (\<^verbatim>\<open>scheduler_admission.go\<close> and the provider side of \<^verbatim>\<open>throttle.go\<close>): the lookup of a
  provider gate, the per-key anti-burst policy, \<^verbatim>\<open>admitLocked\<close>, the FIFO pass \<^verbatim>\<open>drainLimited\<close>, the
  fair provider drain, and the operations that end in a drain: release, removal of a waiter,
  the policy kick. Each function is one critical section of the code or their composition in
  program order.
\<close>

section \<open>Provider gates\<close>

definition gate_of :: "string \<Rightarrow> Scheduler \<Rightarrow> nat option" where
  "gate_of provider s = (if provider = [] then None else map_of (s_gateSnap s) provider)"

definition gate_limit :: "nat \<Rightarrow> Scheduler \<Rightarrow> Limit" where
  "gate_limit q s = t_Limit (pg_throttle (s_gate s q))"

definition tryAdmit :: "string \<Rightarrow> int \<Rightarrow> Scheduler \<Rightarrow> bool \<times> admission \<times> duration \<times> Scheduler" where
  "tryAdmit provider est s =
     (case gate_of provider s of
        None \<Rightarrow> (True, no_admission, 0, s)
      | Some q \<Rightarrow>
          (case gate_tryAdmit q est (s_now s) (s_now s) (s_now s) (s_gate s q) of
             (ok, lease, wait, g) \<Rightarrow> (ok, lease, wait, upd_gate q (\<lambda>_. g) s)))"

definition providerConcurrencyFull :: "string \<Rightarrow> Scheduler \<Rightarrow> bool" where
  "providerConcurrencyFull provider s \<longleftrightarrow>
     (case gate_of provider s of
        None \<Rightarrow> False
      | Some q \<Rightarrow> Concurrency (gate_limit q s) > 0 \<and> pg_inFlight (s_gate s q) \<ge> Concurrency (gate_limit q s))"

definition settle_lease :: "int \<Rightarrow> admission \<Rightarrow> Scheduler \<Rightarrow> Scheduler" where
  "settle_lease actual a s =
     (case adm_gate a of
        None \<Rightarrow> s
      | Some q \<Rightarrow> upd_gate q (gate_settle actual (s_now s) a) s)"

definition armThrottleDrain :: "string \<Rightarrow> duration \<Rightarrow> Scheduler \<Rightarrow> Scheduler" where
  "armThrottleDrain provider d s =
     (case gate_of provider s of
        None \<Rightarrow> s
      | Some q \<Rightarrow>
          let d = (if d < millisecond then millisecond else d)
          in if limit_Active (gate_limit q s)
             then upd_gate q (\<lambda>g. g\<lparr>pg_wake := armed (s_now s + d) True (pg_wake g)\<rparr>) s
             else s)"

definition providerRamps :: "string \<Rightarrow> Scheduler \<Rightarrow> bool" where
  "providerRamps provider s \<longleftrightarrow>
     (case gate_of provider s of None \<Rightarrow> False | Some q \<Rightarrow> rampActive (gate_limit q s))"


section \<open>The admission decision\<close>

definition rampPolicy :: "nat \<Rightarrow> Scheduler \<Rightarrow> int \<times> duration \<times> bool" where
  "rampPolicy i s =
     (if g_provider (s_group s i) = [] then (0, 0, False)
      else case gate_of (g_provider (s_group s i)) s of
        None \<Rightarrow> (0, 0, False)
      | Some q \<Rightarrow>
          let limit = gate_limit q s
          in if \<not> rampActive limit then (0, 0, False) else (Concurrency limit, RampDuration limit, True))"

definition armRampStep :: "nat \<Rightarrow> Scheduler \<Rightarrow> Scheduler" where
  "armRampStep i s =
     (if g_queue (s_group s i) = [] then s
      else case rampPolicy i s of
        (target, dur, enabled) \<Rightarrow>
          if \<not> enabled then s
          else
            let next = nextRampStep (g_ramp (s_group s i)) (s_now s) target dur
            in if \<not> IsZero next
               then armThrottleDrain (g_provider (s_group s i)) (time_Sub next (s_now s)) s
               else s)"

text \<open>The refusal of a queued group by the gate: the group is marked for the fair drain.\<close>

definition gate_refused :: "nat \<Rightarrow> Scheduler \<Rightarrow> bool \<times> Scheduler" where
  "gate_refused i s = (if g_queue (s_group s i) \<noteq> [] then (True, markGateWaiting i s) else (False, s))"

definition admitLocked ::
  "nat \<Rightarrow> string \<Rightarrow> int \<Rightarrow> Scheduler \<Rightarrow> bool \<times> admission \<times> duration \<times> bool \<times> Scheduler" where
  "admitLocked i provider est s =
     (case rampPolicy i s of
        (target, dur, enabled) \<Rightarrow>
          if \<not> enabled then
            let r = g_ramp (s_group s i);
                s1 = (if \<not> IsZero (rampStart r) \<or> \<not> IsZero (idleSince r)
                      then upd_group i (\<lambda>g. g\<lparr>g_ramp := resetRamp (g_ramp g)\<rparr>) s else s)
            in case tryAdmit provider est s1 of
                 (ok, lease, wait, s2) \<Rightarrow>
                   if \<not> ok then (case gate_refused i s2 of (gateBlocked, s3) \<Rightarrow> (ok, lease, wait, gateBlocked, s3))
                   else (ok, lease, wait, False, s2)
          else
            let s1 = upd_group i (\<lambda>g. g\<lparr>g_ramp := anchorRamp (g_ramp g) (g_inFlight g) (s_now s) target dur\<rparr>) s;
                r = g_ramp (s_group s1 i)
            in if g_inFlight (s_group s1 i) \<ge> rampAllowance r (s_now s1) target dur then
                 let next = nextRampStep r (s_now s1) target dur;
                     s2 = (if \<not> IsZero next
                           then armThrottleDrain (g_provider (s_group s1 i)) (time_Sub next (s_now s1)) s1 else s1)
                 in (False, no_admission, 0, False, s2)
               else case tryAdmit provider est s1 of
                 (ok, lease, wait, s2) \<Rightarrow>
                   if ok then
                     (ok, lease, wait, False,
                      upd_group i (\<lambda>g. g\<lparr>g_ramp := startRamp (g_ramp g) (g_inFlight g) (s_now s) dur\<rparr>) s2)
                   else (case gate_refused i s2 of (gateBlocked, s3) \<Rightarrow> (ok, lease, wait, gateBlocked, s3)))"

definition matchingHold :: "string \<Rightarrow> string \<Rightarrow> Scheduler \<Rightarrow> holdSnap option" where
  "matchingHold client provider s = policy_match (s_now s) (s_policy s) client provider"


section \<open>The FIFO pass of one group\<close>

text \<open>The grant of one waiter: its lease, its departure from the queue, its slot and its signal.\<close>

definition grant_waiter :: "nat \<Rightarrow> nat \<Rightarrow> admission \<Rightarrow> Scheduler \<Rightarrow> Scheduler" where
  "grant_waiter i w lease s =
     upd_group i (\<lambda>g. g\<lparr>g_queue := remove1 w (g_queue g), g_inFlight := g_inFlight g + 1\<rparr>)
       (upd_waiter w (\<lambda>x. x\<lparr>w_admission := lease, w_granted := True\<rparr>) s)"

fun drain_loop :: "nat \<Rightarrow> int \<Rightarrow> nat list \<Rightarrow> int \<Rightarrow> Scheduler \<Rightarrow> int \<times> bool \<times> bool \<times> Scheduler" where
  "drain_loop i budget [] granted s = (granted, False, False, s)"
| "drain_loop i budget (w # next) granted s =
     (if budget > 0 \<and> granted \<ge> budget then (granted, False, True, s)
      else if (g_maxConcurrent (s_group s i) \<noteq> 0 \<and> g_inFlight (s_group s i) \<ge> g_maxConcurrent (s_group s i))
              \<or> s_now s < g_nextAllowedAt (s_group s i)
      then (granted, False, False, s)
      else if s_ctxDone s w then drain_loop i budget next granted s
      else if matchingHold (w_client (s_waiter s w)) (w_provider (s_waiter s w)) s \<noteq> None
      then drain_loop i budget next granted s
      else case admitLocked i (w_provider (s_waiter s w)) (w_estTokens (s_waiter s w)) s of
        (ok, lease, wait, gateBlocked, s1) \<Rightarrow>
          if \<not> ok then
            (granted, gateBlocked, False,
             if wait > 0 then armThrottleDrain (w_provider (s_waiter s w)) wait s1 else s1)
          else drain_loop i budget next (granted + 1) (grant_waiter i w lease s1))"

definition drainLimited :: "nat \<Rightarrow> int \<Rightarrow> Scheduler \<Rightarrow> int \<times> Scheduler" where
  "drainLimited i budget s =
     (case drain_loop i budget (g_queue (s_group s i)) 0 s of
        (granted, refused, budgetStop, s1) \<Rightarrow>
          let s2 = (if granted > 0 then armRampStep i (syncQueue i s1) else s1);
              s3 = (if \<not> refused \<and> \<not> budgetStop then clearGateWaiting i s2 else s2)
          in (granted, s3))"

definition drain :: "nat \<Rightarrow> Scheduler \<Rightarrow> Scheduler" where
  "drain i s = snd (drainLimited i 0 s)"


section \<open>What admission leaves alone\<close>

text \<open>
  Everything of a group except its ramp epoch and its fair-waiting and queued witnesses, and
  everything of the scheduler except the other fields of groups and indices and the gates.
\<close>

definition static :: "group \<Rightarrow> group" where
  "static g = g\<lparr>g_ramp := zero_ramp, g_gateWaiting := False, g_fairNode := None, g_hasQueued := False\<rparr>"

definition adm_frame :: "Scheduler \<Rightarrow> Scheduler \<Rightarrow> bool" where
  "adm_frame s s' \<longleftrightarrow> (\<forall>j. static (s_group s' j) = static (s_group s j))
     \<and> (\<forall>x. pi_groups (s_index s' x) = pi_groups (s_index s x))
     \<and> s'\<lparr>s_group := s_group s, s_index := s_index s, s_gate := s_gate s, s_panic := s_panic s\<rparr> = s"

named_theorems frames \<open>what an operation keeps within the frame of admission\<close>

lemma adm_frame_refl [frames, simp]: "adm_frame s s"
  by (simp add: adm_frame_def)

lemma adm_frame_trans: "adm_frame s t \<Longrightarrow> adm_frame t u \<Longrightarrow> adm_frame s u"
  by (cases s; cases t; cases u; simp add: adm_frame_def)

lemma staticD:
  assumes "static g = static h"
  shows "g_key g = g_key h" "g_provider g = g_provider h" "g_providerIdx g = g_providerIdx h"
    "g_providerNode g = g_providerNode h" "g_idleNode g = g_idleNode h" "g_idleListed g = g_idleListed h"
    "g_retired g = g_retired h" "g_maxConcurrent g = g_maxConcurrent h" "g_inFlight g = g_inFlight h"
    "g_nextAllowedAt g = g_nextAllowedAt h" "g_queue g = g_queue h" "g_providerQueued g = g_providerQueued h"
    "g_providerFair g = g_providerFair h" "g_backoff g = g_backoff h" "g_requestBackoff g = g_requestBackoff h"
    "g_tripped g = g_tripped h" "g_probing g = g_probing h" "g_sendWaiters g = g_sendWaiters h"
    "g_sendKick g = g_sendKick h" "g_pacer g = g_pacer h"
  using assms by (cases g; cases h; simp add: static_def)+

lemma adm_frameD:
  assumes "adm_frame s s'"
  shows "s_opts s' = s_opts s" "s_groups s' = s_groups s" "s_groupCap s' = s_groupCap s"
    "s_providerGroups s' = s_providerGroups s" "s_idle s' = s_idle s" "s_pacing s' = s_pacing s"
    "s_policy s' = s_policy s" "s_kick s' = s_kick s" "s_holdCount s' = s_holdCount s" "s_gates s' = s_gates s"
    "s_gateSnap s' = s_gateSnap s" "s_drains s' = s_drains s" "s_waiter s' = s_waiter s" "s_next s' = s_next s"
    "s_holdSeq s' = s_holdSeq s" "s_now s' = s_now s" "s_ctxDone s' = s_ctxDone s" "s_log s' = s_log s"
    "s_storms s' = s_storms s"
  using assms by (cases s; cases s'; simp add: adm_frame_def)+

lemma adm_frame_group: "adm_frame s s' \<Longrightarrow> static (s_group s' j) = static (s_group s j)"
  by (simp add: adm_frame_def)

lemma adm_frame_index: "adm_frame s s' \<Longrightarrow> pi_groups (s_index s' x) = pi_groups (s_index s x)"
  by (simp add: adm_frame_def)

lemmas adm_frame_fields = staticD [OF adm_frame_group]

lemma static_simps [simp]:
  "static (g\<lparr>g_ramp := r\<rparr>) = static g" "static (g\<lparr>g_gateWaiting := b\<rparr>) = static g"
  "static (g\<lparr>g_fairNode := n\<rparr>) = static g" "static (g\<lparr>g_hasQueued := b\<rparr>) = static g"
  by (simp_all add: static_def)

lemma adm_frame_upds [frames]:
  "(\<And>g. static (f g) = static g) \<Longrightarrow> adm_frame s (upd_group i f t) = adm_frame s t"
  "(\<And>idx. pi_groups (h idx) = pi_groups idx) \<Longrightarrow> adm_frame s (upd_index x h t) = adm_frame s t"
  "adm_frame s (upd_gate q k t) = adm_frame s t"
  "adm_frame s (t\<lparr>s_panic := b\<rparr>) = adm_frame s t"
  by (auto simp: adm_frame_def upd_group_def upd_index_def upd_gate_def)

lemma markFair_frame [frames]: "adm_frame s (markFair x i t) = adm_frame s t"
  by (simp add: markFair_def Let_def frames)

lemma clearFair_frame [frames]: "adm_frame s (clearFair x i t) = adm_frame s t"
  by (simp add: clearFair_def Let_def frames)

lemma markGateWaiting_frame [frames]: "adm_frame s (markGateWaiting i t) = adm_frame s t"
  by (simp add: markGateWaiting_def Let_def frames split: option.split)

lemma clearGateWaiting_frame [frames]: "adm_frame s (clearGateWaiting i t) = adm_frame s t"
  by (simp add: clearGateWaiting_def frames split: option.split)

lemma syncQueue_frame [frames]: "adm_frame s (syncQueue i t) = adm_frame s t"
  by (simp add: syncQueue_def Let_def frames split: option.split)

lemma armThrottleDrain_frame [frames]: "adm_frame s (armThrottleDrain p d t) = adm_frame s t"
  by (simp add: armThrottleDrain_def Let_def frames split: option.split)

lemma armRampStep_frame [frames]: "adm_frame s (armRampStep i t) = adm_frame s t"
  by (simp add: armRampStep_def Let_def frames split: prod.split)

lemma tryAdmit_frame [frames]: "tryAdmit p est t = (ok, lease, wait, t') \<Longrightarrow> adm_frame s t' = adm_frame s t"
  by (auto simp: tryAdmit_def frames split: option.splits prod.splits)

lemma gate_refused_frame [frames]: "gate_refused i t = (b, t') \<Longrightarrow> adm_frame s t' = adm_frame s t"
  by (auto simp: gate_refused_def frames split: if_splits)

lemma admitLocked_frame: "admitLocked i p est s = (ok, lease, wait, gb, s') \<Longrightarrow> adm_frame s s'"
  by (auto simp: admitLocked_def Let_def frames dest!: tryAdmit_frame [of _ _ _ _ _ _ _ s] gate_refused_frame [of _ _ _ _ s]
      split: prod.splits if_splits)


section \<open>Progress\<close>

text \<open>A pass shortens the queue of its own group by the number of its grants and touches no other queue.\<close>

definition shortens :: "nat \<Rightarrow> int \<Rightarrow> Scheduler \<Rightarrow> Scheduler \<Rightarrow> bool" where
  "shortens i n s s' \<longleftrightarrow> 0 \<le> n \<and> int (length (g_queue (s_group s i))) = int (length (g_queue (s_group s' i))) + n
     \<and> (\<forall>j. j \<noteq> i \<longrightarrow> g_queue (s_group s' j) = g_queue (s_group s j))"

lemma shortens_frame: "shortens i n s t \<Longrightarrow> adm_frame t u \<Longrightarrow> shortens i n s u"
  using adm_frame_fields(11) [of t u] by (simp add: shortens_def)

lemma frame_shortens: "adm_frame s t \<Longrightarrow> shortens i n t u \<Longrightarrow> shortens i n s u"
  using adm_frame_fields(11) [of s t] by (simp add: shortens_def)

lemma grant_waiter_fields [simp]:
  "g_queue (s_group (grant_waiter i w a s) j) =
     (if j = i then remove1 w (g_queue (s_group s i)) else g_queue (s_group s j))"
  "g_inFlight (s_group (grant_waiter i w a s) j) =
     (if j = i then g_inFlight (s_group s i) + 1 else g_inFlight (s_group s j))"
  by (simp_all add: grant_waiter_def upd_group_def upd_waiter_def)

lemma shortens_grant:
  assumes "w \<in> set (g_queue (s_group s i))" and "shortens i n (grant_waiter i w a s) u"
  shows "shortens i (n + 1) s u"
  using assms length_pos_if_in_set [OF assms(1)] by (auto simp: shortens_def length_remove1)

text \<open>
  The cases of the loop: the waiter may be granted now (\<open>eligible\<close>: neither cancelled nor held),
  and the group's own window and cap are open.
\<close>

definition eligible :: "nat \<Rightarrow> Scheduler \<Rightarrow> bool" where
  "eligible w s \<longleftrightarrow> \<not> s_ctxDone s w \<and> matchingHold (w_client (s_waiter s w)) (w_provider (s_waiter s w)) s = None"

abbreviation group_open :: "nat \<Rightarrow> Scheduler \<Rightarrow> bool" where
  "group_open i s \<equiv> admissionWindowOpen (s_now s) (s_group s i)"

abbreviation admit_for :: "nat \<Rightarrow> nat \<Rightarrow> Scheduler \<Rightarrow> bool \<times> admission \<times> duration \<times> bool \<times> Scheduler" where
  "admit_for i w s \<equiv> admitLocked i (w_provider (s_waiter s w)) (w_estTokens (s_waiter s w)) s"

lemma drain_loop_rule [case_names stop budget closed skip refuse take]:
  assumes "\<And>k s. Q [] k s (k, False, False, s)"
    and "\<And>w ns k s. 0 < budget \<Longrightarrow> budget \<le> k \<Longrightarrow> Q (w # ns) k s (k, False, True, s)"
    and "\<And>w ns k s. \<not> group_open i s \<Longrightarrow> Q (w # ns) k s (k, False, False, s)"
    and "\<And>w ns k s r. group_open i s \<Longrightarrow> \<not> eligible w s \<Longrightarrow> Q ns k s r \<Longrightarrow> Q (w # ns) k s r"
    and "\<And>w ns k s lease wait gb s1. group_open i s \<Longrightarrow> eligible w s \<Longrightarrow> admit_for i w s = (False, lease, wait, gb, s1) \<Longrightarrow>
      Q (w # ns) k s (k, gb, False, if wait > 0 then armThrottleDrain (w_provider (s_waiter s w)) wait s1 else s1)"
    and "\<And>w ns k s lease wait gb s1 r. group_open i s \<Longrightarrow> eligible w s \<Longrightarrow> \<not> (0 < budget \<and> budget \<le> k) \<Longrightarrow>
      admit_for i w s = (True, lease, wait, gb, s1) \<Longrightarrow> Q ns (k + 1) (grant_waiter i w lease s1) r \<Longrightarrow> Q (w # ns) k s r"
  shows "Q ns k s (drain_loop i budget ns k s)"
proof (induction ns arbitrary: k s)
  case Nil
  show ?case by (simp add: assms(1))
next
  case (Cons w ns)
  obtain ok lease wait gb s1 where ad: "admit_for i w s = (ok, lease, wait, gb, s1)" by (metis prod_cases5)
  show ?case
    using assms(2) [of k w ns s] assms(3) [of s w ns k] assms(4) [where s = s and w = w and ns = ns and k = k, OF _ _ Cons]
      ad assms(5) [of s w lease wait gb s1 ns k]
      assms(6) [where s = s and w = w and ns = ns and k = k and ?s1.0 = s1, OF _ _ _ _ Cons]
    by (cases ok) (auto simp: admissionWindowOpen_def eligible_def)
qed

lemma mset_Cons_subset:
  "mset (w # ns) \<subseteq># mset q \<Longrightarrow> mset ns \<subseteq># mset q" "mset (w # ns) \<subseteq># mset q \<Longrightarrow> w \<in> set q"
  "mset (w # ns) \<subseteq># mset q \<Longrightarrow> mset ns \<subseteq># mset (remove1 w q)"
  by (auto simp: insert_subset_eq_iff intro: subset_mset.trans [OF _ diff_subset_eq_self])

lemma shortens_refl: "shortens i 0 s s"
  by (simp add: shortens_def)

lemma drain_loop_shortens:
  assumes "drain_loop i budget ns k s = (k', refused, budgetStop, s')"
    and "mset ns \<subseteq># mset (g_queue (s_group s i))"
  shows "shortens i (k' - k) s s'"
proof -
  define Q where "Q ns k s r \<longleftrightarrow> (mset ns \<subseteq># mset (g_queue (s_group s i)) \<longrightarrow>
      (case r of (k' :: int, _ :: bool, _ :: bool, s') \<Rightarrow> shortens i (k' - k) s s'))" for ns k s r
  have "Q ns k s (drain_loop i budget ns k s)"
  proof (induction rule: drain_loop_rule)
    case (skip w ns k s r)
    then show ?case using mset_Cons_subset(1) [of w ns] by (auto simp: Q_def)
  next
    case (refuse w ns k s lease wait gb s1)
    then show ?case
      using shortens_frame [OF shortens_refl admitLocked_frame [OF refuse(3)], of i]
        shortens_frame [of i 0 s s1 "armThrottleDrain (w_provider (s_waiter s w)) wait s1"]
      by (simp add: Q_def frames)
  next
    case (take w ns k s lease wait gb s1 r)
    note fr = admitLocked_frame [OF take(4)]
    show ?case unfolding Q_def
    proof (intro impI, cases r)
      fix k' a b s' assume sub: "mset (w # ns) \<subseteq># mset (g_queue (s_group s i))" and r: "r = (k', a, b, s')"
      have q: "g_queue (s_group s1 i) = g_queue (s_group s i)" by (rule adm_frame_fields(11) [OF fr])
      have "shortens i (k' - (k + 1)) (grant_waiter i w lease s1) s'"
        using take(5) mset_Cons_subset(3) [OF sub] by (simp add: Q_def r q)
      then have "shortens i (k' - k) s1 s'"
        using shortens_grant [of w s1 i] mset_Cons_subset(2) [OF sub] q by fastforce
      then show "case r of (k', _, _, s') \<Rightarrow> shortens i (k' - k) s s'"
        using frame_shortens [OF fr] by (simp add: r)
    qed
  qed (auto simp: Q_def shortens_refl)
  with assms show ?thesis by (simp add: Q_def)
qed

lemma drainLimited_shortens:
  assumes "drainLimited i budget s = (granted, s')" shows "shortens i granted s s'"
proof -
  obtain k r b s1 where lp: "drain_loop i budget (g_queue (s_group s i)) 0 s = (k, r, b, s1)"
    by (metis prod_cases4)
  have "shortens i granted s s1" and "adm_frame s1 s'"
    using drain_loop_shortens [OF lp] assms by (auto simp: drainLimited_def lp Let_def frames)
  then show ?thesis by (rule shortens_frame)
qed

end
