(* ===== verification/Provider_Drain.thy ===== *)
theory Provider_Drain
  imports Admission
begin

text \<open>
  The fair drain of one provider and the operations that end in it (\<^verbatim>\<open>throttle.go\<close>,
  \<^verbatim>\<open>scheduler_admission.go\<close>, \<^verbatim>\<open>scheduler.go\<close>): one pass over the fair-waiting groups with one grant per
  group, passes repeated while they grant, and the drain of everything after a policy
  change. The passes terminate because a grant removes a waiter from a queue. Where the
  code ranges over a Go map the model takes the order of the association list.
\<close>

section \<open>The provider drain\<close>

text \<open>One pass: the number of grants, the last group that granted, and whether the cap filled up.\<close>

fun drain_pass :: "string \<Rightarrow> nat list \<Rightarrow> nat \<Rightarrow> nat option \<Rightarrow> Scheduler \<Rightarrow> nat \<times> nat option \<times> bool \<times> Scheduler" where
  "drain_pass provider [] granted lst s = (granted, lst, False, s)"
| "drain_pass provider (i # is) granted lst s =
     (if \<not> g_gateWaiting (s_group s i) \<or> \<not> g_hasQueued (s_group s i) then drain_pass provider is granted lst s
      else case drainLimited i 1 s of
        (n, s1) \<Rightarrow>
          if n > 0 then
            if providerConcurrencyFull provider s1 then (granted + 1, Some i, True, s1)
            else drain_pass provider is (granted + 1) (Some i) s1
          else drain_pass provider is granted lst s1)"

definition queued_work :: "nat list \<Rightarrow> Scheduler \<Rightarrow> nat" where
  "queued_work is s = (\<Sum>i\<in>set is. length (g_queue (s_group s i)))"

lemma drainLimited_work:
  assumes "drainLimited i budget s = (n, s')" and "i \<in> set js"
  shows "int (queued_work js s) = int (queued_work js s') + n" "0 \<le> n"
proof -
  note sh = drainLimited_shortens [OF assms(1)]
  have split: "queued_work js t = length (g_queue (s_group t i)) + (\<Sum>j\<in>set js - {i}. length (g_queue (s_group t j)))" for t
    using assms(2) by (simp add: queued_work_def sum.remove)
  have "(\<Sum>j\<in>set js - {i}. length (g_queue (s_group s' j))) = (\<Sum>j\<in>set js - {i}. length (g_queue (s_group s j)))"
    using sh by (intro sum.cong) (auto simp: shortens_def)
  then show "int (queued_work js s) = int (queued_work js s') + n" "0 \<le> n"
    using sh by (simp_all add: split shortens_def)
qed

lemma drain_pass_work:
  "drain_pass provider is k lst s = (k', lst', full, s') \<Longrightarrow> set is \<subseteq> set js
     \<Longrightarrow> k \<le> k' \<and> queued_work js s' + k' \<le> queued_work js s + k"
proof (induction provider "is" k lst s rule: drain_pass.induct)
  case (1 provider granted lst s)
  then show ?case by simp
next
  case (2 provider i "is" k lst s)
  obtain n s1 where dl: "drainLimited i 1 s = (n, s1)" by fastforce
  have w: "int (queued_work js s) = int (queued_work js s1) + n" "0 \<le> n"
    using drainLimited_work [OF dl] 2 by auto
  show ?case
  proof (cases "\<not> g_gateWaiting (s_group s i) \<or> \<not> g_hasQueued (s_group s i)")
    case True
    then show ?thesis using "2.IH"(1) "2.prems" by simp
  next
    case False
    then show ?thesis
      using "2.IH"(2,3) [OF False dl [symmetric]] "2.prems" w by (auto simp: dl split: if_splits)
  qed
qed

function drain_passes :: "string \<Rightarrow> nat list \<Rightarrow> nat option \<Rightarrow> Scheduler \<Rightarrow> nat option \<times> Scheduler" where
  "drain_passes provider groups served s =
     (case drain_pass provider groups 0 None s of
        (granted, lst, full, s1) \<Rightarrow>
          if full then (lst, s1)
          else if granted = 0 then (served, s1)
          else drain_passes provider groups lst s1)"
  by pat_completeness auto

termination
  by (relation "measure (\<lambda>(provider, groups, served, s). queued_work groups s)")
     (auto dest: drain_pass_work [OF sym subset_refl])

declare drain_passes.simps [simp del]

definition drainProvider_named :: "string \<Rightarrow> Scheduler \<Rightarrow> Scheduler" where
  "drainProvider_named provider s =
     (case map_of (s_providerGroups s) provider of
        None \<Rightarrow> s
      | Some x \<Rightarrow>
          if pi_fairCount (s_index s x) = 0 then s
          else if providerConcurrencyFull provider s then s
          else
            case fairSnapshot (s_index s x) of
              (groups, idx) \<Rightarrow>
                let s1 = upd_index x (\<lambda>_. idx) s
                in if groups = [] then s1
                   else case drain_passes provider groups None s1 of
                     (served, s2) \<Rightarrow>
                       (case served of
                          None \<Rightarrow> s2
                        | Some i \<Rightarrow> upd_index x (advanceFair i) s2))"


section \<open>Draining everything\<close>

definition snapshotGroups :: "Scheduler \<Rightarrow> nat list" where
  "snapshotGroups s = map snd (s_groups s)"

text \<open>The scan of \<^verbatim>\<open>drainAll\<close>: the unattributed groups and the providers with queued work.\<close>

fun drainAll_scan :: "nat list \<Rightarrow> nat list \<Rightarrow> string list \<Rightarrow> Scheduler \<Rightarrow> nat list \<times> string list \<times> Scheduler" where
  "drainAll_scan [] locals providers s = (locals, providers, s)"
| "drainAll_scan (i # is) locals providers s =
     (let provider = g_provider (s_group s i);
          queued = (g_queue (s_group s i) \<noteq> []);
          s1 = (if provider \<noteq> [] \<and> queued then markGateWaiting i s else s)
      in if provider = [] then drainAll_scan is (locals @ [i]) providers s1
         else if queued then drainAll_scan is locals (List.insert provider providers) s1
         else drainAll_scan is locals providers s1)"

definition drainAll :: "Scheduler \<Rightarrow> Scheduler" where
  "drainAll s =
     (case drainAll_scan (snapshotGroups s) [] [] s of
        (locals, providers, s1) \<Rightarrow> fold drainProvider_named providers (fold drain locals s1))"

definition drainProvider :: "string \<Rightarrow> Scheduler \<Rightarrow> Scheduler" where
  "drainProvider provider s = (if provider = [] then drainAll s else drainProvider_named provider s)"

definition drainAdmission :: "nat \<Rightarrow> Scheduler \<Rightarrow> Scheduler" where
  "drainAdmission i s =
     (let provider = g_provider (s_group s i)
      in if provider \<noteq> [] then drainProvider provider (markGateWaiting i s) else drain i s)"

fun mark_queued :: "nat list \<Rightarrow> Scheduler \<Rightarrow> Scheduler" where
  "mark_queued [] s = s"
| "mark_queued (i # is) s =
     (if \<not> g_hasQueued (s_group s i) then mark_queued is s
      else mark_queued is (if g_queue (s_group s i) \<noteq> [] then markGateWaiting i s else s))"

definition markQueuedProviderGroups :: "string \<Rightarrow> Scheduler \<Rightarrow> Scheduler" where
  "markQueuedProviderGroups provider s =
     (case map_of (s_providerGroups s) provider of
        None \<Rightarrow> s
      | Some x \<Rightarrow> if pi_queued (s_index s x) = 0 then s else mark_queued (snapshotAll (s_index s x)) s)"

definition drainProviderWake :: "string \<Rightarrow> Scheduler \<Rightarrow> Scheduler" where
  "drainProviderWake provider s =
     drainProvider provider (if providerRamps provider s then markQueuedProviderGroups provider s else s)"

definition kickPolicy :: "Scheduler \<Rightarrow> Scheduler" where
  "kickPolicy s = s\<lparr>s_kick := s_kick s + 1\<rparr>"

definition kickThrottles :: "Scheduler \<Rightarrow> Scheduler" where
  "kickThrottles s = drainAll (kickPolicy s)"


section \<open>Leaving\<close>

definition release :: "nat \<Rightarrow> Scheduler \<Rightarrow> Scheduler" where
  "release i s =
     (let s1 = (if g_inFlight (s_group s i) > 0 then upd_group i (\<lambda>g. g\<lparr>g_inFlight := g_inFlight g - 1\<rparr>) s else s)
      in drainAdmission i (markGroupIdle i s1))"

text \<open>The closure \<^verbatim>\<open>slotRelease\<close> returns: its \<^verbatim>\<open>sync.Once\<close> and what it captured.\<close>

record Release =
  r_once :: bool
  r_group :: nat
  r_admission :: admission

definition slotRelease :: "nat \<Rightarrow> admission \<Rightarrow> Release" where
  "slotRelease i a = \<lparr>r_once = False, r_group = i, r_admission = a\<rparr>"

definition call_Release :: "int \<Rightarrow> Release \<Rightarrow> Scheduler \<Rightarrow> Release \<times> Scheduler" where
  "call_Release actual r s =
     (if r_once r then (r, s)
      else (r\<lparr>r_once := True\<rparr>, release (r_group r) (settle_lease actual (r_admission r) s)))"

text \<open>\<^verbatim>\<open>dropHold\<close> of a waiter of the heap, with its callback recorded.\<close>

definition put_attribution :: "nat \<Rightarrow> holdCounts \<times> waiter \<times> hook list \<Rightarrow> Scheduler \<Rightarrow> Scheduler" where
  "put_attribution w r s =
     (case r of (c, x, ev) \<Rightarrow>
        upd_waiter w (\<lambda>_. x) (s\<lparr>s_holdCount := c, s_log := s_log s @ map (Pair w) ev\<rparr>))"

definition dropHold_of :: "nat \<Rightarrow> Scheduler \<Rightarrow> Scheduler" where
  "dropHold_of w s = put_attribution w (dropHold (s_holdCount s) (s_waiter s w)) s"

definition adoptHold_of :: "nat \<Rightarrow> holdSnap option \<Rightarrow> Scheduler \<Rightarrow> Scheduler" where
  "adoptHold_of w oh s = put_attribution w (adoptHold oh (s_holdCount s) (s_waiter s w)) s"

text \<open>The locked section of \<^verbatim>\<open>removeWaiter\<close>, then the whole of it.\<close>

definition unqueue_waiter :: "nat \<Rightarrow> nat \<Rightarrow> Scheduler \<Rightarrow> bool \<times> Scheduler" where
  "unqueue_waiter i w s =
     (let q = g_queue (s_group s i);
          found = (w \<in> set q);
          headRemoved = (found \<and> hd q = w);
          s1 = (if \<not> found then
                  let s' = settle_lease 0 (w_admission (s_waiter s w)) s
                  in if g_inFlight (s_group s' i) > 0
                     then upd_group i (\<lambda>g. g\<lparr>g_inFlight := g_inFlight g - 1\<rparr>) s' else s'
                else syncQueue i (upd_group i (\<lambda>g. g\<lparr>g_queue := remove1 w (g_queue g)\<rparr>) s))
      in (headRemoved \<or> \<not> found, markGroupIdle i s1))"

definition removeWaiter :: "nat \<Rightarrow> nat \<Rightarrow> Scheduler \<Rightarrow> Scheduler" where
  "removeWaiter i w s =
     (case unqueue_waiter i w s of
        (again, s1) \<Rightarrow>
          let s2 = dropHold_of w s1
          in if again then drainAdmission i s2 else s2)"

end
