(* ===== verification/Lease_Ledger.thy ===== *)
theory Lease_Ledger
  imports Provider_Drain
begin

text \<open>
  The token account of a provider gate (\<^verbatim>\<open>internal/scheduler/throttle.go\<close>) over its whole history: what admissions
  reserve, what settlements charge, and what refills earn, and the closure \<^verbatim>\<open>slotRelease\<close> hands to the caller, through
  which a lease is settled at most once.
\<close>

section \<open>The ledger\<close>

text \<open>What the refill at an instant adds to the bucket, or takes from one above its capacity.\<close>

definition earned :: "time \<Rightarrow> providerGate \<Rightarrow> rat" where
  "earned now g = b_tokens (refill now (pg_tok g)) - b_tokens (pg_tok g)"

text \<open>What a settlement charges in the end: the actual usage, or the reservation where it is unavailable.\<close>

definition charge :: "int \<Rightarrow> admission \<Rightarrow> int" where
  "charge actual a = (if 0 \<le> actual then actual else adm_reserved a)"

text \<open>
  The histories of one gate from \<open>g0\<close> on, under every operation that touches it, within one incarnation of its
  bucket: the gate, the leases outstanding, the sum of the charges settled, and the sum of the refills. Every operation
  has its own clock reading; a refused attempt reads the clock once. A new limit that keeps the bucket enabled counts
  the tokens it grants or withdraws as a refill.
\<close>

inductive gate_ledger :: "nat \<Rightarrow> providerGate \<Rightarrow> providerGate \<Rightarrow> admission multiset \<Rightarrow> int \<Rightarrow> rat \<Rightarrow> bool" for i g0 where
  gl_start: "gate_ledger i g0 g0 {#} 0 0"
| gl_admit: "\<lbrakk> gate_ledger i g0 g L C R; limit_Active (t_Limit (pg_throttle g));
     gate_tryAdmit i est now nowW nowA g = (True, a, wait, g') \<rbrakk>
   \<Longrightarrow> gate_ledger i g0 g' (add_mset a L) C (R + earned now g)"
| gl_free: "\<lbrakk> gate_ledger i g0 g L C R; \<not> limit_Active (t_Limit (pg_throttle g));
     gate_tryAdmit i est now nowW nowA g = (ok, a, wait, g') \<rbrakk>
   \<Longrightarrow> gate_ledger i g0 g' L C R"
| gl_refuse: "\<lbrakk> gate_ledger i g0 g L C R; gate_tryAdmit i est now now nowA g = (False, a, wait, g') \<rbrakk>
   \<Longrightarrow> gate_ledger i g0 g' L C (R + earned now g)"
| gl_settle: "\<lbrakk> gate_ledger i g0 g L C R; a \<in># L \<rbrakk>
   \<Longrightarrow> gate_ledger i g0 (gate_settle actual now a g) (L - {#a#}) (C + charge actual a) (R + earned now g)"
| gl_policy: "\<lbrakk> gate_ledger i g0 g L C R; g' = resetBuckets (t_Limit t) now (g\<lparr>pg_throttle := t\<rparr>); pg_tokEpoch g' = pg_tokEpoch g \<rbrakk>
   \<Longrightarrow> gate_ledger i g0 g' L C (R + (b_tokens (pg_tok g') - b_tokens (pg_tok g)))"
| gl_clear: "gate_ledger i g0 g L C R \<Longrightarrow> gate_ledger i g0 (g\<lparr>pg_throttle := zero_throttle\<rparr>) L C R"
| gl_snapshot: "gate_ledger i g0 g L C R \<Longrightarrow> gate_ledger i g0 (snd (gate_snapshot queued now g)) L C (R + earned now g)"

definition reserved_sum :: "admission multiset \<Rightarrow> int" where
  "reserved_sum L = sum_mset (image_mset adm_reserved L)"

text \<open>The account balances.\<close>

definition balanced_account :: "providerGate \<Rightarrow> providerGate \<Rightarrow> admission multiset \<Rightarrow> int \<Rightarrow> rat \<Rightarrow> bool" where
  "balanced_account g0 g L C R \<longleftrightarrow> b_enabled (pg_tok g) \<and> pg_tokEpoch g = pg_tokEpoch g0
     \<and> (\<forall>a \<in># L. adm_tokEpoch a = pg_tokEpoch g0)
     \<and> b_tokens (pg_tok g) = b_tokens (pg_tok g0) + R - of_int (reserved_sum L) - of_int C"

lemma refused_bucket:
  assumes "gate_tryAdmit i est now now nowA g = (False, a, wait, g')"
  shows "pg_tok g' = refill now (pg_tok g)" "pg_tokEpoch g' = pg_tokEpoch g"
proof -
  have again: "refill now (refill now b) = refill now b" for b
    using refill_again [of now "b_tokens (refill now b)" b] by simp
  have w: "snd (bucket_waitFor n now (refill now b)) = refill now b" for n b
    by (simp add: bucket_waitFor_def Let_def again)
  have bl: "limit_Active (t_Limit (pg_throttle g))" "gate_blocked est now now g = (True, wait, g')"
    using assms by (cases rule: gate_tryAdmit_cases; simp)+
  show "pg_tok g' = refill now (pg_tok g)"
    using bl w by (auto simp: gate_blocked_def Let_def prod_eq_iff split: if_splits prod.splits)
  show "pg_tokEpoch g' = pg_tokEpoch g" using gate_blocked_frame [OF bl(2)] by simp
qed

lemma ledger_admit:
  assumes ok: "balanced_account g0 g L C R" and act: "limit_Active (t_Limit (pg_throttle g))"
    and r: "gate_tryAdmit i est now nowW nowA g = (True, a, wait, g')"
  shows "balanced_account g0 g' (add_mset a L) C (R + earned now g)"
  using r
proof (cases rule: gate_tryAdmit_cases)
  case (granted g1)
  have t1: "pg_tok g1 = refill now (pg_tok g)" using gate_blocked_False(2) [OF granted(3,1)] .
  have "pg_tok g' = (refill now (pg_tok g))\<lparr>b_tokens := b_tokens (refill now (pg_tok g)) - of_int (adm_reserved a)\<rparr>"
    "pg_tokEpoch g' = pg_tokEpoch g" "adm_tokEpoch a = pg_tokEpoch g"
    using granted t1 gate_blocked_frame [OF granted(3)] by simp_all
  then show ?thesis using ok by (simp add: balanced_account_def earned_def reserved_sum_def)
qed (use act in simp_all)

lemma ledger_settle:
  assumes ok: "balanced_account g0 g L C R" and a: "a \<in># L"
  shows "balanced_account g0 (gate_settle actual now a g) (L - {#a#}) (C + charge actual a) (R + earned now g)"
proof -
  have "reserved_sum L = adm_reserved a + reserved_sum (L - {#a#})"
    using sum_reserved_split [OF a] by (simp add: reserved_sum_def)
  then show ?thesis
    using ok a by (auto simp: balanced_account_def gate_settle_tok Let_def earned_def charge_def dest: in_diffD)
qed

lemma ledger_balances:
  assumes "gate_ledger i g0 g L C R" "b_enabled (pg_tok g0)"
  shows "balanced_account g0 g L C R"
  using assms
proof (induction rule: gate_ledger.induct)
  case gl_start
  then show ?case by (simp add: balanced_account_def reserved_sum_def)
next
  case (gl_admit g L C R est now nowW nowA a wait g')
  then show ?case by (blast intro: ledger_admit)
next
  case (gl_free g L C R est now nowW nowA ok a wait g')
  then show ?case by (simp add: gate_tryAdmit_def)
next
  case (gl_refuse g L C R est now nowA a wait g')
  then show ?case using refused_bucket [OF gl_refuse.hyps(2)] by (simp add: balanced_account_def earned_def)
next
  case (gl_settle g L C R a actual now)
  then show ?case by (blast intro: ledger_settle)
next
  case (gl_policy g L C R g' t now)
  then have "b_enabled (pg_tok g') = b_enabled (pg_tok g)"
    by (auto simp: resetBuckets_def Let_def bucket_reset_enabled split: if_splits)
  then show ?case using gl_policy by (simp add: balanced_account_def)
next
  case (gl_clear g L C R)
  then show ?case by (simp add: balanced_account_def)
next
  case (gl_snapshot g L C R queued now)
  then show ?case
    by (auto simp: balanced_account_def earned_def gate_snapshot_def Let_def split: prod.splits)
qed

text \<open>
  C7. A lease charges the token bucket exactly once. Over every history of a gate within one incarnation of its bucket,
  with admissions, refusals, settlements, policy resizes and snapshots interleaved at any clock readings, the bucket holds what it held at the start, plus what
  the refills at these readings earned, minus the reservations of the leases outstanding, minus for every lease settled its actual usage
  (its reservation where the usage is unavailable). A lease of another incarnation never touches the bucket. And the
  closure through which a lease is settled settles it on its first call only: it then frees the group's slot, and every further
  call, with whatever usage and in whatever state, changes nothing.
\<close>

theorem lease_charges_actual_usage_once:
  assumes "gate_ledger i g0 g L C R" "b_enabled (pg_tok g0)"
  shows "b_tokens (pg_tok g) =
      b_tokens (pg_tok g0) + R - of_int (sum_mset (image_mset adm_reserved L)) - of_int C
    \<and> (pg_tokEpoch h \<noteq> adm_tokEpoch a \<longrightarrow> pg_tok (gate_settle actual now a h) = pg_tok h)
    \<and> (case call_Release actual (slotRelease q a) s of
         (r, s') \<Rightarrow> s' = release q (settle_lease actual a s) \<and> call_Release actual' r t = (r, t))"
  using ledger_balances [OF assms]
  by (simp add: balanced_account_def reserved_sum_def gate_settle_tok call_Release_def slotRelease_def)

text \<open>
  A request that reserves 40 of 100 tokens and uses 25 is settled six seconds later, when the bucket has earned ten.
\<close>

definition demo_lease :: admission where
  "demo_lease = \<lparr>adm_gate = Some 7, adm_reserved = 40, adm_tokEpoch = 1\<rparr>"

definition demo_leased :: providerGate where
  "demo_leased = demo_gate\<lparr>pg_inFlight := 1, pg_reserved := 40, pg_tok := (pg_tok demo_gate)\<lparr>b_tokens := 60\<rparr>\<rparr>"

lemma demo_ledger: "gate_ledger 7 demo_gate (gate_settle 25 (1000 + 6 * second) demo_lease demo_leased) {#} 25 10"
proof -
  have "limit_Active (t_Limit (pg_throttle demo_gate))" by (simp add: demo_eval)
  from gl_admit [OF gl_start this demo_admit, folded demo_lease_def demo_leased_def]
  have "gate_ledger 7 demo_gate demo_leased {#demo_lease#} 0 (0 + earned 1000 demo_gate)" .
  moreover have "earned 1000 demo_gate = 0" by (simp add: earned_def demo_eval)
  ultimately have "gate_ledger 7 demo_gate demo_leased {#demo_lease#} 0 0" by simp
  from gl_settle [OF this, of demo_lease 25 "1000 + 6 * second"]
  have "gate_ledger 7 demo_gate (gate_settle 25 (1000 + 6 * second) demo_lease demo_leased) {#} 25
      (earned (1000 + 6 * second) demo_leased)"
    by (simp add: charge_def)
  moreover have "earned (1000 + 6 * second) demo_leased = 10"
    by (simp add: earned_def demo_leased_def demo_eval)
  ultimately show ?thesis by simp
qed

theorem lease_charges_actual_usage_once_witness:
  "gate_ledger 7 demo_gate (gate_settle 25 (1000 + 6 * second) demo_lease demo_leased) {#} 25 10
   \<and> b_tokens (pg_tok (gate_settle 25 (1000 + 6 * second) demo_lease demo_leased)) = 85"
proof -
  have "b_enabled (pg_tok demo_gate)" "b_tokens (pg_tok demo_gate) = 100" by (simp_all add: demo_eval)
  with lease_charges_actual_usage_once [OF demo_ledger] demo_ledger show ?thesis by auto
qed

end
