(* ===== verification/Group_Table.thy ===== *)
theory Group_Table
  imports Provider_Drain
begin

text \<open>
  The group table (\<^verbatim>\<open>scheduler_groups.go\<close>, \<^verbatim>\<open>scheduler_pacing.go\<close>): lookup and creation of a group,
  its attribution to a provider, and the eviction of the least recently idle groups, which
  hands the pacing state of a group to its successor through the pacing LRU.
\<close>

section \<open>Lookup and creation\<close>

definition new_group :: "string \<Rightarrow> int \<Rightarrow> group" where
  "new_group key maxConcurrent =
     zero_group\<lparr>g_key := key, g_maxConcurrent := maxConcurrent, g_sendKick := Some 0\<rparr>"

definition adoptPacing :: "nat \<Rightarrow> Scheduler \<Rightarrow> Scheduler" where
  "adoptPacing i s =
     (case pacing_take (g_key (s_group s i)) (s_pacing s) of
        (None, p) \<Rightarrow> s\<lparr>s_pacing := p\<rparr>
      | (Some st, p) \<Rightarrow>
          upd_group i (\<lambda>g.
            let g1 = g\<lparr>g_nextAllowedAt := ps_nextAllowedAt st, g_backoff := ps_backoff st,
                       g_requestBackoff := ps_requestBackoff st, g_tripped := ps_tripped st\<rparr>
            in if g_nextAllowedAt g1 > s_now s
               then g1\<lparr>g_pacer := armed (g_nextAllowedAt g1) False (g_pacer g1)\<rparr> else g1)
            (s\<lparr>s_pacing := p\<rparr>))"

definition groupFor :: "string \<Rightarrow> int \<Rightarrow> bool \<Rightarrow> Scheduler \<Rightarrow> nat \<times> Scheduler" where
  "groupFor key maxConcurrent applyCap s =
     (case map_of (s_groups s) key of
        None \<Rightarrow>
          let i = s_next s;
              s1 = s\<lparr>s_next := Suc i, s_group := (s_group s)(i := new_group key maxConcurrent)\<rparr>;
              s2 = adoptPacing i s1;
              s3 = s2\<lparr>s_groups := aput key i (s_groups s2)\<rparr>
          in (i, idlePush i s3)
      | Some i \<Rightarrow>
          (i, if applyCap \<and> g_maxConcurrent (s_group s i) \<noteq> maxConcurrent
              then upd_group i (\<lambda>g. g\<lparr>g_maxConcurrent := maxConcurrent\<rparr>) s else s))"

definition provider_index :: "string \<Rightarrow> Scheduler \<Rightarrow> nat \<times> Scheduler" where
  "provider_index provider s =
     (case map_of (s_providerGroups s) provider of
        Some x \<Rightarrow> (x, s)
      | None \<Rightarrow>
          let x = s_next s
          in (x, s\<lparr>s_next := Suc x, s_index := (s_index s)(x := zero_index),
                   s_providerGroups := aput provider x (s_providerGroups s)\<rparr>))"

definition attributeProvider :: "nat \<Rightarrow> string \<Rightarrow> Scheduler \<Rightarrow> Scheduler" where
  "attributeProvider i provider s =
     (if provider = [] \<or> g_provider (s_group s i) \<noteq> [] then s
      else case provider_index provider s of
        (x, s1) \<Rightarrow>
          let s2 = upd_group i (\<lambda>g. g\<lparr>g_provider := provider, g_providerIdx := Some x,
                                     g_providerQueued := Some x, g_providerFair := Some x\<rparr>) s1;
              s3 = (if g_hasQueued (s_group s2 i)
                    then upd_index x (\<lambda>idx. idx\<lparr>pi_queued := pi_queued idx + 1\<rparr>) s2 else s2)
          in linkLocked x i s3)"


section \<open>Eviction\<close>

definition detachProvider :: "nat \<Rightarrow> Scheduler \<Rightarrow> Scheduler" where
  "detachProvider i s =
     (case g_providerIdx (s_group s i) of
        None \<Rightarrow> s
      | Some x \<Rightarrow>
          let s1 = upd_group i (\<lambda>g. g\<lparr>g_providerIdx := None, g_providerFair := None\<rparr>) s;
              s2 = unlinkLocked x i s1
          in if pi_groups (s_index s2 x) = [] \<and> map_of (s_providerGroups s2) (g_provider (s_group s2 i)) = Some x
             then s2\<lparr>s_providerGroups := adel (g_provider (s_group s2 i)) (s_providerGroups s2)\<rparr> else s2)"

definition pacing_of :: "group \<Rightarrow> pacingState" where
  "pacing_of g = \<lparr>ps_nextAllowedAt = g_nextAllowedAt g, ps_backoff = g_backoff g,
     ps_requestBackoff = g_requestBackoff g, ps_tripped = g_tripped g\<rparr>"

definition evictIdleGroup :: "nat \<Rightarrow> Scheduler \<Rightarrow> bool \<times> Scheduler" where
  "evictIdleGroup i s =
     (if g_retired (s_group s i) \<or> g_inFlight (s_group s i) \<noteq> 0 \<or> g_queue (s_group s i) \<noteq> [] then (False, s)
      else
        let s1 = upd_group i (\<lambda>g. g\<lparr>g_retired := True\<rparr>) s;
            s2 = clearGateWaiting i s1;
            s3 = upd_group i (\<lambda>g. g\<lparr>g_pacer := stop (g_pacer g)\<rparr>) s2;
            pacing = pacing_of (s_group s3 i);
            s4 = snd (idleUnlink i s3);
            key = g_key (s_group s4 i)
        in if map_of (s_groups s4) key \<noteq> Some i then (False, s4)
           else
             let s5 = detachProvider i (s4\<lparr>s_groups := adel key (s_groups s4)\<rparr>)
             in (True,
                 if \<not> IsZero (ps_nextAllowedAt pacing) \<or> ps_backoff pacing \<noteq> 0 \<or> ps_requestBackoff pacing \<noteq> 0
                    \<or> ps_tripped pacing
                 then s5\<lparr>s_pacing := pacing_put key pacing (s_pacing s5)\<rparr> else s5))"

text \<open>The loop ends only if every idle group it pops leaves the idle order, so it is a partial function.\<close>

partial_function (option) makeGroupRoom :: "Scheduler \<Rightarrow> Scheduler option" where
  "makeGroupRoom s =
     (if length (s_groups s) \<ge> s_groupCap s then
        (case popIdleGroup s of
           (None, s1) \<Rightarrow> Some s1
         | (Some i, s1) \<Rightarrow> makeGroupRoom (snd (evictIdleGroup i s1)))
      else Some s)"

definition acquire_lookup ::
  "string \<Rightarrow> int \<Rightarrow> WaiterHooks \<Rightarrow> Scheduler \<Rightarrow> ((sched_error + nat \<times> Options) \<times> Scheduler) option" where
  "acquire_lookup key maxConcurrent hooks s =
     (case (if map_of (s_groups s) key = None then makeGroupRoom s else Some s) of
        None \<Rightarrow> None
      | Some s1 \<Rightarrow>
          if map_of (s_groups s1) key = None \<and> length (s_groups s1) \<ge> s_groupCap s1
          then Some (Inl ErrGroupLimit, s1)
          else case groupFor key maxConcurrent True s1 of
            (i, s2) \<Rightarrow>
              let s3 = attributeProvider i (wh_Provider hooks) s2
              in Some (Inr (i, s_opts s3), s3))"

end
