(* ===== verification/Acquire.thy ===== *)
theory Acquire
  imports Group_Table
begin

text \<open>
  The life of one acquisition (\<^verbatim>\<open>scheduler_admission.go\<close>): the fast path, the enqueue, the loop of
  a queued caller between two blocking selects, and the events a select can see.
\<close>

section \<open>Entry\<close>

datatype acquire_result = AcqErr sched_error | AcqGranted Release | AcqQueued nat

definition fast_path_open :: "nat \<Rightarrow> WaiterHooks \<Rightarrow> Scheduler \<Rightarrow> bool" where
  "fast_path_open i hooks s \<longleftrightarrow>
     (let g = s_group s i;
          providerFairIdle = (case g_providerFair g of None \<Rightarrow> True | Some x \<Rightarrow> pi_fairCount (s_index s x) = 0)
      in g_queue g = [] \<and> providerFairIdle
         \<and> (g_maxConcurrent g = 0 \<or> g_inFlight g < g_maxConcurrent g)
         \<and> \<not> s_now s < g_nextAllowedAt g
         \<and> matchingHold (wh_Client hooks) (wh_Provider hooks) s = None)"

definition acquire_fast :: "nat \<Rightarrow> WaiterHooks \<Rightarrow> Scheduler \<Rightarrow> Release option \<times> Scheduler" where
  "acquire_fast i hooks s =
     (if \<not> fast_path_open i hooks s then (None, s)
      else case admitLocked i (wh_Provider hooks) (wh_EstTokens hooks) s of
        (ok, lease, wait, _, s1) \<Rightarrow>
          if ok then
            (Some (slotRelease i lease),
             markGroupBusy i (upd_group i (\<lambda>g. g\<lparr>g_inFlight := g_inFlight g + 1\<rparr>) s1))
          else (None, if wait > 0 then armThrottleDrain (wh_Provider hooks) wait s1 else s1))"

definition new_waiter :: "WaiterHooks \<Rightarrow> time \<Rightarrow> nat \<Rightarrow> waiter" where
  "new_waiter hooks enqueued seq =
     \<lparr>w_granted = False, w_enqueued = enqueued, w_pausedAt = zero_time, w_client = wh_Client hooks,
      w_provider = wh_Provider hooks, w_model = wh_Model hooks, w_drainSeq = seq, w_holdID = [],
      w_holding = False, w_onHold = wh_OnHold hooks, w_onUnhold = wh_OnUnhold hooks,
      w_estTokens = wh_EstTokens hooks, w_admission = no_admission\<rparr>"

text \<open>The waiter with its hold reserved; \<open>None\<close> when the hold's \<^verbatim>\<open>MaxQueued\<close> refuses it.\<close>

definition reserve_waiter :: "WaiterHooks \<Rightarrow> Scheduler \<Rightarrow> (holdCounts \<times> waiter) option" where
  "reserve_waiter hooks s =
     (let w = new_waiter hooks (s_now s) (dr_seq (s_drains s))
      in case matchingHold (w_client w) (w_provider w) s of
           None \<Rightarrow> Some (s_holdCount s, w)
         | Some h \<Rightarrow>
             (case reserveHold h (s_holdCount s) w of
                (ok, c, w') \<Rightarrow> if ok then Some (c, w') else None))"

definition acquire_enqueue :: "nat \<Rightarrow> Options \<Rightarrow> WaiterHooks \<Rightarrow> Scheduler \<Rightarrow> acquire_result \<times> Scheduler" where
  "acquire_enqueue i opts hooks s =
     (if o_MaxQueueSize opts > 0 \<and> int (length (g_queue (s_group s i))) \<ge> o_MaxQueueSize opts
      then (AcqErr ErrQueueFull, s)
      else case reserve_waiter hooks s of
        None \<Rightarrow> (AcqErr ErrQueueFull, s)
      | Some (c, x) \<Rightarrow>
          let w = s_next s;
              s1 = upd_waiter w (\<lambda>_. x) (s\<lparr>s_next := Suc w, s_holdCount := c\<rparr>);
              s2 = upd_group i (\<lambda>g. g\<lparr>g_queue := g_queue g @ [w]\<rparr>) s1;
              s3 = markGroupBusy i (syncQueue i s2);
              s4 = (if w_holdID x \<noteq> [] \<and> o_MaxWait opts > 0
                    then upd_waiter w (\<lambda>x. x\<lparr>w_pausedAt := w_enqueued x\<rparr>) s3 else s3)
          in (AcqQueued w, s4))"

text \<open>The first critical section of \<^verbatim>\<open>acquire\<close>.\<close>

definition acquire :: "nat \<Rightarrow> Options \<Rightarrow> WaiterHooks \<Rightarrow> Scheduler \<Rightarrow> acquire_result \<times> Scheduler" where
  "acquire i opts hooks s =
     (if g_retired (s_group s i) then (AcqErr errGroupRetired, s)
      else case acquire_fast i hooks s of
        (Some r, s1) \<Rightarrow> (AcqGranted r, s1)
      | (None, s1) \<Rightarrow> acquire_enqueue i opts hooks s1)"

definition log_hook :: "nat \<Rightarrow> bool \<Rightarrow> hook \<Rightarrow> Scheduler \<Rightarrow> Scheduler" where
  "log_hook w present e s = (if present then s\<lparr>s_log := s_log s @ [(w, e)]\<rparr> else s)"

text \<open>From the enqueue to the loop: the two callbacks, the hold re-check, the caller's own drain.\<close>

definition acquire_parked :: "nat \<Rightarrow> nat \<Rightarrow> WaiterHooks \<Rightarrow> Scheduler \<Rightarrow> Scheduler" where
  "acquire_parked i w hooks s =
     (let s1 = log_hook w (wh_OnThrottle hooks) OnThrottle (log_hook w (wh_OnWait hooks) OnWait s);
          s2 = (case matchingHold (w_client (s_waiter s1 w)) (w_provider (s_waiter s1 w)) s1 of
                  None \<Rightarrow> s1
                | Some h \<Rightarrow> adoptHold_of w (Some h) s1)
      in drainAdmission i s2)"


section \<open>The wait loop\<close>

record acquirer =
  aq_group :: nat
  aq_waiter :: nat
  aq_deadline :: time

definition acquirer_of :: "nat \<Rightarrow> nat \<Rightarrow> Options \<Rightarrow> Scheduler \<Rightarrow> acquirer" where
  "acquirer_of i w opts s =
     \<lparr>aq_group = i, aq_waiter = w,
      aq_deadline = (if o_MaxWait opts > 0 then w_enqueued (s_waiter s w) + o_MaxWait opts else zero_time)\<rparr>"

text \<open>
  One round of the loop up to its select: it returns an error, starts over, or blocks, held
  (with the expiry of the hold) or not (with the deadline that is running).
\<close>

datatype acq_round = RoundReturn sched_error | RoundAgain | RoundHeld "time option" | RoundWait "time option"

definition round_held :: "holdSnap \<Rightarrow> acquirer \<Rightarrow> Scheduler \<Rightarrow> acq_round \<times> Scheduler" where
  "round_held h a s =
     (let w = aq_waiter a;
          s1 = (if \<not> IsZero (aq_deadline a) \<and> IsZero (w_pausedAt (s_waiter s w))
                then upd_waiter w (\<lambda>x. x\<lparr>w_pausedAt := s_now s\<rparr>) s else s);
          s2 = adoptHold_of w (Some h) s1
      in if \<not> IsZero (hs_until h) then
           if time_Sub (hs_until h) (s_now s2) \<le> 0 then (RoundAgain, drainAdmission (aq_group a) s2)
           else (RoundHeld (Some (hs_until h)), s2)
         else (RoundHeld None, s2))"

definition round_free :: "acquirer \<Rightarrow> Scheduler \<Rightarrow> acq_round \<times> acquirer \<times> Scheduler" where
  "round_free a s =
     (let w = aq_waiter a
      in case syncUnhold (s_now s) (s_policy s) (s_holdCount s) (s_waiter s w) of
           (again, r) \<Rightarrow>
             let s1 = put_attribution w r s
             in if again then (RoundAgain, a, s1)
                else
                  let p = w_pausedAt (s_waiter s1 w);
                      a1 = (if \<not> IsZero p then a\<lparr>aq_deadline := aq_deadline a + time_Sub (s_now s1) p\<rparr> else a);
                      s2 = (if \<not> IsZero p then upd_waiter w (\<lambda>x. x\<lparr>w_pausedAt := zero_time\<rparr>) s1 else s1);
                      s3 = drainAdmission (aq_group a1) s2;
                      timer = (if \<not> IsZero (aq_deadline a1)
                                  \<and> matchingHold (w_client (s_waiter s3 w)) (w_provider (s_waiter s3 w)) s3 = None
                               then Some (aq_deadline a1) else None)
                  in (RoundWait timer, a1, s3))"

definition acquire_round :: "acquirer \<Rightarrow> Scheduler \<Rightarrow> acq_round \<times> acquirer \<times> Scheduler" where
  "acquire_round a s =
     (let x = s_waiter s (aq_waiter a)
      in if queueDrained (w_drainSeq x) (w_provider x) (w_model x) (w_client x) (s_drains s)
         then (RoundReturn ErrQueueDrained, a, removeWaiter (aq_group a) (aq_waiter a) s)
         else case matchingHold (w_client x) (w_provider x) s of
           Some h \<Rightarrow> (case round_held h a s of (r, s1) \<Rightarrow> (r, a, s1))
         | None \<Rightarrow> round_free a s)"

text \<open>
  What the select sees: the grant, the end of a hold's timer, the end of the wait's timer, a
  kick (of the policy, or of the send gate when not held), or the end of the context.
\<close>

datatype acq_event = EvGrant | EvUntil | EvMaxWait | EvKick | EvDone

datatype acq_wake = WakeAgain | WakeReturn "sched_error + Release"

definition acquire_wake :: "acq_event \<Rightarrow> acquirer \<Rightarrow> Scheduler \<Rightarrow> acq_wake \<times> Scheduler" where
  "acquire_wake ev a s =
     (let i = aq_group a; w = aq_waiter a
      in case ev of
           EvGrant \<Rightarrow>
             (let s1 = dropHold_of w (upd_waiter w (\<lambda>x. x\<lparr>w_granted := False\<rparr>) s)
              in (WakeReturn (Inr (slotRelease i (w_admission (s_waiter s1 w)))), s1))
         | EvUntil \<Rightarrow> (WakeAgain, drainAdmission i s)
         | EvMaxWait \<Rightarrow> (WakeReturn (Inl errMaxWait), removeWaiter i w s)
         | EvKick \<Rightarrow> (WakeAgain, s)
         | EvDone \<Rightarrow> (WakeReturn (Inl CtxErr), removeWaiter i w s))"

text \<open>The deferred callback of a caller that was queued, on every return path.\<close>

definition acquire_exit :: "WaiterHooks \<Rightarrow> nat \<Rightarrow> Scheduler \<Rightarrow> Scheduler" where
  "acquire_exit hooks w s = log_hook w (wh_OnUnthrottle hooks) OnUnthrottle s"

text \<open>
  One iteration of \<^verbatim>\<open>AcquireWith\<close> with nothing in between: the lookup and the first critical section
  of \<^verbatim>\<open>acquire\<close>. The code starts over on \<^verbatim>\<open>errGroupRetired\<close>.
\<close>

definition AcquireWith_once ::
  "string \<Rightarrow> int \<Rightarrow> WaiterHooks \<Rightarrow> Scheduler \<Rightarrow> (acquire_result \<times> Scheduler) option" where
  "AcquireWith_once key maxConcurrent hooks s =
     (case acquire_lookup key maxConcurrent hooks s of
        None \<Rightarrow> None
      | Some (Inl e, s1) \<Rightarrow> Some (AcqErr e, s1)
      | Some (Inr (i, opts), s1) \<Rightarrow> Some (acquire i opts hooks s1))"

end
