(* ===== verification/Send_Gate.thy ===== *)
theory Send_Gate
  imports Group_Table
begin

text \<open>
  The send gate of a group (\<^verbatim>\<open>scheduler_send.go\<close>, \<^verbatim>\<open>BackoffFor\<close> of \<^verbatim>\<open>scheduler_pacing.go\<close>): a retryable failure
  trips the group and claims the send token, siblings wait for it, the outcome of the owner
  releases it and resets or doubles the request backoff. Random jitter is an argument.
\<close>

section \<open>Tripping\<close>

definition kickSend :: "group \<Rightarrow> group" where
  "kickSend g = g\<lparr>g_sendKick := (case g_sendKick g of None \<Rightarrow> Some 0 | Some n \<Rightarrow> Some (Suc n))\<rparr>"

definition armPacingLater :: "nat \<Rightarrow> duration \<Rightarrow> Scheduler \<Rightarrow> Scheduler" where
  "armPacingLater i d s =
     (if d > 0 then
        let until = s_now s + d
        in if until > g_nextAllowedAt (s_group s i)
           then clearGateWaiting i
                  (upd_group i (\<lambda>g. g\<lparr>g_nextAllowedAt := until, g_pacer := armed until False (g_pacer g)\<rparr>) s)
           else s
      else s)"

definition extendWindow :: "string \<Rightarrow> duration \<Rightarrow> bool \<Rightarrow> Scheduler \<Rightarrow> bool \<times> Scheduler" where
  "extendWindow key d claim s =
     (case groupFor key 0 False s of
        (i, s1) \<Rightarrow>
          let s2 = armPacingLater i d s1;
              s3 = (if d > 0 \<or> claim then upd_group i (\<lambda>g. kickSend (g\<lparr>g_tripped := True\<rparr>)) s2 else s2)
          in if claim \<and> \<not> g_probing (s_group s3 i)
             then (True, upd_group i (\<lambda>g. g\<lparr>g_probing := True\<rparr>) s3)
             else (False, s3))"

definition Trip :: "string \<Rightarrow> duration \<Rightarrow> Scheduler \<Rightarrow> bool \<times> Scheduler" where
  "Trip key d s = extendWindow key d True s"

definition BackoffFor :: "rat \<Rightarrow> string \<Rightarrow> duration \<Rightarrow> Scheduler \<Rightarrow> duration \<times> Scheduler" where
  "BackoffFor rnd key retryAfter s =
     (case groupFor key 0 False s of
        (i, s1) \<Rightarrow>
          let opts = s_opts s1;
              s2 = upd_group i (\<lambda>g. g\<lparr>g_backoff := growBackoff (g_backoff g) (o_BaseBackoff opts) (o_MaxBackoff opts)\<rparr>) s1
          in (backoff_delay rnd (g_backoff (s_group s2 i)) retryAfter, s2))"


section \<open>Waiting to send\<close>

record sender =
  sd_group :: nat
  sd_hooks :: WaiterHooks
  sd_honorHold :: bool
  sd_own :: bool
  sd_holding :: bool
  sd_parked :: bool
  sd_drainFrom :: nat

definition WaitSend_start :: "string \<Rightarrow> WaiterHooks \<Rightarrow> bool \<Rightarrow> bool \<Rightarrow> Scheduler \<Rightarrow> sender \<times> Scheduler" where
  "WaitSend_start key hooks honorHold own s =
     (case groupFor key 0 False s of
        (i, s1) \<Rightarrow>
          (\<lparr>sd_group = i, sd_hooks = hooks, sd_honorHold = honorHold, sd_own = own, sd_holding = False,
            sd_parked = False, sd_drainFrom = dr_seq (s_drains s1)\<rparr>, s1))"

text \<open>
  The deferred function of \<^verbatim>\<open>WaitSend\<close>; its callbacks and those of a round are returned, in order.
\<close>

definition WaitSend_exit :: "sender \<Rightarrow> Scheduler \<Rightarrow> hook list \<times> Scheduler" where
  "WaitSend_exit l s =
     (let s1 = (if sd_parked l \<and> g_sendWaiters (s_group s (sd_group l)) > 0
                then upd_group (sd_group l) (\<lambda>g. g\<lparr>g_sendWaiters := g_sendWaiters g - 1\<rparr>) s else s)
      in ((if sd_parked l \<and> wh_OnUnthrottle (sd_hooks l) then [OnUnthrottle] else [])
          @ (if sd_holding l \<and> wh_OnUnhold (sd_hooks l) then [OnUnhold] else []), s1))"

text \<open>
  The outcome of a round: return a token with an error or without, start over, run \<^verbatim>\<open>OnWait\<close> and
  re-check the hold (\<open>SendHold\<close>), or block.
\<close>

datatype send_round =
  SendReturn bool "sched_error option"
| SendAgain
| SendHold holdSnap
| SendBlockHeld "time option"
| SendBlock

definition send_hold_for :: "sender \<Rightarrow> Scheduler \<Rightarrow> holdSnap option" where
  "send_hold_for l s =
     (if sd_honorHold l then matchingHold (wh_Client (sd_hooks l)) (wh_Provider (sd_hooks l)) s else None)"

definition block_held :: "holdSnap \<Rightarrow> Scheduler \<Rightarrow> send_round" where
  "block_held h s =
     (if \<not> IsZero (hs_until h)
      then if time_Sub (hs_until h) (s_now s) \<le> 0 then SendAgain else SendBlockHeld (Some (hs_until h))
      else SendBlockHeld None)"

definition parkSend :: "bool \<Rightarrow> group \<Rightarrow> bool \<times> group" where
  "parkSend already g = (if already then (False, g) else (True, g\<lparr>g_sendWaiters := g_sendWaiters g + 1\<rparr>))"

definition announceSendWait :: "WaiterHooks \<Rightarrow> hook list" where
  "announceSendWait hooks = (if wh_OnThrottle hooks then [OnThrottle] else [])"

definition send_gate :: "sender \<Rightarrow> Scheduler \<Rightarrow> send_round \<times> sender \<times> hook list \<times> Scheduler" where
  "send_gate l s =
     (let i = sd_group l; g = s_group s i
      in if s_now s < g_nextAllowedAt g \<or> (\<not> sd_own l \<and> g_tripped g \<and> g_probing g) then
           (case parkSend (sd_parked l) g of
              (isFirst, g') \<Rightarrow>
                (SendBlock, l\<lparr>sd_parked := True\<rparr>, if isFirst then announceSendWait (sd_hooks l) else [],
                 upd_group i (\<lambda>_. g') s))
         else if sd_own l \<or> \<not> g_tripped g then (SendReturn (sd_own l) None, l, [], s)
         else (SendReturn True None, l, [], upd_group i (\<lambda>g. g\<lparr>g_probing := True\<rparr>) s))"

definition WaitSend_round :: "sender \<Rightarrow> Scheduler \<Rightarrow> send_round \<times> sender \<times> hook list \<times> Scheduler" where
  "WaitSend_round l s =
     (let h = sd_hooks l
      in if queueDrained (sd_drainFrom l) (wh_Provider h) (wh_Model h) (wh_Client h) (s_drains s)
         then (SendReturn (sd_own l) (Some ErrQueueDrained), l, [], s)
         else case send_hold_for l s of
           Some hold \<Rightarrow>
             if \<not> sd_holding l then (SendHold hold, l, if wh_OnWait h then [OnWait] else [], s)
             else (block_held hold s, l, [], s)
         | None \<Rightarrow>
             let ev = (if sd_holding l \<and> wh_OnUnhold h then [OnUnhold] else []);
                 l1 = l\<lparr>sd_holding := False\<rparr>
             in case send_gate l1 s of (r, l2, ev2, s1) \<Rightarrow> (r, l2, ev @ ev2, s1))"

text \<open>After \<^verbatim>\<open>OnWait\<close>: the context and the hold are read again before the paused edge is published.\<close>

definition WaitSend_afterOnWait :: "bool \<Rightarrow> holdSnap \<Rightarrow> sender \<Rightarrow> Scheduler \<Rightarrow> send_round \<times> sender \<times> hook list" where
  "WaitSend_afterOnWait ctxErr hold l s =
     (if ctxErr then (SendReturn (sd_own l) (Some CtxErr), l, [])
      else if matchingHold (wh_Client (sd_hooks l)) (wh_Provider (sd_hooks l)) s = None then (SendAgain, l, [])
      else (block_held hold s, l\<lparr>sd_holding := True\<rparr>, if wh_OnHold (sd_hooks l) then [OnHold] else []))"


section \<open>Outcomes\<close>

definition EndSend :: "string \<Rightarrow> bool \<Rightarrow> Scheduler \<Rightarrow> Scheduler" where
  "EndSend key keepSerial s =
     (case map_of (s_groups s) key of
        None \<Rightarrow> s
      | Some i \<Rightarrow>
          drainAdmission i
            (upd_group i (\<lambda>g. kickSend (g\<lparr>g_probing := False, g_backoff := 0, g_requestBackoff := 0,
               g_nextAllowedAt := zero_time, g_pacer := stop (g_pacer g), g_tripped := keepSerial\<rparr>)) s))"

definition FailSend :: "rat \<Rightarrow> string \<Rightarrow> bool \<Rightarrow> Scheduler \<Rightarrow> Scheduler" where
  "FailSend rnd key own s =
     (case groupFor key 0 False s of
        (i, s1) \<Rightarrow>
          let opts = s_opts s1;
              s2 = (if own then upd_group i (\<lambda>g. g\<lparr>g_probing := False, g_backoff := 0\<rparr>) s1 else s1);
              s3 = upd_group i (\<lambda>g. g\<lparr>g_requestBackoff :=
                     growBackoff (g_requestBackoff g) (o_BaseBackoff opts) (o_MaxBackoff opts)\<rparr>) s2;
              d = jitterBackoff rnd (g_requestBackoff (s_group s3 i));
              s4 = armPacingLater i d s3;
              s5 = upd_group i (\<lambda>g. kickSend (g\<lparr>g_tripped := True\<rparr>)) s4
          in drainAdmission i s5)"

text \<open>The pacer's callback: the timer of the generation that fires, then the send kick and a drain.\<close>

definition pacer_fires :: "nat \<Rightarrow> nat \<Rightarrow> Scheduler \<Rightarrow> Scheduler" where
  "pacer_fires i gen s =
     (case timer_callback gen (g_pacer (s_group s i)) of
        (p, run) \<Rightarrow>
          let s1 = upd_group i (\<lambda>g. g\<lparr>g_pacer := p\<rparr>) s
          in if run then drainAdmission i (upd_group i kickSend s1) else s1)"

end
