(* ===== verification/Throttle_Policy.thy ===== *)
theory Throttle_Policy
  imports Group_Table "HOL-Library.List_Lexorder" "HOL-Library.Char_ord"
begin

text \<open>
  Provider limits as the operator sets them (\<^verbatim>\<open>throttle.go\<close>): reading, merging and installing a
  policy, clearing it, the restore at startup, the listings, and the wake-up of a provider's
  shared timer.
\<close>

definition publishGates :: "Scheduler \<Rightarrow> Scheduler" where
  "publishGates s = s\<lparr>s_gateSnap := s_gates s\<rparr>"

definition resetRamps :: "nat list \<Rightarrow> Scheduler \<Rightarrow> Scheduler" where
  "resetRamps is s = fold (\<lambda>i. upd_group i (\<lambda>g. g\<lparr>g_ramp := resetRamp (g_ramp g)\<rparr>)) is s"

definition resetProviderRamps :: "string \<Rightarrow> Scheduler \<Rightarrow> Scheduler" where
  "resetProviderRamps provider s =
     (case map_of (s_providerGroups s) provider of
        None \<Rightarrow> s
      | Some x \<Rightarrow> resetRamps (snapshotAll (s_index s x)) s)"

definition resetAllRamps :: "Scheduler \<Rightarrow> Scheduler" where
  "resetAllRamps s = fold (\<lambda>x s. resetRamps (snapshotAll (s_index s x)) s) (map snd (s_providerGroups s)) s"

definition maxProviderGates :: nat where
  "maxProviderGates = 4096"

definition newProviderGate :: providerGate where
  "newProviderGate = zero_gate"

definition rampChanged :: "Limit \<Rightarrow> Limit \<Rightarrow> bool" where
  "rampChanged cur new \<longleftrightarrow> Concurrency cur \<noteq> Concurrency new \<or> AntiBurst cur \<noteq> AntiBurst new
     \<or> RampDuration cur \<noteq> RampDuration new"

text \<open>The epilogue of a policy change: the ramps of the provider, then every waiter is re-checked.\<close>

definition throttle_changed :: "bool \<Rightarrow> string \<Rightarrow> Scheduler \<Rightarrow> Scheduler" where
  "throttle_changed ramps provider s = kickThrottles (if ramps then resetProviderRamps provider s else s)"

definition clear_gate :: "string \<Rightarrow> nat \<Rightarrow> Scheduler \<Rightarrow> Scheduler" where
  "clear_gate provider q s =
     publishGates ((upd_gate q (\<lambda>g. g\<lparr>pg_wake := stop (pg_wake g), pg_throttle := zero_throttle\<rparr>) s)
       \<lparr>s_gates := adel provider (s_gates s)\<rparr>)"

definition install_gate :: "nat \<Rightarrow> Throttle \<Rightarrow> Scheduler \<Rightarrow> Scheduler" where
  "install_gate q t s = upd_gate q (\<lambda>g. resetBuckets (t_Limit t) (s_now s) (g\<lparr>pg_throttle := t\<rparr>)) s"

definition add_gate :: "string \<Rightarrow> Scheduler \<Rightarrow> nat \<times> Scheduler" where
  "add_gate provider s =
     (let q = s_next s
      in (q, publishGates (s\<lparr>s_next := Suc q, s_gate := (s_gate s)(q := newProviderGate),
                             s_gates := aput provider q (s_gates s)\<rparr>)))"

definition UpdateThrottle :: "string \<Rightarrow> (Throttle \<Rightarrow> Throttle) \<Rightarrow> Scheduler \<Rightarrow> bool \<times> Scheduler" where
  "UpdateThrottle provider update s =
     (if provider = [] then (False, s)
      else
        let og = map_of (s_gates s) provider;
            cur = (case og of None \<Rightarrow> zero_throttle | Some q \<Rightarrow> pg_throttle (s_gate s q));
            t0 = update cur;
            t = t0\<lparr>t_Provider := provider, t_Limit := normalized (t_Limit t0)\<rparr>
        in if t_Limit cur = t_Limit t \<or> og = None \<and> \<not> limit_Active (t_Limit t) then (False, s)
           else
             let ramps = rampChanged (t_Limit cur) (t_Limit t);
                 t' = (if IsZero (t_UpdatedAt t) then t\<lparr>t_UpdatedAt := s_now s\<rparr> else t)
             in case og of
                  Some q \<Rightarrow>
                    if \<not> limit_Active (t_Limit t) then (True, throttle_changed ramps provider (clear_gate provider q s))
                    else (True, throttle_changed ramps provider
                            (install_gate q t' (upd_gate q (\<lambda>g. g\<lparr>pg_wake := stop (pg_wake g)\<rparr>) s)))
                | None \<Rightarrow>
                    if length (s_gates s) \<ge> maxProviderGates then (False, s)
                    else case add_gate provider s of
                      (q, s1) \<Rightarrow> (True, throttle_changed ramps provider (install_gate q t' s1)))"

definition SetThrottle :: "Throttle \<Rightarrow> Scheduler \<Rightarrow> bool \<times> Scheduler" where
  "SetThrottle t s = UpdateThrottle (t_Provider t) (\<lambda>_. t) s"


section \<open>Listings and restore\<close>

definition ThrottlePolicies :: "Scheduler \<Rightarrow> Throttle list" where
  "ThrottlePolicies s = sort_key t_Provider (map (\<lambda>(p, q). pg_throttle (s_gate s q)) (s_gates s))"

definition add_count :: "string \<Rightarrow> int \<Rightarrow> (string \<Rightarrow> int) \<Rightarrow> string \<Rightarrow> int" where
  "add_count p n c = c(p := c p + n)"

definition throttleQueued_group :: "Scheduler \<Rightarrow> nat \<Rightarrow> (string \<Rightarrow> int) \<Rightarrow> string \<Rightarrow> int" where
  "throttleQueued_group s i c =
     (let c1 = fold (\<lambda>w c. if w_provider (s_waiter s w) \<noteq> [] then add_count (w_provider (s_waiter s w)) 1 c else c)
                 (g_queue (s_group s i)) c
      in if g_provider (s_group s i) \<noteq> []
         then add_count (g_provider (s_group s i)) (g_sendWaiters (s_group s i)) c1 else c1)"

definition throttleQueued :: "Scheduler \<Rightarrow> string \<Rightarrow> int" where
  "throttleQueued s = fold (throttleQueued_group s) (snapshotGroups s) (\<lambda>_. 0)"

fun list_gates :: "(string \<Rightarrow> int) \<Rightarrow> (string \<times> nat) list \<Rightarrow> Scheduler \<Rightarrow> ThrottleInfo list \<times> Scheduler" where
  "list_gates queued [] s = ([], s)"
| "list_gates queued ((p, q) # gs) s =
     (case gate_snapshot (queued p) (s_now s) (s_gate s q) of
        (info, g) \<Rightarrow> (case list_gates queued gs (upd_gate q (\<lambda>_. g) s) of (infos, s1) \<Rightarrow> (info # infos, s1)))"

definition ListThrottles :: "Scheduler \<Rightarrow> ThrottleInfo list \<times> Scheduler" where
  "ListThrottles s =
     (case list_gates (throttleQueued s) (s_gates s) s of
        (infos, s1) \<Rightarrow> (sort_key (\<lambda>info. t_Provider (ti_Throttle info)) infos, s1))"

fun restore_gates :: "Throttle list \<Rightarrow> Scheduler \<Rightarrow> Scheduler" where
  "restore_gates [] s = s"
| "restore_gates (t # ts) s =
     (let t = t\<lparr>t_Limit := normalized (t_Limit t)\<rparr>
      in if t_Provider t = [] \<or> \<not> limit_Active (t_Limit t) then restore_gates ts s
         else
           let t = (if IsZero (t_UpdatedAt t) then t\<lparr>t_UpdatedAt := s_now s\<rparr> else t);
               q = s_next s;
               s1 = install_gate q t (s\<lparr>s_next := Suc q, s_gate := (s_gate s)(q := newProviderGate)\<rparr>)
           in restore_gates ts (s1\<lparr>s_gates := aput (t_Provider t) q (s_gates s1)\<rparr>))"

definition RestoreThrottles :: "Throttle list \<Rightarrow> Scheduler \<Rightarrow> Scheduler" where
  "RestoreThrottles ts s =
     (let s1 = fold (\<lambda>(p, q). upd_gate q (\<lambda>g. g\<lparr>pg_wake := stop (pg_wake g)\<rparr>)) (s_gates s) s
      in resetAllRamps (publishGates (restore_gates ts (s1\<lparr>s_gates := []\<rparr>))))"

text \<open>The shared timer of a provider gate.\<close>

definition gate_wakes :: "string \<Rightarrow> nat \<Rightarrow> nat \<Rightarrow> Scheduler \<Rightarrow> Scheduler" where
  "gate_wakes provider q gen s =
     (case timer_callback gen (pg_wake (s_gate s q)) of
        (w, run) \<Rightarrow>
          let s1 = upd_gate q (\<lambda>g. g\<lparr>pg_wake := w\<rparr>) s
          in if run then drainProviderWake provider s1 else s1)"

end
