(* ===== verification/Scheduler.thy ===== *)
theory Scheduler
  imports Acquire Send_Gate Throttle_Policy
begin

text \<open>
  The scheduler as a whole (\<^verbatim>\<open>scheduler.go\<close>, the epilogue of the policy transitions of \<^verbatim>\<open>hold.go\<close>):
  construction, reconfiguration, statistics, operator drains and pauses.
\<close>

definition New :: "Options \<Rightarrow> Scheduler" where
  "New opts =
     publishGates
       \<lparr>s_opts = opts, s_groups = [], s_groupCap = maxSchedulerGroups, s_providerGroups = [],
        s_storms = storm_configure (o_Storm opts) zero_storms, s_idle = [], s_pacing = [], s_policy = [],
        s_kick = 0, s_holdCount = (\<lambda>_. 0), s_gates = [], s_gateSnap = [], s_drains = no_drains,
        s_group = (\<lambda>_. zero_group), s_index = (\<lambda>_. zero_index), s_gate = (\<lambda>_. zero_gate),
        s_waiter = (\<lambda>_. zero_waiter), s_next = 0, s_holdSeq = 0, s_now = 0, s_ctxDone = (\<lambda>_. False),
        s_log = [], s_panic = False\<rparr>"

definition UpdateOptions :: "Options \<Rightarrow> Scheduler \<Rightarrow> Scheduler" where
  "UpdateOptions opts s = s\<lparr>s_opts := opts, s_storms := storm_configure (o_Storm opts) (s_storms s)\<rparr>"

record Stats =
  st_Paused :: bool
  st_InFlight :: int
  st_Queued :: int
  st_SendWaiters :: int

definition Paused :: "Scheduler \<Rightarrow> bool" where
  "Paused s = policy_active (s_now s) (s_policy s)"

definition Stats_of :: "Scheduler \<Rightarrow> Stats" where
  "Stats_of s =
     fold (\<lambda>(key, i) st. st\<lparr>st_InFlight := st_InFlight st + g_inFlight (s_group s i),
                            st_Queued := st_Queued st + int (length (g_queue (s_group s i))),
                            st_SendWaiters := st_SendWaiters st + g_sendWaiters (s_group s i)\<rparr>)
       (s_groups s) \<lparr>st_Paused = Paused s, st_InFlight = 0, st_Queued = 0, st_SendWaiters = 0\<rparr>"

definition DrainQueue :: "DrainScope \<Rightarrow> Scheduler \<Rightarrow> nat \<times> Scheduler" where
  "DrainQueue scope s =
     (case issueDrain scope (s_drains s) of
        (n, d) \<Rightarrow> (n, drainAll (kickPolicy (s\<lparr>s_drains := d\<rparr>))))"


section \<open>Policy transitions on the live scheduler\<close>

text \<open>The scan of \<^verbatim>\<open>seedQueuedHolds\<close> over one queue, and the deferred callbacks it collects.\<close>

fun seed_queue :: "nat list \<Rightarrow> Scheduler \<Rightarrow> (nat \<times> holdSnap) list \<times> Scheduler" where
  "seed_queue [] s = ([], s)"
| "seed_queue (w # ws) s =
     (case seedQueuedHold (s_now s) (s_policy s) (s_holdCount s) (s_waiter s w) of
        (c, x, oh) \<Rightarrow>
          (case seed_queue ws (upd_waiter w (\<lambda>_. x) (s\<lparr>s_holdCount := c\<rparr>)) of
             (fire, s1) \<Rightarrow> ((case oh of None \<Rightarrow> [] | Some h \<Rightarrow> [(w, h)]) @ fire, s1)))"

fun seed_groups :: "nat list \<Rightarrow> Scheduler \<Rightarrow> (nat \<times> holdSnap) list \<times> Scheduler" where
  "seed_groups [] s = ([], s)"
| "seed_groups (i # is) s =
     (case seed_queue (g_queue (s_group s i)) s of
        (fire, s1) \<Rightarrow> (case seed_groups is s1 of (fire', s2) \<Rightarrow> (fire @ fire', s2)))"

definition seedQueuedHolds :: "Scheduler \<Rightarrow> Scheduler" where
  "seedQueuedHolds s =
     (case seed_groups (snapshotGroups s) s of
        (fire, s1) \<Rightarrow>
          fold (\<lambda>(w, h) s. s\<lparr>s_log := s_log s @ map (Pair w) (fireSeededHold h (s_waiter s w))\<rparr>) fire s1)"

text \<open>
  A policy transition with its pruning and seeding is one step here: the proxy makes these calls one at a time under
  its own lock. \<open>Hold_Queue\<close> takes the sections apart and interleaves them with other writers.
\<close>

definition commitHolds :: "bool \<times> policySnap \<Rightarrow> bool \<Rightarrow> Scheduler \<Rightarrow> Scheduler" where
  "commitHolds r seedQueued s =
     (case r of (changed, nxt) \<Rightarrow>
        if \<not> changed then s
        else
          let s1 = kickPolicy (s\<lparr>s_policy := nxt\<rparr>);
              s2 = s1\<lparr>s_holdCount := pruneHoldCounts nxt (s_holdCount s1)\<rparr>
          in drainAll (if seedQueued then seedQueuedHolds s2 else s2))"

definition AddHold :: "Hold \<Rightarrow> Scheduler \<Rightarrow> hold_error option \<times> Scheduler" where
  "AddHold h s =
     (case AddHold_policy (s_now s) (s_holdSeq s) h (s_policy s) of
        (Inl e, n) \<Rightarrow> (Some e, s\<lparr>s_holdSeq := n\<rparr>)
      | (Inr r, n) \<Rightarrow> (None, commitHolds r True (s\<lparr>s_holdSeq := n\<rparr>)))"

definition ReplaceHold :: "Hold \<Rightarrow> Scheduler \<Rightarrow> hold_error option \<times> Scheduler" where
  "ReplaceHold h s =
     (case ReplaceHold_policy (s_now s) (s_holdSeq s) h (s_policy s) of
        (Inl e, n) \<Rightarrow> (Some e, s\<lparr>s_holdSeq := n\<rparr>)
      | (Inr r, n) \<Rightarrow> (None, commitHolds r (hold_Active (s_now s) h) (s\<lparr>s_holdSeq := n\<rparr>)))"

definition RemoveHold :: "string \<Rightarrow> Scheduler \<Rightarrow> Scheduler" where
  "RemoveHold i s =
     (case RemoveHold_policy (s_now s) (s_holdSeq s) i (s_policy s) of
        (r, n) \<Rightarrow> commitHolds r False (s\<lparr>s_holdSeq := n\<rparr>))"

definition RestoreHolds :: "Hold list \<Rightarrow> Scheduler \<Rightarrow> Scheduler" where
  "RestoreHolds holds s =
     (case RestoreHolds_policy (s_now s) (s_holdSeq s) holds (s_policy s) of
        (r, n) \<Rightarrow> commitHolds r True (s\<lparr>s_holdSeq := n\<rparr>))"

end
