(* ===== verification/Index_Inv.thy ===== *)
theory Index_Inv
  imports Admission
begin

text \<open>
  What the counters and lists of the scheduler mean: the fair-waiting set of a provider, its
  list of attributed groups with the counter of queued ones, and the idle order, and that
  the primitive operations keep their meaning. Each invariant reads a few fields only
  (its view), so an operation that leaves the view alone keeps the invariant.
\<close>

section \<open>The fair-waiting set\<close>

definition fair_view :: "Scheduler \<Rightarrow> (nat \<Rightarrow> nat list \<times> int) \<times> (nat \<Rightarrow> bool \<times> nat option \<times> nat option) \<times> bool" where
  "fair_view s = (\<lambda>x. (pi_fair (s_index s x), pi_fairCount (s_index s x)),
     \<lambda>i. (g_gateWaiting (s_group s i), g_fairNode (s_group s i), g_providerIdx (s_group s i)), s_panic s)"

text \<open>
  The flag, the node and the list of a group agree; a marked group is marked at the index it
  is attributed to; the counter counts the list; nothing ever linked a node twice.
\<close>

definition fair_ok :: "Scheduler \<Rightarrow> bool" where
  "fair_ok s \<longleftrightarrow>
     (\<forall>x. distinct (pi_fair (s_index s x)) \<and> pi_fairCount (s_index s x) = int (length (pi_fair (s_index s x))))
     \<and> (\<forall>i x. g_fairNode (s_group s i) = Some x \<longleftrightarrow> i \<in> set (pi_fair (s_index s x)))
     \<and> (\<forall>i. g_gateWaiting (s_group s i) \<longleftrightarrow> g_fairNode (s_group s i) \<noteq> None)
     \<and> (\<forall>i x. g_fairNode (s_group s i) = Some x \<longrightarrow> g_providerIdx (s_group s i) = Some x)
     \<and> \<not> s_panic s"

lemma fair_ok_cong: "fair_view s' = fair_view s \<Longrightarrow> fair_ok s' = fair_ok s"
  by (simp add: fair_view_def fair_ok_def fun_eq_iff)

lemma fair_okD:
  assumes "fair_ok s"
  shows "distinct (pi_fair (s_index s x))" "pi_fairCount (s_index s x) = int (length (pi_fair (s_index s x)))"
    "g_fairNode (s_group s i) = Some x \<longleftrightarrow> i \<in> set (pi_fair (s_index s x))"
    "g_gateWaiting (s_group s i) \<longleftrightarrow> g_fairNode (s_group s i) \<noteq> None"
    "g_fairNode (s_group s i) = Some x \<Longrightarrow> g_providerIdx (s_group s i) = Some x"
    "\<not> s_panic s"
  using assms by (auto simp: fair_ok_def)

lemma markFair_ok:
  assumes ok: "fair_ok s" and un: "\<not> g_gateWaiting (s_group s i)" and x: "g_providerIdx (s_group s i) = Some x"
  shows "fair_ok (markFair x i s)"
proof -
  have n: "g_fairNode (s_group s i) = None" using un fair_okD(4) [OF ok] by simp
  have new: "i \<notin> set (pi_fair (s_index s y))" for y using n fair_okD(3) [OF ok, of i y] by simp
  have eq: "markFair x i s = s\<lparr>s_group := (s_group s)(i := (s_group s i)\<lparr>g_gateWaiting := True, g_fairNode := Some x\<rparr>),
      s_index := (s_index s)(x := (s_index s x)\<lparr>pi_fair := pi_fair (s_index s x) @ [i],
        pi_fairCount := pi_fairCount (s_index s x) + 1\<rparr>)\<rparr>"
    by (simp add: markFair_def Let_def upd_group_def upd_index_def n)
  show ?thesis
    unfolding fair_ok_def eq
    using fair_okD(1-3,6) [OF ok] fair_okD(4) [OF ok] fair_okD(5) [OF ok] new x
    by (auto simp: n)
qed

lemma clearFair_eq:
  assumes ok: "fair_ok s" and m: "g_gateWaiting (s_group s i)" and x: "g_providerIdx (s_group s i) = Some x"
  shows "clearFair x i s = s\<lparr>s_group := (s_group s)(i := (s_group s i)\<lparr>g_gateWaiting := False, g_fairNode := None\<rparr>),
      s_index := (s_index s)(x := (s_index s x)\<lparr>pi_fairCount := pi_fairCount (s_index s x) - 1,
        pi_fair := remove1 i (pi_fair (s_index s x))\<rparr>)\<rparr>"
proof -
  obtain y where y: "g_fairNode (s_group s i) = Some y" using m fair_okD(4) [OF ok, of i] by auto
  then have "y = x" using fair_okD(5) [OF ok y] x by simp
  with y m show ?thesis by (simp add: clearFair_def Let_def upd_group_def upd_index_def)
qed

lemma clearFair_ok:
  assumes ok: "fair_ok s" and m: "g_gateWaiting (s_group s i)" and x: "g_providerIdx (s_group s i) = Some x"
  shows "fair_ok (clearFair x i s)"
proof -
  have n: "g_fairNode (s_group s i) = Some x"
    using m x fair_okD(4) [OF ok, of i] fair_okD(5) [OF ok, of i] by (metis not_Some_eq option.inject)
  then have in_x: "i \<in> set (pi_fair (s_index s x))" using fair_okD(3) [OF ok, of i x] by simp
  then have "0 < length (pi_fair (s_index s x))" by auto
  then have len: "int (length (remove1 i (pi_fair (s_index s x)))) = int (length (pi_fair (s_index s x))) - 1"
    using in_x by (simp add: length_remove1 int_ops)
  have out: "i \<in> set (pi_fair (s_index s y)) \<longleftrightarrow> y = x" for y using n fair_okD(3) [OF ok, of i y] by auto
  show ?thesis
    unfolding fair_ok_def clearFair_eq [OF assms]
    using fair_okD(1-3,6) [OF ok] fair_okD(4) [OF ok] fair_okD(5) [OF ok] len out
    by (auto simp: n)
qed

lemma markGateWaiting_ok: "fair_ok s \<Longrightarrow> fair_ok (markGateWaiting i s)"
  by (auto simp: markGateWaiting_def Let_def intro: markFair_ok split: option.split)

lemma clearGateWaiting_ok: "fair_ok s \<Longrightarrow> fair_ok (clearGateWaiting i s)"
  by (auto simp: clearGateWaiting_def intro: clearFair_ok split: option.split)


section \<open>The groups of a provider\<close>

definition index_view :: "Scheduler \<Rightarrow> (nat \<Rightarrow> nat list \<times> int) \<times>
    (nat \<Rightarrow> nat option \<times> nat option \<times> nat option \<times> nat option \<times> bool \<times> bool)" where
  "index_view s = (\<lambda>x. (pi_groups (s_index s x), pi_queued (s_index s x)),
     \<lambda>i. (g_providerNode (s_group s i), g_providerIdx (s_group s i), g_providerFair (s_group s i),
          g_providerQueued (s_group s i), g_hasQueued (s_group s i), g_retired (s_group s i)))"

definition queued_groups :: "(nat \<Rightarrow> group) \<Rightarrow> nat list \<Rightarrow> int" where
  "queued_groups G is = int (length (filter (\<lambda>i. g_hasQueued (G i)) is))"

text \<open>
  A group is linked at the index it is attributed to and at no other, its counter pointers
  point there (a retired group keeps a dead one), and the counter counts the linked groups
  whose queue is not empty.
\<close>

definition index_ok :: "Scheduler \<Rightarrow> bool" where
  "index_ok s \<longleftrightarrow>
     (\<forall>x. distinct (pi_groups (s_index s x)) \<and> pi_queued (s_index s x) = queued_groups (s_group s) (pi_groups (s_index s x)))
     \<and> (\<forall>i x. g_providerNode (s_group s i) = Some x \<longleftrightarrow> i \<in> set (pi_groups (s_index s x)))
     \<and> (\<forall>i. g_providerIdx (s_group s i) = g_providerNode (s_group s i)
          \<and> g_providerFair (s_group s i) = g_providerNode (s_group s i)
          \<and> (\<not> g_retired (s_group s i) \<longrightarrow> g_providerQueued (s_group s i) = g_providerNode (s_group s i))
          \<and> (g_retired (s_group s i) \<longrightarrow> \<not> g_hasQueued (s_group s i)))"

lemma index_ok_cong: "index_view s' = index_view s \<Longrightarrow> index_ok s' = index_ok s"
  by (simp add: index_view_def index_ok_def queued_groups_def fun_eq_iff)

lemma index_okD:
  assumes "index_ok s"
  shows "distinct (pi_groups (s_index s x))" "pi_queued (s_index s x) = queued_groups (s_group s) (pi_groups (s_index s x))"
    "g_providerNode (s_group s i) = Some x \<longleftrightarrow> i \<in> set (pi_groups (s_index s x))"
    "g_providerIdx (s_group s i) = g_providerNode (s_group s i)"
    "g_providerFair (s_group s i) = g_providerNode (s_group s i)"
    "\<not> g_retired (s_group s i) \<Longrightarrow> g_providerQueued (s_group s i) = g_providerNode (s_group s i)"
    "g_retired (s_group s i) \<Longrightarrow> \<not> g_hasQueued (s_group s i)"
  using assms by (auto simp: index_ok_def)

lemma queued_groups_simps [simp]:
  "queued_groups G [] = 0"
  "queued_groups G (i # is) = of_bool (g_hasQueued (G i)) + queued_groups G is"
  "queued_groups G (is @ js) = queued_groups G is + queued_groups G js"
  by (simp_all add: queued_groups_def)

lemma queued_groups_upd:
  assumes "distinct is"
  shows "queued_groups (G(i := g)) is = queued_groups G is
    + (if i \<in> set is then of_bool (g_hasQueued g) - of_bool (g_hasQueued (G i)) else 0)"
  using assms by (induction "is") auto

lemma queued_groups_cong: "(\<And>i. g_hasQueued (G i) = g_hasQueued (H i)) \<Longrightarrow> queued_groups G is = queued_groups H is"
  by (simp add: queued_groups_def)

lemma mark_clear_view [simp]:
  "index_view (markFair x i s) = index_view s" "index_view (clearFair x i s) = index_view s"
  "index_view (markGateWaiting i s) = index_view s" "index_view (clearGateWaiting i s) = index_view s"
  by (auto simp: index_view_def markFair_def clearFair_def markGateWaiting_def clearGateWaiting_def Let_def
      upd_group_def upd_index_def fun_eq_iff split: option.split)

lemma mark_clear_queue [simp]:
  "g_queue (s_group (markFair x i s) j) = g_queue (s_group s j)" "g_queue (s_group (clearFair x i s) j) = g_queue (s_group s j)"
  "g_queue (s_group (markGateWaiting i s) j) = g_queue (s_group s j)"
  "g_queue (s_group (clearGateWaiting i s) j) = g_queue (s_group s j)"
  by (auto simp: markFair_def clearFair_def markGateWaiting_def clearGateWaiting_def Let_def
      upd_group_def upd_index_def split: option.split)

lemma mark_clear_witness [simp]:
  "g_hasQueued (s_group (markFair x i s) j) = g_hasQueued (s_group s j)"
  "g_hasQueued (s_group (clearFair x i s) j) = g_hasQueued (s_group s j)"
  "g_hasQueued (s_group (markGateWaiting i s) j) = g_hasQueued (s_group s j)"
  "g_hasQueued (s_group (clearGateWaiting i s) j) = g_hasQueued (s_group s j)"
  by (auto simp: markFair_def clearFair_def markGateWaiting_def clearGateWaiting_def Let_def
      upd_group_def upd_index_def split: option.split)

text \<open>The witnesses of one queue: the lock-free mirror, and a mark only where somebody waits.\<close>

definition synced :: "Scheduler \<Rightarrow> nat \<Rightarrow> bool" where
  "synced s i \<longleftrightarrow> g_hasQueued (s_group s i) = (g_queue (s_group s i) \<noteq> [])
     \<and> (g_gateWaiting (s_group s i) \<longrightarrow> g_queue (s_group s i) \<noteq> [])"

lemma synced_cong:
  "g_hasQueued (s_group s' i) = g_hasQueued (s_group s i) \<Longrightarrow> g_queue (s_group s' i) = g_queue (s_group s i)
   \<Longrightarrow> g_gateWaiting (s_group s' i) = g_gateWaiting (s_group s i) \<Longrightarrow> synced s' i = synced s i"
  by (simp add: synced_def)

lemma markGateWaiting_synced: "synced s j \<Longrightarrow> synced (markGateWaiting i s) j"
  by (auto simp: synced_def markGateWaiting_def markFair_def Let_def upd_group_def upd_index_def split: option.split)

lemma clearGateWaiting_synced: "synced s j \<Longrightarrow> synced (clearGateWaiting i s) j"
  by (auto simp: synced_def clearGateWaiting_def clearFair_def Let_def upd_group_def upd_index_def split: option.split)

lemma clearGateWaiting_unmarked:
  "fair_ok s \<Longrightarrow> \<not> g_gateWaiting (s_group (clearGateWaiting i s) i)"
  using fair_okD(4,5) [of s i]
  by (auto simp: clearGateWaiting_def clearFair_def Let_def upd_group_def upd_index_def split: option.split)

section \<open>The queue edge\<close>

text \<open>What \<^verbatim>\<open>syncQueueLocked\<close> leaves to do after the mark is withdrawn: the edge of the witness.\<close>

definition flip_queued :: "nat \<Rightarrow> Scheduler \<Rightarrow> Scheduler" where
  "flip_queued i s =
     (let nonEmpty = (g_queue (s_group s i) \<noteq> [])
      in if g_hasQueued (s_group s i) = nonEmpty then s
         else
           let s2 = upd_group i (\<lambda>g. g\<lparr>g_hasQueued := nonEmpty\<rparr>) s
           in case g_providerQueued (s_group s2 i) of
                None \<Rightarrow> s2
              | Some x \<Rightarrow> upd_index x (\<lambda>idx. idx\<lparr>pi_queued := pi_queued idx + (if nonEmpty then 1 else -1)\<rparr>) s2)"

lemma syncQueue_split:
  "syncQueue i s = flip_queued i (if g_queue (s_group s i) = [] then clearGateWaiting i s else s)"
  by (cases "g_queue (s_group s i) = []") (simp_all add: syncQueue_def flip_queued_def Let_def cong: option.case_cong)

lemma flip_queued_ok:
  assumes ok: "index_ok s" and live: "\<not> g_retired (s_group s i)"
  shows "index_ok (flip_queued i s)"
proof (cases "g_hasQueued (s_group s i) = (g_queue (s_group s i) \<noteq> [])")
  case True
  then show ?thesis using ok by (simp add: flip_queued_def Let_def)
next
  case False
  let ?b = "g_queue (s_group s i) \<noteq> []" and ?g = "(s_group s i)\<lparr>g_hasQueued := g_queue (s_group s i) \<noteq> []\<rparr>"
  let ?I = "\<lambda>x. if g_providerNode (s_group s i) = Some x
    then (s_index s x)\<lparr>pi_queued := pi_queued (s_index s x) + (if ?b then 1 else -1)\<rparr> else s_index s x"
  have eq: "s_group (flip_queued i s) = (s_group s)(i := ?g)" "s_index (flip_queued i s) = ?I"
    using False index_okD(6) [OF ok live]
    by (auto simp: flip_queued_def Let_def upd_group_def upd_index_def fun_eq_iff split: option.split)
  have "queued_groups ((s_group s)(i := ?g)) (pi_groups (s_index s x)) = pi_queued (?I x)" for x
    using False index_okD(1-3) [OF ok] by (simp add: queued_groups_upd)
  then show ?thesis
    unfolding index_ok_def eq using index_okD(1) [OF ok] index_okD(3-6) [OF ok] index_okD(7) [OF ok] live
    by (auto split: if_splits)
qed

lemma flip_queued_view: "fair_view (flip_queued i s) = fair_view s"
  by (auto simp: fair_view_def flip_queued_def Let_def upd_group_def upd_index_def fun_eq_iff split: option.split)

lemma flip_queued_fields [simp]:
  "g_queue (s_group (flip_queued i s) j) = g_queue (s_group s j)"
  "g_gateWaiting (s_group (flip_queued i s) j) = g_gateWaiting (s_group s j)"
  "g_hasQueued (s_group (flip_queued i s) j) = (if j = i then g_queue (s_group s i) \<noteq> [] else g_hasQueued (s_group s j))"
  by (auto simp: flip_queued_def Let_def upd_group_def upd_index_def split: option.split)

lemma syncQueue_ok:
  assumes "fair_ok s" "index_ok s" "\<not> g_retired (s_group s i)"
  shows "fair_ok (syncQueue i s)" "index_ok (syncQueue i s)" "synced (syncQueue i s) i"
    "j \<noteq> i \<Longrightarrow> synced (syncQueue i s) j = synced s j"
proof -
  let ?t = "if g_queue (s_group s i) = [] then clearGateWaiting i s else s"
  have "index_view ?t = index_view s" by simp
  then have t: "fair_ok ?t" "index_ok ?t" "\<not> g_retired (s_group ?t i)"
    using assms clearGateWaiting_ok [OF assms(1)] index_ok_cong [of ?t s]
    by (auto simp: index_view_def fun_eq_iff)
  then show "fair_ok (syncQueue i s)" "index_ok (syncQueue i s)"
    by (simp_all add: syncQueue_split flip_queued_ok fair_ok_cong [OF flip_queued_view])
  show "synced (syncQueue i s) i"
    using clearGateWaiting_unmarked [OF assms(1), of i] by (simp add: synced_def syncQueue_split)
  show "synced (syncQueue i s) j = synced s j" if "j \<noteq> i"
    using that by (auto simp: synced_def syncQueue_split clearGateWaiting_def clearFair_def Let_def
        upd_group_def upd_index_def split: option.split)
qed


section \<open>The idle order\<close>

abbreviation mapped :: "Scheduler \<Rightarrow> nat set" where
  "mapped s \<equiv> snd ` set (s_groups s)"

definition idle_links :: "Scheduler \<Rightarrow> bool" where
  "idle_links s \<longleftrightarrow> distinct (s_idle s)
     \<and> (\<forall>i. g_idleNode (s_group s i) = (i \<in> set (s_idle s)) \<and> g_idleListed (s_group s i) = (i \<in> set (s_idle s)))"

text \<open>A group of the table is on the idle order exactly if it has neither a slot nor a waiter.\<close>

definition idle_exact :: "Scheduler \<Rightarrow> nat \<Rightarrow> bool" where
  "idle_exact s i \<longleftrightarrow>
     (i \<in> set (s_idle s) \<longleftrightarrow> i \<in> mapped s \<and> g_inFlight (s_group s i) = 0 \<and> g_queue (s_group s i) = [])"

definition unlisted :: "group \<Rightarrow> group" where
  "unlisted g = g\<lparr>g_idleNode := False, g_idleListed := False\<rparr>"

text \<open>An operation that only moves groups on the idle order.\<close>

definition idle_move :: "Scheduler \<Rightarrow> Scheduler \<Rightarrow> bool" where
  "idle_move s s' \<longleftrightarrow> (\<forall>j. unlisted (s_group s' j) = unlisted (s_group s j))
     \<and> s'\<lparr>s_group := s_group s, s_idle := s_idle s\<rparr> = s"

lemma unlistedD:
  assumes "unlisted g = unlisted h"
  shows "g_key g = g_key h" "g_provider g = g_provider h" "g_providerIdx g = g_providerIdx h"
    "g_providerNode g = g_providerNode h" "g_retired g = g_retired h" "g_maxConcurrent g = g_maxConcurrent h"
    "g_inFlight g = g_inFlight h" "g_nextAllowedAt g = g_nextAllowedAt h" "g_queue g = g_queue h"
    "g_hasQueued g = g_hasQueued h" "g_providerQueued g = g_providerQueued h" "g_gateWaiting g = g_gateWaiting h"
    "g_providerFair g = g_providerFair h" "g_fairNode g = g_fairNode h" "g_ramp g = g_ramp h"
  using assms by (cases g; cases h; simp add: unlisted_def)+

lemma idle_moveD:
  assumes "idle_move s s'"
  shows "s_groups s' = s_groups s" "s_providerGroups s' = s_providerGroups s" "s_next s' = s_next s"
    "s_index s' = s_index s" "s_gate s' = s_gate s" "s_waiter s' = s_waiter s" "s_panic s' = s_panic s"
    "s_gates s' = s_gates s" "s_gateSnap s' = s_gateSnap s" "s_now s' = s_now s" "s_groupCap s' = s_groupCap s"
    "s_pacing s' = s_pacing s" "s_policy s' = s_policy s" "s_ctxDone s' = s_ctxDone s" "s_holdCount s' = s_holdCount s"
    "s_log s' = s_log s" "s_opts s' = s_opts s"
  using assms by (cases s; cases s'; simp add: idle_move_def)+

lemma idle_move_group: "idle_move s s' \<Longrightarrow> unlisted (s_group s' j) = unlisted (s_group s j)"
  by (simp add: idle_move_def)

lemmas idle_move_fields = unlistedD [OF idle_move_group]

lemma idlePush_ok:
  assumes "idle_links s"
  shows "idle_links (idlePush i s)" "set (s_idle (idlePush i s)) = insert i (set (s_idle s))" "idle_move s (idlePush i s)"
  using assms by (auto simp: idlePush_def idle_links_def upd_group_def idle_move_def unlisted_def)

lemma idleUnlink_ok:
  assumes "idle_links s"
  shows "idle_links (snd (idleUnlink i s))" "set (s_idle (snd (idleUnlink i s))) = set (s_idle s) - {i}"
    "idle_move s (snd (idleUnlink i s))" "fst (idleUnlink i s) \<longleftrightarrow> i \<in> set (s_idle s)"
    "s_idle (snd (idleUnlink i s)) = remove1 i (s_idle s)"
  using assms by (auto simp: idleUnlink_def idle_links_def upd_group_def idle_move_def unlisted_def Let_def remove1_idem)


section \<open>The group table\<close>

definition table_ok :: "Scheduler \<Rightarrow> bool" where
  "table_ok s \<longleftrightarrow>
     distinct (akeys (s_groups s)) \<and> distinct (map snd (s_groups s))
     \<and> (\<forall>(k, i) \<in> set (s_groups s). g_key (s_group s i) = k \<and> \<not> g_retired (s_group s i) \<and> i < s_next s
          \<and> (g_providerIdx (s_group s i) = None \<longleftrightarrow> g_provider (s_group s i) = []))
     \<and> (\<forall>i. i \<notin> mapped s \<longrightarrow> g_providerIdx (s_group s i) = None)
     \<and> (\<forall>i. g_retired (s_group s i) \<longrightarrow> i < s_next s)
     \<and> distinct (akeys (s_providerGroups s)) \<and> distinct (map snd (s_providerGroups s))
     \<and> (\<forall>(p, x) \<in> set (s_providerGroups s). p \<noteq> [] \<and> x < s_next s \<and> pi_groups (s_index s x) \<noteq> [])
     \<and> (\<forall>i x. g_providerIdx (s_group s i) = Some x \<longrightarrow> (g_provider (s_group s i), x) \<in> set (s_providerGroups s))"

text \<open>Every waiter is queued at most once, at one group; a group outside the table has no work.\<close>

definition work_ok :: "Scheduler \<Rightarrow> bool" where
  "work_ok s \<longleftrightarrow>
     (\<forall>i. 0 \<le> g_inFlight (s_group s i) \<and> distinct (g_queue (s_group s i)))
     \<and> (\<forall>i j w. w \<in> set (g_queue (s_group s i)) \<and> w \<in> set (g_queue (s_group s j)) \<longrightarrow> i = j)
     \<and> (\<forall>i w. w \<in> set (g_queue (s_group s i)) \<longrightarrow> w < s_next s)
     \<and> (\<forall>i. i \<notin> mapped s \<longrightarrow> g_inFlight (s_group s i) = 0 \<and> g_queue (s_group s i) = [])"

lemma work_okD:
  assumes "work_ok s"
  shows "0 \<le> g_inFlight (s_group s i)" "distinct (g_queue (s_group s i))"
    "w \<in> set (g_queue (s_group s i)) \<Longrightarrow> w \<in> set (g_queue (s_group s j)) \<Longrightarrow> i = j"
    "w \<in> set (g_queue (s_group s i)) \<Longrightarrow> w < s_next s"
    "i \<notin> mapped s \<Longrightarrow> g_inFlight (s_group s i) = 0 \<and> g_queue (s_group s i) = []"
  using assms unfolding work_ok_def by blast+

lemma work_ok_shrink:
  assumes wk: "work_ok s" and "s_groups t = s_groups s" "s_next s \<le> s_next t"
    and fl: "\<And>j. 0 \<le> g_inFlight (s_group t j)" "\<And>j. j \<notin> mapped s \<Longrightarrow> g_inFlight (s_group t j) = 0"
    and q: "\<And>j. distinct (g_queue (s_group t j))" "\<And>j. set (g_queue (s_group t j)) \<subseteq> set (g_queue (s_group s j))"
  shows "work_ok t"
  unfolding work_ok_def
proof (intro conjI allI impI)
  show "i = j" if "w \<in> set (g_queue (s_group t i)) \<and> w \<in> set (g_queue (s_group t j))" for i j w
    using that q(2) [of i] q(2) [of j] work_okD(3) [OF wk, of w i j] by blast
  show "w < s_next t" if "w \<in> set (g_queue (s_group t i))" for i w
    using that q(2) [of i] work_okD(4) [OF wk, of w i] assms(3) by force
  show "g_queue (s_group t i) = []" if "i \<notin> mapped t" for i
    using that q(2) [of i] work_okD(5) [OF wk, of i] assms(2) by simp
qed (use assms in auto)

lemma table_okD:
  assumes "table_ok s"
  shows "distinct (akeys (s_groups s))" "distinct (map snd (s_groups s))"
    "(k, i) \<in> set (s_groups s) \<Longrightarrow> g_key (s_group s i) = k \<and> \<not> g_retired (s_group s i) \<and> i < s_next s
       \<and> (g_providerIdx (s_group s i) = None \<longleftrightarrow> g_provider (s_group s i) = [])"
    "i \<notin> mapped s \<Longrightarrow> g_providerIdx (s_group s i) = None" "g_retired (s_group s i) \<Longrightarrow> i < s_next s"
    "distinct (akeys (s_providerGroups s))" "distinct (map snd (s_providerGroups s))"
    "(p, x) \<in> set (s_providerGroups s) \<Longrightarrow> p \<noteq> [] \<and> x < s_next s \<and> pi_groups (s_index s x) \<noteq> []"
    "g_providerIdx (s_group s i) = Some x \<Longrightarrow> (g_provider (s_group s i), x) \<in> set (s_providerGroups s)"
  using assms unfolding table_ok_def by blast+

lemma mapped_not_retired: "table_ok s \<Longrightarrow> i \<in> mapped s \<Longrightarrow> \<not> g_retired (s_group s i)"
  using table_okD(3) [of s] by fastforce


section \<open>Operations that leave the views alone\<close>

named_theorems views \<open>operations that leave the views of the invariants alone\<close>

lemma fair_view_upds [views]:
  "(\<And>g. g_gateWaiting (f g) = g_gateWaiting g) \<Longrightarrow> (\<And>g. g_fairNode (f g) = g_fairNode g)
     \<Longrightarrow> (\<And>g. g_providerIdx (f g) = g_providerIdx g) \<Longrightarrow> fair_view (upd_group i f s) = fair_view s"
  "(\<And>idx. pi_fair (h idx) = pi_fair idx) \<Longrightarrow> (\<And>idx. pi_fairCount (h idx) = pi_fairCount idx)
     \<Longrightarrow> fair_view (upd_index x h s) = fair_view s"
  "fair_view (upd_gate q k s) = fair_view s" "fair_view (upd_waiter w l s) = fair_view s"
  by (auto simp: fair_view_def upd_group_def upd_index_def upd_gate_def upd_waiter_def fun_eq_iff)

lemma index_view_upds [views]:
  "(\<And>g. g_providerNode (f g) = g_providerNode g) \<Longrightarrow> (\<And>g. g_providerIdx (f g) = g_providerIdx g)
     \<Longrightarrow> (\<And>g. g_providerFair (f g) = g_providerFair g) \<Longrightarrow> (\<And>g. g_providerQueued (f g) = g_providerQueued g)
     \<Longrightarrow> (\<And>g. g_hasQueued (f g) = g_hasQueued g) \<Longrightarrow> (\<And>g. g_retired (f g) = g_retired g)
     \<Longrightarrow> index_view (upd_group i f s) = index_view s"
  "(\<And>idx. pi_groups (h idx) = pi_groups idx) \<Longrightarrow> (\<And>idx. pi_queued (h idx) = pi_queued idx)
     \<Longrightarrow> index_view (upd_index x h s) = index_view s"
  "index_view (upd_gate q k s) = index_view s" "index_view (upd_waiter w l s) = index_view s"
  by (auto simp: index_view_def upd_group_def upd_index_def upd_gate_def upd_waiter_def fun_eq_iff)

definition table_view :: "Scheduler \<Rightarrow> (string \<times> nat) list \<times> (string \<times> nat) list \<times> nat \<times> (nat \<Rightarrow> nat list)
    \<times> (nat \<Rightarrow> string \<times> bool \<times> string \<times> nat option)" where
  "table_view s = (s_groups s, s_providerGroups s, s_next s, \<lambda>x. pi_groups (s_index s x),
     \<lambda>i. (g_key (s_group s i), g_retired (s_group s i), g_provider (s_group s i), g_providerIdx (s_group s i)))"

definition idle_view :: "Scheduler \<Rightarrow> nat list \<times> (nat \<Rightarrow> bool \<times> bool)" where
  "idle_view s = (s_idle s, \<lambda>i. (g_idleNode (s_group s i), g_idleListed (s_group s i)))"

definition work_view :: "Scheduler \<Rightarrow> (string \<times> nat) list \<times> nat \<times> (nat \<Rightarrow> int \<times> nat list)" where
  "work_view s = (s_groups s, s_next s, \<lambda>i. (g_inFlight (s_group s i), g_queue (s_group s i)))"

lemma table_ok_cong: "table_view s' = table_view s \<Longrightarrow> table_ok s' = table_ok s"
  by (simp add: table_view_def table_ok_def fun_eq_iff)

lemma idle_links_cong: "idle_view s' = idle_view s \<Longrightarrow> idle_links s' = idle_links s"
  by (simp add: idle_view_def idle_links_def fun_eq_iff)

lemma work_ok_cong: "work_view s' = work_view s \<Longrightarrow> work_ok s' = work_ok s"
  by (simp add: work_view_def work_ok_def fun_eq_iff)

lemma table_view_upds [views]:
  "(\<And>g. g_key (f g) = g_key g) \<Longrightarrow> (\<And>g. g_retired (f g) = g_retired g) \<Longrightarrow> (\<And>g. g_provider (f g) = g_provider g)
     \<Longrightarrow> (\<And>g. g_providerIdx (f g) = g_providerIdx g) \<Longrightarrow> table_view (upd_group i f s) = table_view s"
  "(\<And>idx. pi_groups (h idx) = pi_groups idx) \<Longrightarrow> table_view (upd_index x h s) = table_view s"
  "table_view (upd_gate q k s) = table_view s" "table_view (upd_waiter w l s) = table_view s"
  by (auto simp: table_view_def upd_group_def upd_index_def upd_gate_def upd_waiter_def fun_eq_iff)

lemma idle_view_upds [views]:
  "(\<And>g. g_idleNode (f g) = g_idleNode g) \<Longrightarrow> (\<And>g. g_idleListed (f g) = g_idleListed g)
     \<Longrightarrow> idle_view (upd_group i f s) = idle_view s"
  "idle_view (upd_index x h s) = idle_view s" "idle_view (upd_gate q k s) = idle_view s"
  "idle_view (upd_waiter w l s) = idle_view s"
  by (auto simp: idle_view_def upd_group_def upd_index_def upd_gate_def upd_waiter_def fun_eq_iff)

lemma work_view_upds [views]:
  "(\<And>g. g_inFlight (f g) = g_inFlight g) \<Longrightarrow> (\<And>g. g_queue (f g) = g_queue g)
     \<Longrightarrow> work_view (upd_group i f s) = work_view s"
  "work_view (upd_index x h s) = work_view s" "work_view (upd_gate q k s) = work_view s"
  "work_view (upd_waiter w l s) = work_view s"
  by (auto simp: work_view_def upd_group_def upd_index_def upd_gate_def upd_waiter_def fun_eq_iff)

text \<open>An operation that leaves all views alone keeps everything.\<close>

definition same_views :: "Scheduler \<Rightarrow> Scheduler \<Rightarrow> bool" where
  "same_views s t \<longleftrightarrow> fair_view t = fair_view s \<and> index_view t = index_view s \<and> table_view t = table_view s
     \<and> idle_view t = idle_view s \<and> work_view t = work_view s"

lemma arm_views [views]:
  "fair_view (armThrottleDrain p d s) = fair_view s" "index_view (armThrottleDrain p d s) = index_view s"
  by (simp_all add: armThrottleDrain_def Let_def views split: option.split)

lemma tryAdmit_views:
  "tryAdmit p est s = (ok, lease, wait, s') \<Longrightarrow> fair_view s' = fair_view s \<and> index_view s' = index_view s
     \<and> s_group s' = s_group s"
  by (auto simp: tryAdmit_def views split: option.splits prod.splits)

text \<open>A predicate that survives the elementary moves of the admission decision survives the decision.\<close>

lemma admitLocked_rule:
  assumes "admitLocked i p est s = (ok, lease, wait, gb, s')" and "R s"
    and "\<And>s f. R s \<Longrightarrow> R (upd_group i (\<lambda>g. g\<lparr>g_ramp := f g\<rparr>) s)"
    and "\<And>s p est ok lease wait s'. R s \<Longrightarrow> tryAdmit p est s = (ok, lease, wait, s') \<Longrightarrow> R s'"
    and "\<And>s p d. R s \<Longrightarrow> R (armThrottleDrain p d s)"
    and "\<And>s. R s \<Longrightarrow> R (markGateWaiting i s)"
  shows "R s'"
proof -
  have refused: "R t'" if "gate_refused i t = (b, t')" "R t" for t t' b
    using that assms(6) [OF that(2)] by (simp add: gate_refused_def split: if_splits)
  obtain target dur en where rp: "rampPolicy i s = (target, dur, en)" by (metis prod_cases3)
  show ?thesis
  proof (cases en)
    case True
    let ?s1 = "upd_group i (\<lambda>g. g\<lparr>g_ramp := anchorRamp (g_ramp g) (g_inFlight g) (s_now s) target dur\<rparr>) s"
    obtain ok2 l2 w2 s2 where t: "tryAdmit p est ?s1 = (ok2, l2, w2, s2)" by (rule prod_cases4 [of "tryAdmit p est ?s1"])
    let ?r = "g_ramp (s_group ?s1 i)"
    let ?next = "nextRampStep ?r (s_now ?s1) target dur"
    let ?s3 = "upd_group i (\<lambda>g. g\<lparr>g_ramp := startRamp (g_ramp g) (g_inFlight g) (s_now s) dur\<rparr>) s2"
    have 1: "R ?s1" by (rule assms(3) [OF assms(2)])
    then have 2: "R s2" by (rule assms(4) [OF _ t])
    have "s' = (if g_inFlight (s_group ?s1 i) \<ge> rampAllowance ?r (s_now ?s1) target dur
        then if \<not> IsZero ?next then armThrottleDrain (g_provider (s_group ?s1 i)) (time_Sub ?next (s_now ?s1)) ?s1 else ?s1
        else if ok2 then ?s3 else snd (gate_refused i s2))"
      using assms(1) True t unfolding admitLocked_def Let_def rp by (simp split: if_splits prod.splits)
    then show ?thesis
      using assms(5) [OF 1] assms(3) [OF 2] 1 refused [OF _ 2] by (cases "gate_refused i s2") (simp split: if_splits)
  next
    case False
    let ?s1 = "if \<not> IsZero (rampStart (g_ramp (s_group s i))) \<or> \<not> IsZero (idleSince (g_ramp (s_group s i)))
      then upd_group i (\<lambda>g. g\<lparr>g_ramp := resetRamp (g_ramp g)\<rparr>) s else s"
    obtain ok2 l2 w2 s2 where t: "tryAdmit p est ?s1 = (ok2, l2, w2, s2)" by (rule prod_cases4 [of "tryAdmit p est ?s1"])
    have "R ?s1" using assms(2,3) by simp
    then have "R s2" by (rule assms(4) [OF _ t])
    moreover have "s' = (if ok2 then s2 else snd (gate_refused i s2))"
      using assms(1) False t unfolding admitLocked_def Let_def rp by (auto split: if_splits prod.splits)
    ultimately show ?thesis using refused [of s2] by (cases "gate_refused i s2") (simp split: if_splits)
  qed
qed


section \<open>All of it\<close>

definition links_ok :: "Scheduler \<Rightarrow> bool" where
  "links_ok s \<longleftrightarrow> fair_ok s \<and> index_ok s \<and> table_ok s \<and> idle_links s \<and> work_ok s"

definition sched_ok :: "Scheduler \<Rightarrow> bool" where
  "sched_ok s \<longleftrightarrow> links_ok s \<and> (\<forall>i. idle_exact s i \<and> synced s i)"


lemma frame_links:
  assumes "adm_frame s s'" "links_ok s" "fair_ok s'" "index_ok s'"
  shows "links_ok s'" "idle_exact s' i = idle_exact s i"
proof -
  note fr = adm_frameD [OF assms(1)] adm_frame_fields [OF assms(1)] adm_frame_index [OF assms(1)]
  have "table_ok s' = table_ok s" "idle_links s' = idle_links s" "work_ok s' = work_ok s"
    by (simp_all only: table_ok_def idle_links_def work_ok_def fr)
  then show "links_ok s'" using assms(2-4) by (simp add: links_ok_def)
  show "idle_exact s' i = idle_exact s i" by (simp add: idle_exact_def fr)
qed

lemma admit_links:
  assumes ad: "admitLocked i p est s = (ok, lease, wait, gb, s')" and ok: "links_ok s"
  shows "links_ok s'" "idle_exact s' j = idle_exact s j" "synced s j \<Longrightarrow> synced s' j"
proof -
  note R = admitLocked_rule [OF ad]
  have "fair_ok s' \<and> index_ok s'"
  proof (rule R [where R = "\<lambda>s. fair_ok s \<and> index_ok s"])
    show "fair_ok s \<and> index_ok s" using ok by (simp add: links_ok_def)
    show "fair_ok t' \<and> index_ok t'" if "fair_ok t \<and> index_ok t" "tryAdmit p est t = (ok, lease, wait, t')"
      for t t' p est ok lease wait
      using that(1) fair_ok_cong [of t' t] index_ok_cong [of t' t] tryAdmit_views [OF that(2)] by simp
  qed (simp_all add: views fair_ok_cong [OF fair_view_upds(1)] index_ok_cong [OF index_view_upds(1)]
         fair_ok_cong [OF arm_views(1)] index_ok_cong [OF arm_views(2)] index_ok_cong [OF mark_clear_view(3)]
         markGateWaiting_ok)
  then show "links_ok s'" "idle_exact s' j = idle_exact s j"
    using frame_links [OF admitLocked_frame [OF ad] ok] by auto
  show "synced s' j" if "synced s j"
    using that
    by (intro R [where R = "\<lambda>s. synced s j"])
       (auto simp: markGateWaiting_synced, auto simp: synced_def upd_group_def armThrottleDrain_def Let_def
         dest!: tryAdmit_views split: option.splits)
qed


lemma same_views_ok:
  assumes "same_views s t"
  shows "links_ok t = links_ok s" "idle_exact t i = idle_exact s i" "synced t i = synced s i" "sched_ok t = sched_ok s"
proof -
  have v: "fair_view t = fair_view s" "index_view t = index_view s" "table_view t = table_view s"
      "idle_view t = idle_view s" "work_view t = work_view s"
    using assms by (simp_all add: same_views_def)
  show l: "links_ok t = links_ok s"
    unfolding links_ok_def fair_ok_cong [OF v(1)] index_ok_cong [OF v(2)] table_ok_cong [OF v(3)]
      idle_links_cong [OF v(4)] work_ok_cong [OF v(5)] ..
  show e: "idle_exact t i = idle_exact s i" for i
    using v(4,5) by (simp add: idle_exact_def idle_view_def work_view_def fun_eq_iff)
  show y: "synced t i = synced s i" for i
    using v(1,2,5) by (simp add: synced_def fair_view_def index_view_def work_view_def fun_eq_iff)
  show "sched_ok t = sched_ok s" by (simp add: sched_ok_def l e y)
qed

end
