(* ===== verification/Fifo.thy ===== *)
theory Fifo
  imports Scheduler Index_Inv
begin

text \<open>
  What an admission pass grants, and to whom: the eligible waiters of a prefix of the queue,
  in order, within the budget, the cap and the pacing window of the group; that a pass
  stops early only for one of these reasons when no provider limit applies; and that a
  pass of the fair provider drain gives every group at most one grant.
\<close>

section \<open>Grants\<close>

text \<open>The effect of granting the waiters \<open>G\<close> of group \<open>i\<close>, up to what the passes update on the side.\<close>

definition grants :: "nat \<Rightarrow> nat list \<Rightarrow> Scheduler \<Rightarrow> Scheduler \<Rightarrow> bool" where
  "grants i G s t \<longleftrightarrow>
     g_queue (s_group t i) = filter (\<lambda>w. w \<notin> set G) (g_queue (s_group s i))
     \<and> g_inFlight (s_group t i) = g_inFlight (s_group s i) + int (length G)
     \<and> (\<forall>j. j \<noteq> i \<longrightarrow> g_queue (s_group t j) = g_queue (s_group s j) \<and> g_inFlight (s_group t j) = g_inFlight (s_group s j))
     \<and> (\<forall>j. g_maxConcurrent (s_group t j) = g_maxConcurrent (s_group s j) \<and> g_nextAllowedAt (s_group t j) = g_nextAllowedAt (s_group s j)
          \<and> g_provider (s_group t j) = g_provider (s_group s j))
     \<and> (\<forall>w. w_granted (s_waiter t w) = (w_granted (s_waiter s w) \<or> w \<in> set G) \<and> w_client (s_waiter t w) = w_client (s_waiter s w)
          \<and> w_provider (s_waiter t w) = w_provider (s_waiter s w))
     \<and> s_now t = s_now s \<and> s_ctxDone t = s_ctxDone s \<and> s_policy t = s_policy s \<and> s_gateSnap t = s_gateSnap s"

lemma grants_trans: "grants i G s t \<Longrightarrow> grants i H t u \<Longrightarrow> grants i (G @ H) s u"
  by (auto simp: grants_def intro!: filter_cong)

lemma frame_grants: "adm_frame s t \<Longrightarrow> grants i [] s t"
  by (simp add: grants_def adm_frameD adm_frame_fields)

lemma grant_waiter_grants:
  assumes "distinct (g_queue (s_group s i))" "w \<in> set (g_queue (s_group s i))"
  shows "grants i [w] s (grant_waiter i w a s)"
  using assms(1) by (auto simp: grants_def grant_waiter_def upd_group_def upd_waiter_def distinct_remove1_removeAll removeAll_filter_not_eq
      intro!: filter_cong)

lemma eligible_grants: "grants i G s t \<Longrightarrow> eligible w t = eligible w s"
  by (simp add: grants_def eligible_def matchingHold_def)

lemma open_grants: "grants i G s t \<Longrightarrow> group_open i t \<longleftrightarrow> \<not> s_now s < g_nextAllowedAt (s_group s i)
    \<and> (g_maxConcurrent (s_group s i) \<noteq> 0 \<longrightarrow> g_inFlight (s_group s i) + int (length G) < g_maxConcurrent (s_group s i))"
  by (auto simp: grants_def admissionWindowOpen_def)

abbreviation unlimited :: "nat \<Rightarrow> Scheduler \<Rightarrow> bool" where
  "unlimited i s \<equiv> gate_of (g_provider (s_group s i)) s = None
     \<and> (\<forall>w \<in> set (g_queue (s_group s i)). gate_of (w_provider (s_waiter s w)) s = None)"

lemma unlimited_admits:
  assumes "gate_of (g_provider (s_group s i)) s = None" "gate_of p s = None"
  shows "fst (admitLocked i p est s)"
  using assms by (auto simp: admitLocked_def rampPolicy_def tryAdmit_def gate_of_def Let_def upd_group_def split: if_splits)

text \<open>The FIFO pass: why it stopped is the last conjunct.\<close>

definition fifo_pass :: "nat \<Rightarrow> int \<Rightarrow> nat list \<Rightarrow> int \<Rightarrow> Scheduler \<Rightarrow> int \<Rightarrow> Scheduler \<Rightarrow> nat \<Rightarrow> bool" where
  "fifo_pass i budget ns k s k' s' m \<longleftrightarrow>
     (let G = filter (\<lambda>w. eligible w s) (take m ns)
      in grants i G s s' \<and> k' = k + int (length G) \<and> (0 < budget \<longrightarrow> k \<le> budget \<longrightarrow> k' \<le> budget)
         \<and> (G \<noteq> [] \<longrightarrow> \<not> s_now s < g_nextAllowedAt (s_group s i)
              \<and> (g_maxConcurrent (s_group s i) \<noteq> 0 \<longrightarrow> g_inFlight (s_group s' i) \<le> g_maxConcurrent (s_group s i)))
         \<and> (unlimited i s \<longrightarrow> length ns \<le> m \<or> 0 < budget \<and> budget \<le> k' \<or> \<not> group_open i s'))"

lemma take_pass:
  assumes q: "distinct (g_queue (s_group s i))" "w \<in> set (g_queue (s_group s i))" and el: "eligible w s" and op: "group_open i s"
    and b: "\<not> (budget > 0 \<and> k \<ge> budget)"
    and ad: "admit_for i w s = (True, lease, wait, gb, s1)"
    and rest: "fifo_pass i budget ns (k + 1) (grant_waiter i w lease s1) k' s' m"
  shows "fifo_pass i budget (w # ns) k s k' s' (Suc m)"
proof -
  note fr = admitLocked_frame [OF ad]
  let ?t = "grant_waiter i w lease s1"
  have qs: "g_queue (s_group s1 i) = g_queue (s_group s i)" by (rule adm_frame_fields(11) [OF fr])
  have g1: "grants i [w] s ?t"
    using grants_trans [OF frame_grants [OF fr] grant_waiter_grants [of s1 i w lease]] q by (simp add: qs)
  have el': "eligible v ?t = eligible v s" for v by (rule eligible_grants [OF g1])
  let ?G = "filter (\<lambda>v. eligible v s) (take m ns)"
  have r: "grants i ?G ?t s'" "k' = k + 1 + int (length ?G)" "0 < budget \<longrightarrow> k + 1 \<le> budget \<longrightarrow> k' \<le> budget"
      "unlimited i ?t \<longrightarrow> length ns \<le> m \<or> 0 < budget \<and> budget \<le> k' \<or> \<not> group_open i s'"
      "?G \<noteq> [] \<longrightarrow> (g_maxConcurrent (s_group ?t i) \<noteq> 0 \<longrightarrow> g_inFlight (s_group s' i) \<le> g_maxConcurrent (s_group ?t i))"
    using rest unfolding fifo_pass_def Let_def el' by blast+
  have gt: "grants i (w # ?G) s s'" using grants_trans [OF g1 r(1)] by simp
  have cap: "g_maxConcurrent (s_group s i) \<noteq> 0 \<longrightarrow> g_inFlight (s_group s' i) \<le> g_maxConcurrent (s_group s i)"
  proof (cases "?G = []")
    case True
    then show ?thesis using gt op by (auto simp: grants_def admissionWindowOpen_def split: if_splits)
  next
    case False
    then show ?thesis using r(5) g1 by (simp add: grants_def)
  qed
  have un: "unlimited i ?t" if "unlimited i s"
    using that g1 by (auto simp: grants_def gate_of_def)
  have stops: "unlimited i s \<longrightarrow> length (w # ns) \<le> Suc m \<or> 0 < budget \<and> budget \<le> k' \<or> \<not> group_open i s'"
    using un r(4) by (metis Suc_le_mono length_Cons)
  have bound: "0 < budget \<longrightarrow> k \<le> budget \<longrightarrow> k' \<le> budget" using r(3) b by linarith
  have nw: "\<not> s_now s < g_nextAllowedAt (s_group s i)" using op by (auto simp: admissionWindowOpen_def split: if_splits)
  show ?thesis
    unfolding fifo_pass_def Let_def using gt r(2) bound cap stops nw el
    by (simp only: take_Suc_Cons filter.simps if_True length_Cons) simp
qed

lemma drain_loop_fifo:
  assumes "drain_loop i budget ns k s = (k', refused, budgetStop, s')"
    and "distinct (g_queue (s_group s i))" "set ns \<subseteq> set (g_queue (s_group s i))" "distinct ns"
  shows "\<exists>m. fifo_pass i budget ns k s k' s' m"
proof -
  define Q where "Q ns k s r \<longleftrightarrow> (distinct (g_queue (s_group s i)) \<longrightarrow> set ns \<subseteq> set (g_queue (s_group s i)) \<longrightarrow> distinct ns \<longrightarrow>
      (case r of (k' :: int, _ :: bool, _ :: bool, s') \<Rightarrow> \<exists>m. fifo_pass i budget ns k s k' s' m))" for ns k s r
  have zero: "fifo_pass i budget ns k s k s' 0"
    if "adm_frame s s'" "unlimited i s \<longrightarrow> ns = [] \<or> 0 < budget \<and> budget \<le> k \<or> \<not> group_open i s'" for ns k s s'
    using that frame_grants [OF that(1)] by (auto simp: fifo_pass_def)
  have "Q ns k s (drain_loop i budget ns k s)"
  proof (induction rule: drain_loop_rule)
    case (stop k s)
    show ?case using zero [of s s "[]" k] by (auto simp: Q_def)
  next
    case (budget w ns k s)
    then show ?case using zero [of s s "w # ns" k] by (auto simp: Q_def)
  next
    case (closed w ns k s)
    then show ?case using zero [of s s "w # ns" k] by (auto simp: Q_def)
  next
    case (skip w ns k s r)
    have up: "fifo_pass i budget (w # ns) k s k' s' (Suc m)" if "fifo_pass i budget ns k s k' s' m" for k' s' m
      using that skip(2) by (simp add: fifo_pass_def)
    show ?case using skip up by (auto simp: Q_def)
  next
    case (refuse w ns k s lease wait gb s1)
    note fr = admitLocked_frame [OF refuse(3)]
    let ?t = "if wait > 0 then armThrottleDrain (w_provider (s_waiter s w)) wait s1 else s1"
    have fr2: "adm_frame s ?t" using fr by (simp add: frames)
    have nu: "\<not> unlimited i s" if "w \<in> set (g_queue (s_group s i))"
      using unlimited_admits [of s i "w_provider (s_waiter s w)" "w_estTokens (s_waiter s w)"] refuse(3) that by auto
    show ?case unfolding Q_def prod.case
    proof (intro impI exI [of _ 0])
      assume "set (w # ns) \<subseteq> set (g_queue (s_group s i))"
      then have "\<not> unlimited i s" using nu by simp
      then show "fifo_pass i budget (w # ns) k s k ?t 0" by (intro zero [OF fr2]) blast
    qed
  next
    case (take w ns k s lease wait gb s1 r)
    note fr = admitLocked_frame [OF take(4)]
    show ?case unfolding Q_def
    proof (intro impI, cases r)
      fix k' x y s' assume d: "distinct (g_queue (s_group s i))" "set (w # ns) \<subseteq> set (g_queue (s_group s i))" "distinct (w # ns)"
        and r: "r = (k', x, y, s')"
      let ?t = "grant_waiter i w lease s1"
      have "g_queue (s_group ?t i) = remove1 w (g_queue (s_group s i))" by (simp add: adm_frame_fields(11) [OF fr])
      then have "distinct (g_queue (s_group ?t i))" "set ns \<subseteq> set (g_queue (s_group ?t i))" "distinct ns"
        using d by auto
      then obtain m where "fifo_pass i budget ns (k + 1) ?t k' s' m" using take(5) by (auto simp: Q_def r)
      from take_pass [OF d(1) _ take(2,1) _ take(4) this] show "case r of (k', _, _, s') \<Rightarrow> \<exists>m. fifo_pass i budget (w # ns) k s k' s' m"
        using d(2) take(3) by (auto simp: r)
    qed
  qed
  with assms show ?thesis by (auto simp: Q_def)
qed

lemma drainLimited_fifo:
  assumes "drainLimited i budget s = (n, s')" and d: "distinct (g_queue (s_group s i))"
  shows "\<exists>m. fifo_pass i budget (g_queue (s_group s i)) 0 s n s' m"
proof -
  obtain k r b s1 where lp: "drain_loop i budget (g_queue (s_group s i)) 0 s = (k, r, b, s1)" by (metis prod_cases4)
  then obtain m where m: "fifo_pass i budget (g_queue (s_group s i)) 0 s k s1 m"
    using drain_loop_fifo [OF lp] d by auto
  have k: "k = n" and fr: "adm_frame s1 s'" using assms(1) by (auto simp: drainLimited_def lp Let_def frames)
  have g: "grants i G s s1 \<Longrightarrow> grants i G s s'" for G using grants_trans [OF _ frame_grants [OF fr]] by fastforce
  have "group_open i s' = group_open i s1" "g_inFlight (s_group s' i) = g_inFlight (s_group s1 i)"
    by (simp_all add: admissionWindowOpen_def adm_frame_fields(8-10) [OF fr] adm_frameD [OF fr])
  with m g show ?thesis by (auto simp: fifo_pass_def Let_def k)
qed


text \<open>A group with a cap of one and two queued waiters, no limit and no hold.\<close>

definition fifo_demo :: Scheduler where
  "fifo_demo = (New \<lparr>o_MaxConcurrent = 1, o_MaxQueueSize = 0, o_MaxWait = 0, o_BaseBackoff = 0, o_MaxBackoff = 0, o_Storm = no_options\<rparr>)
     \<lparr>s_group := (\<lambda>_. zero_group)(0 := zero_group\<lparr>g_queue := [1, 2], g_maxConcurrent := 1\<rparr>)\<rparr>"

lemmas fifo_evals = fifo_demo_def New_def publishGates_def zero_group_def zero_waiter_def matchingHold_def eligible_def gate_of_def

lemma fifo_demo_drain: "g_queue (s_group (drain 0 fifo_demo) 0) = [2]" "fst (drainLimited 0 0 fifo_demo) = 1"
  by (simp_all add: drain_def drainLimited_def grant_waiter_def admitLocked_def rampPolicy_def tryAdmit_def syncQueue_def
      clearGateWaiting_def armRampStep_def upd_group_def upd_waiter_def zero_ramp_def fifo_evals Let_def)

section \<open>Properties\<close>

text \<open>
  C29. A pass over a group grants exactly the eligible waiters (not cancelled, not paused by an
  operator hold) of some prefix of its queue, in order: each leaves the queue with its grant
  delivered and one slot taken, everyone else keeps their place; the pass grants no more than
  its budget, nothing while the pacing window is closed, and never past the group's cap.
\<close>

theorem drain_grants_a_fifo_prefix:
  assumes "distinct (g_queue (s_group s i))" and "drainLimited i budget s = (n, s')"
  shows "\<exists>m G. G = filter (\<lambda>w. eligible w s) (take m (g_queue (s_group s i)))
     \<and> n = int (length G) \<and> (0 < budget \<longrightarrow> n \<le> budget)
     \<and> g_queue (s_group s' i) = filter (\<lambda>w. w \<notin> set G) (g_queue (s_group s i))
     \<and> g_inFlight (s_group s' i) = g_inFlight (s_group s i) + n
     \<and> (\<forall>w. w_granted (s_waiter s' w) = (w_granted (s_waiter s w) \<or> w \<in> set G))
     \<and> (G \<noteq> [] \<longrightarrow> \<not> s_now s < g_nextAllowedAt (s_group s i)
          \<and> (g_maxConcurrent (s_group s i) \<noteq> 0 \<longrightarrow> g_inFlight (s_group s' i) \<le> g_maxConcurrent (s_group s i)))"
proof -
  obtain m where m: "fifo_pass i budget (g_queue (s_group s i)) 0 s n s' m" using drainLimited_fifo [OF assms(2,1)] by blast
  define G where "G = filter (\<lambda>w. eligible w s) (take m (g_queue (s_group s i)))"
  have f: "grants i G s s'" "n = int (length G)" "0 < budget \<longrightarrow> n \<le> budget"
      "G \<noteq> [] \<longrightarrow> \<not> s_now s < g_nextAllowedAt (s_group s i)
        \<and> (g_maxConcurrent (s_group s i) \<noteq> 0 \<longrightarrow> g_inFlight (s_group s' i) \<le> g_maxConcurrent (s_group s i))"
    using m unfolding fifo_pass_def Let_def G_def [symmetric] by auto
  show ?thesis using f by (intro exI [of _ m] exI [of _ G]) (simp add: grants_def G_def [symmetric])
qed

theorem drain_grants_a_fifo_prefix_witness:
  "\<exists>m G. G = filter (\<lambda>w. eligible w fifo_demo) (take m [1, 2]) \<and> length G = 1
     \<and> g_queue (s_group (snd (drainLimited 0 0 fifo_demo)) 0) = filter (\<lambda>w. w \<notin> set G) [1, 2]"
proof -
  have q: "g_queue (s_group fifo_demo 0) = [1, 2]" by (simp add: fifo_evals)
  have d: "distinct (g_queue (s_group fifo_demo 0))" by (simp add: q)
  from drain_grants_a_fifo_prefix [OF d prod.collapse [symmetric], of 0]
  obtain m G where "G = filter (\<lambda>w. eligible w fifo_demo) (take m [1, 2])" "1 = int (length G)"
      "g_queue (s_group (snd (drainLimited 0 0 fifo_demo)) 0) = filter (\<lambda>w. w \<notin> set G) [1, 2]"
    unfolding q fifo_demo_drain(2) by blast
  then show ?thesis by (intro exI [of _ m] exI [of _ G]) linarith
qed

text \<open>
  C30. Where no provider limit applies to the group or its waiters, a full drain leaves no
  eligible waiter behind unless the group is at its cap or paced.
\<close>

theorem unlimited_drain_is_work_conserving:
  assumes "distinct (g_queue (s_group s i))" and "gate_of (g_provider (s_group s i)) s = None"
    and "\<forall>w \<in> set (g_queue (s_group s i)). gate_of (w_provider (s_waiter s w)) s = None"
    and "w \<in> set (g_queue (s_group (drain i s) i))" and "eligible w s"
  shows "\<not> admissionWindowOpen (s_now (drain i s)) (s_group (drain i s) i)"
proof -
  obtain n s' where dl: "drainLimited i 0 s = (n, s')" by (rule prod.exhaust)
  have s': "drain i s = s'" by (simp add: drain_def dl)
  obtain m where m: "fifo_pass i 0 (g_queue (s_group s i)) 0 s n s' m" using drainLimited_fifo [OF dl assms(1)] by blast
  let ?G = "filter (\<lambda>w. eligible w s) (take m (g_queue (s_group s i)))"
  have q: "g_queue (s_group s' i) = filter (\<lambda>w. w \<notin> set ?G) (g_queue (s_group s i))"
    using m by (simp add: fifo_pass_def Let_def grants_def)
  have "length (g_queue (s_group s i)) \<le> m \<or> \<not> group_open i s'"
    using m assms(2,3) by (simp add: fifo_pass_def Let_def)
  moreover have "\<not> length (g_queue (s_group s i)) \<le> m" using assms(4,5) by (auto simp: s' q)
  ultimately show ?thesis by (simp add: s')
qed

theorem unlimited_drain_is_work_conserving_witness:
  "2 \<in> set (g_queue (s_group (drain 0 fifo_demo) 0)) \<and> eligible 2 fifo_demo
     \<and> \<not> admissionWindowOpen (s_now (drain 0 fifo_demo)) (s_group (drain 0 fifo_demo) 0)"
proof -
  have w: "2 \<in> set (g_queue (s_group (drain 0 fifo_demo) 0))" and e: "eligible 2 fifo_demo"
    by (simp_all add: fifo_demo_drain) (simp add: fifo_evals)
  have "\<not> admissionWindowOpen (s_now (drain 0 fifo_demo)) (s_group (drain 0 fifo_demo) 0)"
    by (rule unlimited_drain_is_work_conserving [OF _ _ _ w e]) (simp_all add: fifo_evals)
  then show ?thesis using w e by simp
qed

lemma pass_serves:
  "drain_pass provider is k lst s = (k', lst', full, s') \<Longrightarrow> distinct is \<Longrightarrow> (\<And>j. distinct (g_queue (s_group s j)))
     \<Longrightarrow> \<exists>S. S \<subseteq> set is \<and> k' = k + card S
       \<and> (\<forall>j. length (g_queue (s_group s j)) = length (g_queue (s_group s' j)) + of_bool (j \<in> S))"
proof (induction provider "is" k lst s rule: drain_pass.induct)
  case (1 provider k lst s)
  then show ?case by (intro exI [of _ "{}"]) simp
next
  case (2 provider i "is" k lst s)
  note dq = "2.prems"(3)
  obtain n s1 where dl: "drainLimited i 1 s = (n, s1)" by (rule prod.exhaust)
  obtain m where "fifo_pass i 1 (g_queue (s_group s i)) 0 s n s1 m" using drainLimited_fifo [OF dl dq] by blast
  then have f: "n \<le> 1" "grants i (filter (\<lambda>w. eligible w s) (take m (g_queue (s_group s i)))) s s1"
    unfolding fifo_pass_def Let_def by auto
  have n: "0 \<le> n" "int (length (g_queue (s_group s i))) = int (length (g_queue (s_group s1 i))) + n"
      "j \<noteq> i \<Longrightarrow> g_queue (s_group s1 j) = g_queue (s_group s j)" for j
    using drainLimited_shortens [OF dl] by (auto simp: shortens_def)
  have d1: "distinct (g_queue (s_group s1 j))" for j
    using f(2) dq [of j] dq [of i] n(3) [of j] by (cases "j = i") (auto simp: grants_def)
  have one: "length (g_queue (s_group s j)) = length (g_queue (s_group s1 j)) + of_bool (j = i \<and> n > 0)" for j
    using n f(1) by (cases "j = i") auto
  show ?case
  proof (cases "\<not> g_gateWaiting (s_group s i) \<or> \<not> g_hasQueued (s_group s i)")
    case True
    then obtain S where "S \<subseteq> set is" "k' = k + card S"
        "\<forall>j. length (g_queue (s_group s j)) = length (g_queue (s_group s' j)) + of_bool (j \<in> S)"
      using "2.IH"(1) "2.prems" by auto
    then show ?thesis by (intro exI [of _ S]) auto
  next
    case run: False
    consider (full) "n > 0" "providerConcurrencyFull provider s1" | (more) "n > 0" "\<not> providerConcurrencyFull provider s1" | (none) "n = 0"
      using n(1) by fastforce
    then show ?thesis
    proof cases
      case full
      then show ?thesis using run dl one "2.prems"(1) by (intro exI [of _ "{i}"]) auto
    next
      case more
      obtain S where S: "S \<subseteq> set is" "k' = k + 1 + card S"
          "\<forall>j. length (g_queue (s_group s1 j)) = length (g_queue (s_group s' j)) + of_bool (j \<in> S)"
        using "2.IH"(2) [OF run dl [symmetric] more] "2.prems"(1,2) run dl more d1 by auto
      have "i \<notin> S" using S(1) "2.prems"(2) by auto
      moreover have "finite S" using S(1) finite_subset by blast
      ultimately show ?thesis using S one more by (intro exI [of _ "insert i S"]) auto
    next
      case none
      then have nn: "\<not> 0 < n" by simp
      obtain S where S: "S \<subseteq> set is" "k' = k + card S"
          "\<forall>j. length (g_queue (s_group s1 j)) = length (g_queue (s_group s' j)) + of_bool (j \<in> S)"
        using "2.IH"(3) [OF run dl [symmetric] nn] "2.prems"(1,2) run dl none d1 by auto
      then show ?thesis using one none by (intro exI [of _ S]) auto
    qed
  qed
qed

text \<open>
  The order of a pass is a rotation of the fair-waiting list, so every waiting group has
  one place in it, and the group that was served last comes last.
\<close>

lemma fairSnapshot_rotates:
  assumes "fairSnapshot idx = (groups, idx')"
  shows "(\<exists>n. groups = rotate n (pi_fair idx))
    \<and> (\<forall>c. pi_cursor idx = Some c \<longrightarrow> c \<in> set (pi_fair idx) \<longrightarrow> groups \<noteq> [] \<and> last groups = c)
    \<and> idx' = idx\<lparr>pi_cursor := pi_cursor idx'\<rparr>"
proof (cases "\<exists>c. pi_cursor idx = Some c \<and> c \<in> set (pi_fair idx)")
  case True
  then obtain c where c: "pi_cursor idx = Some c" "c \<in> set (pi_fair idx)" by blast
  let ?L = "takeWhile (\<lambda>i. i \<noteq> c) (pi_fair idx)"
  obtain x rest where dw: "dropWhile (\<lambda>i. i \<noteq> c) (pi_fair idx) = x # rest"
    using c(2) by (cases "dropWhile (\<lambda>i. i \<noteq> c) (pi_fair idx)") (auto simp: dropWhile_eq_Nil_conv)
  have x: "x = c" using hd_dropWhile [of "\<lambda>i. i \<noteq> c" "pi_fair idx"] dw by simp
  have ne: "pi_fair idx \<noteq> []" using c(2) by auto
  have gs: "groups = rest @ ?L @ [x]" "idx' = idx" using assms c(1) dw ne by (auto simp: fairSnapshot_def)
  have "pi_fair idx = (?L @ [x]) @ rest" using takeWhile_dropWhile_id [of "\<lambda>i. i \<noteq> c" "pi_fair idx"] dw by simp
  then have rot: "groups = rotate (length (?L @ [x])) (pi_fair idx)"
    using rotate_append [of "?L @ [x]" rest] gs(1) by simp
  have "groups \<noteq> []" "last groups = c" "idx' = idx\<lparr>pi_cursor := pi_cursor idx'\<rparr>" by (simp_all add: gs x)
  then show ?thesis using c(1) exI [of "\<lambda>n. groups = rotate n (pi_fair idx)", OF rot] by simp
next
  case False
  have "groups = pi_fair idx \<and> idx' = idx\<lparr>pi_cursor := pi_cursor idx'\<rparr>"
  proof (cases "pi_cursor idx")
    case None
    then show ?thesis using assms by (auto simp: fairSnapshot_def split: if_splits)
  next
    case (Some c)
    then have "c \<notin> set (pi_fair idx)" using False by simp
    then have "dropWhile (\<lambda>i. i \<noteq> c) (pi_fair idx) = []"
      using dropWhile_eq_Nil_conv [of "\<lambda>i. i \<noteq> c" "pi_fair idx"] by metis
    then show ?thesis using assms Some by (auto simp: fairSnapshot_def simp del: dropWhile_eq_Nil_conv split: if_splits)
  qed
  then show ?thesis using False by (intro conjI exI [of _ 0]) auto
qed

end
