(* ===== verification/Drain_Inv.thy ===== *)
theory Drain_Inv
  imports Provider_Drain Index_Inv
begin

text \<open>
  Invariants under every drain. The locale states what a predicate has to satisfy at the
  elementary moves of an admission pass, with a second predicate for the middle of a pass,
  where grants have left the queue and the queue's witness is not updated yet; its lemmas
  carry the predicate through the passes, the provider drain and the drain of everything.
\<close>

section \<open>The interface\<close>

locale drain_invariant =
  fixes P :: "Scheduler \<Rightarrow> bool" and Q :: "nat \<Rightarrow> Scheduler \<Rightarrow> bool"
  assumes enter: "P s \<Longrightarrow> g_queue (s_group s i) \<noteq> [] \<Longrightarrow> Q i s"
    and leave: "Q i s \<Longrightarrow> P (syncQueue i s)"
    and refuse: "P s \<Longrightarrow> admit_for i w s = (False, lease, wait, gb, s1) \<Longrightarrow> P s1"
    and refuse_mid: "Q i s \<Longrightarrow> admit_for i w s = (False, lease, wait, gb, s1) \<Longrightarrow> Q i s1"
    and take_mid: "Q i s \<Longrightarrow> w \<in> set (g_queue (s_group s i)) \<Longrightarrow> group_open i s \<Longrightarrow> eligible w s
       \<Longrightarrow> admit_for i w s = (True, lease, wait, gb, s1) \<Longrightarrow> Q i (grant_waiter i w lease s1)"
    and arms: "P s \<Longrightarrow> P (armThrottleDrain p d s)"
    and arms_mid: "Q i s \<Longrightarrow> Q i (armThrottleDrain p d s)"
    and mark: "P s \<Longrightarrow> P (markGateWaiting i s)"
    and clear: "P s \<Longrightarrow> P (clearGateWaiting i s)"
    and cursor: "P s \<Longrightarrow> P (upd_index x (\<lambda>idx. idx\<lparr>pi_cursor := c\<rparr>) s)"
    and kick: "P s \<Longrightarrow> P (s\<lparr>s_kick := n\<rparr>)"
begin

lemma loop_keeps:
  assumes "drain_loop i budget ns k s = (k', refused, budgetStop, s')" and "Q i s"
    and "mset ns \<subseteq># mset (g_queue (s_group s i))"
  shows "Q i s' \<and> k \<le> k' \<and> (k' = k \<longrightarrow> P s \<longrightarrow> P s')"
proof -
  define R where "R ns k s r \<longleftrightarrow> (Q i s \<and> mset ns \<subseteq># mset (g_queue (s_group s i)) \<longrightarrow>
      (case r of (k' :: int, _ :: bool, _ :: bool, s') \<Rightarrow> Q i s' \<and> k \<le> k' \<and> (k' = k \<longrightarrow> P s \<longrightarrow> P s')))" for ns k s r
  have "R ns k s (drain_loop i budget ns k s)"
  proof (induction rule: drain_loop_rule)
    case (skip w ns k s r)
    then show ?case using mset_Cons_subset(1) [of w ns] by (auto simp: R_def)
  next
    case (refuse w ns k s lease wait gb s1)
    then show ?case
      using refuse_mid [of i s w] drain_invariant.refuse [OF drain_invariant_axioms, of s i w] arms_mid [of i s1] arms [of s1]
      by (auto simp: R_def)
  next
    case (take w ns k s lease wait gb s1 r)
    note fr = admitLocked_frame [OF take(4)]
    show ?case unfolding R_def
    proof (intro impI, elim conjE)
      assume q: "Q i s" and sub: "mset (w # ns) \<subseteq># mset (g_queue (s_group s i))"
      have "Q i (grant_waiter i w lease s1)"
        using take_mid [OF q mset_Cons_subset(2) [OF sub] take(1,2,4)] .
      moreover have "mset ns \<subseteq># mset (g_queue (s_group (grant_waiter i w lease s1) i))"
        using mset_Cons_subset(3) [OF sub] by (simp add: adm_frame_fields(11) [OF fr])
      ultimately show "case r of (k', _, _, s') \<Rightarrow> Q i s' \<and> k \<le> k' \<and> (k' = k \<longrightarrow> P s \<longrightarrow> P s')"
        using take(5) by (auto simp: R_def)
    qed
  qed (auto simp: R_def)
  with assms show ?thesis by (simp add: R_def)
qed

lemma ramp_step_keeps: "P s \<Longrightarrow> P (armRampStep i s)"
  by (simp add: armRampStep_def Let_def arms split: prod.split)

lemma drainLimited_keeps:
  assumes "P s" shows "P (snd (drainLimited i budget s))"
proof (cases "g_queue (s_group s i) = []")
  case True
  then show ?thesis using assms by (simp add: drainLimited_def clear)
next
  case False
  obtain k r b s1 where lp: "drain_loop i budget (g_queue (s_group s i)) 0 s = (k, r, b, s1)" by (metis prod_cases4)
  note keeps = loop_keeps [OF lp enter [OF assms False] subset_mset.refl]
  have "P (if k > 0 then armRampStep i (syncQueue i s1) else s1)"
    using keeps assms leave ramp_step_keeps by auto
  then show ?thesis by (simp add: drainLimited_def lp Let_def clear)
qed

lemma drain_keeps: "P s \<Longrightarrow> P (drain i s)"
  by (simp add: drain_def drainLimited_keeps)

lemma pass_keeps: "drain_pass provider is k lst s = (k', lst', full, s') \<Longrightarrow> P s \<Longrightarrow> P s'"
proof (induction provider "is" k lst s rule: drain_pass.induct)
  case (2 provider i "is" k lst s)
  obtain n s1 where dl: "drainLimited i 1 s = (n, s1)" by fastforce
  have "P s1" using drainLimited_keeps [OF "2.prems"(2), of i 1] dl by simp
  with 2 dl show ?case by (auto split: if_splits)
qed simp

lemma passes_keep: "drain_passes provider groups served s = (r, s') \<Longrightarrow> P s \<Longrightarrow> P s'"
proof (induction provider groups served s rule: drain_passes.induct)
  case (1 provider groups served s)
  obtain k lst full s1 where ps: "drain_pass provider groups 0 None s = (k, lst, full, s1)" by (metis prod_cases4)
  have "P s1" by (rule pass_keeps [OF ps "1.prems"(2)])
  with 1 ps show ?case by (subst (asm) drain_passes.simps) (auto split: if_splits)
qed

lemma snapshot_keeps:
  assumes "P s" shows "P (upd_index x (\<lambda>_. snd (fairSnapshot (s_index s x))) s)"
proof -
  have "snd (fairSnapshot idx) = idx\<lparr>pi_cursor := pi_cursor (snd (fairSnapshot idx))\<rparr>" for idx
    by (simp add: fairSnapshot_def split: option.split list.split)
  then have "upd_index x (\<lambda>_. snd (fairSnapshot (s_index s x))) s
      = upd_index x (\<lambda>idx. idx\<lparr>pi_cursor := pi_cursor (snd (fairSnapshot (s_index s x)))\<rparr>) s"
    unfolding upd_index_def by presburger
  then show ?thesis using cursor [OF assms] by metis
qed

lemma snapshot_keeps': "P s \<Longrightarrow> fairSnapshot (s_index s x) = (gs, idx) \<Longrightarrow> P (upd_index x (\<lambda>_. idx) s)"
  using snapshot_keeps [of s x] by simp

lemma advance_keeps: "P s \<Longrightarrow> P (upd_index x (advanceFair i) s)"
  using cursor [of s x "Some i"] by (simp add: advanceFair_def [abs_def])

lemma drainProvider_named_keeps: "P s \<Longrightarrow> P (drainProvider_named provider s)"
  by (auto simp: drainProvider_named_def Let_def intro: snapshot_keeps' advance_keeps dest: passes_keep
      split: option.split prod.split)

lemma scan_keeps: "drainAll_scan is locals providers s = (l, p, s') \<Longrightarrow> P s \<Longrightarrow> P s'"
  by (induction "is" locals providers s rule: drainAll_scan.induct) (auto simp: Let_def mark split: if_splits)

lemma fold_keeps: "(\<And>x s. P s \<Longrightarrow> P (f x s)) \<Longrightarrow> P s \<Longrightarrow> P (fold f xs s)"
  by (induction xs arbitrary: s) auto

lemma drainAll_keeps: "P s \<Longrightarrow> P (drainAll s)"
  by (auto simp: drainAll_def intro!: fold_keeps drain_keeps drainProvider_named_keeps split: prod.split dest: scan_keeps)

lemma drainProvider_keeps: "P s \<Longrightarrow> P (drainProvider provider s)"
  by (simp add: drainProvider_def drainAll_keeps drainProvider_named_keeps)

lemma drainAdmission_keeps: "P s \<Longrightarrow> P (drainAdmission i s)"
  by (simp add: drainAdmission_def Let_def drain_keeps drainProvider_keeps mark)

lemma mark_queued_keeps: "P s \<Longrightarrow> P (mark_queued is s)"
  by (induction "is" s rule: mark_queued.induct) (auto simp: mark)

lemma drainProviderWake_keeps: "P s \<Longrightarrow> P (drainProviderWake provider s)"
  by (simp add: drainProviderWake_def markQueuedProviderGroups_def drainProvider_keeps mark_queued_keeps split: option.split)

lemma kickThrottles_keeps: "P s \<Longrightarrow> P (kickThrottles s)"
  by (simp add: kickThrottles_def kickPolicy_def drainAll_keeps kick)

end


section \<open>The lists and counters under a drain\<close>

definition mid_pass :: "nat \<Rightarrow> Scheduler \<Rightarrow> bool" where
  "mid_pass i s \<longleftrightarrow> links_ok s \<and> (\<forall>j. idle_exact s j) \<and> (\<forall>j. j \<noteq> i \<longrightarrow> synced s j) \<and> i \<in> mapped s"

lemma sched_okD:
  assumes "sched_ok s"
  shows "links_ok s" "fair_ok s" "index_ok s" "table_ok s" "idle_links s" "work_ok s" "idle_exact s i" "synced s i"
  using assms by (auto simp: sched_ok_def links_ok_def)

lemma queued_mapped: "work_ok s \<Longrightarrow> g_queue (s_group s i) \<noteq> [] \<Longrightarrow> i \<in> mapped s"
  using work_okD(5) [of s i] by blast

lemma grant_links:
  assumes ok: "links_ok s" and ex: "\<forall>j. idle_exact s j" and w: "w \<in> set (g_queue (s_group s i))"
  shows "links_ok (grant_waiter i w a s)" "idle_exact (grant_waiter i w a s) j"
    "j \<noteq> i \<Longrightarrow> synced (grant_waiter i w a s) j = synced s j"
proof -
  let ?t = "grant_waiter i w a s"
  have wk: "work_ok s" using ok by (simp add: links_ok_def)
  have eq: "?t = upd_group i (\<lambda>g. g\<lparr>g_queue := remove1 w (g_queue g), g_inFlight := g_inFlight g + 1\<rparr>)
      (upd_waiter w (\<lambda>x. x\<lparr>w_admission := a, w_granted := True\<rparr>) s)"
    by (simp add: grant_waiter_def)
  have v: "fair_view ?t = fair_view s" "index_view ?t = index_view s"
    by (simp_all add: eq views)
  have t: "table_ok ?t = table_ok s" "idle_links ?t = idle_links s"
    by (rule table_ok_cong idle_links_cong, simp add: eq views)+
  have "g_queue (s_group s i) \<noteq> []" using w by auto
  then have i: "i \<in> mapped s" by (rule queued_mapped [OF wk])
  have sub: "set (g_queue (s_group ?t j)) \<subseteq> set (g_queue (s_group s j))" for j
    using set_remove1_subset [of w] by simp
  have "s_groups ?t = s_groups s" "s_next ?t = s_next s" by (simp_all add: eq upd_group_def upd_waiter_def)
  then have "work_ok ?t"
    using work_okD(1,2) [OF wk] work_okD(5) [OF wk] i sub
    by (intro work_ok_shrink [OF wk]) (auto simp: distinct_remove1 add_nonneg_nonneg)
  then show "links_ok ?t" using ok fair_ok_cong [OF v(1)] index_ok_cong [OF v(2)] t by (simp add: links_ok_def)
  have "0 \<le> g_inFlight (s_group s i)" by (rule work_okD(1) [OF wk])
  then show "idle_exact ?t j"
    using ex w by (cases "j = i") (auto simp: idle_exact_def eq upd_group_def upd_waiter_def)
  show "synced ?t j = synced s j" if "j \<noteq> i" using that by (simp add: synced_def eq upd_group_def upd_waiter_def)
qed

lemma mid_sync:
  assumes "mid_pass i s" shows "sched_ok (syncQueue i s)"
proof -
  have ok: "links_ok s" and i: "i \<in> mapped s" using assms by (simp_all add: mid_pass_def)
  have live: "\<not> g_retired (s_group s i)" using ok i mapped_not_retired by (auto simp: links_ok_def)
  note sy = syncQueue_ok [of s i, OF _ _ live]
  have "links_ok (syncQueue i s)" "idle_exact (syncQueue i s) j = idle_exact s j" for j
    using frame_links [of s "syncQueue i s"] ok sy(1,2) by (auto simp: links_ok_def frames)
  moreover have "synced (syncQueue i s) j" for j
    using sy(3,4) ok assms by (cases "j = i") (auto simp: links_ok_def mid_pass_def)
  ultimately show ?thesis using assms by (auto simp: sched_ok_def mid_pass_def)
qed

lemma view_links:
  assumes "adm_frame s t" "fair_view t = fair_view s" "index_view t = index_view s" "links_ok s"
  shows "links_ok t" "idle_exact t j = idle_exact s j" "synced t j = synced s j"
proof -
  have "fair_ok t" "index_ok t" using assms fair_ok_cong [OF assms(2)] index_ok_cong [OF assms(3)] by (auto simp: links_ok_def)
  then show "links_ok t" "idle_exact t j = idle_exact s j" using frame_links [OF assms(1,4)] by auto
  show "synced t j = synced s j"
    using assms(2,3) adm_frame_fields(11) [OF assms(1)]
    by (simp add: synced_def fair_view_def index_view_def fun_eq_iff)
qed

lemma arm_links:
  "links_ok s \<Longrightarrow> links_ok (armThrottleDrain p d s)" "links_ok s \<Longrightarrow> idle_exact (armThrottleDrain p d s) j = idle_exact s j"
  "links_ok s \<Longrightarrow> synced (armThrottleDrain p d s) j = synced s j"
  using view_links [of s "armThrottleDrain p d s"] by (auto simp: frames views)

lemma mark_links:
  "sched_ok s \<Longrightarrow> sched_ok (markGateWaiting i s)" "sched_ok s \<Longrightarrow> sched_ok (clearGateWaiting i s)"
  using frame_links [of s "markGateWaiting i s"] frame_links [of s "clearGateWaiting i s"]
    index_ok_cong [OF mark_clear_view(3), of i s] index_ok_cong [OF mark_clear_view(4), of i s]
  by (auto simp: sched_ok_def links_ok_def frames markGateWaiting_ok clearGateWaiting_ok markGateWaiting_synced
      clearGateWaiting_synced)

interpretation drains: drain_invariant sched_ok mid_pass
proof unfold_locales
  fix s :: Scheduler and i :: nat
  assume "sched_ok s" "g_queue (s_group s i) \<noteq> []"
  then show "mid_pass i s"
    using queued_mapped [of s i] by (auto simp: mid_pass_def sched_ok_def links_ok_def)
next
  fix s i w lease wait gb s1
  assume ad: "admit_for i w s = (False, lease, wait, gb, s1)"
  show "sched_ok s1" if "sched_ok s" using admit_links [OF ad] that by (auto simp: sched_ok_def)
  show "mid_pass i s1" if "mid_pass i s"
    using admit_links [OF ad] adm_frameD(2) [OF admitLocked_frame [OF ad]] that by (auto simp: mid_pass_def)
next
  fix s i w lease wait gb s1
  assume m: "mid_pass i s" and w: "w \<in> set (g_queue (s_group s i))"
    and ad: "admit_for i w s = (True, lease, wait, gb, s1)"
  note fr = admitLocked_frame [OF ad]
  have "links_ok s1" "\<forall>j. idle_exact s1 j" "w \<in> set (g_queue (s_group s1 i))" "\<forall>j. j \<noteq> i \<longrightarrow> synced s1 j"
    using admit_links [OF ad] m w adm_frame_fields(11) [OF fr] by (auto simp: mid_pass_def)
  then show "mid_pass i (grant_waiter i w lease s1)"
    using grant_links [of s1 w i] m adm_frameD(2) [OF fr]
    by (auto simp: mid_pass_def grant_waiter_def upd_group_def upd_waiter_def)
next
  fix s :: Scheduler and p d
  show "sched_ok (armThrottleDrain p d s)" if "sched_ok s" using arm_links [of s] that by (auto simp: sched_ok_def)
  show "mid_pass i (armThrottleDrain p d s)" if "mid_pass i s" for i
    using arm_links [of s] that adm_frameD(2) [of s "armThrottleDrain p d s"] by (auto simp: mid_pass_def frames)
next
  fix s :: Scheduler and x c
  assume "sched_ok s"
  then show "sched_ok (upd_index x (\<lambda>idx. idx\<lparr>pi_cursor := c\<rparr>) s)"
    using view_links [of s "upd_index x (\<lambda>idx. idx\<lparr>pi_cursor := c\<rparr>) s"] by (auto simp: sched_ok_def frames views)
next
  fix s :: Scheduler and n
  assume "sched_ok s"
  then show "sched_ok (s\<lparr>s_kick := n\<rparr>)"
    using same_views_ok(4) [of s "s\<lparr>s_kick := n\<rparr>"]
    by (simp add: same_views_def fair_view_def index_view_def table_view_def idle_view_def work_view_def)
qed (simp_all add: mid_sync mark_links)

end
