(* ===== verification/Throttle_Inv.thy ===== *)
theory Throttle_Inv
  imports Scheduler Drain_Inv
begin

text \<open>
  The table of provider limits: what a policy update leaves installed, for the provider it
  names and for every other one. No drain touches the table or an installed limit, which is
  one more reading of the drain interface.
\<close>

section \<open>Drains leave the policies alone\<close>

definition same_policies :: "Scheduler \<Rightarrow> Scheduler \<Rightarrow> bool" where
  "same_policies s t \<longleftrightarrow> s_gates t = s_gates s \<and> s_gateSnap t = s_gateSnap s \<and> s_next t = s_next s
     \<and> (\<forall>q. pg_throttle (s_gate t q) = pg_throttle (s_gate s q))"

lemma frame_policies:
  "same_policies s t \<Longrightarrow> adm_frame t u \<Longrightarrow> (\<And>q. pg_throttle (s_gate u q) = pg_throttle (s_gate t q)) \<Longrightarrow> same_policies s u"
  by (simp add: same_policies_def adm_frameD)

lemma tryAdmit_throttle: "tryAdmit p est s = (ok, a, wait, s') \<Longrightarrow> pg_throttle (s_gate s' q) = pg_throttle (s_gate s q)"
proof (cases "gate_of p s")
  case (Some r)
  assume "tryAdmit p est s = (ok, a, wait, s')"
  then obtain g where g: "gate_tryAdmit r est (s_now s) (s_now s) (s_now s) (s_gate s r) = (ok, a, wait, g)"
    and s': "s' = upd_gate r (\<lambda>_. g) s" using Some by (auto simp: tryAdmit_def split: prod.splits)
  from g have "pg_throttle g = pg_throttle (s_gate s r)"
    by (cases rule: gate_tryAdmit_cases) (simp_all add: gate_blocked_frame)
  then show ?thesis by (simp add: s' upd_gate_def)
qed (auto simp: tryAdmit_def)

lemma side_throttle [simp]:
  "pg_throttle (s_gate (armThrottleDrain p d s) q) = pg_throttle (s_gate s q)"
  "s_gate (markGateWaiting i s) = s_gate s" "s_gate (clearGateWaiting i s) = s_gate s" "s_gate (syncQueue i s) = s_gate s"
  by (simp_all add: armThrottleDrain_def markGateWaiting_def clearGateWaiting_def markFair_def clearFair_def syncQueue_def
      upd_gate_def Let_def split: option.split)

lemma admit_throttle:
  assumes "admitLocked i p est s = (ok, a, wait, gb, s')"
  shows "pg_throttle (s_gate s' q) = pg_throttle (s_gate s q)"
  by (rule admitLocked_rule [OF assms, where R = "\<lambda>t. pg_throttle (s_gate t q) = pg_throttle (s_gate s q)"])
     (simp_all add: tryAdmit_throttle)

interpretation policies: drain_invariant "same_policies s0" "\<lambda>_. same_policies s0" for s0
proof unfold_locales
  fix s i w lease wait gb s1
  assume p: "same_policies s0 s" and ad: "admit_for i w s = (True, lease, wait, gb, s1)"
  have "same_policies s0 s1" by (rule frame_policies [OF p admitLocked_frame [OF ad] admit_throttle [OF ad]])
  then show "same_policies s0 (grant_waiter i w lease s1)"
    by (simp add: same_policies_def grant_waiter_def) (simp add: upd_group_def upd_waiter_def)
next
  fix s i w lease wait gb s1
  assume p: "same_policies s0 s" and ad: "admit_for i w s = (False, lease, wait, gb, s1)"
  show "same_policies s0 s1" "same_policies s0 s1" by (rule frame_policies [OF p admitLocked_frame [OF ad] admit_throttle [OF ad]])+
next
  fix s :: Scheduler and n assume "same_policies s0 s"
  then show "same_policies s0 (s\<lparr>s_kick := n\<rparr>)" by (simp add: same_policies_def)
qed (auto elim!: frame_policies simp: frames)

lemma resetRamps_policies: "same_policies s (resetRamps is s)"
proof -
  have "same_policies s (fold (\<lambda>i. upd_group i (\<lambda>g. g\<lparr>g_ramp := resetRamp (g_ramp g)\<rparr>)) is t)" if "same_policies s t" for t
    using that
  proof (induction "is" arbitrary: t)
    case (Cons i "is")
    have "same_policies s (upd_group i (\<lambda>g. g\<lparr>g_ramp := resetRamp (g_ramp g)\<rparr>) t)"
      by (rule frame_policies [OF Cons.prems]) (simp_all add: frames)
    then show ?case using Cons.IH by simp
  qed simp
  then show ?thesis by (simp add: resetRamps_def same_policies_def)
qed

lemma changed_policies: "same_policies s (throttle_changed ramps p s)"
proof -
  have "same_policies s (if ramps then resetProviderRamps p s else s)"
    using resetRamps_policies by (simp add: resetProviderRamps_def same_policies_def split: option.split)
  then show ?thesis unfolding throttle_changed_def by (rule policies.kickThrottles_keeps)
qed


section \<open>Updates\<close>

text \<open>The limit in force for a provider, and what makes the table well-formed.\<close>

definition policy_at :: "string \<Rightarrow> Scheduler \<Rightarrow> Limit option" where
  "policy_at p s = map_option (\<lambda>q. t_Limit (pg_throttle (s_gate s q))) (map_of (s_gates s) p)"

definition gates_ok :: "Scheduler \<Rightarrow> bool" where
  "gates_ok s \<longleftrightarrow> s_gateSnap s = s_gates s \<and> distinct (akeys (s_gates s)) \<and> distinct (map snd (s_gates s))
     \<and> (\<forall>(p, q) \<in> set (s_gates s). q < s_next s)"

lemma policies_same: "same_policies s t \<Longrightarrow> policy_at p t = policy_at p s \<and> gates_ok t = gates_ok s \<and> s_gates t = s_gates s"
  by (simp add: same_policies_def policy_at_def gates_ok_def)

lemma gate_ids:
  assumes "gates_ok s" "map_of (s_gates s) p = Some q" "map_of (s_gates s) p' = Some q"
  shows "p' = p"
proof -
  have "inj_on snd (set (s_gates s))" using assms(1) by (auto simp: gates_ok_def distinct_map)
  from inj_onD [OF this, of "(p', q)" "(p, q)"] show ?thesis
    using map_of_SomeD [OF assms(2)] map_of_SomeD [OF assms(3)] by simp
qed

lemma clear_gate_policy:
  assumes ok: "gates_ok s" and q: "map_of (s_gates s) p = Some q" and t: "t = clear_gate p q s"
  shows "gates_ok t" "policy_at p t = None" "p' \<noteq> p \<Longrightarrow> policy_at p' t = policy_at p' s" "length (s_gates t) \<le> length (s_gates s)"
proof -
  have sub: "set (adel p (s_gates s)) \<subseteq> set (s_gates s)" by (auto simp: adel_def)
  have g: "s_gates t = adel p (s_gates s)" "s_gateSnap t = s_gates t" "s_next t = s_next s"
    "s_gate t = (s_gate s)(q := (s_gate s q)\<lparr>pg_wake := stop (pg_wake (s_gate s q)), pg_throttle := zero_throttle\<rparr>)"
    by (simp_all add: t clear_gate_def publishGates_def upd_gate_def)
  show "gates_ok t" using ok sub by (auto simp: gates_ok_def g adel_def distinct_map_filter)
  show "policy_at p t = None" by (simp add: policy_at_def g)
  show "policy_at p' t = policy_at p' s" if "p' \<noteq> p"
    using that gate_ids [OF ok q, of p'] by (cases "map_of (s_gates s) p'") (auto simp: policy_at_def g)
  show "length (s_gates t) \<le> length (s_gates s)" by (simp add: g adel_def)
qed

lemma install_gate_policy:
  assumes ok: "gates_ok s" and q: "map_of (s_gates s) p = Some q" and t: "t = install_gate q u s"
  shows "gates_ok t" "policy_at p t = Some (t_Limit u)" "p' \<noteq> p \<Longrightarrow> policy_at p' t = policy_at p' s" "s_gates t = s_gates s"
proof -
  have g: "s_gates t = s_gates s" "s_gateSnap t = s_gateSnap s" "s_next t = s_next s"
    "pg_throttle (s_gate t r) = (if r = q then u else pg_throttle (s_gate s r))" for r
    by (simp_all add: t install_gate_def upd_gate_def)
  show "s_gates t = s_gates s" by (rule g)
  show "gates_ok t" using ok by (simp add: gates_ok_def g)
  show "policy_at p t = Some (t_Limit u)" by (simp add: policy_at_def g q)
  show "policy_at p' t = policy_at p' s" if "p' \<noteq> p"
    using that gate_ids [OF ok q, of p'] by (cases "map_of (s_gates s) p'") (auto simp: policy_at_def g)
qed

lemma add_gate_policy:
  assumes ok: "gates_ok s" and p: "map_of (s_gates s) p = None" and a: "add_gate p s = (q, t)"
  shows "gates_ok t" "map_of (s_gates t) p = Some q" "p' \<noteq> p \<Longrightarrow> policy_at p' t = policy_at p' s"
    "length (s_gates t) = Suc (length (s_gates s))"
proof -
  have new: "s_gates t = s_gates s @ [(p, q)]" and q: "q = s_next s"
    using a p by (auto simp: add_gate_def publishGates_def Let_def map_of_eq_None_iff aput_new)
  have g: "s_gateSnap t = s_gates t" "s_next t = Suc q" "s_gate t = (s_gate s)(q := newProviderGate)"
    using a by (auto simp: add_gate_def publishGates_def Let_def)
  have lt: "(p', r) \<in> set (s_gates s) \<Longrightarrow> r < q" for p' r using ok by (auto simp: gates_ok_def q)
  have fresh: "q \<notin> set (map snd (s_gates s))" using lt by fastforce
  have "\<forall>(p', r) \<in> set (s_gates t). r < s_next t" using lt by (auto simp: new g intro: less_SucI)
  then show "gates_ok t" using ok p fresh by (simp add: gates_ok_def g(1) new map_of_eq_None_iff)
  show "map_of (s_gates t) p = Some q" using p by (simp add: new map_add_def)
  show "policy_at p' t = policy_at p' s" if "p' \<noteq> p"
    using that lt [of p'] by (cases "map_of (s_gates s) p'") (auto simp: policy_at_def g new map_add_def dest!: map_of_SomeD)
  show "length (s_gates t) = Suc (length (s_gates s))" by (simp add: new)
qed

text \<open>
  C34. A policy update either reports no change and leaves the scheduler as it was, or leaves
  for its provider exactly the normalized limit it asked for (none, if that limit is not
  active) and for every other provider what was there. It reports a change exactly when the
  limit differs from the one in force and the provider has a gate or gets a new one for an
  active limit within the bound on gates. The table stays well-formed and published.
\<close>

theorem UpdateThrottle_installs_the_policy:
  assumes ok: "gates_ok s" and up: "UpdateThrottle provider update s = (changed, s')"
    and cur: "cur = (case map_of (s_gates s) provider of None \<Rightarrow> zero_throttle | Some q \<Rightarrow> pg_throttle (s_gate s q))"
    and L: "L = normalized (t_Limit (update cur))"
  shows "(changed \<longleftrightarrow> provider \<noteq> [] \<and> L \<noteq> t_Limit cur
            \<and> (policy_at provider s \<noteq> None \<or> limit_Active L \<and> length (s_gates s) < maxProviderGates))
    \<and> (\<not> changed \<longrightarrow> s' = s)
    \<and> (changed \<longrightarrow> policy_at provider s' = (if limit_Active L then Some L else None)
         \<and> (\<forall>p. p \<noteq> provider \<longrightarrow> policy_at p s' = policy_at p s))
    \<and> gates_ok s' \<and> length (s_gates s') \<le> max (length (s_gates s)) maxProviderGates"
proof -
  define t where "t = (update cur)\<lparr>t_Provider := provider, t_Limit := L\<rparr>"
  define u where "u = (if IsZero (t_UpdatedAt t) then t\<lparr>t_UpdatedAt := s_now s\<rparr> else t)"
  have tL: "t_Limit t = L" "t_Limit u = L" by (simp_all add: t_def u_def)
  let ?ramps = "rampChanged (t_Limit cur) L"
  let ?C = "throttle_changed ?ramps provider"
  have eq: "UpdateThrottle provider update s =
     (if provider = [] then (False, s)
      else if t_Limit cur = L \<or> map_of (s_gates s) provider = None \<and> \<not> limit_Active L then (False, s)
      else case map_of (s_gates s) provider of
        Some q \<Rightarrow> if \<not> limit_Active L then (True, ?C (clear_gate provider q s))
           else (True, ?C (install_gate q u (upd_gate q (\<lambda>g. g\<lparr>pg_wake := stop (pg_wake g)\<rparr>) s)))
      | None \<Rightarrow> if length (s_gates s) \<ge> maxProviderGates then (False, s)
          else case add_gate provider s of (q, s1) \<Rightarrow> (True, ?C (install_gate q u s1)))"
    unfolding UpdateThrottle_def Let_def cur [symmetric] L [symmetric] t_def [symmetric] u_def [symmetric] tL by (rule refl)
  note C = policies_same [OF changed_policies]
  show ?thesis
  proof (cases "map_of (s_gates s) provider")
    case None
    obtain q s1 where a: "add_gate provider s = (q, s1)" by (rule prod.exhaust)
    note A = add_gate_policy [OF ok None a] and I = install_gate_policy [OF add_gate_policy(1,2) [OF ok None a] refl]
    show ?thesis using up ok I A(3,4) unfolding eq
      by (auto simp: None a C tL policy_at_def [of provider s] max_def split: if_splits)
  next
    case (Some q)
    let ?w = "upd_gate q (\<lambda>g. g\<lparr>pg_wake := stop (pg_wake g)\<rparr>) s"
    have w: "same_policies s ?w" by (simp add: same_policies_def upd_gate_def)
    have ok': "gates_ok ?w" and q': "map_of (s_gates ?w) provider = Some q"
      using policies_same [OF w] ok Some by simp_all
    note D = clear_gate_policy [OF ok Some refl] and I = install_gate_policy [OF ok' q' refl]
    show ?thesis using up ok D I policies_same [OF w] unfolding eq
      by (auto simp: Some C tL policy_at_def [of provider s] split: if_splits)
  qed
qed

text \<open>An empty scheduler gets a limit of two concurrent requests for one provider.\<close>

definition throttle_demo :: Scheduler where
  "throttle_demo = New \<lparr>o_MaxConcurrent = 1, o_MaxQueueSize = 0, o_MaxWait = 0, o_BaseBackoff = 0, o_MaxBackoff = 0, o_Storm = no_options\<rparr>"

theorem UpdateThrottle_installs_the_policy_witness:
  "gates_ok throttle_demo
   \<and> fst (UpdateThrottle ''p'' (\<lambda>t. t\<lparr>t_Limit := zero_limit\<lparr>Concurrency := 2\<rparr>\<rparr>) throttle_demo)
   \<and> policy_at ''p'' (snd (UpdateThrottle ''p'' (\<lambda>t. t\<lparr>t_Limit := zero_limit\<lparr>Concurrency := 2\<rparr>\<rparr>) throttle_demo))
       = Some (zero_limit\<lparr>Concurrency := 2\<rparr>)"
proof -
  have ok: "gates_ok throttle_demo" by (simp add: gates_ok_def throttle_demo_def New_def publishGates_def)
  have g: "s_gates throttle_demo = []" by (simp add: throttle_demo_def New_def publishGates_def)
  have n: "normalized (zero_limit\<lparr>Concurrency := 2\<rparr>) = zero_limit\<lparr>Concurrency := 2\<rparr>" "limit_Active (zero_limit\<lparr>Concurrency := 2\<rparr>)"
    "zero_limit\<lparr>Concurrency := 2\<rparr> \<noteq> t_Limit zero_throttle"
    by (simp_all add: normalized_def zero_limit_def limit_Active_def zero_throttle_def)
  let ?u = "\<lambda>t. t\<lparr>t_Limit := zero_limit\<lparr>Concurrency := 2\<rparr>\<rparr>"
  from UpdateThrottle_installs_the_policy [OF ok, of "''p''" ?u, OF prod.collapse [symmetric] refl refl]
  show ?thesis using ok by (simp add: g n maxProviderGates_def)
qed

end
