(* ===== verification/Send_Token.thy ===== *)
theory Send_Token
  imports Scheduler Drain_Inv
begin

text \<open>
  The send token of a group (\<^verbatim>\<open>scheduler_send.go\<close>): a run of the send operations on one key, with the
  number of senders that own the token. An owner is whoever \<^verbatim>\<open>Trip\<close> or \<^verbatim>\<open>WaitSend\<close> returned true to; it
  gives the token back with \<^verbatim>\<open>EndSend\<close> or with \<^verbatim>\<open>FailSend(own=true)\<close>, as the callers of the package do.
\<close>

section \<open>Drains leave the send gate alone\<close>

definition same_send :: "Scheduler \<Rightarrow> Scheduler \<Rightarrow> bool" where
  "same_send s t \<longleftrightarrow> s_groups t = s_groups s \<and> (\<forall>j. g_probing (s_group t j) = g_probing (s_group s j))"

lemma frame_send: "same_send s t \<Longrightarrow> adm_frame t u \<Longrightarrow> same_send s u"
  by (simp add: same_send_def adm_frameD adm_frame_fields)

interpretation sends: drain_invariant "same_send s0" "\<lambda>_. same_send s0" for s0
proof unfold_locales
  fix s i w lease wait gb s1
  assume p: "same_send s0 s" and ad: "admit_for i w s = (True, lease, wait, gb, s1)"
  have "same_send s0 s1" by (rule frame_send [OF p admitLocked_frame [OF ad]])
  then show "same_send s0 (grant_waiter i w lease s1)" by (simp add: same_send_def grant_waiter_def upd_group_def upd_waiter_def)
next
  fix s :: Scheduler and n assume "same_send s0 s"
  then show "same_send s0 (s\<lparr>s_kick := n\<rparr>)" by (simp add: same_send_def)
qed (auto elim!: frame_send simp: frames dest: admitLocked_frame)

lemma drain_send: "same_send s (drainAdmission i s)"
  by (rule sends.drainAdmission_keeps) (simp add: same_send_def)

lemma later_send: "same_send s (armPacingLater i d s)"
proof -
  have "same_send s (upd_group i (\<lambda>g. g\<lparr>g_nextAllowedAt := a, g_pacer := p g\<rparr>) s)" for a p
    by (simp add: same_send_def upd_group_def)
  then show ?thesis using sends.clear by (simp add: armPacingLater_def Let_def same_send_def)
qed


section \<open>Runs\<close>

inductive token_run :: "string \<Rightarrow> nat \<Rightarrow> Scheduler \<Rightarrow> nat \<Rightarrow> bool" for key :: string and i :: nat where
  run_start: "map_of (s_groups s) key = Some i \<Longrightarrow> \<not> g_probing (s_group s i) \<Longrightarrow> token_run key i s 0"
| run_trip: "token_run key i s n \<Longrightarrow> Trip key d s = (own, s') \<Longrightarrow> token_run key i s' (n + of_bool own)"
| run_pass: "token_run key i s n \<Longrightarrow> sd_group l = i \<Longrightarrow> WaitSend_round l s = (SendReturn token None, l', ev, s')
    \<Longrightarrow> token_run key i s' (n + of_bool (token \<and> \<not> sd_own l))"
| run_wait: "token_run key i s n \<Longrightarrow> sd_group l = i \<Longrightarrow> WaitSend_round l s = (r, l', ev, s')
    \<Longrightarrow> (\<And>token. r \<noteq> SendReturn token None) \<Longrightarrow> token_run key i s' n"
| run_exit: "token_run key i s n \<Longrightarrow> sd_group l = i \<Longrightarrow> token_run key i (snd (WaitSend_exit l s)) n"
| run_end: "token_run key i s (Suc n) \<Longrightarrow> token_run key i (EndSend key keepSerial s) n"
| run_fail_own: "token_run key i s (Suc n) \<Longrightarrow> token_run key i (FailSend rnd key True s) n"
| run_fail: "token_run key i s n \<Longrightarrow> token_run key i (FailSend rnd key False s) n"
| run_pacer: "token_run key i s n \<Longrightarrow> token_run key i (pacer_fires j gen s) n"
| run_time: "token_run key i s n \<Longrightarrow> s_now s \<le> now \<Longrightarrow> token_run key i (s\<lparr>s_now := now\<rparr>) n"

definition token_inv :: "string \<Rightarrow> nat \<Rightarrow> Scheduler \<Rightarrow> nat \<Rightarrow> bool" where
  "token_inv key i s n \<longleftrightarrow> map_of (s_groups s) key = Some i \<and> n = of_bool (g_probing (s_group s i))"

lemma token_same: "same_send s t \<Longrightarrow> token_inv key i t n = token_inv key i s n"
  by (simp add: token_inv_def same_send_def)

lemma token_upd: "g_probing (s_group (upd_group j f s) i) = (if j = i then g_probing (f (s_group s i)) else g_probing (s_group s i))"
  by (simp add: upd_group_def)

lemma groupFor_mapped: "map_of (s_groups s) key = Some i \<Longrightarrow> groupFor key m False s = (i, s)"
  by (simp add: groupFor_def)

lemma kick_probing [simp]: "g_probing (kickSend g) = g_probing g"
  by (simp add: kickSend_def)

lemma upd_groups_table [simp]: "s_groups (upd_group j f s) = s_groups s"
  by (simp add: upd_group_def)

lemma trip_token:
  assumes inv: "token_inv key i s n" and t: "Trip key d s = (own, s')"
  shows "token_inv key i s' (n + of_bool own)"
proof -
  let ?s2 = "armPacingLater i d s"
  have k: "map_of (s_groups s) key = Some i" using inv by (simp add: token_inv_def)
  have i2: "token_inv key i ?s2 n" using inv token_same [OF later_send] by simp
  have g: "g_probing (s_group ?s2 i) = (n = 1)" "map_of (s_groups ?s2) key = Some i" using i2 by (auto simp: token_inv_def)
  have eq: "Trip key d s = (if \<not> g_probing (s_group ?s2 i)
      then (True, upd_group i (\<lambda>g. g\<lparr>g_probing := True\<rparr>) (upd_group i (\<lambda>g. kickSend (g\<lparr>g_tripped := True\<rparr>)) ?s2))
      else (False, upd_group i (\<lambda>g. kickSend (g\<lparr>g_tripped := True\<rparr>)) ?s2))"
    by (simp add: Trip_def extendWindow_def groupFor_mapped [OF k] Let_def upd_group_def)
  show ?thesis using t i2 g by (auto simp: eq token_upd token_inv_def split: if_splits)
qed

lemma round_token:
  assumes inv: "token_inv key i s n" and l: "sd_group l = i" and r: "WaitSend_round l s = (r, l', ev, s')"
  shows "token_inv key i s' (n + of_bool (r = SendReturn True None \<and> \<not> sd_own l))"
proof (cases "queueDrained (sd_drainFrom l) (wh_Provider (sd_hooks l)) (wh_Model (sd_hooks l)) (wh_Client (sd_hooks l)) (s_drains s)
    \<or> send_hold_for l s \<noteq> None")
  case True
  then have "s' = s \<and> r \<noteq> SendReturn True None"
    using r by (auto simp: WaitSend_round_def Let_def block_held_def split: if_splits option.splits)
  then show ?thesis using inv by simp
next
  case False
  then obtain l2 ev2 where sg: "send_gate (l\<lparr>sd_holding := False\<rparr>) s = (r, l2, ev2, s')"
    using r by (auto simp: WaitSend_round_def Let_def split: prod.splits)
  show ?thesis using sg inv l
    by (auto simp: send_gate_def parkSend_def Let_def token_upd token_inv_def split: if_splits)
qed

lemma fail_token:
  assumes inv: "token_inv key i s n" and own: "own \<Longrightarrow> n > 0"
  shows "token_inv key i (FailSend rnd key own s) (n - of_bool own)"
proof -
  have k: "map_of (s_groups s) key = Some i" using inv by (simp add: token_inv_def)
  let ?n = "n - of_bool own"
  define s2 where "s2 = (if own then upd_group i (\<lambda>g. g\<lparr>g_probing := False, g_backoff := 0\<rparr>) s else s)"
  have i2: "token_inv key i s2 ?n" using inv own by (auto simp: s2_def token_inv_def token_upd split: if_splits)
  have i3: "token_inv key i (upd_group i (\<lambda>g. g\<lparr>g_requestBackoff := f g\<rparr>) t) ?n" if "token_inv key i t ?n" for f t
    using that by (simp add: token_inv_def token_upd)
  have i5: "token_inv key i (upd_group i (\<lambda>g. kickSend (g\<lparr>g_tripped := True\<rparr>)) t) ?n" if "token_inv key i t ?n" for t
    using that by (simp add: token_inv_def token_upd)
  show ?thesis
    unfolding FailSend_def groupFor_mapped [OF k] prod.case Let_def s2_def [symmetric]
    using token_same [OF drain_send] token_same [OF later_send] i2 i3 i5 by simp
qed

lemma token_run_inv: "token_run key i s n \<Longrightarrow> token_inv key i s n"
proof (induction rule: token_run.induct)
  case (run_start s)
  then show ?case by (simp add: token_inv_def)
next
  case (run_trip s n d own s')
  from run_trip.IH run_trip.hyps(2) show ?case by (rule trip_token)
next
  case (run_pass s n l token l' ev s')
  then show ?case using round_token [OF run_pass.IH run_pass.hyps(2,3)] by simp
next
  case (run_wait s n l r l' ev s')
  then show ?case using round_token [OF run_wait.IH run_wait.hyps(2,3)] run_wait.hyps(4) by simp
next
  case (run_exit s n l)
  then show ?case by (simp add: WaitSend_exit_def Let_def token_upd token_inv_def)
next
  case (run_end s n keepSerial)
  then have "token_inv key i (upd_group i (\<lambda>g. kickSend (g\<lparr>g_probing := False, g_backoff := 0, g_requestBackoff := 0,
      g_nextAllowedAt := zero_time, g_pacer := stop (g_pacer g), g_tripped := keepSerial\<rparr>)) s) n"
    by (cases "g_probing (s_group s i)") (auto simp: token_inv_def token_upd)
  then show ?case using run_end.IH token_same [OF drain_send] by (simp add: EndSend_def token_inv_def [of _ _ s])
next
  case (run_fail_own s n rnd)
  then show ?case using fail_token [where own = True and n = "Suc n"] by simp
next
  case (run_fail s n rnd)
  then show ?case using fail_token [where own = False and n = n] by simp
next
  case (run_pacer s n j gen)
  then show ?case using token_same [OF drain_send]
    by (simp add: pacer_fires_def Let_def split: prod.split) (simp add: token_inv_def token_upd)
next
  case (run_time s n now)
  then show ?case by (simp add: token_inv_def)
qed

text \<open>
  C35. The send token of a group is exclusive: however trips, send rounds, outcomes, timers and
  time interleave on a key, there is never more than one owner, and there is one exactly
  while the group is probing.
\<close>

theorem send_token_has_one_owner:
  assumes "token_run key i s n"
  shows "n = of_bool (g_probing (s_group s i)) \<and> n \<le> 1"
  using token_run_inv [OF assms] by (simp add: token_inv_def)

text \<open>A key whose first failure trips the group: the caller owns the token, a second trip does not.\<close>

definition token_demo :: Scheduler where
  "token_demo = snd (groupFor ''k'' 0 True
     (New \<lparr>o_MaxConcurrent = 1, o_MaxQueueSize = 0, o_MaxWait = 0, o_BaseBackoff = 0, o_MaxBackoff = 0, o_Storm = no_options\<rparr>))"

theorem send_token_has_one_owner_witness:
  "fst (Trip ''k'' 5 token_demo) \<and> g_probing (s_group (snd (Trip ''k'' 5 token_demo)) 0)
     \<and> \<not> fst (Trip ''k'' 5 (snd (Trip ''k'' 5 token_demo)))"
proof -
  have k: "map_of (s_groups token_demo) ''k'' = Some 0" "\<not> g_probing (s_group token_demo 0)"
    by (simp_all add: token_demo_def groupFor_def New_def publishGates_def Let_def idlePush_def adoptPacing_def pacing_take_def
        upd_group_def new_group_def zero_group_def)
  have own: "fst (Trip ''k'' 5 token_demo)"
    using trip_token [of "''k''" 0 token_demo 0 5, OF _ prod.collapse [symmetric]] k later_send [of token_demo 0 5]
    by (auto simp: Trip_def extendWindow_def groupFor_mapped Let_def same_send_def token_upd)
  note run1 = run_trip [OF run_start [OF k] prod.collapse [symmetric], of 5]
  have p: "g_probing (s_group (snd (Trip ''k'' 5 token_demo)) 0)"
    using send_token_has_one_owner [OF run1] own by (cases "g_probing (s_group (snd (Trip ''k'' 5 token_demo)) 0)") simp_all
  have "fst (Trip ''k'' 5 (snd (Trip ''k'' 5 token_demo))) = False"
    using send_token_has_one_owner [OF run_trip [OF run1 prod.collapse [symmetric], of 5]] own by simp
  with own p show ?thesis by simp
qed

end
