(* ===== verification/Scheduler_Inv.thy ===== *)
theory Scheduler_Inv
  imports Scheduler Drain_Inv
begin

text \<open>
  Every operation of the scheduler keeps its lists, counters and table: one lemma per
  operation, with \<open>sched_ok\<close> before and after.
\<close>

section \<open>Fields no invariant reads\<close>

lemma upd_table [simp]:
  "s_groups (upd_group i f s) = s_groups s" "s_groups (upd_index x h s) = s_groups s"
  "s_groups (upd_gate q k s) = s_groups s" "s_groups (upd_waiter w l s) = s_groups s"
  "s_next (upd_group i f s) = s_next s" "s_next (upd_index x h s) = s_next s"
  "s_next (upd_gate q k s) = s_next s" "s_next (upd_waiter w l s) = s_next s"
  "s_idle (upd_group i f s) = s_idle s" "s_idle (upd_index x h s) = s_idle s"
  "s_providerGroups (upd_group i f s) = s_providerGroups s" "s_providerGroups (upd_index x h s) = s_providerGroups s"
  by (simp_all add: upd_group_def upd_index_def upd_gate_def upd_waiter_def)

lemma quiet_group:
  assumes "\<And>g. g_key (f g) = g_key g" "\<And>g. g_provider (f g) = g_provider g" "\<And>g. g_providerIdx (f g) = g_providerIdx g"
    "\<And>g. g_providerNode (f g) = g_providerNode g" "\<And>g. g_idleNode (f g) = g_idleNode g"
    "\<And>g. g_idleListed (f g) = g_idleListed g" "\<And>g. g_retired (f g) = g_retired g"
    "\<And>g. g_inFlight (f g) = g_inFlight g" "\<And>g. g_queue (f g) = g_queue g" "\<And>g. g_hasQueued (f g) = g_hasQueued g"
    "\<And>g. g_providerQueued (f g) = g_providerQueued g" "\<And>g. g_gateWaiting (f g) = g_gateWaiting g"
    "\<And>g. g_providerFair (f g) = g_providerFair g" "\<And>g. g_fairNode (f g) = g_fairNode g"
  shows "same_views s (upd_group i f s)"
  by (simp add: same_views_def views assms)

lemma sched_ok_group [simp]:
  assumes "\<And>g. g_key (f g) = g_key g" "\<And>g. g_provider (f g) = g_provider g" "\<And>g. g_providerIdx (f g) = g_providerIdx g"
    "\<And>g. g_providerNode (f g) = g_providerNode g" "\<And>g. g_idleNode (f g) = g_idleNode g"
    "\<And>g. g_idleListed (f g) = g_idleListed g" "\<And>g. g_retired (f g) = g_retired g"
    "\<And>g. g_inFlight (f g) = g_inFlight g" "\<And>g. g_queue (f g) = g_queue g" "\<And>g. g_hasQueued (f g) = g_hasQueued g"
    "\<And>g. g_providerQueued (f g) = g_providerQueued g" "\<And>g. g_gateWaiting (f g) = g_gateWaiting g"
    "\<And>g. g_providerFair (f g) = g_providerFair g" "\<And>g. g_fairNode (f g) = g_fairNode g"
  shows "sched_ok (upd_group i f s) = sched_ok s"
  by (rule same_views_ok(4) [OF quiet_group]) (fact assms)+

lemma sched_ok_heaps [simp]:
  "sched_ok (upd_waiter w f s) = sched_ok s" "sched_ok (upd_gate q h s) = sched_ok s"
  by (rule same_views_ok(4), simp add: same_views_def views)+

lemmas view_defs = fair_view_def index_view_def table_view_def idle_view_def work_view_def

lemma sched_ok_fields [simp]:
  "sched_ok (s\<lparr>s_opts := a\<rparr>) = sched_ok s" "sched_ok (s\<lparr>s_storms := b\<rparr>) = sched_ok s"
  "sched_ok (s\<lparr>s_pacing := c\<rparr>) = sched_ok s" "sched_ok (s\<lparr>s_policy := d\<rparr>) = sched_ok s"
  "sched_ok (s\<lparr>s_kick := e\<rparr>) = sched_ok s" "sched_ok (s\<lparr>s_holdCount := f\<rparr>) = sched_ok s"
  "sched_ok (s\<lparr>s_gates := g\<rparr>) = sched_ok s" "sched_ok (s\<lparr>s_gateSnap := h\<rparr>) = sched_ok s"
  "sched_ok (s\<lparr>s_drains := k\<rparr>) = sched_ok s" "sched_ok (s\<lparr>s_holdSeq := l\<rparr>) = sched_ok s"
  "sched_ok (s\<lparr>s_now := m\<rparr>) = sched_ok s" "sched_ok (s\<lparr>s_ctxDone := n\<rparr>) = sched_ok s"
  "sched_ok (s\<lparr>s_log := p\<rparr>) = sched_ok s" "sched_ok (s\<lparr>s_gate := q\<rparr>) = sched_ok s"
  "sched_ok (s\<lparr>s_waiter := r\<rparr>) = sched_ok s" "sched_ok (s\<lparr>s_groupCap := t\<rparr>) = sched_ok s"
  by (rule same_views_ok(4), simp add: same_views_def view_defs)+

lemma sched_ok_small [simp]:
  "sched_ok (settle_lease actual a s) = sched_ok s" "sched_ok (put_attribution w r s) = sched_ok s"
  "sched_ok (dropHold_of w s) = sched_ok s" "sched_ok (adoptHold_of w oh s) = sched_ok s"
  "sched_ok (log_hook w b e s) = sched_ok s" "sched_ok (kickPolicy s) = sched_ok s"
  by (simp_all add: settle_lease_def put_attribution_def dropHold_of_def adoptHold_of_def log_hook_def kickPolicy_def
      split: option.split prod.split)


section \<open>Becoming busy and idle\<close>

definition born :: "Scheduler \<Rightarrow> nat \<Rightarrow> bool" where
  "born s i \<longleftrightarrow> i \<in> mapped s \<or> g_retired (s_group s i)"

lemma idle_move_views:
  assumes "idle_move s t"
  shows "fair_view t = fair_view s" "index_view t = index_view s" "table_view t = table_view s" "work_view t = work_view s"
  using idle_moveD [OF assms] idle_move_fields [OF assms]
  by (simp_all add: view_defs)

lemma idle_move_ok:
  assumes mv: "idle_move s t" and ok: "links_ok s" and idle: "idle_links t" and ex: "\<And>j. idle_exact t j" and sy: "\<And>j. synced s j"
  shows "sched_ok t"
proof -
  note v = idle_move_views [OF mv]
  have "links_ok t"
    using ok idle fair_ok_cong [OF v(1)] index_ok_cong [OF v(2)] table_ok_cong [OF v(3)] work_ok_cong [OF v(4)]
    by (simp add: links_ok_def)
  moreover have "synced t j" for j
    using sy [of j] idle_move_fields(9,10,12) [OF mv, of j] by (simp add: synced_def)
  ultimately show ?thesis using ex by (simp add: sched_ok_def)
qed

lemma markGroupBusy_ok:
  assumes ok: "links_ok s" and ex: "\<And>j. j \<noteq> i \<Longrightarrow> idle_exact s j" and sy: "\<And>j. synced s j"
    and busy: "g_inFlight (s_group s i) \<noteq> 0 \<or> g_queue (s_group s i) \<noteq> []"
  shows "sched_ok (markGroupBusy i s)"
proof -
  have il: "idle_links s" using ok by (simp add: links_ok_def)
  note un = idleUnlink_ok [OF il, of i]
  have eq: "markGroupBusy i s = snd (idleUnlink i s)" by (simp add: markGroupBusy_def idleUnlink_def)
  note mf = idle_moveD(1) [OF un(3)] idle_move_fields(7,9) [OF un(3)]
  have "idle_exact (snd (idleUnlink i s)) j" for j
    using ex [of j] busy by (cases "j = i") (auto simp: idle_exact_def un(2) mf)
  then show ?thesis unfolding eq by (rule idle_move_ok [OF un(3) ok un(1) _ sy])
qed

lemma markGroupIdle_ok:
  assumes ok: "links_ok s" and ex: "\<And>j. j \<noteq> i \<Longrightarrow> idle_exact s j" and sy: "\<And>j. synced s j"
    and born: "born s i" and listed: "i \<in> set (s_idle s) \<Longrightarrow> idle_exact s i"
  shows "sched_ok (markGroupIdle i s)"
proof -
  have il: "idle_links s" and wk: "work_ok s" and tb: "table_ok s" using ok by (simp_all add: links_ok_def)
  show ?thesis
  proof (cases "g_retired (s_group s i) \<or> g_inFlight (s_group s i) \<noteq> 0 \<or> g_queue (s_group s i) \<noteq> []")
    case True
    have "i \<in> mapped s \<Longrightarrow> \<not> g_retired (s_group s i)" by (rule mapped_not_retired [OF tb])
    with True have "idle_exact s i" using listed by (auto simp: idle_exact_def)
    then have "idle_exact s j" for j using ex by (cases "j = i") auto
    then show ?thesis using True ok sy by (auto simp: markGroupIdle_def Let_def sched_ok_def)
  next
    case False
    define t where "t = (if \<not> IsZero (rampStart (g_ramp (s_group s i))) \<and> IsZero (idleSince (g_ramp (s_group s i)))
                     then upd_group i (\<lambda>g. g\<lparr>g_ramp := (g_ramp g)\<lparr>idleSince := s_now s\<rparr>\<rparr>) s else s)"
    have sv: "same_views s t" by (simp add: t_def same_views_def views)
    have lt: "links_ok t" and st: "\<And>j. synced t j" using same_views_ok(1,3) [OF sv] ok sy by auto
    have vt: "s_idle t = s_idle s" "mapped t = mapped s" "g_inFlight (s_group t j) = g_inFlight (s_group s j)"
      "g_queue (s_group t j) = g_queue (s_group s j)" for j
      by (auto simp: t_def upd_group_def)
    note pu = idlePush_ok [of t i]
    have ilt: "idle_links t" using lt by (simp add: links_ok_def)
    have eq: "markGroupIdle i s = idlePush i t" using False by (simp add: markGroupIdle_def Let_def t_def)
    have i: "i \<in> mapped s" using born False by (simp add: born_def)
    note mf = idle_moveD(1) [OF pu(3) [OF ilt]] idle_move_fields(7,9) [OF pu(3) [OF ilt]]
    have "idle_exact (idlePush i t) j" for j
      using ex [of j] i False by (cases "j = i") (auto simp: idle_exact_def pu(2) [OF ilt] mf vt)
    then show ?thesis unfolding eq by (rule idle_move_ok [OF pu(3) [OF ilt] lt pu(1) [OF ilt] _ st])
  qed
qed

section \<open>Leaving\<close>

lemma inFlight_change:
  assumes ok: "sched_ok s" and n: "0 \<le> n" "n \<noteq> g_inFlight (s_group s i) \<Longrightarrow> i \<in> mapped s"
  shows "links_ok (upd_group i (\<lambda>g. g\<lparr>g_inFlight := n\<rparr>) s)"
    "j \<noteq> i \<Longrightarrow> idle_exact (upd_group i (\<lambda>g. g\<lparr>g_inFlight := n\<rparr>) s) j"
    "synced (upd_group i (\<lambda>g. g\<lparr>g_inFlight := n\<rparr>) s) j"
proof -
  let ?t = "upd_group i (\<lambda>g. g\<lparr>g_inFlight := n\<rparr>) s"
  note D = sched_okD [OF ok]
  have "work_ok ?t"
    using work_okD(1,2) [OF D(6)] work_okD(5) [OF D(6)] n
    by (intro work_ok_shrink [OF D(6)]) (auto simp: upd_group_def)
  moreover have "fair_view ?t = fair_view s" "index_view ?t = index_view s" "table_view ?t = table_view s"
      "idle_view ?t = idle_view s"
    by (simp_all add: views)
  ultimately show "links_ok ?t"
    using D(1) fair_ok_cong [of ?t s] index_ok_cong [of ?t s] table_ok_cong [of ?t s] idle_links_cong [of ?t s]
    by (simp add: links_ok_def)
  show "idle_exact ?t j" if "j \<noteq> i" using D(7) [of j] that by (simp add: idle_exact_def upd_group_def)
  show "synced ?t j" using D(8) [of j] by (cases "j = i") (simp_all add: synced_def upd_group_def)
qed

lemma upd_group_const: "f (s_group s i) = h (s_group s i) \<Longrightarrow> upd_group i f s = upd_group i h s"
  by (simp add: upd_group_def)

lemma slot_freed:
  assumes ok: "sched_ok s" and b: "born s i"
  shows "sched_ok (markGroupIdle i
     (if g_inFlight (s_group s i) > 0 then upd_group i (\<lambda>g. g\<lparr>g_inFlight := g_inFlight g - 1\<rparr>) s else s))"
proof (cases "g_inFlight (s_group s i) > 0")
  case True
  note D = sched_okD [OF ok]
  let ?n = "g_inFlight (s_group s i) - 1" and ?t = "upd_group i (\<lambda>g. g\<lparr>g_inFlight := g_inFlight g - 1\<rparr>) s"
  have eq: "?t = upd_group i (\<lambda>g. g\<lparr>g_inFlight := ?n\<rparr>) s" by (rule upd_group_const) simp
  have i: "i \<in> mapped s" using work_okD(5) [OF D(6), of i] True by force
  note ch = inFlight_change [OF ok, of ?n i, folded eq]
  have "i \<notin> set (s_idle s)" using D(7) [of i] True by (simp add: idle_exact_def)
  then have "sched_ok (markGroupIdle i ?t)"
    using True i b by (intro markGroupIdle_ok ch) (auto simp: born_def upd_group_def)
  then show ?thesis using True by simp
next
  case False
  then show ?thesis using sched_okD [OF ok] markGroupIdle_ok [of s i] b by auto
qed

lemma release_ok: "sched_ok s \<Longrightarrow> born s i \<Longrightarrow> sched_ok (release i s)"
  using slot_freed [of s i] drains.drainAdmission_keeps by (simp add: release_def Let_def)

lemma settle_born [simp]: "born (settle_lease actual a s) i = born s i"
  by (simp add: born_def settle_lease_def upd_gate_def split: option.split)

lemma call_Release_ok: "sched_ok s \<Longrightarrow> born s (r_group r) \<Longrightarrow> sched_ok (snd (call_Release actual r s))"
  by (simp add: call_Release_def release_ok)

text \<open>A queue that lost or gained waiters, before its witnesses are updated.\<close>

lemma unqueued_mid:
  assumes ok: "sched_ok s" and w: "w \<in> set (g_queue (s_group s i))"
    and t: "t = upd_group i (\<lambda>g. g\<lparr>g_queue := remove1 w (g_queue g)\<rparr>) s"
  shows "links_ok t" "j \<noteq> i \<Longrightarrow> idle_exact t j" "j \<noteq> i \<Longrightarrow> synced t j" "i \<in> mapped s" "i \<notin> set (s_idle s)"
proof -
  let ?t = "upd_group i (\<lambda>g. g\<lparr>g_queue := remove1 w (g_queue g)\<rparr>) s"
  note D = sched_okD [OF ok]
  have q: "g_queue (s_group s i) \<noteq> []" using w by auto
  show i: "i \<in> mapped s" by (rule queued_mapped [OF D(6) q])
  show "i \<notin> set (s_idle s)" using D(7) [of i] q by (simp add: idle_exact_def)
  have "work_ok ?t"
    using work_okD(1,2) [OF D(6)] work_okD(5) [OF D(6)] set_remove1_subset [of w]
    by (intro work_ok_shrink [OF D(6)]) (auto simp: upd_group_def distinct_remove1)
  moreover have "fair_view ?t = fair_view s" "index_view ?t = index_view s" "table_view ?t = table_view s"
      "idle_view ?t = idle_view s"
    by (simp_all add: views)
  ultimately show "links_ok t"
    using D(1) fair_ok_cong [of ?t s] index_ok_cong [of ?t s] table_ok_cong [of ?t s] idle_links_cong [of ?t s]
    by (simp add: links_ok_def t)
  show "idle_exact t j" if "j \<noteq> i" using D(7) [of j] that by (simp add: idle_exact_def upd_group_def t)
  show "synced t j" if "j \<noteq> i" unfolding t using D(8) [of j] that by (simp add: synced_def upd_group_def)
qed

lemma sync_links:
  assumes ok: "links_ok s" and i: "i \<in> mapped s" and sy: "\<And>j. j \<noteq> i \<Longrightarrow> synced s j"
  shows "links_ok (syncQueue i s)" "idle_exact (syncQueue i s) j = idle_exact s j" "synced (syncQueue i s) j"
    "mapped (syncQueue i s) = mapped s" "s_idle (syncQueue i s) = s_idle s"
    "g_queue (s_group (syncQueue i s) j) = g_queue (s_group s j)"
    "g_inFlight (s_group (syncQueue i s) j) = g_inFlight (s_group s j)"
    "g_retired (s_group (syncQueue i s) j) = g_retired (s_group s j)"
proof -
  have fr: "adm_frame s (syncQueue i s)" by (simp add: frames)
  have live: "\<not> g_retired (s_group s i)" using ok i mapped_not_retired by (auto simp: links_ok_def)
  note so = syncQueue_ok [of s i, OF _ _ live]
  show "links_ok (syncQueue i s)" "idle_exact (syncQueue i s) j = idle_exact s j"
    using frame_links [OF fr ok] so(1,2) ok by (auto simp: links_ok_def)
  show "synced (syncQueue i s) j" using so(3,4) sy ok by (cases "j = i") (auto simp: links_ok_def)
  show "mapped (syncQueue i s) = mapped s" "s_idle (syncQueue i s) = s_idle s"
    "g_queue (s_group (syncQueue i s) j) = g_queue (s_group s j)"
    "g_inFlight (s_group (syncQueue i s) j) = g_inFlight (s_group s j)"
    "g_retired (s_group (syncQueue i s) j) = g_retired (s_group s j)"
    using adm_frameD [OF fr] adm_frame_fields [OF fr] by auto
qed

lemma unqueue_waiter_ok:
  assumes ok: "sched_ok s" and b: "born s i"
  shows "sched_ok (snd (unqueue_waiter i w s))"
proof (cases "w \<in> set (g_queue (s_group s i))")
  case True
  note un = unqueued_mid [OF ok True refl]
  let ?t = "upd_group i (\<lambda>g. g\<lparr>g_queue := remove1 w (g_queue g)\<rparr>) s"
  have m: "mapped ?t = mapped s" "s_idle ?t = s_idle s" by (simp_all add: upd_group_def)
  note sy = sync_links [OF un(1), unfolded m, OF un(4) un(3)]
  have "sched_ok (markGroupIdle i (syncQueue i ?t))"
    using un sy by (intro markGroupIdle_ok) (auto simp: born_def)
  then show ?thesis using True by (simp add: unqueue_waiter_def Let_def)
next
  case False
  let ?t = "settle_lease 0 (w_admission (s_waiter s w)) s"
  have "sched_ok (markGroupIdle i (if g_inFlight (s_group ?t i) > 0 then upd_group i (\<lambda>g. g\<lparr>g_inFlight := g_inFlight g - 1\<rparr>) ?t else ?t))"
    using ok b by (intro slot_freed) simp_all
  then show ?thesis using False by (simp add: unqueue_waiter_def Let_def)
qed

lemma removeWaiter_ok: "sched_ok s \<Longrightarrow> born s i \<Longrightarrow> sched_ok (removeWaiter i w s)"
  using unqueue_waiter_ok [of s i w] drains.drainAdmission_keeps
  by (auto simp: removeWaiter_def Let_def split: prod.split)


section \<open>Entering\<close>

lemma admit_ok: "admitLocked i p est s = (ok, lease, wait, gb, s') \<Longrightarrow> sched_ok s \<Longrightarrow> sched_ok s'"
  using admit_links [of i p est s ok lease wait gb s'] by (auto simp: sched_ok_def)

lemma links_ok_next:
  assumes "links_ok s" and "s_next s \<le> n"
  shows "links_ok (s\<lparr>s_next := n\<rparr>)" "idle_exact (s\<lparr>s_next := n\<rparr>) j = idle_exact s j"
    "synced (s\<lparr>s_next := n\<rparr>) j = synced s j"
proof -
  let ?t = "s\<lparr>s_next := n\<rparr>"
  have tb: "table_ok s" and wk: "work_ok s" using assms by (simp_all add: links_ok_def)
  have v: "fair_view ?t = fair_view s" "index_view ?t = index_view s" "idle_view ?t = idle_view s" by (simp_all add: view_defs)
  have "table_ok ?t"
    using tb assms(2) unfolding table_ok_def by (fastforce intro: less_le_trans)
  moreover have "work_ok ?t"
    using work_okD(1,2) [OF wk] work_okD(5) [OF wk] assms(2) by (intro work_ok_shrink [OF wk]) auto
  ultimately show "links_ok ?t"
    using assms(1) fair_ok_cong [OF v(1)] index_ok_cong [OF v(2)] idle_links_cong [OF v(3)] by (simp add: links_ok_def)
  show "idle_exact ?t j = idle_exact s j" "synced ?t j = synced s j" by (simp_all add: idle_exact_def synced_def)
qed

lemma sched_ok_next: "sched_ok s \<Longrightarrow> s_next s \<le> n \<Longrightarrow> sched_ok (s\<lparr>s_next := n\<rparr>)"
  using links_ok_next [of s n] by (auto simp: sched_ok_def)

lemma fast_ok:
  assumes "sched_ok s" "i \<in> mapped s" "acquire_fast i hooks s = (r, s')"
  shows "sched_ok s'"
proof (cases "fast_path_open i hooks s")
  case False
  then show ?thesis using assms by (simp add: acquire_fast_def)
next
  case True
  obtain ok lease wait gb s1 where ad: "admitLocked i (wh_Provider hooks) (wh_EstTokens hooks) s = (ok, lease, wait, gb, s1)"
    by (rule prod_cases5)
  have ok1: "sched_ok s1" by (rule admit_ok [OF ad assms(1)])
  have i1: "i \<in> mapped s1" using assms(2) adm_frameD(2) [OF admitLocked_frame [OF ad]] by simp
  let ?n = "g_inFlight (s_group s1 i) + 1"
  have eq: "upd_group i (\<lambda>g. g\<lparr>g_inFlight := g_inFlight g + 1\<rparr>) s1 = upd_group i (\<lambda>g. g\<lparr>g_inFlight := ?n\<rparr>) s1"
    by (rule upd_group_const) simp
  have n: "0 \<le> g_inFlight (s_group s1 i)" by (rule work_okD(1) [OF sched_okD(6) [OF ok1]])
  have "sched_ok (markGroupBusy i (upd_group i (\<lambda>g. g\<lparr>g_inFlight := ?n\<rparr>) s1))"
    using inFlight_change [OF ok1, of ?n i] n i1 by (intro markGroupBusy_ok) (auto simp: upd_group_def)
  then show ?thesis
    using assms(3) True ad ok1 drains.arms by (auto simp: acquire_fast_def eq split: if_splits)
qed

lemma enqueue_mid:
  assumes ok: "sched_ok s" and i: "i \<in> mapped s" and w: "w = s_next s"
    and t: "t = upd_group i (\<lambda>g. g\<lparr>g_queue := g_queue g @ [w]\<rparr>) (s\<lparr>s_next := Suc w\<rparr>)"
  shows "links_ok t" "j \<noteq> i \<Longrightarrow> idle_exact t j" "j \<noteq> i \<Longrightarrow> synced t j"
proof -
  note ok' = sched_ok_next [OF ok, of "Suc w", unfolded w, simplified]
  let ?s = "s\<lparr>s_next := Suc w\<rparr>"
  note D = sched_okD [OF ok'] and wk = sched_okD(6) [OF ok]
  have new: "w \<notin> set (g_queue (s_group s j))" for j using work_okD(4) [OF wk, of w j] w by auto
  have Q: "g_queue (s_group t j) = (if j = i then g_queue (s_group s i) @ [w] else g_queue (s_group s j))"
      "g_inFlight (s_group t j) = g_inFlight (s_group s j)" for j
    by (simp_all add: t upd_group_def)
  have N: "s_next t = Suc w" "mapped t = mapped s" by (simp_all add: t upd_group_def)
  have "work_ok t"
    unfolding work_ok_def N Q(2)
  proof (intro conjI allI impI)
    show "distinct (g_queue (s_group t j))" for j using work_okD(2) [OF wk] new by (simp add: Q(1))
    show "a = b" if "v \<in> set (g_queue (s_group t a)) \<and> v \<in> set (g_queue (s_group t b))" for a b v
      using that new work_okD(3) [OF wk, of v a b] by (simp add: Q(1) split: if_splits) blast+
    show "v < Suc w" if "v \<in> set (g_queue (s_group t a))" for a v
      using that work_okD(4) [OF wk, of v a] w by (auto simp: Q(1) split: if_splits intro: less_SucI)
    show "g_queue (s_group t j) = []" if "j \<notin> mapped s" for j using work_okD(5) [OF wk that] i that by (auto simp: Q(1))
  qed (use work_okD(1) [OF wk] work_okD(5) [OF wk] in auto)
  moreover have "fair_view t = fair_view ?s" "index_view t = index_view ?s" "table_view t = table_view ?s"
      "idle_view t = idle_view ?s"
    by (simp_all add: views t)
  ultimately show "links_ok t"
    using D(1) fair_ok_cong [of t ?s] index_ok_cong [of t ?s] table_ok_cong [of t ?s] idle_links_cong [of t ?s] w
    by (simp add: links_ok_def)
  show "idle_exact t j" if "j \<noteq> i" using D(7) [of j] that by (simp add: idle_exact_def upd_group_def t)
  show "synced t j" if "j \<noteq> i" using D(8) [of j] that by (simp add: synced_def upd_group_def t)
qed

lemma enqueue_ok:
  assumes ok: "sched_ok s" and i: "i \<in> mapped s" and e: "acquire_enqueue i opts hooks s = (r, s')"
  shows "sched_ok s'"
proof (cases "(o_MaxQueueSize opts > 0 \<and> int (length (g_queue (s_group s i))) \<ge> o_MaxQueueSize opts) \<or> reserve_waiter hooks s = None")
  case True
  then show ?thesis using ok e by (auto simp: acquire_enqueue_def split: if_splits)
next
  case False
  then obtain c x where rw: "reserve_waiter hooks s = Some (c, x)" by auto
  let ?w = "s_next s"
  let ?s1 = "upd_waiter ?w (\<lambda>_. x) (s\<lparr>s_next := Suc ?w, s_holdCount := c\<rparr>)"
  let ?s2 = "upd_group i (\<lambda>g. g\<lparr>g_queue := g_queue g @ [?w]\<rparr>) ?s1"
  define t where "t = upd_group i (\<lambda>g. g\<lparr>g_queue := g_queue g @ [?w]\<rparr>) (s\<lparr>s_next := Suc ?w\<rparr>)"
  note mid = enqueue_mid [OF ok i refl t_def]
  have "same_views t ?s2" by (simp add: same_views_def view_defs t_def upd_group_def upd_waiter_def)
  note sv = same_views_ok [OF this]
  have l: "links_ok ?s2" "\<And>j. j \<noteq> i \<Longrightarrow> idle_exact ?s2 j" "\<And>j. j \<noteq> i \<Longrightarrow> synced ?s2 j" using mid sv by auto
  have m: "mapped ?s2 = mapped s" by (simp add: upd_group_def upd_waiter_def)
  have q: "g_queue (s_group ?s2 i) \<noteq> []" by (simp add: upd_group_def)
  note sy = sync_links [OF l(1), unfolded m, OF i l(3)]
  have "sched_ok (markGroupBusy i (syncQueue i ?s2))"
    using sy l(2) q by (intro markGroupBusy_ok) auto
  moreover have "s' = (if w_holdID x \<noteq> [] \<and> o_MaxWait opts > 0
       then upd_waiter ?w (\<lambda>x. x\<lparr>w_pausedAt := w_enqueued x\<rparr>) (markGroupBusy i (syncQueue i ?s2))
       else markGroupBusy i (syncQueue i ?s2))"
    using e False rw by (auto simp: acquire_enqueue_def Let_def split: if_splits)
  ultimately show ?thesis by simp
qed

lemma admit_mapped: "acquire_fast i hooks s = (r, s') \<Longrightarrow> mapped s' = mapped s"
  unfolding acquire_fast_def
  by (auto split: if_splits prod.splits dest!: admitLocked_frame adm_frameD(2)
      simp: markGroupBusy_def idleUnlink_def Let_def upd_group_def armThrottleDrain_def upd_gate_def split: option.splits)

lemma acquire_ok:
  assumes "sched_ok s" "born s i" "acquire i opts hooks s = (r, s')"
  shows "sched_ok s'"
proof (cases "g_retired (s_group s i)")
  case True
  then show ?thesis using assms by (simp add: acquire_def)
next
  case False
  then have i: "i \<in> mapped s" using assms(2) by (simp add: born_def)
  obtain o1 s1 where f: "acquire_fast i hooks s = (o1, s1)" by fastforce
  have s1: "sched_ok s1" "i \<in> mapped s1" using fast_ok [OF assms(1) i f] admit_mapped [OF f] i by auto
  then show ?thesis
    using assms(3) False f enqueue_ok [OF s1(1,2)] by (auto simp: acquire_def split: option.splits)
qed


section \<open>The group table\<close>

lemma fresh_group:
  assumes ok: "sched_ok s" and i: "s_next s \<le> i"
  shows "i \<notin> mapped s" "\<not> g_retired (s_group s i)" "g_providerIdx (s_group s i) = None" "g_providerNode (s_group s i) = None"
    "g_providerFair (s_group s i) = None" "g_providerQueued (s_group s i) = None" "g_fairNode (s_group s i) = None"
    "\<not> g_gateWaiting (s_group s i)" "\<not> g_hasQueued (s_group s i)" "g_queue (s_group s i) = []"
    "g_inFlight (s_group s i) = 0" "i \<notin> set (s_idle s)" "\<not> g_idleNode (s_group s i)" "\<not> g_idleListed (s_group s i)"
proof -
  note D = sched_okD [OF ok]
  show m: "i \<notin> mapped s" using table_okD(3) [OF D(4)] i by force
  show r: "\<not> g_retired (s_group s i)" using table_okD(5) [OF D(4), of i] i by auto
  show p: "g_providerIdx (s_group s i) = None" by (rule table_okD(4) [OF D(4) m])
  then show n: "g_providerNode (s_group s i) = None" "g_providerFair (s_group s i) = None"
    "g_providerQueued (s_group s i) = None"
    using index_okD(4-6) [OF D(3), of i] r by auto
  show f: "g_fairNode (s_group s i) = None" using fair_okD(5) [OF D(2), of i] p by (cases "g_fairNode (s_group s i)") auto
  show "\<not> g_gateWaiting (s_group s i)" using fair_okD(4) [OF D(2), of i] f by simp
  show q: "g_queue (s_group s i) = []" "g_inFlight (s_group s i) = 0" using work_okD(5) [OF D(6) m] by auto
  show "\<not> g_hasQueued (s_group s i)" using D(8) [of i] q by (simp add: synced_def)
  show d: "i \<notin> set (s_idle s)" using D(7) [of i] m by (simp add: idle_exact_def)
  show "\<not> g_idleNode (s_group s i)" "\<not> g_idleListed (s_group s i)" using D(5) d by (simp_all add: idle_links_def)
qed

text \<open>The table with a fresh group in it, before the group joins the idle order.\<close>

lemma create_links:
  assumes ok: "sched_ok s" and key: "map_of (s_groups s) key = None" and i: "i = s_next s"
    and t: "t = s\<lparr>s_next := Suc i, s_group := (s_group s)(i := g), s_groups := aput key i (s_groups s)\<rparr>"
    and g: "g = new_group key m"
  shows "links_ok t" "j \<noteq> i \<Longrightarrow> idle_exact t j" "synced t j" "i \<notin> set (s_idle t)" "i \<in> mapped t"
proof -
  note D = sched_okD [OF ok] and F = fresh_group [OF ok, of i, unfolded i, simplified, folded i]
  have k: "key \<notin> set (akeys (s_groups s))" using key by (simp add: map_of_eq_None_iff)
  then have ap: "aput key i (s_groups s) = s_groups s @ [(key, i)]" by (rule aput_new)
  have gs: "g_retired g = False" "g_providerIdx g = None" "g_providerNode g = None" "g_providerFair g = None"
      "g_providerQueued g = None" "g_fairNode g = None" "g_gateWaiting g = False" "g_hasQueued g = False"
      "g_queue g = []" "g_inFlight g = 0" "g_idleNode g = False" "g_idleListed g = False" "g_key g = key" "g_provider g = []"
    by (simp_all add: g new_group_def zero_group_def)
  have v: "fair_view t = fair_view s" "index_view t = index_view s" "idle_view t = idle_view s"
    by (simp_all add: view_defs t F gs fun_eq_iff)
  have "table_ok t"
    unfolding table_ok_def
    using D(4) F(1) k unfolding table_ok_def
    by (simp add: t ap gs fun_upd_def) (auto intro: less_SucI simp: i)
  moreover have "work_ok t"
  proof -
    have same: "g_queue (s_group t j) = g_queue (s_group s j)" "g_inFlight (s_group t j) = g_inFlight (s_group s j)" for j
      by (simp_all add: t gs F)
    have more: "mapped s \<subseteq> mapped t" "s_next s \<le> s_next t" by (simp_all add: t ap, auto simp: i)
    show ?thesis
      unfolding work_ok_def same
      using work_okD(1,2) [OF D(6)] work_okD(3) [OF D(6)] work_okD(4) [OF D(6)] work_okD(5) [OF D(6)] more
      by (intro conjI allI impI) (blast intro: less_le_trans)+
  qed
  ultimately show "links_ok t"
    using D fair_ok_cong [OF v(1)] index_ok_cong [OF v(2)] idle_links_cong [OF v(3)] by (simp add: links_ok_def)
  show "idle_exact t j" if "j \<noteq> i" using D(7) [of j] that by (simp add: idle_exact_def t ap)
  show "synced t j" using D(8) [of j] by (cases "j = i") (simp_all add: synced_def t gs)
  show "i \<notin> set (s_idle t)" "i \<in> mapped t" using F(12) by (simp_all add: t ap)
qed


lemma groupFor_ok:
  assumes ok: "sched_ok s" and gf: "groupFor key m applyCap s = (i, s')"
  shows "sched_ok s'" "i \<in> mapped s'" "map_of (s_groups s') key = Some i"
    "length (s_groups s') = length (s_groups s) + (if map_of (s_groups s) key = None then 1 else 0)"
proof -
  have "sched_ok s' \<and> i \<in> mapped s' \<and> map_of (s_groups s') key = Some i
    \<and> length (s_groups s') = length (s_groups s) + (if map_of (s_groups s) key = None then 1 else 0)"
  proof (cases "map_of (s_groups s) key")
    case (Some j)
    then have "i = j" "s' = (if applyCap \<and> g_maxConcurrent (s_group s j) \<noteq> m
        then upd_group j (\<lambda>g. g\<lparr>g_maxConcurrent := m\<rparr>) s else s)"
      using gf by (auto simp: groupFor_def)
    moreover have "j \<in> mapped s" using map_of_SomeD [OF Some] by force
    ultimately show ?thesis using ok Some by simp
  next
    case None
    let ?i = "s_next s"
    let ?t1 = "s\<lparr>s_next := Suc ?i, s_group := (s_group s)(?i := new_group key m)\<rparr>"
    define u where "u = (adoptPacing ?i ?t1)\<lparr>s_groups := aput key ?i (s_groups (adoptPacing ?i ?t1))\<rparr>"
    define t where "t = s\<lparr>s_next := Suc ?i, s_group := (s_group s)(?i := new_group key m), s_groups := aput key ?i (s_groups s)\<rparr>"
    note cr = create_links [OF ok None refl t_def refl]
    have sg: "s_groups u = aput key ?i (s_groups s)"
      by (auto simp: u_def adoptPacing_def upd_group_def split: prod.split option.split)
    have "same_views t u"
      by (auto simp: same_views_def view_defs t_def u_def adoptPacing_def upd_group_def Let_def fun_eq_iff split: prod.split option.split)
    note sv = same_views_ok [OF this] and vw = this
    have il: "idle_links u" using sv(1) cr(1) by (simp add: links_ok_def)
    note pu = idlePush_ok [OF il, of ?i]
    have st: "s_idle u = s_idle t" "mapped u = mapped t" "g_inFlight (s_group u j) = g_inFlight (s_group t j)"
        "g_queue (s_group u j) = g_queue (s_group t j)" for j
      using vw by (auto simp: same_views_def idle_view_def work_view_def fun_eq_iff)
    note mf = idle_moveD(1) [OF pu(3)] idle_move_fields(7,9) [OF pu(3)]
    have fresh: "g_inFlight (s_group t ?i) = 0" "g_queue (s_group t ?i) = []"
      by (simp_all add: t_def new_group_def zero_group_def)
    have "idle_exact (idlePush ?i u) j" for j
    proof (cases "j = ?i")
      case True
      then show ?thesis using cr(5) fresh by (simp add: idle_exact_def pu(2) mf st)
    next
      case False
      then show ?thesis using cr(2) [of j] by (simp add: idle_exact_def pu(2) mf st)
    qed
    then have "sched_ok (idlePush ?i u)"
      using sv(1,3) cr(1,3) by (intro idle_move_ok [OF pu(3) _ pu(1)]) auto
    moreover have "i = ?i" "s' = idlePush ?i u" using gf None by (auto simp: groupFor_def Let_def u_def)
    moreover have "key \<notin> set (akeys (s_groups s))" using None by (simp add: map_of_eq_None_iff)
    ultimately show ?thesis using cr(5) mf(1) st(2) None by (simp add: sg aput_new map_add_def)
  qed
  then show "sched_ok s'" "i \<in> mapped s'" "map_of (s_groups s') key = Some i"
    "length (s_groups s') = length (s_groups s) + (if map_of (s_groups s) key = None then 1 else 0)" by auto
qed


section \<open>Attribution\<close>

text \<open>The index an attribution uses, existing or new; a new one is still empty.\<close>

lemma provider_index_ok:
  assumes ok: "sched_ok s" and p: "p \<noteq> []" and pi: "provider_index p s = (x, s1)"
  shows "fair_ok s1" "index_ok s1" "idle_links s1" "work_ok s1" "s_group s1 = s_group s" "s_groups s1 = s_groups s"
    "s_idle s1 = s_idle s" "s_next s \<le> s_next s1" "x < s_next s1"
    "distinct (akeys (s_providerGroups s1))" "distinct (map snd (s_providerGroups s1))"
    "(p, x) \<in> set (s_providerGroups s1)" "set (s_providerGroups s1) \<subseteq> insert (p, x) (set (s_providerGroups s))"
    "set (s_providerGroups s) \<subseteq> set (s_providerGroups s1)"
    "pi_groups (s_index s1 y) = pi_groups (s_index s y)" "map_of (s_providerGroups s1) p = Some x"
    "s_now s1 = s_now s" "s_opts s1 = s_opts s"
proof -
  note D = sched_okD [OF ok]
  have "fair_ok s1 \<and> index_ok s1 \<and> idle_links s1 \<and> work_ok s1 \<and> s_group s1 = s_group s \<and> s_groups s1 = s_groups s
    \<and> s_idle s1 = s_idle s \<and> s_next s \<le> s_next s1 \<and> x < s_next s1
    \<and> distinct (akeys (s_providerGroups s1)) \<and> distinct (map snd (s_providerGroups s1))
    \<and> (p, x) \<in> set (s_providerGroups s1) \<and> set (s_providerGroups s1) \<subseteq> insert (p, x) (set (s_providerGroups s))
    \<and> set (s_providerGroups s) \<subseteq> set (s_providerGroups s1)
    \<and> pi_groups (s_index s1 y) = pi_groups (s_index s y) \<and> map_of (s_providerGroups s1) p = Some x
    \<and> s_now s1 = s_now s \<and> s_opts s1 = s_opts s"
  proof (cases "map_of (s_providerGroups s) p")
    case (Some z)
    then have "x = z" "s1 = s" using pi by (simp_all add: provider_index_def)
    moreover have "(p, z) \<in> set (s_providerGroups s)" by (rule map_of_SomeD [OF Some])
    ultimately show ?thesis using D(2-6) Some table_okD(6,7) [OF D(4)] table_okD(8) [OF D(4), of p z] by auto
  next
    case None
    let ?x = "s_next s"
    have x: "x = ?x" and s1: "s1 = s\<lparr>s_next := Suc ?x, s_index := (s_index s)(?x := zero_index),
        s_providerGroups := aput p ?x (s_providerGroups s)\<rparr>"
      using pi None by (auto simp: provider_index_def Let_def)
    have none: "g_providerIdx (s_group s i) \<noteq> Some ?x" for i
      using table_okD(9) [OF D(4), of i ?x] table_okD(8) [OF D(4), of _ ?x] by blast
    have "i \<notin> set (pi_groups (s_index s ?x))" for i
      using none [of i] index_okD(3,4) [OF D(3), of i] by simp
    then have g: "pi_groups (s_index s ?x) = []" by (metis ex_in_conv set_empty)
    have "i \<notin> set (pi_fair (s_index s ?x))" for i
      using none [of i] fair_okD(3) [OF D(2), of i ?x] fair_okD(5) [OF D(2), of i ?x] by auto
    then have f: "pi_fair (s_index s ?x) = []" by (metis ex_in_conv set_empty)
    have q: "pi_fairCount (s_index s ?x) = 0" "pi_queued (s_index s ?x) = 0"
      using fair_okD(2) [OF D(2), of ?x] index_okD(2) [OF D(3), of ?x] f g by simp_all
    have "fair_view s1 = fair_view s" "index_view s1 = index_view s" "idle_view s1 = idle_view s"
      by (auto simp: view_defs s1 zero_index_def f g q fun_eq_iff)
    then have "fair_ok s1" "index_ok s1" "idle_links s1" using D fair_ok_cong index_ok_cong idle_links_cong by metis+
    moreover have "work_ok s1"
      using work_okD(1,2) [OF D(6)] work_okD(5) [OF D(6)] by (intro work_ok_shrink [OF D(6)]) (auto simp: s1)
    moreover have np: "p \<notin> set (akeys (s_providerGroups s))" using None by (simp add: map_of_eq_None_iff)
    moreover have "?x \<notin> snd ` set (s_providerGroups s)" using table_okD(8) [OF D(4), of _ ?x] by force
    ultimately show ?thesis
      using table_okD(6,7) [OF D(4)] g None by (auto simp: s1 x aput_new [OF np] zero_index_def map_add_def)
  qed
  then show "fair_ok s1" "index_ok s1" "idle_links s1" "work_ok s1" "s_group s1 = s_group s" "s_groups s1 = s_groups s"
    "s_idle s1 = s_idle s" "s_next s \<le> s_next s1" "x < s_next s1"
    "distinct (akeys (s_providerGroups s1))" "distinct (map snd (s_providerGroups s1))"
    "(p, x) \<in> set (s_providerGroups s1)" "set (s_providerGroups s1) \<subseteq> insert (p, x) (set (s_providerGroups s))"
    "set (s_providerGroups s) \<subseteq> set (s_providerGroups s1)"
    "pi_groups (s_index s1 y) = pi_groups (s_index s y)" "map_of (s_providerGroups s1) p = Some x"
    "s_now s1 = s_now s" "s_opts s1 = s_opts s" by auto
qed

lemma attributeProvider_ok:
  assumes ok: "sched_ok s" and i: "i \<in> mapped s"
  shows "sched_ok (attributeProvider i p s)"
proof (cases "p = [] \<or> g_provider (s_group s i) \<noteq> []")
  case True
  then show ?thesis using ok by (simp add: attributeProvider_def)
next
  case False
  obtain x s1 where pi: "provider_index p s = (x, s1)" by fastforce
  note D = sched_okD [OF ok] and X = provider_index_ok [OF ok _ pi]
  have p: "p \<noteq> []" using False by simp
  obtain k where ki: "(k, i) \<in> set (s_groups s)" using i by auto
  have live: "\<not> g_retired (s_group s i)" by (rule mapped_not_retired [OF D(4) i])
  have n: "g_providerIdx (s_group s i) = None" using table_okD(3) [OF D(4) ki] False by simp
  then have nn: "g_providerNode (s_group s i) = None" using index_okD(4) [OF D(3), of i] by simp
  have out: "i \<notin> set (pi_groups (s_index s1 y))" for y
    using index_okD(3) [OF X(2) [OF p], of i y] nn X(5) [OF p] by simp
  have fn: "g_fairNode (s_group s i) = None" using fair_okD(5) [OF D(2), of i] n by (cases "g_fairNode (s_group s i)") auto
  let ?g = "(s_group s i)\<lparr>g_provider := p, g_providerIdx := Some x, g_providerQueued := Some x, g_providerFair := Some x,
      g_providerNode := Some x\<rparr>"
  let ?I = "(s_index s1 x)\<lparr>pi_queued := pi_queued (s_index s1 x) + of_bool (g_hasQueued (s_group s i)),
      pi_groups := pi_groups (s_index s1 x) @ [i]\<rparr>"
  define t where "t = s1\<lparr>s_group := (s_group s)(i := ?g), s_index := (s_index s1)(x := ?I)\<rparr>"
  have eq: "attributeProvider i p s = t"
    using False X(5) [OF p] nn
    by (simp add: attributeProvider_def pi Let_def linkLocked_def upd_group_def upd_index_def t_def)
  have "fair_ok t"
    using X(1) [OF p] n fn unfolding fair_ok_def by (auto simp: t_def X(5) [OF p])
  moreover have "index_ok t"
  proof -
    have G: "queued_groups ((s_group s)(i := ?g)) (pi_groups (s_index s1 y)) = pi_queued (s_index s1 y)" for y
      using index_okD(1,2) [OF X(2) [OF p], of y] out [of y] by (simp add: queued_groups_upd X(5) [OF p])
    show ?thesis
      unfolding index_ok_def
      using index_okD(1) [OF X(2) [OF p]] index_okD(3-5) [OF X(2) [OF p]] index_okD(6) [OF X(2) [OF p]]
        index_okD(7) [OF X(2) [OF p]] out live G
      by (auto simp: t_def X(5) [OF p])
  qed
  moreover have "table_ok t"
    unfolding table_ok_def
  proof (intro conjI)
    show "\<forall>(k, j)\<in>set (s_groups t). g_key (s_group t j) = k \<and> \<not> g_retired (s_group t j) \<and> j < s_next t
        \<and> (g_providerIdx (s_group t j) = None) = (g_provider (s_group t j) = [])"
    proof clarify
      fix k j assume "(k, j) \<in> set (s_groups t)"
      then have "(k, j) \<in> set (s_groups s)" by (simp add: t_def X(6) [OF p])
      from table_okD(3) [OF D(4) this] X(8) [OF p] p
      show "g_key (s_group t j) = k \<and> \<not> g_retired (s_group t j) \<and> j < s_next t
        \<and> (g_providerIdx (s_group t j) = None) = (g_provider (s_group t j) = [])"
        by (auto simp: t_def)
    qed
    show "\<forall>(q, y)\<in>set (s_providerGroups t). q \<noteq> [] \<and> y < s_next t \<and> pi_groups (s_index t y) \<noteq> []"
    proof clarify
      fix q y assume "(q, y) \<in> set (s_providerGroups t)"
      then have "(q, y) = (p, x) \<or> (q, y) \<in> set (s_providerGroups s)" using X(13) [OF p] by (auto simp: t_def)
      then show "q \<noteq> [] \<and> y < s_next t \<and> pi_groups (s_index t y) \<noteq> []"
        using table_okD(8) [OF D(4), of q y] X(8,9) [OF p] X(15) [OF p, of y] p by (auto simp: t_def)
    qed
    show "\<forall>j y. g_providerIdx (s_group t j) = Some y \<longrightarrow> (g_provider (s_group t j), y) \<in> set (s_providerGroups t)"
      using table_okD(9) [OF D(4)] X(12,14) [OF p] by (auto simp: t_def)
    show "\<forall>j. g_retired (s_group t j) \<longrightarrow> j < s_next t"
      using table_okD(5) [OF D(4)] X(8) [OF p] by (auto simp: t_def intro: less_le_trans)
    show "\<forall>j. j \<notin> mapped t \<longrightarrow> g_providerIdx (s_group t j) = None"
      using table_okD(4) [OF D(4)] i by (auto simp: t_def X(6) [OF p])
  qed (use table_okD(1,2) [OF D(4)] X(10,11) [OF p] in \<open>simp_all add: t_def X(6) [OF p]\<close>)
  moreover have "idle_links t" using X(3) [OF p] by (auto simp: idle_links_def t_def X(5) [OF p])
  moreover have "work_ok t" using X(4) [OF p] by (rule work_ok_shrink) (auto simp: t_def X(5) [OF p] intro: work_okD [OF D(6)]
      dest: work_okD(5) [OF D(6)] simp: X(6) [OF p])
  moreover have "idle_exact t j" for j using D(7) [of j] by (simp add: idle_exact_def t_def X(6,7) [OF p])
  moreover have "synced t j" for j using D(8) [of j] by (cases "j = i") (simp_all add: synced_def t_def)
  ultimately show ?thesis unfolding eq by (simp add: sched_ok_def links_ok_def)
qed


section \<open>Eviction\<close>

text \<open>The state after the idle group \<open>i\<close> left the idle order.\<close>

definition popped :: "nat \<Rightarrow> Scheduler \<Rightarrow> bool" where
  "popped i s \<longleftrightarrow> links_ok s \<and> (\<forall>j. j \<noteq> i \<longrightarrow> idle_exact s j) \<and> (\<forall>j. synced s j) \<and> i \<in> mapped s
     \<and> i \<notin> set (s_idle s) \<and> g_inFlight (s_group s i) = 0 \<and> g_queue (s_group s i) = []"

lemma popIdleGroup_ok:
  assumes ok: "sched_ok s" and pop: "popIdleGroup s = (Some i, s1)"
  shows "popped i s1" "s_groups s1 = s_groups s" "s_groupCap s1 = s_groupCap s" "s_pacing s1 = s_pacing s"
    "i \<in> set (s_idle s)" "s_idle s1 = remove1 i (s_idle s)" "idle_move s s1"
proof -
  note D = sched_okD [OF ok]
  obtain rest where idle: "s_idle s = i # rest" and s1: "s1 = snd (idleUnlink i s)"
    using pop by (auto simp: popIdleGroup_def split: list.splits)
  note un = idleUnlink_ok [OF D(5), of i, folded s1]
  note mf = idle_moveD [OF un(3)] idle_move_fields [OF un(3)] and v = idle_move_views [OF un(3)]
  have "idle_exact s i" by (rule D(7))
  then have i: "i \<in> mapped s" "g_inFlight (s_group s i) = 0" "g_queue (s_group s i) = []"
    by (simp_all add: idle_exact_def idle)
  have "links_ok s1"
    using D(1) un(1) fair_ok_cong [OF v(1)] index_ok_cong [OF v(2)] table_ok_cong [OF v(3)] work_ok_cong [OF v(4)]
    by (simp add: links_ok_def)
  moreover have "idle_exact s1 j" if "j \<noteq> i" for j using D(7) [of j] that by (simp add: idle_exact_def un(2) mf)
  moreover have "synced s1 j" for j using D(8) [of j] by (simp add: synced_def mf)
  ultimately show "popped i s1" using i un(2) by (auto simp: popped_def mf)
  show "s_groups s1 = s_groups s" "s_groupCap s1 = s_groupCap s" "s_pacing s1 = s_pacing s" "i \<in> set (s_idle s)"
    "s_idle s1 = remove1 i (s_idle s)" "idle_move s s1"
    using un(3,5) by (simp_all add: mf idle)
qed

lemma adel_subset: "set (adel k xs) = {e \<in> set xs. fst e \<noteq> k}"
  by (auto simp: adel_def)

lemma adel_distinct: "distinct (map f xs) \<Longrightarrow> distinct (map f (adel k xs))"
  by (simp add: adel_def distinct_map_filter)

text \<open>What eviction makes of the group, of its index and of the two tables.\<close>

definition evicted :: "nat \<Rightarrow> Scheduler \<Rightarrow> Scheduler" where
  "evicted i s = detachProvider i
     ((upd_group i (\<lambda>g. g\<lparr>g_retired := True, g_pacer := stop (g_pacer g)\<rparr>) s)\<lparr>s_groups := adel (g_key (s_group s i)) (s_groups s)\<rparr>)"

lemma evictIdleGroup_eq:
  assumes "popped i s"
  shows "evictIdleGroup i s = (True,
    (let pacing = pacing_of (s_group s i); key = g_key (s_group s i)
     in if \<not> IsZero (ps_nextAllowedAt pacing) \<or> ps_backoff pacing \<noteq> 0 \<or> ps_requestBackoff pacing \<noteq> 0 \<or> ps_tripped pacing
        then (evicted i s)\<lparr>s_pacing := pacing_put key pacing (s_pacing (evicted i s))\<rparr> else evicted i s))"
proof -
  have tb: "table_ok s" and il: "idle_links s" and sy: "synced s i" using assms by (simp_all add: popped_def links_ok_def)
  obtain k where k: "(k, i) \<in> set (s_groups s)" using assms by (auto simp: popped_def)
  note K = table_okD(3) [OF tb k]
  have m: "map_of (s_groups s) (g_key (s_group s i)) = Some i" using K k table_okD(1) [OF tb] by (simp add: map_of_is_SomeI)
  have un: "\<not> g_gateWaiting (s_group s i)" using sy assms by (simp add: synced_def popped_def)
  have nl: "\<not> g_idleListed (s_group s i)" using il assms by (simp add: idle_links_def popped_def)
  let ?s1 = "upd_group i (\<lambda>g. g\<lparr>g_retired := True\<rparr>) s"
  have c: "clearGateWaiting i ?s1 = ?s1" using un by (simp add: clearGateWaiting_def upd_group_def split: option.split)
  let ?s3 = "upd_group i (\<lambda>g. g\<lparr>g_pacer := stop (g_pacer g)\<rparr>) ?s1"
  have u: "snd (idleUnlink i ?s3) = ?s3" using nl by (simp add: idleUnlink_def upd_group_def)
  have 3: "?s3 = upd_group i (\<lambda>g. g\<lparr>g_retired := True, g_pacer := stop (g_pacer g)\<rparr>) s" by (simp add: upd_group_def)
  have "\<not> (g_retired (s_group s i) \<or> g_inFlight (s_group s i) \<noteq> 0 \<or> g_queue (s_group s i) \<noteq> [])"
    using assms K by (simp add: popped_def)
  then show ?thesis
    unfolding evictIdleGroup_def Let_def c u using m
    by (simp add: evicted_def 3 pacing_of_def) (auto simp: upd_group_def)
qed

lemma evicted_ok:
  assumes pp: "popped i s"
  shows "sched_ok (evicted i s)" "s_groups (evicted i s) = adel (g_key (s_group s i)) (s_groups s)"
    "g_retired (s_group (evicted i s) i)" "s_pacing (evicted i s) = s_pacing s" "s_groupCap (evicted i s) = s_groupCap s"
    "s_idle (evicted i s) = s_idle s"
proof -
  have lo: "fair_ok s" "index_ok s" "table_ok s" "idle_links s" "work_ok s" and i: "i \<in> mapped s"
      and z: "g_inFlight (s_group s i) = 0" "g_queue (s_group s i) = []" and nd: "i \<notin> set (s_idle s)"
      and ex: "\<And>j. j \<noteq> i \<Longrightarrow> idle_exact s j" and sy: "\<And>j. synced s j"
    using pp by (auto simp: popped_def links_ok_def)
  obtain k where ki: "(k, i) \<in> set (s_groups s)" using i by auto
  note K = table_okD(3) [OF lo(3) ki]
  have un: "\<not> g_gateWaiting (s_group s i)" "\<not> g_hasQueued (s_group s i)" using sy [of i] z by (simp_all add: synced_def)
  have fn: "g_fairNode (s_group s i) = None" using fair_okD(4) [OF lo(1), of i] un by simp
  define ox where "ox = g_providerNode (s_group s i)"
  have oi: "g_providerIdx (s_group s i) = ox" using index_okD(4) [OF lo(2), of i] by (simp add: ox_def)
  define drop where "drop \<longleftrightarrow> (\<exists>x. ox = Some x \<and> remove1 i (pi_groups (s_index s x)) = [])"
  let ?key = "g_key (s_group s i)" and ?p = "g_provider (s_group s i)"
  let ?g = "(s_group s i)\<lparr>g_retired := True, g_pacer := stop (g_pacer (s_group s i)),
      g_providerIdx := None, g_providerFair := (if ox = None then g_providerFair (s_group s i) else None), g_providerNode := None\<rparr>"
  define t where "t = evicted i s"
  have pg: "ox = Some x \<Longrightarrow> (?p, x) \<in> set (s_providerGroups s)" for x using table_okD(9) [OF lo(3), of i] oi by simp
  have G: "s_group t = (s_group s)(i := ?g)"
    and I: "pi_groups (s_index t x) = (if ox = Some x then remove1 i (pi_groups (s_index s x)) else pi_groups (s_index s x))"
      "pi_queued (s_index t x) = pi_queued (s_index s x)" "pi_fair (s_index t x) = pi_fair (s_index s x)"
      "pi_fairCount (s_index t x) = pi_fairCount (s_index s x)"
    and T: "s_groups t = adel ?key (s_groups s)" "s_next t = s_next s" "s_idle t = s_idle s" "s_panic t = s_panic s"
      "s_pacing t = s_pacing s" "s_groupCap t = s_groupCap s"
    and PG: "s_providerGroups t = (if drop then adel ?p (s_providerGroups s) else s_providerGroups s)" for x
    using pg table_okD(6) [OF lo(3)]
    by (auto simp: t_def evicted_def detachProvider_def unlinkLocked_def upd_group_def upd_index_def Let_def oi
        ox_def [symmetric] drop_def fun_eq_iff split: option.split if_splits)
  have mem: "i \<in> set (pi_groups (s_index s x)) \<longleftrightarrow> ox = Some x" for x using index_okD(3) [OF lo(2), of i x] by (simp add: ox_def)
  have mp: "mapped t = mapped s - {i}"
  proof -
    have 1: "j = i" if "(?key, j) \<in> set (s_groups s)" for j
      using eq_key_imp_eq_value [OF table_okD(1) [OF lo(3)] that] ki K by simp
    have 2: "a = ?key" if "(a, i) \<in> set (s_groups s)" for a using table_okD(3) [OF lo(3) that] by simp
    have in_t: "j \<in> mapped t \<longleftrightarrow> (\<exists>a. (a, j) \<in> set (s_groups s) \<and> a \<noteq> ?key)" for j
      unfolding T adel_subset by force
    have in_s: "j \<in> mapped s \<longleftrightarrow> (\<exists>a. (a, j) \<in> set (s_groups s))" for j by force
    show ?thesis
    proof (rule set_eqI)
      fix j show "j \<in> mapped t \<longleftrightarrow> j \<in> mapped s - {i}"
        using 1 [of j] 2 by (cases "j = i") (auto simp only: in_t in_s Diff_iff singleton_iff)
    qed
  qed
  have "i \<notin> set (pi_fair (s_index s x))" for x using fair_okD(3) [OF lo(1), of i x] fn by simp
  then have "fair_ok t"
    using lo(1) fn un(1) unfolding fair_ok_def by (auto simp: G I T)
  moreover have "index_ok t"
  proof -
    have Q: "queued_groups ((s_group s)(i := ?g)) (pi_groups (s_index t x)) = pi_queued (s_index t x)" for x
    proof -
      have d: "distinct (pi_groups (s_index s x))" by (rule index_okD(1) [OF lo(2)])
      have "queued_groups ((s_group s)(i := ?g)) (pi_groups (s_index t x)) = queued_groups (s_group s) (pi_groups (s_index t x))"
        using un(2) by (intro queued_groups_cong) simp
      also have "\<dots> = queued_groups (s_group s) (pi_groups (s_index s x))"
        using un(2) d by (simp add: I(1) queued_groups_def distinct_remove1_removeAll removeAll_filter_not_eq filter_filter)
          (auto intro!: arg_cong [where f = length] filter_cong)
      finally show ?thesis using index_okD(2) [OF lo(2), of x] by (simp add: I(2))
    qed
    show ?thesis
      unfolding index_ok_def
      using index_okD(1) [OF lo(2)] index_okD(3-5) [OF lo(2)] index_okD(6) [OF lo(2)] index_okD(7) [OF lo(2)] mem un(2) Q
        index_okD(5) [OF lo(2), of i]
      by (auto simp: G I(1) ox_def [symmetric] distinct_remove1 split: if_splits)
  qed
  moreover have "table_ok t"
    unfolding table_ok_def mp
  proof (intro conjI)
    have sub: "set (s_groups t) \<subseteq> set (s_groups s)" by (auto simp: T adel_subset)
    show "\<forall>(k, j)\<in>set (s_groups t). g_key (s_group t j) = k \<and> \<not> g_retired (s_group t j) \<and> j < s_next t
        \<and> (g_providerIdx (s_group t j) = None) = (g_provider (s_group t j) = [])"
    proof clarify
      fix a j assume aj: "(a, j) \<in> set (s_groups t)"
      then have "j \<noteq> i" using mp by force
      with table_okD(3) [OF lo(3), of a j] aj sub
      show "g_key (s_group t j) = a \<and> \<not> g_retired (s_group t j) \<and> j < s_next t
        \<and> (g_providerIdx (s_group t j) = None) = (g_provider (s_group t j) = [])" by (auto simp: G T)
    qed
    show "\<forall>(q, y)\<in>set (s_providerGroups t). q \<noteq> [] \<and> y < s_next t \<and> pi_groups (s_index t y) \<noteq> []"
    proof clarify
      fix q y assume qy: "(q, y) \<in> set (s_providerGroups t)"
      then have qy': "(q, y) \<in> set (s_providerGroups s)" by (auto simp: PG adel_subset split: if_splits)
      have "pi_groups (s_index t y) \<noteq> []"
      proof (cases "ox = Some y")
        case True
        then have "(?p, y) \<in> set (s_providerGroups s)" by (rule pg)
        then have "q = ?p" using qy' table_okD(7) [OF lo(3)] by (force simp: distinct_map inj_on_def)
        then have "\<not> drop" using qy by (auto simp: PG adel_subset split: if_splits)
        then show ?thesis using True by (simp add: drop_def I(1))
      next
        case False
        then show ?thesis using table_okD(8) [OF lo(3) qy'] by (simp add: I(1))
      qed
      then show "q \<noteq> [] \<and> y < s_next t \<and> pi_groups (s_index t y) \<noteq> []" using table_okD(8) [OF lo(3) qy'] by (simp add: T)
    qed
    show "\<forall>j y. g_providerIdx (s_group t j) = Some y \<longrightarrow> (g_provider (s_group t j), y) \<in> set (s_providerGroups t)"
    proof (intro allI impI)
      fix j y assume a: "g_providerIdx (s_group t j) = Some y"
      then have j: "j \<noteq> i" "g_providerIdx (s_group s j) = Some y" by (auto simp: G split: if_splits)
      have in_s: "(g_provider (s_group s j), y) \<in> set (s_providerGroups s)" by (rule table_okD(9) [OF lo(3) j(2)])
      have jy: "j \<in> set (pi_groups (s_index s y))" using index_okD(3) [OF lo(2), of j y] index_okD(4) [OF lo(2), of j] j(2) by metis
      have "\<not> drop" if "g_provider (s_group s j) = ?p"
      proof
        assume drop
        then obtain x where x: "ox = Some x" "remove1 i (pi_groups (s_index s x)) = []" by (auto simp: drop_def)
        then have "x = y" using pg [OF x(1)] in_s that table_okD(6) [OF lo(3)] eq_key_imp_eq_value by metis
        then show False using x(2) jy j(1) by (metis empty_iff in_set_remove1 list.set(1))
      qed
      then show "(g_provider (s_group t j), y) \<in> set (s_providerGroups t)"
        using in_s j(1) by (auto simp: G PG adel_subset)
    qed
    show "\<forall>j. g_retired (s_group t j) \<longrightarrow> j < s_next t"
      using table_okD(5) [OF lo(3)] K by (auto simp: G T)
    show "\<forall>j. j \<notin> mapped s - {i} \<longrightarrow> g_providerIdx (s_group t j) = None"
      using table_okD(4) [OF lo(3)] by (auto simp: G)
  qed (use table_okD(1,2,6,7) [OF lo(3)] in \<open>simp_all add: T PG adel_distinct\<close>)
  moreover have "idle_links t" using lo(4) by (auto simp: idle_links_def G T)
  moreover have "work_ok t"
  proof -
    have same: "g_queue (s_group t j) = g_queue (s_group s j)" "g_inFlight (s_group t j) = g_inFlight (s_group s j)" for j
      by (simp_all add: G)
    show ?thesis
      unfolding work_ok_def mp T(2) same
    proof (intro conjI allI impI)
      show "g_inFlight (s_group s j) = 0" "g_queue (s_group s j) = []" if "j \<notin> mapped s - {i}" for j
        using work_okD(5) [OF lo(5), of j] z that by (cases "j = i"; simp)+
    qed (use work_okD(1,2) [OF lo(5)] work_okD(3) [OF lo(5)] work_okD(4) [OF lo(5)] in blast)+
  qed
  moreover have "idle_exact t j" for j
    using ex [of j] nd by (cases "j = i") (simp_all add: idle_exact_def mp T(3) G)
  moreover have "synced t j" for j using sy [of j] by (cases "j = i") (simp_all add: synced_def G)
  ultimately show "sched_ok (evicted i s)" unfolding t_def by (simp add: sched_ok_def links_ok_def)
  show "s_groups (evicted i s) = adel ?key (s_groups s)" "g_retired (s_group (evicted i s) i)"
    "s_pacing (evicted i s) = s_pacing s" "s_groupCap (evicted i s) = s_groupCap s" "s_idle (evicted i s) = s_idle s"
    using T G by (simp_all add: t_def)
qed


lemma evict_ok:
  assumes "popped i s"
  shows "sched_ok (snd (evictIdleGroup i s))" "fst (evictIdleGroup i s)"
    "s_groups (snd (evictIdleGroup i s)) = adel (g_key (s_group s i)) (s_groups s)"
    "s_groupCap (snd (evictIdleGroup i s)) = s_groupCap s" "s_idle (snd (evictIdleGroup i s)) = s_idle s"
  using evicted_ok [OF assms] by (simp_all add: evictIdleGroup_eq [OF assms] Let_def)

lemma detach_fields [simp]:
  "g_inFlight (s_group (detachProvider i s) j) = g_inFlight (s_group s j)"
  "g_queue (s_group (detachProvider i s) j) = g_queue (s_group s j)"
  "s_opts (detachProvider i s) = s_opts s" "s_gate (detachProvider i s) = s_gate s"
  "s_waiter (detachProvider i s) = s_waiter s" "s_gates (detachProvider i s) = s_gates s"
  "s_gateSnap (detachProvider i s) = s_gateSnap s" "s_now (detachProvider i s) = s_now s"
  "s_next (detachProvider i s) = s_next s"
  by (simp_all add: detachProvider_def unlinkLocked_def upd_group_def upd_index_def Let_def split: option.split)

lemma evict_fields:
  assumes "popped i s"
  shows "g_inFlight (s_group (snd (evictIdleGroup i s)) j) = g_inFlight (s_group s j)"
    "g_queue (s_group (snd (evictIdleGroup i s)) j) = g_queue (s_group s j)"
    "s_opts (snd (evictIdleGroup i s)) = s_opts s" "s_gate (snd (evictIdleGroup i s)) = s_gate s"
    "s_waiter (snd (evictIdleGroup i s)) = s_waiter s" "s_gates (snd (evictIdleGroup i s)) = s_gates s"
    "s_gateSnap (snd (evictIdleGroup i s)) = s_gateSnap s" "s_now (snd (evictIdleGroup i s)) = s_now s"
    "s_next (snd (evictIdleGroup i s)) = s_next s"
  by (simp_all add: evictIdleGroup_eq [OF assms] Let_def evicted_def)
     (simp_all add: upd_group_def)

lemma evict_length:
  assumes pp: "popped i s"
  shows "length (s_groups (snd (evictIdleGroup i s))) < length (s_groups s)"
proof -
  have tb: "table_ok s" and i: "i \<in> mapped s" using pp by (simp_all add: popped_def links_ok_def)
  obtain k where ki: "(k, i) \<in> set (s_groups s)" using i by auto
  then have k: "g_key (s_group s i) = k" using table_okD(3) [OF tb ki] by simp
  show ?thesis
    unfolding evict_ok(3) [OF pp] adel_def k using ki by (intro length_filter_less) auto
qed

text \<open>
  Making room returns: each round takes a group off the idle order. It keeps every group
  with work, and if the table is still full afterwards no group is idle.
\<close>

lemma makeGroupRoom_ok:
  assumes "sched_ok s"
  shows "\<exists>s'. makeGroupRoom s = Some s' \<and> sched_ok s' \<and> s_groupCap s' = s_groupCap s \<and> s_opts s' = s_opts s
    \<and> set (s_groups s') \<subseteq> set (s_groups s) \<and> length (s_groups s') \<le> length (s_groups s)
    \<and> (s_groupCap s \<le> length (s_groups s') \<longrightarrow> s_idle s' = [])
    \<and> (\<forall>(k, i) \<in> set (s_groups s). (k, i) \<in> set (s_groups s') \<or> i \<in> set (s_idle s))
    \<and> (\<forall>j. g_inFlight (s_group s' j) = g_inFlight (s_group s j) \<and> g_queue (s_group s' j) = g_queue (s_group s j))"
  using assms
proof (induction "length (s_idle s)" arbitrary: s rule: less_induct)
  case less
  show ?case
  proof (cases "length (s_groups s) \<ge> s_groupCap s")
    case False
    then show ?thesis using less.prems by (subst makeGroupRoom.simps) auto
  next
    case full: True
    show ?thesis
    proof (cases "s_idle s")
      case Nil
      then show ?thesis using full less.prems by (subst makeGroupRoom.simps) (auto simp: popIdleGroup_def)
    next
      case (Cons i rest)
      then obtain s1 where pop: "popIdleGroup s = (Some i, s1)" by (simp add: popIdleGroup_def)
      note P = popIdleGroup_ok [OF less.prems pop]
      note E = evict_ok [OF P(1)]
      let ?e = "snd (evictIdleGroup i s1)"
      have key: "g_key (s_group s1 i) = g_key (s_group s i)" by (rule idle_move_fields(1) [OF P(7)])
      have "length (s_idle ?e) < length (s_idle s)" by (simp add: E(5) P(6) Cons)
      from less.hyps [OF this E(1)] obtain s' where s': "makeGroupRoom ?e = Some s'" "sched_ok s'"
          "s_groupCap s' = s_groupCap ?e" "s_opts s' = s_opts ?e" "set (s_groups s') \<subseteq> set (s_groups ?e)"
          "length (s_groups s') \<le> length (s_groups ?e)" "s_groupCap ?e \<le> length (s_groups s') \<longrightarrow> s_idle s' = []"
          "\<forall>(k, j) \<in> set (s_groups ?e). (k, j) \<in> set (s_groups s') \<or> j \<in> set (s_idle ?e)"
          "\<forall>j. g_inFlight (s_group s' j) = g_inFlight (s_group ?e j) \<and> g_queue (s_group s' j) = g_queue (s_group ?e j)"
        by blast
      have eq: "makeGroupRoom s = Some s'" using full pop s'(1) by (subst makeGroupRoom.simps) simp
      have w: "g_inFlight (s_group ?e j) = g_inFlight (s_group s j)" "g_queue (s_group ?e j) = g_queue (s_group s j)" for j
        using idle_move_fields(7,9) [OF P(7), of j] by (simp_all add: evict_fields [OF P(1)])
      have o: "s_opts ?e = s_opts s"
        using idle_moveD(17) [OF P(7)] by (simp add: evict_fields [OF P(1)])
      have sub: "set (s_groups ?e) \<subseteq> set (s_groups s)" by (auto simp: E(3) P(2) adel_subset)
      have lost: "(k, j) \<in> set (s_groups ?e) \<or> j \<in> set (s_idle s)" if kj: "(k, j) \<in> set (s_groups s)" for k j
      proof (cases "k = g_key (s_group s i)")
        case True
        have "i \<in> mapped s" using P(1,2) by (simp add: popped_def)
        then obtain k' where k': "(k', i) \<in> set (s_groups s)" by auto
        have tb: "table_ok s" by (rule sched_okD(4) [OF less.prems])
        have "k' = k" using table_okD(3) [OF tb k'] True by simp
        then have "j = i" using eq_key_imp_eq_value [OF table_okD(1) [OF tb] kj] k' by simp
        then show ?thesis using P(5) by simp
      next
        case False
        then show ?thesis using kj by (simp add: E(3) P(2) adel_subset key)
      qed
      have idle: "set (s_idle ?e) \<subseteq> set (s_idle s)" by (simp add: E(5) P(6) Cons subset_insertI)
      have len: "length (s_groups ?e) \<le> length (s_groups s)" using evict_length [OF P(1)] P(2) by simp
      have kept: "(k, j) \<in> set (s_groups s') \<or> j \<in> set (s_idle s)" if "(k, j) \<in> set (s_groups s)" for k j
      proof (cases "j \<in> set (s_idle s)")
        case False
        then have "(k, j) \<in> set (s_groups ?e)" using lost [OF that] by simp
        from bspec [OF s'(8) this] show ?thesis using subsetD [OF idle, of j] by auto
      qed simp
      show ?thesis
      proof (intro exI [of _ s'] conjI)
        show "set (s_groups s') \<subseteq> set (s_groups s)" using s'(5) sub by (rule subset_trans)
        show "length (s_groups s') \<le> length (s_groups s)" using s'(6) len by (rule le_trans)
        show "\<forall>(k, i)\<in>set (s_groups s). (k, i) \<in> set (s_groups s') \<or> i \<in> set (s_idle s)" 
        proof (rule ballI, rule prod.case_eq_if [THEN iffD2])
          fix p assume "p \<in> set (s_groups s)"
          then show "(fst p, snd p) \<in> set (s_groups s') \<or> snd p \<in> set (s_idle s)"
            using kept [of "fst p" "snd p"] by simp
        qed
        show "\<forall>j. g_inFlight (s_group s' j) = g_inFlight (s_group s j) \<and> g_queue (s_group s' j) = g_queue (s_group s j)"
          using s'(9) by (simp add: w)
      qed (use eq s'(2,3,4,7) o E(4) P(3) in simp_all)
    qed
  qed
qed

end
