(* ===== verification/Operations_Inv.thy ===== *)
theory Operations_Inv
  imports Scheduler_Inv
begin

text \<open>
  Invariants under every operation of the scheduler that hands out no slot. The locale
  extends the drain interface by what the other elementary moves have to keep (a group edit
  that leaves the lists, counters and queues alone, a change of hold attribution, the
  policy of a gate, the group table) and derives every composite operation once.
\<close>

section \<open>The interface\<close>

text \<open>The fields of a group that an edit of its pacing, send gate, cap or ramp does not touch.\<close>

definition core :: "group \<Rightarrow> group" where
  "core g = g\<lparr>g_maxConcurrent := 0, g_nextAllowedAt := 0, g_backoff := 0, g_requestBackoff := 0, g_tripped := False,
     g_probing := False, g_sendWaiters := 0, g_sendKick := None, g_pacer := zero_timer, g_ramp := zero_ramp\<rparr>"

lemma core_simps [simp]:
  "core (g\<lparr>g_maxConcurrent := a\<rparr>) = core g" "core (g\<lparr>g_nextAllowedAt := b\<rparr>) = core g"
  "core (g\<lparr>g_backoff := c\<rparr>) = core g" "core (g\<lparr>g_requestBackoff := d\<rparr>) = core g"
  "core (g\<lparr>g_tripped := e\<rparr>) = core g" "core (g\<lparr>g_probing := f\<rparr>) = core g"
  "core (g\<lparr>g_sendWaiters := h\<rparr>) = core g" "core (g\<lparr>g_sendKick := k\<rparr>) = core g"
  "core (g\<lparr>g_pacer := p\<rparr>) = core g" "core (g\<lparr>g_ramp := r\<rparr>) = core g" "core (kickSend g) = core g"
  by (simp_all add: core_def kickSend_def split: option.split)

lemma coreD:
  assumes "core g = core h"
  shows "g_key g = g_key h" "g_provider g = g_provider h" "g_providerIdx g = g_providerIdx h"
    "g_providerNode g = g_providerNode h" "g_idleNode g = g_idleNode h" "g_idleListed g = g_idleListed h"
    "g_retired g = g_retired h" "g_inFlight g = g_inFlight h" "g_queue g = g_queue h" "g_hasQueued g = g_hasQueued h"
    "g_providerQueued g = g_providerQueued h" "g_gateWaiting g = g_gateWaiting h" "g_providerFair g = g_providerFair h"
    "g_fairNode g = g_fairNode h"
  using assms by (cases g; cases h; simp add: core_def)+

text \<open>The fields of a waiter that a change of its hold attribution does not touch.\<close>

abbreviation same_slot :: "waiter \<Rightarrow> waiter \<Rightarrow> bool" where
  "same_slot x y \<equiv> w_granted x = w_granted y \<and> w_admission x = w_admission y"

locale sched_invariant = drain_invariant P Q for P :: "Scheduler \<Rightarrow> bool" and Q :: "nat \<Rightarrow> Scheduler \<Rightarrow> bool" +
  assumes quiet: "P s \<Longrightarrow> core (f (s_group s i)) = core (s_group s i) \<Longrightarrow> P (upd_group i f s)"
    and attribution: "P s \<Longrightarrow> same_slot (h (s_waiter s w)) (s_waiter s w) \<Longrightarrow> P (upd_waiter w h s)"
    and settings: "P s \<Longrightarrow> P (s\<lparr>s_opts := a, s_storms := b, s_policy := c, s_holdCount := d, s_drains := e,
       s_holdSeq := k, s_log := l\<rparr>)"
    and create: "P s \<Longrightarrow> groupFor key m applyCap s = (j, s') \<Longrightarrow> P s'"
    and room: "P s \<Longrightarrow> makeGroupRoom s = Some s' \<Longrightarrow> P s'"
    and attribute: "P s \<Longrightarrow> j \<in> mapped s \<Longrightarrow> P (attributeProvider j p s)"
    and created: "P s \<Longrightarrow> groupFor key m applyCap s = (j, s') \<Longrightarrow> j \<in> mapped s'"
    and wakes: "P s \<Longrightarrow> P (upd_gate q (\<lambda>g. g\<lparr>pg_wake := v g\<rparr>) s)"
    and install: "P s \<Longrightarrow> P (install_gate q t s)"
    and clear_policy: "P s \<Longrightarrow> P (clear_gate p q s)"
    and add: "P s \<Longrightarrow> P (snd (add_gate p s))"
    and observe: "P s \<Longrightarrow> P (upd_gate q (\<lambda>_. snd (gate_snapshot n (s_now s) (s_gate s q))) s)"
begin

lemma setting:
  assumes "P s"
  shows "P (s\<lparr>s_opts := a\<rparr>)" "P (s\<lparr>s_storms := b\<rparr>)" "P (s\<lparr>s_policy := c\<rparr>)" "P (s\<lparr>s_holdCount := d\<rparr>)"
    "P (s\<lparr>s_drains := e\<rparr>)" "P (s\<lparr>s_holdSeq := k\<rparr>)" "P (s\<lparr>s_log := l\<rparr>)" "P (s\<lparr>s_opts := a, s_storms := b\<rparr>)"
    "P (s\<lparr>s_holdCount := d, s_log := l\<rparr>)"
  using settings [OF assms, where a = a and b = "s_storms s" and c = "s_policy s" and d = "s_holdCount s" and e = "s_drains s" and k = "s_holdSeq s" and l = "s_log s"]
    settings [OF assms, where a = "s_opts s" and b = b and c = "s_policy s" and d = "s_holdCount s" and e = "s_drains s" and k = "s_holdSeq s" and l = "s_log s"]
    settings [OF assms, where a = "s_opts s" and b = "s_storms s" and c = c and d = "s_holdCount s" and e = "s_drains s" and k = "s_holdSeq s" and l = "s_log s"]
    settings [OF assms, where a = "s_opts s" and b = "s_storms s" and c = "s_policy s" and d = d and e = "s_drains s" and k = "s_holdSeq s" and l = "s_log s"]
    settings [OF assms, where a = "s_opts s" and b = "s_storms s" and c = "s_policy s" and d = "s_holdCount s" and e = e and k = "s_holdSeq s" and l = "s_log s"]
    settings [OF assms, where a = "s_opts s" and b = "s_storms s" and c = "s_policy s" and d = "s_holdCount s" and e = "s_drains s" and k = k and l = "s_log s"]
    settings [OF assms, where a = "s_opts s" and b = "s_storms s" and c = "s_policy s" and d = "s_holdCount s" and e = "s_drains s" and k = "s_holdSeq s" and l = l]
    settings [OF assms, where a = a and b = b and c = "s_policy s" and d = "s_holdCount s" and e = "s_drains s" and k = "s_holdSeq s" and l = "s_log s"]
    settings [OF assms, where a = "s_opts s" and b = "s_storms s" and c = "s_policy s" and d = d and e = "s_drains s" and k = "s_holdSeq s" and l = l]
  by simp_all


text \<open>Acquisition: the lookup, and the rounds of a queued caller that do not return.\<close>

lemma lookup_keeps:
  assumes "P s" "acquire_lookup key m hooks s = Some (r, s')" shows "P s'"
proof -
  define o1 where "o1 = (if map_of (s_groups s) key = None then makeGroupRoom s else Some s)"
  from assms(2) obtain s1 where s1: "o1 = Some s1" by (auto simp: acquire_lookup_def o1_def split: option.splits)
  have p1: "P s1" using s1 assms(1) room by (auto simp: o1_def split: if_splits)
  obtain i s2 where gf: "groupFor key m True s1 = (i, s2)" by fastforce
  from assms(2) p1 show ?thesis
    unfolding acquire_lookup_def o1_def [symmetric] s1
    by (auto simp: gf Let_def intro!: attribute create [OF p1 gf] created [OF p1 gf] split: if_splits)
qed

lemma put_keeps: "P s \<Longrightarrow> same_slot (fst (snd r)) (s_waiter s w) \<Longrightarrow> P (put_attribution w r s)"
  by (auto simp: put_attribution_def intro!: attribution setting split: prod.split)

lemma hold_slots:
  "same_slot (fst (snd (dropHold c x))) x" "same_slot (fst (snd (adoptHold oh c x))) x"
  "same_slot (fst (snd (snd (syncUnhold now p c x)))) x" "same_slot (fst (snd (seedQueuedHold now p c x))) x"
  by (auto simp: dropHold_def adoptHold_def syncUnhold_def seedQueuedHold_def moveHoldCount_def clearHoldCount_def
      fireUnhold_def fireHold_def Let_def split: option.split prod.split)

lemma attribution_keeps: "P s \<Longrightarrow> P (dropHold_of w s)" "P s \<Longrightarrow> P (adoptHold_of w oh s)"
  by (auto simp: dropHold_of_def adoptHold_of_def hold_slots intro!: put_keeps)

lemma log_keeps: "P s \<Longrightarrow> P (log_hook w b e s)"
  by (simp add: log_hook_def setting)

lemma parked_keeps: "P s \<Longrightarrow> P (acquire_parked i w hooks s)"
  by (auto simp: acquire_parked_def Let_def intro!: drainAdmission_keeps attribution_keeps log_keeps split: option.split)

lemma round_held_keeps: "P s \<Longrightarrow> P (snd (round_held h a s))"
  by (auto simp: round_held_def Let_def intro!: drainAdmission_keeps attribution_keeps attribution)

lemma round_free_keeps:
  assumes "P s" shows "P (snd (snd (round_free a s)))"
proof -
  obtain again r where sy: "syncUnhold (s_now s) (s_policy s) (s_holdCount s) (s_waiter s (aq_waiter a)) = (again, r)"
    by (rule prod.exhaust)
  have "P (put_attribution (aq_waiter a) r s)"
    using put_keeps [OF assms, of r "aq_waiter a"] hold_slots(3) [of "s_now s" "s_policy s" "s_holdCount s" "s_waiter s (aq_waiter a)"]
    by (simp add: sy)
  then show ?thesis by (simp add: round_free_def Let_def sy drainAdmission_keeps attribution)
qed

lemma round_keeps:
  assumes "P s" "acquire_round a s = (r, a', s')" "\<And>e. r \<noteq> RoundReturn e"
  shows "P s'"
  using assms round_held_keeps [OF assms(1), of _ a] round_free_keeps [OF assms(1), of a]
  by (auto simp: acquire_round_def Let_def case_prod_beta split: if_splits option.splits)


text \<open>The send gate.\<close>

lemma pacing_later_keeps: "P s \<Longrightarrow> P (armPacingLater i d s)"
  by (simp add: armPacingLater_def Let_def clear quiet)

lemma Trip_keeps: "P s \<Longrightarrow> P (snd (Trip key d s))"
  by (auto simp: Trip_def extendWindow_def Let_def intro!: quiet pacing_later_keeps dest: create split: prod.split)

lemma BackoffFor_keeps: "P s \<Longrightarrow> P (snd (BackoffFor rnd key d s))"
  by (auto simp: BackoffFor_def Let_def intro!: quiet dest: create split: prod.split)

lemma WaitSend_start_keeps: "P s \<Longrightarrow> P (snd (WaitSend_start key hooks honor own s))"
  by (auto simp: WaitSend_start_def dest: create split: prod.split)

lemma WaitSend_exit_keeps: "P s \<Longrightarrow> P (snd (WaitSend_exit l s))"
  by (simp add: WaitSend_exit_def Let_def quiet)

lemma send_gate_keeps: "P s \<Longrightarrow> P (snd (snd (snd (send_gate l s))))"
  by (simp add: send_gate_def parkSend_def Let_def quiet)

lemma WaitSend_round_keeps: "P s \<Longrightarrow> P (snd (snd (snd (WaitSend_round l s))))"
  using send_gate_keeps [of s "l\<lparr>sd_holding := False\<rparr>"]
  by (auto simp: WaitSend_round_def Let_def split: option.split prod.split)

lemma EndSend_keeps: "P s \<Longrightarrow> P (EndSend key keepSerial s)"
  by (simp add: EndSend_def quiet drainAdmission_keeps split: option.split)

lemma FailSend_keeps: "P s \<Longrightarrow> P (FailSend rnd key own s)"
  by (auto simp: FailSend_def Let_def intro!: drainAdmission_keeps quiet pacing_later_keeps dest: create split: prod.split)

lemma pacer_keeps: "P s \<Longrightarrow> P (pacer_fires i gen s)"
  by (auto simp: pacer_fires_def Let_def intro!: drainAdmission_keeps quiet split: prod.split)


text \<open>Provider limits, options, drains and pauses.\<close>

lemma ramps_keep: "P s \<Longrightarrow> P (resetRamps is s)"
  unfolding resetRamps_def by (rule fold_keeps) (simp_all add: quiet)

lemma throttle_changed_keeps: "P s \<Longrightarrow> P (throttle_changed ramps provider s)"
  by (simp add: throttle_changed_def resetProviderRamps_def kickThrottles_keeps ramps_keep split: option.split)

lemma UpdateThrottle_keeps:
  assumes "P s" shows "P (snd (UpdateThrottle provider upd s))"
  using add [OF assms, of provider] assms
  by (auto simp: UpdateThrottle_def Let_def throttle_changed_keeps clear_policy install wakes split: option.split prod.split)

lemma list_gates_keeps: "P s \<Longrightarrow> P (snd (list_gates queued gs s))"
proof (induction queued gs s rule: list_gates.induct)
  case (2 queued p q gs s)
  obtain info g where g: "gate_snapshot (queued p) (s_now s) (s_gate s q) = (info, g)" by fastforce
  show ?case using 2 observe [OF "2.prems", of q "queued p"] by (simp add: g case_prod_beta)
qed simp

lemma ListThrottles_keeps: "P s \<Longrightarrow> P (snd (ListThrottles s))"
  using list_gates_keeps [of s "throttleQueued s" "s_gates s"] by (simp add: ListThrottles_def case_prod_beta)

lemma gate_wakes_keeps: "P s \<Longrightarrow> P (gate_wakes provider q gen s)"
  using wakes [of s q "\<lambda>_. fst (timer_callback gen (pg_wake (s_gate s q)))"]
  by (simp add: gate_wakes_def Let_def drainProviderWake_keeps case_prod_beta)

lemma UpdateOptions_keeps: "P s \<Longrightarrow> P (UpdateOptions opts s)"
  by (simp add: UpdateOptions_def setting)

lemma DrainQueue_keeps: "P s \<Longrightarrow> P (snd (DrainQueue scope s))"
  by (simp add: DrainQueue_def kickPolicy_def drainAll_keeps kick setting split: prod.split)

lemma seed_queue_keeps: "P s \<Longrightarrow> P (snd (seed_queue ws s))"
proof (induction ws s rule: seed_queue.induct)
  case (2 w ws s)
  obtain c x oh where sd: "seedQueuedHold (s_now s) (s_policy s) (s_holdCount s) (s_waiter s w) = (c, x, oh)"
    by (metis prod_cases3)
  have "same_slot x (s_waiter s w)"
    using hold_slots(4) [of "s_now s" "s_policy s" "s_holdCount s" "s_waiter s w"] by (simp add: sd)
  then have "P (upd_waiter w (\<lambda>_. x) (s\<lparr>s_holdCount := c\<rparr>))" using 2 by (intro attribution setting) simp_all
  then show ?case using 2 by (simp add: sd case_prod_beta)
qed simp

lemma seed_groups_keeps: "P s \<Longrightarrow> P (snd (seed_groups is s))"
proof (induction "is" s rule: seed_groups.induct)
  case (2 i "is" s)
  obtain fire s1 where sq: "seed_queue (g_queue (s_group s i)) s = (fire, s1)" by (rule prod.exhaust)
  have "P s1" using seed_queue_keeps [OF "2.prems", of "g_queue (s_group s i)"] by (simp add: sq)
  then show ?case using "2.IH" [OF sq [symmetric]] by (simp add: sq case_prod_beta)
qed simp

lemma seedQueuedHolds_keeps: "P s \<Longrightarrow> P (seedQueuedHolds s)"
  using seed_groups_keeps [of s "snapshotGroups s"]
  by (auto simp: seedQueuedHolds_def intro!: fold_keeps setting split: prod.split)

lemma commitHolds_keeps: "P s \<Longrightarrow> P (commitHolds r b s)"
  by (simp add: commitHolds_def Let_def kickPolicy_def drainAll_keeps seedQueuedHolds_keeps kick setting split: prod.split)

lemma holds_keep:
  assumes "P s"
  shows "P (snd (AddHold h s))" "P (snd (ReplaceHold h s))" "P (RemoveHold i s)" "P (RestoreHolds hs s)"
  using assms
  by (auto simp: AddHold_def ReplaceHold_def RemoveHold_def RestoreHolds_def commitHolds_keeps setting
      split: prod.split sum.split)

end

end
