(* ===== verification/Accounting.thy ===== *)
theory Accounting
  imports Operations_Inv
begin

text \<open>
  Who holds what. \<open>A\<close> is the multiset of the slots that callers hold, each with its group and
  its lease on a provider gate; \<open>W\<close> maps the waiters whose caller has not returned yet to their
  group. The counters of the code are exact with respect to them: the in-flight count of a
  group is its held slots and its grants that nobody has read yet, and every provider gate
  counts precisely the leases that are still out.
\<close>

type_synonym slots = "(nat \<times> admission) multiset"
type_synonym waits = "nat \<rightharpoonup> nat"

definition unread :: "waits \<Rightarrow> Scheduler \<Rightarrow> nat \<Rightarrow> nat set" where
  "unread W s i = {w. W w = Some i \<and> w \<notin> set (g_queue (s_group s i))}"

definition lease_at :: "nat \<Rightarrow> admission \<Rightarrow> admission multiset" where
  "lease_at q a = (if adm_gate a = Some q then {#a#} else {#})"

definition leases :: "nat \<Rightarrow> slots \<Rightarrow> waits \<Rightarrow> Scheduler \<Rightarrow> admission multiset" where
  "leases q A W s = filter_mset (\<lambda>a. adm_gate a = Some q)
     (image_mset snd A + image_mset (\<lambda>w. w_admission (s_waiter s w)) (mset_set (dom W)))"

definition slots_at :: "nat \<Rightarrow> slots \<Rightarrow> nat" where
  "slots_at i A = size (filter_mset (\<lambda>a. fst a = i) A)"

definition acct :: "slots \<Rightarrow> waits \<Rightarrow> Scheduler \<Rightarrow> bool" where
  "acct A W s \<longleftrightarrow>
     (\<forall>i. g_inFlight (s_group s i) = int (slots_at i A) + int (card (unread W s i)))
     \<and> (\<forall>i w. w \<in> set (g_queue (s_group s i)) \<longrightarrow>
          W w = Some i \<and> \<not> w_granted (s_waiter s w) \<and> w_admission (s_waiter s w) = no_admission)
     \<and> (\<forall>w i. W w = Some i \<longrightarrow> w < s_next s \<and> (w \<in> set (g_queue (s_group s i)) \<or> w_granted (s_waiter s w)))
     \<and> (\<forall>q. gate_inv q (s_gate s q) (leases q A W s))
     \<and> (\<forall>q \<in> snd ` (set (s_gates s) \<union> set (s_gateSnap s)). q < s_next s)
     \<and> (\<forall>q. s_next s \<le> q \<longrightarrow> leases q A W s = {#})"

lemma acctD:
  assumes "acct A W s"
  shows "g_inFlight (s_group s i) = int (slots_at i A) + int (card (unread W s i))"
    "w \<in> set (g_queue (s_group s i)) \<Longrightarrow> W w = Some i \<and> \<not> w_granted (s_waiter s w) \<and> w_admission (s_waiter s w) = no_admission"
    "W w = Some i \<Longrightarrow> w < s_next s \<and> (w \<in> set (g_queue (s_group s i)) \<or> w_granted (s_waiter s w))"
    "gate_inv q (s_gate s q) (leases q A W s)"
    "q \<in> snd ` (set (s_gates s) \<union> set (s_gateSnap s)) \<Longrightarrow> q < s_next s"
    "s_next s \<le> q \<Longrightarrow> leases q A W s = {#}"
proof -
  show "q \<in> snd ` (set (s_gates s) \<union> set (s_gateSnap s)) \<Longrightarrow> q < s_next s"
    using assms unfolding acct_def by (elim conjE) (erule bspec)
qed (use assms in \<open>simp_all add: acct_def\<close>)

lemma acct_finite:
  assumes "acct A W s" shows "finite (dom W)" "finite (unread W s i)"
proof -
  have "dom W \<subseteq> {..<s_next s}" using acctD(3) [OF assms] by (auto simp: dom_def)
  then show "finite (dom W)" by (rule finite_subset) simp
  then show "finite (unread W s i)" by (rule rev_finite_subset) (auto simp: unread_def)
qed

lemma leases_cong:
  assumes "\<And>w. w \<in> dom W \<Longrightarrow> w_admission (s_waiter s' w) = w_admission (s_waiter s w)"
  shows "leases q A W s' = leases q A W s"
proof -
  have "image_mset (\<lambda>w. w_admission (s_waiter s' w)) (mset_set (dom W)) = image_mset (\<lambda>w. w_admission (s_waiter s w)) (mset_set (dom W))"
    using assms by (cases "finite (dom W)") (auto intro!: image_mset_cong)
  then show ?thesis by (simp add: leases_def)
qed

lemma lease_at_none [simp]: "lease_at q no_admission = {#}"
  by (simp add: lease_at_def no_admission_def)

lemma leases_slot: "leases q (add_mset (i, a) A) W s = lease_at q a + leases q A W s"
  by (simp add: leases_def lease_at_def)

lemma leases_waiter:
  assumes "finite (dom W)" "W w = Some i"
  shows "leases q A W s = lease_at q (w_admission (s_waiter s w)) + leases q A (W(w := None)) s"
proof -
  have "dom W = insert w (dom (W(w := None)))" using assms(2) by auto
  then have "mset_set (dom W) = add_mset w (mset_set (dom (W(w := None))))"
    using assms(1) mset_set.insert_remove [of "dom (W(w := None))" w] by simp
  then show ?thesis by (simp add: leases_def lease_at_def)
qed

lemma leases_enqueue:
  assumes "finite (dom W)" "W w = None" "w_admission (s_waiter s w) = no_admission"
  shows "leases q A (W(w \<mapsto> i)) s = leases q A W s"
  using leases_waiter [of "W(w \<mapsto> i)" w i q A s] assms by (simp add: fun_upd_idem)

text \<open>What leaves the accounts alone: queues, in-flight counts, grants and leases unchanged, gates kept.\<close>

lemma acct_cong:
  assumes "acct A W s"
    and "\<And>i. g_inFlight (s_group t i) = g_inFlight (s_group s i)" "\<And>i. g_queue (s_group t i) = g_queue (s_group s i)"
    and "\<And>w. w \<in> dom W \<Longrightarrow> same_slot (s_waiter t w) (s_waiter s w)" and "s_next s \<le> s_next t"
    and "\<And>q L. gate_inv q (s_gate s q) L \<Longrightarrow> (s_next s \<le> q \<Longrightarrow> L = {#}) \<Longrightarrow> gate_inv q (s_gate t q) L"
    and "\<And>q. q \<in> snd ` (set (s_gates t) \<union> set (s_gateSnap t))
           \<Longrightarrow> q \<in> snd ` (set (s_gates s) \<union> set (s_gateSnap s)) \<or> s_next s \<le> q \<and> q < s_next t"
  shows "acct A W t"
proof -
  have l: "leases q A W t = leases q A W s" for q by (rule leases_cong) (use assms(4) in simp)
  have u: "unread W t i = unread W s i" for i by (simp add: unread_def assms(3))
  note D = acctD [OF assms(1)]
  show ?thesis unfolding acct_def
  proof (intro conjI allI impI ballI)
    fix i show "g_inFlight (s_group t i) = int (slots_at i A) + int (card (unread W t i))" by (simp add: u assms(2) D(1))
  next
    fix i w assume "w \<in> set (g_queue (s_group t i))"
    then have w: "w \<in> set (g_queue (s_group s i))" by (simp add: assms(3))
    show "W w = Some i" "\<not> w_granted (s_waiter t w)" "w_admission (s_waiter t w) = no_admission"
      using D(2) [OF w] assms(4) [of w] by (simp_all add: dom_def)
  next
    fix w i assume w: "W w = Some i"
    then show "w < s_next t" "w \<in> set (g_queue (s_group t i)) \<or> w_granted (s_waiter t w)"
      using D(3) [OF w] assms(4) [of w] assms(5) by (auto simp: assms(3))
  next
    fix q show "gate_inv q (s_gate t q) (leases q A W t)" unfolding l by (rule assms(6) [OF D(4) D(6)])
  next
    fix q assume "q \<in> snd ` (set (s_gates t) \<union> set (s_gateSnap t))"
    from assms(7) [OF this] show "q < s_next t" using D(5) [of q] assms(5) by (auto dest: order_less_le_trans)
  next
    fix q assume "s_next t \<le> q"
    then show "leases q A W t = {#}" unfolding l using D(6) [of q] assms(5) by simp
  qed
qed


section \<open>Admission\<close>

lemma gate_of_snap: "gate_of p s = Some q \<Longrightarrow> q \<in> snd ` set (s_gateSnap s)"
  by (force simp: gate_of_def dest: map_of_SomeD split: if_splits)

text \<open>An admission adds its lease to the gate it names and to no other; a refusal adds nothing.\<close>

definition leased :: "(nat \<Rightarrow> admission multiset) \<Rightarrow> admission \<Rightarrow> Scheduler \<Rightarrow> bool" where
  "leased L a s \<longleftrightarrow> (\<forall>q. gate_inv q (s_gate s q) (lease_at q a + L q))
     \<and> (\<forall>q. adm_gate a = Some q \<longrightarrow> q \<in> snd ` set (s_gateSnap s))"

lemma tryAdmit_leased:
  assumes "tryAdmit p est s = (ok, a, wait, s')" and "leased L no_admission s"
  shows "leased L a s'" "\<not> ok \<Longrightarrow> a = no_admission"
proof -
  show "leased L a s'"
  proof (cases "gate_of p s")
    case None
    with assms show ?thesis by (simp add: tryAdmit_def leased_def no_admission_def)
  next
    case (Some q)
    then obtain g where g: "gate_tryAdmit q est (s_now s) (s_now s) (s_now s) (s_gate s q) = (ok, a, wait, g)"
      and s': "s' = upd_gate q (\<lambda>_. g) s" using assms(1) by (auto simp: tryAdmit_def split: prod.splits)
    have inv: "gate_inv r (s_gate s r) (L r)" for r using assms(2) by (simp add: leased_def)
    note adm = gate_inv_admit [OF inv g]
    have a: "adm_gate a = None \<or> adm_gate a = Some q" using g by (cases rule: gate_tryAdmit_cases) (auto simp: no_admission_def)
    then show ?thesis
      using adm inv gate_of_snap [OF Some] by (auto simp: leased_def s' upd_gate_def lease_at_def split: if_splits)
  qed
  show "a = no_admission" if "\<not> ok"
  proof (cases "gate_of p s")
    case (Some q)
    then obtain g where g: "gate_tryAdmit q est (s_now s) (s_now s) (s_now s) (s_gate s q) = (ok, a, wait, g)"
      using assms(1) by (auto simp: tryAdmit_def split: prod.splits)
    then show ?thesis using that by (cases rule: gate_tryAdmit_cases) auto
  qed (use assms(1) that in \<open>simp add: tryAdmit_def\<close>)
qed

lemma gate_inv_wake [simp]: "gate_inv q (g\<lparr>pg_wake := v\<rparr>) L = gate_inv q g L"
  by (simp add: gate_inv_def)

lemma leased_upds [simp]:
  "leased L a (upd_group i f s) = leased L a s" "leased L a (upd_index x h s) = leased L a s"
  "leased L a (s\<lparr>s_panic := b\<rparr>) = leased L a s"
  by (simp_all add: leased_def)

lemma leased_arm [simp]: "leased L a (armThrottleDrain p d s) = leased L a s"
  by (auto simp: armThrottleDrain_def leased_def upd_gate_def Let_def split: option.split)

lemma leased_mark [simp]: "leased L a (markGateWaiting i s) = leased L a s"
  by (auto simp: markGateWaiting_def markFair_def Let_def split: option.split)

lemma admit_leased:
  assumes "admitLocked i p est s = (ok, a, wait, gb, s')" and "leased L no_admission s"
  shows "leased L a s' \<and> (\<not> ok \<longrightarrow> a = no_admission)"
  using assms tryAdmit_leased [where L = L]
  by (fastforce simp: admitLocked_def gate_refused_def Let_def split: prod.splits if_splits)

lemma acct_leased: "acct A W s \<Longrightarrow> leased (\<lambda>q. leases q A W s) no_admission s"
  using acctD(4) by (simp add: leased_def no_admission_def lease_at_def)

lemma frame_acct:
  assumes "acct A W s" "adm_frame s t" "\<And>q L. gate_inv q (s_gate s q) L \<Longrightarrow> gate_inv q (s_gate t q) L"
  shows "acct A W t"
  using assms(3) by (rule_tac acct_cong [OF assms(1)]) (simp_all add: adm_frameD [OF assms(2)] adm_frame_fields(9,11) [OF assms(2)])

lemma acct_refuse:
  assumes ac: "acct A W s" and ad: "admitLocked i p est s = (False, a, wait, gb, s')"
  shows "acct A W s'"
proof -
  note fr = admitLocked_frame [OF ad]
  have "leased (\<lambda>q. leases q A W s) no_admission s'"
    using admit_leased [OF ad acct_leased [OF ac]] by auto
  then have g: "gate_inv q (s_gate s' q) (leases q A W s)" for q by (simp add: leased_def)
  have l: "leases q A W s' = leases q A W s" for q by (rule leases_cong) (simp add: adm_frameD [OF fr])
  show ?thesis
    using ac g unfolding acct_def unread_def
    by (simp add: l adm_frameD [OF fr] adm_frame_fields(9,11) [OF fr])
qed

lemma acct_grant:
  assumes ac: "acct A W s" and ad: "admitLocked i p est s = (True, a, wait, gb, s')"
    and w: "w \<in> set (g_queue (s_group s i))" and d: "\<And>j. distinct (g_queue (s_group s j))"
  shows "acct A W (grant_waiter i w a s')"
proof -
  note fr = admitLocked_frame [OF ad] and D = acctD [OF ac]
  let ?t = "grant_waiter i w a s'"
  have ls: "leased (\<lambda>q. leases q A W s) a s'" using admit_leased [OF ad acct_leased [OF ac]] by simp
  have Ww: "W w = Some i" "w_admission (s_waiter s w) = no_admission" using D(2) [OF w] by simp_all
  have wt: "s_waiter ?t v = (if v = w then (s_waiter s w)\<lparr>w_admission := a, w_granted := True\<rparr> else s_waiter s v)" for v
    by (simp add: grant_waiter_def upd_waiter_def adm_frameD [OF fr])
  note q = adm_frame_fields(11) [OF fr]
  have rest: "s_next ?t = s_next s" "s_gates ?t = s_gates s" "s_gateSnap ?t = s_gateSnap s" "s_gate ?t = s_gate s'"
    by (simp_all add: grant_waiter_def upd_group_def upd_waiter_def adm_frameD [OF fr])
  have l: "leases r A W ?t = lease_at r a + leases r A W s" for r
  proof -
    have "leases r A (W(w := None)) ?t = leases r A (W(w := None)) s" by (rule leases_cong) (auto simp: wt split: if_splits)
    then show ?thesis
      using leases_waiter [where s = s, OF acct_finite(1) [OF ac] Ww(1)]
        leases_waiter [where s = ?t, OF acct_finite(1) [OF ac] Ww(1)] Ww(2) by (simp add: wt)
  qed
  have u: "unread W ?t j = (if j = i then insert w (unread W s i) else unread W s j)" for j
    using Ww(1) w d [of i] by (auto simp: unread_def q)
  have nw: "w \<notin> unread W s i" using w by (simp add: unread_def)
  have lt: "r < s_next s" if "adm_gate a = Some r" for r
    using ls that D(5) [of r] adm_frameD(11) [OF fr] by (auto simp: leased_def)
  show ?thesis unfolding acct_def
  proof (intro conjI allI impI)
    fix j show "g_inFlight (s_group ?t j) = int (slots_at j A) + int (card (unread W ?t j))"
      using D(1) [of j] nw acct_finite(2) [OF ac, of i] by (auto simp: u adm_frame_fields(9) [OF fr])
  next
    fix j v assume "v \<in> set (g_queue (s_group ?t j))"
    then have v: "v \<in> set (g_queue (s_group s j))" and n: "v \<noteq> w"
      using d [of j] D(2) [OF w] D(2) [of w j] by (auto simp: q split: if_splits)
    show "W v = Some j" "\<not> w_granted (s_waiter ?t v)" "w_admission (s_waiter ?t v) = no_admission"
      using D(2) [OF v] n by (simp_all add: wt)
  next
    fix v j assume Wv: "W v = Some j"
    then show "v < s_next ?t" using D(3) by (simp add: rest)
    show "v \<in> set (g_queue (s_group ?t j)) \<or> w_granted (s_waiter ?t v)"
      using D(3) [OF Wv] Wv Ww(1) by (auto simp: q wt)
  next
    fix r show "gate_inv r (s_gate ?t r) (leases r A W ?t)" using ls by (simp add: leased_def l rest)
  next
    show "\<forall>r\<in>snd ` (set (s_gates ?t) \<union> set (s_gateSnap ?t)). r < s_next ?t" using D(5) by (simp add: rest)
  next
    fix r assume "s_next ?t \<le> r"
    then show "leases r A W ?t = {#}" using lt [of r] D(6) [of r] by (auto simp: l rest lease_at_def)
  qed
qed


section \<open>The accounts under every drain and operation\<close>

text \<open>\<open>R\<close> are the groups a caller has looked up: each is in the table or was retired from it.\<close>

definition sys_ok :: "slots \<Rightarrow> waits \<Rightarrow> nat set \<Rightarrow> Scheduler \<Rightarrow> bool" where
  "sys_ok A W R s \<longleftrightarrow> sched_ok s \<and> acct A W s \<and> (\<forall>i \<in> R. born s i)"

definition sys_mid :: "slots \<Rightarrow> waits \<Rightarrow> nat set \<Rightarrow> nat \<Rightarrow> Scheduler \<Rightarrow> bool" where
  "sys_mid A W R i s \<longleftrightarrow> mid_pass i s \<and> acct A W s \<and> (\<forall>i \<in> R. born s i)"

lemma born_cong: "s_groups t = s_groups s \<Longrightarrow> g_retired (s_group t i) = g_retired (s_group s i) \<Longrightarrow> born t i = born s i"
  by (simp add: born_def)

lemma frame_born: "adm_frame s t \<Longrightarrow> born t i = born s i"
  by (rule born_cong [OF adm_frameD(2) adm_frame_fields(7)])

lemma grant_born [simp]: "born (grant_waiter i w a s) j = born s j"
  by (rule born_cong) (simp_all add: grant_waiter_def upd_group_def upd_waiter_def)

lemma arm_gate_inv: "gate_inv q (s_gate s q) L \<Longrightarrow> gate_inv q (s_gate (armThrottleDrain p d s) q) L"
  by (simp add: armThrottleDrain_def upd_gate_def Let_def split: option.split)

lemma mark_gates [simp]:
  "s_gate (markGateWaiting i s) = s_gate s" "s_gate (clearGateWaiting i s) = s_gate s" "s_gate (syncQueue i s) = s_gate s"
  by (simp_all add: markGateWaiting_def clearGateWaiting_def markFair_def clearFair_def syncQueue_def Let_def split: option.split)

interpretation accounts: drain_invariant "sys_ok A W R" "sys_mid A W R" for A W R
proof unfold_locales
  fix s :: Scheduler and i :: nat
  assume "sys_ok A W R s" "g_queue (s_group s i) \<noteq> []"
  then show "sys_mid A W R i s" using drains.enter [of s i] by (simp add: sys_ok_def sys_mid_def)
next
  fix s :: Scheduler and i :: nat
  assume m: "sys_mid A W R i s"
  have fr: "adm_frame s (syncQueue i s)" by (simp add: frames)
  show "sys_ok A W R (syncQueue i s)"
    using m drains.leave [of i s] frame_acct [OF _ fr] frame_born [OF fr] by (simp add: sys_ok_def sys_mid_def)
next
  fix s i w lease wait gb s1
  assume ad: "admit_for i w s = (False, lease, wait, gb, s1)"
  note fr = admitLocked_frame [OF ad]
  show "sys_ok A W R s1" if "sys_ok A W R s"
    using that drains.refuse [OF _ ad] acct_refuse [OF _ ad] frame_born [OF fr] by (simp add: sys_ok_def)
  show "sys_mid A W R i s1" if "sys_mid A W R i s"
    using that drains.refuse_mid [OF _ ad] acct_refuse [OF _ ad] frame_born [OF fr] by (simp add: sys_mid_def)
next
  fix s i w lease wait gb s1
  assume m: "sys_mid A W R i s" and w: "w \<in> set (g_queue (s_group s i))" and op: "group_open i s" "eligible w s"
    and ad: "admit_for i w s = (True, lease, wait, gb, s1)"
  have ac: "acct A W s" and mp: "mid_pass i s" using m by (simp_all add: sys_mid_def)
  have d: "distinct (g_queue (s_group s j))" for j
    using mp work_okD(2) by (simp add: mid_pass_def links_ok_def)
  show "sys_mid A W R i (grant_waiter i w lease s1)"
    using m drains.take_mid [OF mp w op ad] acct_grant [OF ac ad w d] frame_born [OF admitLocked_frame [OF ad]]
    by (simp add: sys_mid_def)
next
  fix s :: Scheduler and p d
  have fr: "adm_frame s (armThrottleDrain p d s)" by (simp add: frames)
  show "sys_ok A W R (armThrottleDrain p d s)" if "sys_ok A W R s"
    using that drains.arms frame_acct [OF _ fr arm_gate_inv] frame_born [OF fr] by (simp add: sys_ok_def)
  show "sys_mid A W R i (armThrottleDrain p d s)" if "sys_mid A W R i s" for i
    using that drains.arms_mid frame_acct [OF _ fr arm_gate_inv] frame_born [OF fr] by (simp add: sys_mid_def)
next
  fix s :: Scheduler and i :: nat
  assume "sys_ok A W R s"
  moreover have "adm_frame s (markGateWaiting i s)" "adm_frame s (clearGateWaiting i s)" by (simp_all add: frames)
  ultimately show "sys_ok A W R (markGateWaiting i s)" "sys_ok A W R (clearGateWaiting i s)"
    using mark_links [of s i] frame_acct [of A W s "markGateWaiting i s"] frame_acct [of A W s "clearGateWaiting i s"]
      frame_born [of s "markGateWaiting i s"] frame_born [of s "clearGateWaiting i s"]
    by (simp_all add: sys_ok_def)
next
  fix s :: Scheduler and x c
  let ?t = "upd_index x (\<lambda>idx. idx\<lparr>pi_cursor := c\<rparr>) s"
  assume "sys_ok A W R s"
  moreover have fr: "adm_frame s ?t" by (simp add: frames)
  ultimately show "sys_ok A W R ?t"
    using drains.cursor [of s x c] frame_acct [OF _ fr] frame_born [OF fr] by (simp add: sys_ok_def)
next
  fix s :: Scheduler and n
  let ?t = "s\<lparr>s_kick := n\<rparr>"
  assume "sys_ok A W R s"
  then show "sys_ok A W R ?t" using acct_cong [of A W s ?t] by (simp add: sys_ok_def born_def)
qed

lemma makeGroupRoom_rule:
  assumes "sched_ok s" "makeGroupRoom s = Some s'" "R s"
    and "\<And>s i s1. sched_ok s \<Longrightarrow> R s \<Longrightarrow> popIdleGroup s = (Some i, s1) \<Longrightarrow> R (snd (evictIdleGroup i s1))"
  shows "R s'"
  using assms(1-3)
proof (induction "length (s_idle s)" arbitrary: s rule: less_induct)
  case less
  show ?case
  proof (cases "length (s_groups s) \<ge> s_groupCap s \<and> s_idle s \<noteq> []")
    case False
    then show ?thesis using less.prems(2,3) by (subst (asm) makeGroupRoom.simps) (auto simp: popIdleGroup_def split: if_splits)
  next
    case True
    then obtain i s1 where pop: "popIdleGroup s = (Some i, s1)" and i: "i \<in> set (s_idle s)"
      by (cases "s_idle s") (auto simp: popIdleGroup_def)
    note P = popIdleGroup_ok [OF less.prems(1) pop] and E = evict_ok [OF popIdleGroup_ok(1) [OF less.prems(1) pop]]
    have "length (s_idle (snd (evictIdleGroup i s1))) < length (s_idle s)"
      using i length_pos_if_in_set [OF i] by (simp add: E(5) P(6) length_remove1)
    moreover have "makeGroupRoom (snd (evictIdleGroup i s1)) = Some s'"
      using less.prems(2) True pop by (subst (asm) makeGroupRoom.simps) simp
    ultimately show ?thesis using less.hyps E(1) assms(4) [OF less.prems(1,3) pop] by blast
  qed
qed

lemma evict_born:
  assumes "popped i s" "born s j" shows "born (snd (evictIdleGroup i s)) j"
proof -
  let ?e = "evicted i s"
  note E = evicted_ok [OF assms(1)]
  have eq: "s_groups (snd (evictIdleGroup i s)) = s_groups ?e" "s_group (snd (evictIdleGroup i s)) = s_group ?e"
    by (simp_all add: evictIdleGroup_eq [OF assms(1)] Let_def)
  have keep: "g_retired (s_group s j) \<Longrightarrow> g_retired (s_group ?e j)"
    by (auto simp: evicted_def detachProvider_def unlinkLocked_def Let_def upd_group_def split: option.split)
  have tb: "table_ok s" using assms(1) by (simp add: popped_def links_ok_def)
  show ?thesis
  proof (cases "j = i \<or> g_retired (s_group s j)")
    case True
    then show ?thesis using keep E(3) by (auto simp: born_def eq)
  next
    case False
    then obtain k where k: "(k, j) \<in> set (s_groups s)" using assms(2) by (auto simp: born_def)
    obtain k' where k': "(k', i) \<in> set (s_groups s)" using assms(1) by (auto simp: popped_def)
    have "k \<noteq> g_key (s_group s i)"
    proof
      assume "k = g_key (s_group s i)"
      then have "k' = k" using table_okD(3) [OF tb k'] by simp
      then show False using eq_key_imp_eq_value [OF table_okD(1) [OF tb] k] k' False by simp
    qed
    then show ?thesis using k by (force simp: born_def eq E(2) adel_subset)
  qed
qed

lemma room_sys:
  assumes "sys_ok A W R s" "makeGroupRoom s = Some s'" shows "sys_ok A W R s'"
proof -
  have ok: "sched_ok s" using assms(1) by (simp add: sys_ok_def)
  show ?thesis
  proof (rule makeGroupRoom_rule [where R = "sys_ok A W R", OF ok assms(2) assms(1)])
    fix s i s1 assume ok: "sched_ok s" and sy: "sys_ok A W R s" and pop: "popIdleGroup s = (Some i, s1)"
    note P = popIdleGroup_ok [OF ok pop]
    note E = evict_ok [OF P(1)] and F = evict_fields [OF P(1)]
    have ac: "acct A W s" using sy by (simp add: sys_ok_def)
    have "acct A W (snd (evictIdleGroup i s1))"
      by (rule acct_cong [OF ac])
         (simp_all add: F idle_moveD [OF P(7)] idle_move_fields(7,9) [OF P(7)])
    moreover have "born (snd (evictIdleGroup i s1)) j" if "j \<in> R" for j
      using sy that evict_born [OF P(1)] born_cong [of s1 s j] idle_moveD(1) [OF P(7)] idle_move_fields(5) [OF P(7), of j]
      by (simp add: sys_ok_def)
    ultimately show "sys_ok A W R (snd (evictIdleGroup i s1))" using E(1) by (simp add: sys_ok_def)
  qed
qed

lemma upd_gates [simp]:
  "s_gates (upd_group i f s) = s_gates s" "s_gates (upd_index x h s) = s_gates s"
  "s_gates (upd_gate q k s) = s_gates s" "s_gates (upd_waiter w l s) = s_gates s"
  by (simp_all add: upd_group_def upd_index_def upd_gate_def upd_waiter_def)

lemma idlePush_frame [simp]:
  "s_gate (idlePush i s) = s_gate s" "s_waiter (idlePush i s) = s_waiter s" "s_next (idlePush i s) = s_next s"
  "s_gates (idlePush i s) = s_gates s" "s_gateSnap (idlePush i s) = s_gateSnap s" "s_groups (idlePush i s) = s_groups s"
  "g_inFlight (s_group (idlePush i s) j) = g_inFlight (s_group s j)" "g_queue (s_group (idlePush i s) j) = g_queue (s_group s j)"
  "g_retired (s_group (idlePush i s) j) = g_retired (s_group s j)" "s_opts (idlePush i s) = s_opts s"
  by (simp_all add: idlePush_def upd_group_def)

lemma adoptPacing_frame [simp]:
  "s_gate (adoptPacing i s) = s_gate s" "s_waiter (adoptPacing i s) = s_waiter s" "s_next (adoptPacing i s) = s_next s"
  "s_gates (adoptPacing i s) = s_gates s" "s_gateSnap (adoptPacing i s) = s_gateSnap s" "s_groups (adoptPacing i s) = s_groups s"
  "g_inFlight (s_group (adoptPacing i s) j) = g_inFlight (s_group s j)" "g_queue (s_group (adoptPacing i s) j) = g_queue (s_group s j)"
  "g_retired (s_group (adoptPacing i s) j) = g_retired (s_group s j)" "s_opts (adoptPacing i s) = s_opts s"
  by (simp_all add: adoptPacing_def upd_group_def Let_def split: prod.split option.split)

lemma groupFor_sys:
  assumes sy: "sys_ok A W R s" and gf: "groupFor key m b s = (i, s')"
  shows "sys_ok A W (insert i R) s'"
proof -
  have ok: "sched_ok s" and ac: "acct A W s" using sy by (simp_all add: sys_ok_def)
  note fg = fresh_group [OF ok, of "s_next s"]
  have "acct A W s'"
  proof (rule acct_cong [OF ac])
    show "g_inFlight (s_group s' j) = g_inFlight (s_group s j)" "g_queue (s_group s' j) = g_queue (s_group s j)" for j
      using gf fg by (auto simp: groupFor_def Let_def upd_group_def new_group_def zero_group_def split: option.splits if_splits)
  qed (use gf in \<open>auto simp: groupFor_def Let_def split: option.splits if_splits\<close>)
  moreover have new: "aput key n (s_groups s) = s_groups s @ [(key, n)]" if "map_of (s_groups s) key = None" for n
    using that by (intro aput_new) (simp add: map_of_eq_None_iff)
  then have "born s' j" if "j \<in> R" for j
    using that gf sy fg(2) by (auto simp: groupFor_def Let_def born_def sys_ok_def new upd_group_def split: option.splits if_splits)
  ultimately show ?thesis using groupFor_ok [OF ok gf] by (simp add: sys_ok_def born_def)
qed

lemma attribute_frame [simp]:
  "s_gate (attributeProvider i p s) = s_gate s" "s_waiter (attributeProvider i p s) = s_waiter s"
  "s_gates (attributeProvider i p s) = s_gates s" "s_gateSnap (attributeProvider i p s) = s_gateSnap s"
  "s_groups (attributeProvider i p s) = s_groups s" "s_next s \<le> s_next (attributeProvider i p s)"
  "g_inFlight (s_group (attributeProvider i p s) j) = g_inFlight (s_group s j)"
  "g_queue (s_group (attributeProvider i p s) j) = g_queue (s_group s j)"
  "g_retired (s_group (attributeProvider i p s) j) = g_retired (s_group s j)"
  by (auto simp: attributeProvider_def provider_index_def linkLocked_def upd_group_def upd_index_def Let_def
      split: option.split)

lemma attribute_sys:
  assumes "sys_ok A W R s" "i \<in> mapped s" shows "sys_ok A W R (attributeProvider i p s)"
  using assms acct_cong [of A W s "attributeProvider i p s"] attributeProvider_ok [OF _ assms(2), of p]
  by (simp add: sys_ok_def born_def)

lemma restored_ok: "sched_ok s \<Longrightarrow> s_next s \<le> n \<Longrightarrow> sched_ok (s\<lparr>s_next := n, s_gate := g, s_gates := h\<rparr>)"
  by (simp add: sched_ok_next)

lemma aput_member: "e \<in> set (aput k v xs) \<Longrightarrow> e = (k, v) \<or> e \<in> set xs"
  by (induction k v xs rule: aput.induct) (auto split: if_splits)

lemma gate_inv_policy [simp]:
  "gate_inv q (resetBuckets l now (g\<lparr>pg_throttle := t\<rparr>)) L \<longleftrightarrow> pg_inFlight g = int (size L)
     \<and> pg_reserved g = sum_mset (image_mset adm_reserved L) \<and> (\<forall>a \<in># L. adm_gate a = Some q \<and> 0 \<le> adm_reserved a)"
  "gate_inv q (g\<lparr>pg_throttle := t\<rparr>) L = gate_inv q g L" "gate_inv q newProviderGate {#}"
  by (simp_all add: gate_inv_def newProviderGate_def zero_gate_def zero_bucket_def) (simp add: bucket_wf_def)

lemma gate_inv_snapshot: "gate_inv q g L \<Longrightarrow> gate_inv q (snd (gate_snapshot n now g)) L"
  by (auto simp: gate_inv_def gate_snapshot_def Let_def bucket_wf_def split: prod.splits)

lemma sys_gate:
  assumes "sys_ok A W R s" "\<And>L. gate_inv q (s_gate s q) L \<Longrightarrow> gate_inv q (f (s_gate s q)) L"
  shows "sys_ok A W R (upd_gate q f s)"
proof -
  have "acct A W (upd_gate q f s)"
  proof (rule acct_cong [of A W s])
    show "acct A W s" using assms(1) by (simp add: sys_ok_def)
    fix r L assume "gate_inv r (s_gate s r) L"
    then show "gate_inv r (s_gate (upd_gate q f s) r) L" using assms(2) by (cases "r = q") (simp_all add: upd_gate_def)
  qed simp_all
  with assms(1) show ?thesis by (simp add: sys_ok_def born_def)
qed

lemma sched_ok_quiet: "core (f (s_group s i)) = core (s_group s i) \<Longrightarrow> sched_ok (upd_group i f s) = sched_ok s"
  by (rule same_views_ok(4)) (auto dest: coreD simp: same_views_def view_defs upd_group_def fun_eq_iff)

interpretation accounts: sched_invariant "sys_ok A W R" "sys_mid A W R" for A W R
proof unfold_locales
  fix s f i
  assume sy: "sys_ok A W R s" and f: "core (f (s_group s i)) = core (s_group s i)"
  have ac: "acct A W s" using sy by (simp add: sys_ok_def)
  have "acct A W (upd_group i f s)"
    by (rule acct_cong [OF ac]) (simp_all add: upd_group_def coreD(8,9) [OF f])
  moreover have "born (upd_group i f s) j = born s j" for j by (simp add: born_def upd_group_def coreD(7) [OF f])
  ultimately show "sys_ok A W R (upd_group i f s)"
    using sy sched_ok_quiet [where f = f, OF f] by (simp add: sys_ok_def)
next
  fix s h w
  assume sy: "sys_ok A W R s" and h: "same_slot (h (s_waiter s w)) (s_waiter s w)"
  have ac: "acct A W s" using sy by (simp add: sys_ok_def)
  have "acct A W (upd_waiter w h s)" by (rule acct_cong [OF ac]) (simp_all add: upd_waiter_def h)
  then show "sys_ok A W R (upd_waiter w h s)" using sy by (simp add: sys_ok_def born_def)
next
  fix s :: Scheduler and a b c d e k l
  let ?t = "s\<lparr>s_opts := a, s_storms := b, s_policy := c, s_holdCount := d, s_drains := e, s_holdSeq := k, s_log := l\<rparr>"
  assume "sys_ok A W R s"
  then show "sys_ok A W R ?t" using acct_cong [of A W s ?t] by (simp add: sys_ok_def born_def)
next
  fix s key m b j s'
  assume "sys_ok A W R s" "groupFor key m b s = (j, s')"
  from groupFor_sys [OF this] show "sys_ok A W R s'" by (simp add: sys_ok_def)
  show "j \<in> mapped s'" using \<open>sys_ok A W R s\<close> \<open>groupFor key m b s = (j, s')\<close> groupFor_ok(2) [of s] by (simp add: sys_ok_def)
next
  fix s p q
  assume sy: "sys_ok A W R s"
  let ?t = "clear_gate p q s"
  have ac: "acct A W s" using sy by (simp add: sys_ok_def)
  have "acct A W ?t"
    by (rule acct_cong [OF ac]) (auto simp: clear_gate_def publishGates_def upd_gate_def adel_subset)
  then show "sys_ok A W R ?t" using sy by (simp add: sys_ok_def born_def clear_gate_def publishGates_def)
next
  fix s p
  assume sy: "sys_ok A W R s"
  let ?t = "snd (add_gate p s)"
  have ac: "acct A W s" using sy by (simp add: sys_ok_def)
  have "acct A W ?t"
    by (rule acct_cong [OF ac]) (auto simp: add_gate_def publishGates_def Let_def dest!: aput_member)
  moreover have "sched_ok ?t"
    using sy restored_ok [of s "Suc (s_next s)"] by (simp add: add_gate_def publishGates_def Let_def sys_ok_def)
  ultimately show "sys_ok A W R ?t" using sy by (simp add: sys_ok_def born_def add_gate_def publishGates_def Let_def)
next
  fix s q t assume "sys_ok A W R s"
  then show "sys_ok A W R (install_gate q t s)" unfolding install_gate_def
    by (rule sys_gate) (simp add: gate_inv_def)
next
  fix s q and n :: int assume "sys_ok A W R s"
  then show "sys_ok A W R (upd_gate q (\<lambda>_. snd (gate_snapshot n (s_now s) (s_gate s q))) s)"
    by (rule sys_gate) (rule gate_inv_snapshot)
next
  fix s q v assume "sys_ok A W R s"
  then show "sys_ok A W R (upd_gate q (\<lambda>g. g\<lparr>pg_wake := v g\<rparr>) s)" by (rule sys_gate) simp
qed (fact room_sys attribute_sys)+


section \<open>Operations that hand a slot over\<close>

lemma slots_at_add [simp]: "slots_at j (add_mset (i, a) A) = (if j = i then Suc (slots_at j A) else slots_at j A)"
  by (simp add: slots_at_def)

lemma busy_frame [simp]:
  "s_gate (markGroupBusy i s) = s_gate s" "s_waiter (markGroupBusy i s) = s_waiter s" "s_next (markGroupBusy i s) = s_next s"
  "s_gates (markGroupBusy i s) = s_gates s" "s_gateSnap (markGroupBusy i s) = s_gateSnap s"
  "s_groups (markGroupBusy i s) = s_groups s" "g_retired (s_group (markGroupBusy i s) j) = g_retired (s_group s j)"
  "g_inFlight (s_group (markGroupBusy i s) j) = g_inFlight (s_group s j)"
  "g_queue (s_group (markGroupBusy i s) j) = g_queue (s_group s j)"
  by (simp_all add: markGroupBusy_def idleUnlink_def upd_group_def Let_def)

lemma idle_frame [simp]:
  "s_gate (markGroupIdle i s) = s_gate s" "s_waiter (markGroupIdle i s) = s_waiter s" "s_next (markGroupIdle i s) = s_next s"
  "s_gates (markGroupIdle i s) = s_gates s" "s_gateSnap (markGroupIdle i s) = s_gateSnap s"
  "s_groups (markGroupIdle i s) = s_groups s" "g_retired (s_group (markGroupIdle i s) j) = g_retired (s_group s j)"
  "g_inFlight (s_group (markGroupIdle i s) j) = g_inFlight (s_group s j)"
  "g_queue (s_group (markGroupIdle i s) j) = g_queue (s_group s j)"
  by (simp_all add: markGroupIdle_def Let_def) (simp_all add: upd_group_def)

lemma acct_idle: "acct A W s \<Longrightarrow> acct A W (markGroupIdle i s)"
  by (rule acct_cong [where s = s]) simp_all

lemma acct_busy: "acct A W s \<Longrightarrow> acct A W (markGroupBusy i s)"
  by (rule acct_cong [where s = s]) simp_all

text \<open>The fast path takes a slot.\<close>

lemma acct_take:
  assumes ac: "acct A W s" and ad: "admitLocked i p est s = (True, a, wait, gb, s')"
  shows "acct (add_mset (i, a) A) W (upd_group i (\<lambda>g. g\<lparr>g_inFlight := g_inFlight g + 1\<rparr>) s')"
proof -
  note fr = admitLocked_frame [OF ad] and D = acctD [OF ac]
  let ?t = "upd_group i (\<lambda>g. g\<lparr>g_inFlight := g_inFlight g + 1\<rparr>) s'"
  have ls: "leased (\<lambda>q. leases q A W s) a s'" using admit_leased [OF ad acct_leased [OF ac]] by simp
  have q: "g_queue (s_group ?t j) = g_queue (s_group s j)" for j by (simp add: upd_group_def adm_frame_fields(11) [OF fr])
  have f: "g_inFlight (s_group ?t j) = g_inFlight (s_group s j) + of_bool (j = i)" for j
    by (simp add: upd_group_def adm_frame_fields(9) [OF fr])
  have u: "unread W ?t j = unread W s j" for j by (simp add: unread_def q)
  have l: "leases r (add_mset (i, a) A) W ?t = lease_at r a + leases r A W s" for r
    unfolding leases_slot using leases_cong [where s' = ?t and s = s and q = r and A = A and W = W] by (simp add: adm_frameD [OF fr])
  have lt: "r < s_next s" if "adm_gate a = Some r" for r
    using ls that D(5) [of r] adm_frameD(11) [OF fr] by (auto simp: leased_def)
  show ?thesis unfolding acct_def
  proof (intro conjI allI impI)
    fix j show "g_inFlight (s_group ?t j) = int (slots_at j (add_mset (i, a) A)) + int (card (unread W ?t j))"
      using D(1) [of j] by (simp add: u f)
    fix v
    show "W v = Some j" "\<not> w_granted (s_waiter ?t v)" "w_admission (s_waiter ?t v) = no_admission"
      if "v \<in> set (g_queue (s_group ?t j))" using that D(2) [of v j] by (simp_all add: q adm_frameD [OF fr])
    show "v < s_next ?t" "v \<in> set (g_queue (s_group ?t j)) \<or> w_granted (s_waiter ?t v)" if "W v = Some j"
      using D(3) [OF that] by (simp_all add: q adm_frameD [OF fr])
  next
    fix r show "gate_inv r (s_gate ?t r) (leases r (add_mset (i, a) A) W ?t)" using ls by (simp add: leased_def l)
  next
    show "\<forall>r\<in>snd ` (set (s_gates ?t) \<union> set (s_gateSnap ?t)). r < s_next ?t"
      using D(5) by (simp add: adm_frameD [OF fr])
  next
    fix r assume "s_next ?t \<le> r"
    then show "leases r (add_mset (i, a) A) W ?t = {#}"
      using lt [of r] D(6) [of r] by (auto simp: l lease_at_def adm_frameD [OF fr])
  qed
qed

text \<open>A waiter joins the queue.\<close>

lemma acct_enqueue:
  assumes ac: "acct A W s" and w: "w = s_next s" and x: "\<not> w_granted x" "w_admission x = no_admission"
    and t: "t = upd_group i (\<lambda>g. g\<lparr>g_queue := g_queue g @ [w]\<rparr>) (upd_waiter w (\<lambda>_. x) (s\<lparr>s_next := Suc w, s_holdCount := c\<rparr>))"
  shows "acct A (W(w \<mapsto> i)) t"
proof -
  note D = acctD [OF ac]
  have new: "W w = None" using D(3) [of w] w by (cases "W w") auto
  have q: "g_queue (s_group t j) = (if j = i then g_queue (s_group s i) @ [w] else g_queue (s_group s j))" for j
    by (simp add: t upd_group_def upd_waiter_def)
  have wt: "s_waiter t v = (if v = w then x else s_waiter s v)" for v by (simp add: t upd_group_def upd_waiter_def)
  have rest: "s_next t = Suc w" "s_gates t = s_gates s" "s_gateSnap t = s_gateSnap s" "s_gate t = s_gate s"
      "g_inFlight (s_group t j) = g_inFlight (s_group s j)" for j
    by (simp_all add: t upd_group_def upd_waiter_def)
  have u: "unread (W(w \<mapsto> i)) t j = unread W s j" for j
    using new by (auto simp: unread_def q)
  have l: "leases r A (W(w \<mapsto> i)) t = leases r A W s" for r
  proof -
    have "leases r A (W(w \<mapsto> i)) t = leases r A W t"
      by (rule leases_enqueue [OF acct_finite(1) [OF ac] new]) (simp add: wt x)
    also have "\<dots> = leases r A W s" using new by (intro leases_cong) (auto simp: wt)
    finally show ?thesis .
  qed
  show ?thesis unfolding acct_def
  proof (intro conjI allI impI)
    fix j show "g_inFlight (s_group t j) = int (slots_at j A) + int (card (unread (W(w \<mapsto> i)) t j))"
      by (simp add: u rest D(1))
    fix v
    show "(W(w \<mapsto> i)) v = Some j" "\<not> w_granted (s_waiter t v)" "w_admission (s_waiter t v) = no_admission"
      if "v \<in> set (g_queue (s_group t j))"
      using that D(2) [of v j] new x by (auto simp: q wt split: if_splits)
    show "v < s_next t" "v \<in> set (g_queue (s_group t j)) \<or> w_granted (s_waiter t v)" if "(W(w \<mapsto> i)) v = Some j"
      using that D(3) [of v j] w by (auto simp: q wt rest split: if_splits)
  next
    fix r show "gate_inv r (s_gate t r) (leases r A (W(w \<mapsto> i)) t)" using D(4) by (simp add: l rest)
  next
    show "\<forall>r\<in>snd ` (set (s_gates t) \<union> set (s_gateSnap t)). r < s_next t"
      using D(5) w by (auto simp: rest intro: less_SucI)
  next
    fix r assume "s_next t \<le> r"
    then show "leases r A (W(w \<mapsto> i)) t = {#}" unfolding l using D(6) [of r] w by (simp add: rest)
  qed
qed

text \<open>A slot or an unread grant is given back: its lease is settled and the group's count drops by one.\<close>

lemma acct_drop:
  assumes ac: "acct A W s" and l: "\<And>q. leases q A W s = lease_at q a + leases q A' W' s"
    and f: "\<And>j. int (slots_at j A) + int (card (unread W s j)) = int (slots_at j A') + int (card (unread W' s j)) + of_bool (j = i)"
    and W': "\<And>w j. W' w = Some j \<Longrightarrow> W w = Some j" and keep: "\<And>w j. w \<in> set (g_queue (s_group s j)) \<Longrightarrow> W' w = W w"
    and t: "t = upd_group i (\<lambda>g. g\<lparr>g_inFlight := g_inFlight g - 1\<rparr>) (settle_lease actual a s)"
  shows "acct A' W' t" "g_inFlight (s_group s i) > 0"
proof -
  note D = acctD [OF ac]
  have rest: "s_next t = s_next s" "s_gates t = s_gates s" "s_gateSnap t = s_gateSnap s" "s_waiter t = s_waiter s"
      "g_queue (s_group t j) = g_queue (s_group s j)" "g_inFlight (s_group t j) = g_inFlight (s_group s j) - of_bool (j = i)" for j
    by (simp_all add: t upd_group_def settle_lease_def upd_gate_def split: option.split)
  have g: "gate_inv q (s_gate t q) (leases q A' W' s)" for q
  proof (cases "adm_gate a = Some q")
    case True
    have "a \<in># leases q A W s" "leases q A W s - {#a#} = leases q A' W' s" using True by (simp_all add: l lease_at_def)
    then show ?thesis using gate_inv_settle [OF D(4) [of q], of a] True by (simp add: t settle_lease_def upd_gate_def)
  next
    case False
    have "leases q A W s = leases q A' W' s" using False by (simp add: l lease_at_def)
    then have "gate_inv q (s_gate s q) (leases q A' W' s)" using D(4) [of q] by simp
    then show ?thesis using False by (auto simp: t settle_lease_def upd_gate_def split: option.split)
  qed
  have u: "unread W' t j = unread W' s j" for j by (simp add: unread_def rest)
  have lt: "leases q A' W' t = leases q A' W' s" for q by (rule leases_cong) (simp add: rest)
  show "acct A' W' t" unfolding acct_def
  proof (intro conjI allI impI)
    fix j show "g_inFlight (s_group t j) = int (slots_at j A') + int (card (unread W' t j))"
      using D(1) [of j] f [of j] by (simp add: u rest)
    fix v
    show "W' v = Some j" "\<not> w_granted (s_waiter t v)" "w_admission (s_waiter t v) = no_admission"
      if "v \<in> set (g_queue (s_group t j))"
      using that D(2) [of v j] keep [of v j] by (simp_all add: rest)
    show "v < s_next t" "v \<in> set (g_queue (s_group t j)) \<or> w_granted (s_waiter t v)" if "W' v = Some j"
      using D(3) [OF W' [OF that]] by (simp_all add: rest)
  next
    fix q show "gate_inv q (s_gate t q) (leases q A' W' t)" using g by (simp add: lt)
  next
    show "\<forall>q\<in>snd ` (set (s_gates t) \<union> set (s_gateSnap t)). q < s_next t" using D(5) by (simp add: rest)
  next
    fix q assume "s_next t \<le> q"
    then show "leases q A' W' t = {#}" unfolding lt using D(6) [of q] l [of q] by (simp add: rest)
  qed
  show "g_inFlight (s_group s i) > 0" using D(1) [of i] f [of i] by simp
qed

lemma acct_release:
  assumes ac: "acct (add_mset (i, a) A) W s"
  shows "acct A W (upd_group i (\<lambda>g. g\<lparr>g_inFlight := g_inFlight g - 1\<rparr>) (settle_lease actual a s))"
    "g_inFlight (s_group s i) > 0"
  by (rule acct_drop [OF ac _ _ _ _ refl, where i = i], simp_all add: leases_slot)
     (rule acct_drop [OF ac _ _ _ _ refl, where i = i and A' = A and W' = W], simp_all add: leases_slot)

lemma unread_forget: "unread (W(w := None)) s j = unread W s j - {w}"
  by (auto simp: unread_def)

lemma card_forget:
  assumes "acct A W s" "W w = Some i" "w \<notin> set (g_queue (s_group s i))"
  shows "int (card (unread W s j)) = int (card (unread (W(w := None)) s j)) + of_bool (j = i)"
proof (cases "j = i")
  case True
  have "w \<in> unread W s i" using assms(2,3) by (simp add: unread_def)
  then show ?thesis using True acct_finite(2) [OF assms(1), of i] card_gt_0_iff [of "unread W s i"]
    by (auto simp: unread_forget card_Diff_singleton)
next
  case False
  then have "w \<notin> unread W s j" using assms(2) by (simp add: unread_def)
  then show ?thesis using False by (simp add: unread_forget)
qed

lemma acct_not_queued:
  assumes "acct A W s" "W w = Some i" "w \<notin> set (g_queue (s_group s i))"
  shows "w \<notin> set (g_queue (s_group s j))"
  using acctD(2) [OF assms(1), of w j] assms(2,3) by auto

lemma acct_abandon:
  assumes ac: "acct A W s" and w: "W w = Some i" "w \<notin> set (g_queue (s_group s i))"
  shows "acct A (W(w := None)) (upd_group i (\<lambda>g. g\<lparr>g_inFlight := g_inFlight g - 1\<rparr>) (settle_lease actual (w_admission (s_waiter s w)) s))"
    "g_inFlight (s_group s i) > 0"
proof -
  note L = leases_waiter [OF acct_finite(1) [OF ac] w(1), of _ A s] and C = card_forget [OF ac w]
  have k: "(W(w := None)) v = W v" if "v \<in> set (g_queue (s_group s j))" for v j
    using that acct_not_queued [OF ac w] by auto
  have o: "W v = Some j" if "(W(w := None)) v = Some j" for v j using that by (simp split: if_splits)
  have fl: "int (slots_at j A) + int (card (unread W s j)) = int (slots_at j A) + int (card (unread (W(w := None)) s j)) + of_bool (j = i)" for j
    using C [of j] by simp
  show "acct A (W(w := None)) (upd_group i (\<lambda>g. g\<lparr>g_inFlight := g_inFlight g - 1\<rparr>) (settle_lease actual (w_admission (s_waiter s w)) s))"
    "g_inFlight (s_group s i) > 0"
    by (rule acct_drop [OF ac L fl o k refl]; assumption)+
qed

end
