(* ===== verification/Slots.thy ===== *)
theory Slots
  imports Accounting
begin

text \<open>
  The operations that move a slot between its owners, with their effect on the accounts:
  the fast path and the enqueue of \<^verbatim>\<open>acquire\<close>, the release, the read of a grant, and the removal of
  a waiter whose caller gives up, whether the grant raced it or not.
\<close>

lemma sys_okD:
  assumes "sys_ok A W R s"
  shows "sched_ok s" "acct A W s" "i \<in> R \<Longrightarrow> born s i"
  using assms by (simp_all add: sys_ok_def)

text \<open>A group with a slot or a waiter is in the table.\<close>

lemma slot_mapped:
  assumes "sys_ok (add_mset (i, a) A) W R s" shows "i \<in> mapped s"
proof -
  have "g_inFlight (s_group s i) > 0" by (rule acct_release(2) [OF sys_okD(2) [OF assms]])
  then show ?thesis using work_okD(5) [OF sched_okD(6) [OF sys_okD(1) [OF assms]], of i] by auto
qed

lemma waiter_mapped:
  assumes "sys_ok A W R s" "W w = Some i" shows "i \<in> mapped s"
proof (rule ccontr)
  assume "i \<notin> mapped s"
  then have "g_inFlight (s_group s i) = 0" "g_queue (s_group s i) = []"
    using work_okD(5) [OF sched_okD(6) [OF sys_okD(1) [OF assms(1)]], of i] by simp_all
  then show False using acct_abandon(2) [OF sys_okD(2) [OF assms(1)] assms(2)] by simp
qed

lemma born_fields:
  "s_groups t = s_groups s \<Longrightarrow> (\<And>j. g_retired (s_group t j) = g_retired (s_group s j)) \<Longrightarrow> born t = born s"
  by (simp add: born_def fun_eq_iff)


section \<open>Release\<close>

lemma release_sys:
  assumes sy: "sys_ok (add_mset (i, a) A) W R s"
  shows "sys_ok A W R (release i (settle_lease actual a s))"
proof -
  let ?s = "settle_lease actual a s" and ?d = "upd_group i (\<lambda>g. g\<lparr>g_inFlight := g_inFlight g - 1\<rparr>)"
  have same: "s_group ?s = s_group s" "s_groups ?s = s_groups s"
    by (simp_all add: settle_lease_def split: option.split)
  have ok: "sched_ok ?s" "born ?s i" using slot_mapped [OF sy] sys_okD(1) [OF sy] by (simp_all add: born_def same)
  note rel = acct_release [OF sys_okD(2) [OF sy]]
  have "sched_ok (markGroupIdle i (?d ?s))" using slot_freed [OF ok] rel(2) by (simp add: same)
  moreover have "acct A W (markGroupIdle i (?d ?s))" by (rule acct_idle [OF rel(1)])
  moreover have "born (markGroupIdle i (?d ?s)) = born s"
    by (rule born_fields) (simp_all add: same upd_group_def)
  ultimately have "sys_ok A W R (markGroupIdle i (?d ?s))" using sys_okD(3) [OF sy] by (simp add: sys_ok_def)
  then show ?thesis using rel(2) by (simp add: release_def Let_def same accounts.drainAdmission_keeps)
qed

lemma call_Release_sys:
  assumes "sys_ok (add_mset (r_group r, r_admission r) A) W R s" "\<not> r_once r"
  shows "sys_ok A W R (snd (call_Release actual r s))"
  using release_sys [OF assms(1)] assms(2) by (simp add: call_Release_def)


section \<open>Reading a grant and giving up\<close>

lemma acct_read:
  assumes ac: "acct A W s" and w: "W w = Some i" "w_granted (s_waiter s w)"
  shows "acct (add_mset (i, w_admission (s_waiter s w)) A) (W(w := None)) (upd_waiter w (\<lambda>x. x\<lparr>w_granted := False\<rparr>) s)"
proof -
  have nq: "w \<notin> set (g_queue (s_group s j))" for j using acctD(2) [OF ac, of w j] w(2) by auto
  note L = leases_waiter [OF acct_finite(1) [OF ac] w(1), of _ A s] and C = card_forget [OF ac w(1) nq] and D = acctD [OF ac]
  let ?A = "add_mset (i, w_admission (s_waiter s w)) A" and ?W = "W(w := None)"
  have l: "leases q ?A ?W s = leases q A W s" for q by (simp add: leases_slot L)
  have "acct ?A ?W s" unfolding acct_def
  proof (intro conjI allI impI)
    fix j show "g_inFlight (s_group s j) = int (slots_at j ?A) + int (card (unread ?W s j))"
      using D(1) [of j] C [of j] by simp
    fix v
    show "?W v = Some j" "\<not> w_granted (s_waiter s v)" "w_admission (s_waiter s v) = no_admission"
      if "v \<in> set (g_queue (s_group s j))" using that D(2) [OF that] nq [of j] by auto
    show "v < s_next s" "v \<in> set (g_queue (s_group s j)) \<or> w_granted (s_waiter s v)" if "?W v = Some j"
      using that D(3) [of v j] by (simp_all split: if_splits)
  next
    fix q show "gate_inv q (s_gate s q) (leases q ?A ?W s)" unfolding l by (rule D(4))
  next
    show "\<forall>q\<in>snd ` (set (s_gates s) \<union> set (s_gateSnap s)). q < s_next s" using D(5) by simp
  next
    fix q assume "s_next s \<le> q"
    then show "leases q ?A ?W s = {#}" unfolding l by (rule D(6))
  qed
  then show ?thesis by (rule acct_cong) (auto simp: upd_waiter_def split: if_splits)
qed

lemma read_sys:
  assumes sy: "sys_ok A W R s" and w: "W w = Some i" "w_granted (s_waiter s w)"
  shows "sys_ok (add_mset (i, w_admission (s_waiter s w)) A) (W(w := None)) R
     (dropHold_of w (upd_waiter w (\<lambda>x. x\<lparr>w_granted := False\<rparr>) s))"
proof (rule accounts.attribution_keeps(1))
  show "sys_ok (add_mset (i, w_admission (s_waiter s w)) A) (W(w := None)) R (upd_waiter w (\<lambda>x. x\<lparr>w_granted := False\<rparr>) s)"
    using acct_read [OF sys_okD(2) [OF sy] w] sys_okD(1,3) [OF sy] by (simp add: sys_ok_def born_def)
qed

lemma acct_unqueue:
  assumes ac: "acct A W s" and w: "w \<in> set (g_queue (s_group s i))" and d: "distinct (g_queue (s_group s i))"
    and t: "t = upd_group i (\<lambda>g. g\<lparr>g_queue := remove1 w (g_queue g)\<rparr>) s"
  shows "acct A (W(w := None)) t"
proof -
  note D = acctD [OF ac]
  have q: "g_queue (s_group t j) = (if j = i then remove1 w (g_queue (s_group s i)) else g_queue (s_group s j))" for j
    by (simp add: t upd_group_def)
  have rest: "s_next t = s_next s" "s_gates t = s_gates s" "s_gateSnap t = s_gateSnap s" "s_gate t = s_gate s"
      "s_waiter t = s_waiter s" "g_inFlight (s_group t j) = g_inFlight (s_group s j)" for j
    by (simp_all add: t upd_group_def)
  have Ww: "W w = Some i" "w_admission (s_waiter s w) = no_admission" using D(2) [OF w] by simp_all
  have u: "unread (W(w := None)) t j = unread W s j" for j
    using Ww(1) w d by (auto simp: unread_def q split: if_splits)
  have l: "leases r A (W(w := None)) t = leases r A W s" for r
  proof -
    have "leases r A (W(w := None)) t = leases r A (W(w := None)) s" by (rule leases_cong) (simp add: rest)
    also have "\<dots> = leases r A W s" using leases_waiter [OF acct_finite(1) [OF ac] Ww(1), of r A s] Ww(2) by simp
    finally show ?thesis .
  qed
  show ?thesis unfolding acct_def
  proof (intro conjI allI impI)
    fix j show "g_inFlight (s_group t j) = int (slots_at j A) + int (card (unread (W(w := None)) t j))"
      by (simp add: u rest D(1))
    fix v
    assume v: "v \<in> set (g_queue (s_group t j))"
    then have vs: "v \<in> set (g_queue (s_group s j))" using set_remove1_subset [of w] by (auto simp: q split: if_splits)
    have "v \<noteq> w" using v d Ww(1) D(2) [OF vs] by (auto simp: q split: if_splits)
    then show "(W(w := None)) v = Some j" "\<not> w_granted (s_waiter t v)" "w_admission (s_waiter t v) = no_admission"
      using D(2) [OF vs] by (simp_all add: rest)
  next
    fix v j assume v: "(W(w := None)) v = Some j"
    then have vw: "v \<noteq> w" and Wv: "W v = Some j" by (simp_all split: if_splits)
    show "v < s_next t" "v \<in> set (g_queue (s_group t j)) \<or> w_granted (s_waiter t v)"
      using D(3) [OF Wv] vw by (auto simp: q rest)
  next
    fix r show "gate_inv r (s_gate t r) (leases r A (W(w := None)) t)" unfolding l using D(4) [of r] by (simp add: rest)
  next
    show "\<forall>r\<in>snd ` (set (s_gates t) \<union> set (s_gateSnap t)). r < s_next t" using D(5) by (simp add: rest)
  next
    fix r assume "s_next t \<le> r"
    then show "leases r A (W(w := None)) t = {#}" unfolding l using D(6) [of r] by (simp add: rest)
  qed
qed

lemma unqueue_sys:
  assumes sy: "sys_ok A W R s" and w: "W w = Some i"
  shows "sys_ok A (W(w := None)) R (snd (unqueue_waiter i w s))"
proof -
  note ac = sys_okD(2) [OF sy]
  have ok: "sched_ok (snd (unqueue_waiter i w s))"
    using unqueue_waiter_ok [OF sys_okD(1) [OF sy]] waiter_mapped [OF sy w] by (simp add: born_def)
  have "acct A (W(w := None)) (snd (unqueue_waiter i w s)) \<and> born (snd (unqueue_waiter i w s)) = born s"
  proof (cases "w \<in> set (g_queue (s_group s i))")
    case True
    let ?t = "upd_group i (\<lambda>g. g\<lparr>g_queue := remove1 w (g_queue g)\<rparr>) s"
    have fr: "adm_frame ?t (syncQueue i ?t)" by (simp add: frames)
    have d: "distinct (g_queue (s_group s i))" by (rule work_okD(2) [OF sched_okD(6) [OF sys_okD(1) [OF sy]]])
    have "acct A (W(w := None)) (markGroupIdle i (syncQueue i ?t))"
      using frame_acct [OF acct_unqueue [OF ac True d refl] fr] by (simp add: acct_idle)
    moreover have "born (markGroupIdle i (syncQueue i ?t)) = born s"
      by (rule born_fields) (simp_all add: adm_frameD(2) [OF fr] adm_frame_fields(7) [OF fr], simp add: upd_group_def)
    ultimately show ?thesis using True by (simp add: unqueue_waiter_def Let_def)
  next
    case False
    note ab = acct_abandon [OF ac w False]
    let ?t = "upd_group i (\<lambda>g. g\<lparr>g_inFlight := g_inFlight g - 1\<rparr>) (settle_lease 0 (w_admission (s_waiter s w)) s)"
    have same: "s_group (settle_lease 0 a s) = s_group s" "s_groups (settle_lease 0 a s) = s_groups s" for a
      by (simp_all add: settle_lease_def split: option.split)
    have "born (markGroupIdle i ?t) = born s" by (rule born_fields) (simp_all add: same upd_group_def)
    then show ?thesis using False ab acct_idle [OF ab(1)] by (simp add: unqueue_waiter_def Let_def same)
  qed
  then show ?thesis using ok sys_okD(3) [OF sy] by (simp add: sys_ok_def)
qed

lemma removeWaiter_sys:
  assumes "sys_ok A W R s" "W w = Some i"
  shows "sys_ok A (W(w := None)) R (removeWaiter i w s)"
  using accounts.attribution_keeps(1) [OF unqueue_sys [OF assms], of w]
  by (simp add: removeWaiter_def Let_def case_prod_beta accounts.drainAdmission_keeps)


section \<open>Acquire\<close>

lemma fast_sys:
  assumes sy: "sys_ok A W R s" and i: "i \<in> mapped s" and fast: "acquire_fast i hooks s = (r, s')"
  shows "case r of None \<Rightarrow> sys_ok A W R s' | Some rel \<Rightarrow> r_group rel = i \<and> \<not> r_once rel \<and> sys_ok (add_mset (i, r_admission rel) A) W R s'"
proof -
  have ok: "sched_ok s'" by (rule fast_ok [OF sys_okD(1) [OF sy] i fast])
  obtain b a wait gb s1 where ad: "admitLocked i (wh_Provider hooks) (wh_EstTokens hooks) s = (b, a, wait, gb, s1)"
    by (metis prod_cases5)
  note fr = admitLocked_frame [OF ad]
  have bs: "born s1 = born s" using frame_born [OF fr] by (simp add: fun_eq_iff)
  show ?thesis
  proof (cases "fast_path_open i hooks s \<and> b")
    case True
    let ?t = "upd_group i (\<lambda>g. g\<lparr>g_inFlight := g_inFlight g + 1\<rparr>) s1"
    have t: "s' = markGroupBusy i ?t" "r = Some (slotRelease i a)" using True fast ad by (auto simp: acquire_fast_def)
    have "acct (add_mset (i, a) A) W s'" using acct_take [OF sys_okD(2) [OF sy]] ad True by (simp add: t acct_busy)
    moreover have "born s' = born s1" unfolding t by (rule born_fields) (simp_all add: upd_group_def)
    ultimately show ?thesis using ok sys_okD(3) [OF sy] bs by (simp add: t slotRelease_def sys_ok_def)
  next
    case False
    then have r: "r = None" and s': "s' = s \<or> s' = s1 \<or> s' = armThrottleDrain (wh_Provider hooks) wait s1"
      using fast ad by (auto simp: acquire_fast_def split: if_splits)
    have "sys_ok A W R s1" if "fast_path_open i hooks s"
      using acct_refuse [OF sys_okD(2) [OF sy]] ad False that admit_ok [OF ad sys_okD(1) [OF sy]] sys_okD(3) [OF sy] bs
      by (simp add: sys_ok_def)
    then show ?thesis using s' r sy fast accounts.arms False
      by (auto simp: acquire_fast_def ad split: if_splits)
  qed
qed

lemma reserve_fresh: "reserve_waiter hooks s = Some (c, x) \<Longrightarrow> \<not> w_granted x \<and> w_admission x = no_admission"
  by (auto simp: reserve_waiter_def reserveHold_def new_waiter_def moveHoldCount_def Let_def split: option.splits if_splits prod.splits)

lemma enqueue_sys:
  assumes sy: "sys_ok A W R s" and i: "i \<in> mapped s" and e: "acquire_enqueue i opts hooks s = (r, s')"
  shows "(\<exists>w. r = AcqQueued w \<and> W w = None \<and> sys_ok A (W(w \<mapsto> i)) R s') \<or> (r = AcqErr ErrQueueFull \<and> s' = s)"
proof (cases "o_MaxQueueSize opts > 0 \<and> int (length (g_queue (s_group s i))) \<ge> o_MaxQueueSize opts \<or> reserve_waiter hooks s = None")
  case True
  then show ?thesis using e by (auto simp: acquire_enqueue_def split: if_splits)
next
  case False
  then obtain c x where rw: "reserve_waiter hooks s = Some (c, x)" by auto
  define w where "w = s_next s"
  define t where "t = upd_group i (\<lambda>g. g\<lparr>g_queue := g_queue g @ [w]\<rparr>) (upd_waiter w (\<lambda>_. x) (s\<lparr>s_next := Suc w, s_holdCount := c\<rparr>))"
  let ?u = "markGroupBusy i (syncQueue i t)"
  have fr: "adm_frame t (syncQueue i t)" by (simp add: frames)
  have r: "r = AcqQueued w" and s': "s' = (if w_holdID x \<noteq> [] \<and> o_MaxWait opts > 0
      then upd_waiter w (\<lambda>x. x\<lparr>w_pausedAt := w_enqueued x\<rparr>) ?u else ?u)"
    using e False rw by (auto simp: acquire_enqueue_def Let_def w_def t_def)
  have "acct A (W(w \<mapsto> i)) t"
    using acct_enqueue [OF sys_okD(2) [OF sy] w_def _ _ t_def] reserve_fresh [OF rw] by simp
  then have "acct A (W(w \<mapsto> i)) ?u" using frame_acct [OF _ fr] by (simp add: acct_busy)
  moreover have "sched_ok ?u" using enqueue_ok [OF sys_okD(1) [OF sy] i e] by (simp add: s' split: if_splits)
  moreover have "born ?u = born s"
    by (rule born_fields) (simp_all add: adm_frameD(2) [OF fr] adm_frame_fields(7) [OF fr], simp_all add: t_def upd_group_def upd_waiter_def)
  ultimately have "sys_ok A (W(w \<mapsto> i)) R ?u" using sys_okD(3) [OF sy] by (simp add: sys_ok_def)
  then have "sys_ok A (W(w \<mapsto> i)) R s'" by (simp add: s' accounts.attribution)
  moreover have "W w = None" using acctD(3) [OF sys_okD(2) [OF sy], of w] by (cases "W w") (auto simp: w_def)
  ultimately show ?thesis using r by simp
qed

lemma acquire_sys:
  assumes sy: "sys_ok A W R s" and b: "born s i" and ac: "acquire i opts hooks s = (r, s')"
  shows "case r of AcqErr e \<Rightarrow> sys_ok A W R s'
     | AcqGranted rel \<Rightarrow> r_group rel = i \<and> \<not> r_once rel \<and> sys_ok (add_mset (i, r_admission rel) A) W R s'
     | AcqQueued w \<Rightarrow> W w = None \<and> sys_ok A (W(w \<mapsto> i)) R s'"
proof (cases "g_retired (s_group s i)")
  case True
  then show ?thesis using ac sy by (auto simp: acquire_def)
next
  case False
  then have i: "i \<in> mapped s" using b by (simp add: born_def)
  obtain f s1 where fast: "acquire_fast i hooks s = (f, s1)" by (rule prod.exhaust)
  note F = fast_sys [OF sy i fast]
  show ?thesis
  proof (cases f)
    case None
    then have sy1: "sys_ok A W R s1" and e: "acquire_enqueue i opts hooks s1 = (r, s')"
      using F ac False fast by (simp_all add: acquire_def)
    have "i \<in> mapped s1" using i admit_mapped [OF fast] by simp
    from enqueue_sys [OF sy1 this e] show ?thesis using sy1 by auto
  next
    case (Some rel)
    then have "r = AcqGranted rel" "s' = s1" using F ac False fast by (simp_all add: acquire_def)
    then show ?thesis using F Some by simp
  qed
qed

end
