(* ===== verification/System.thy ===== *)
theory System
  imports Slots
begin

text \<open>
  The scheduler and its callers as one transition system. A state is the scheduler, the
  slots the callers hold, the callers parked in the wait loop and the groups that were looked
  up; a step is one critical section or one whole operation of any caller, a timer, the
  operator, the clock or a cancellation, in any order. Everything proved of reachable
  states holds under every interleaving of these steps.
\<close>

section \<open>Restoring the limits\<close>

lemma install_gates [simp]: "s_gates (install_gate q t s) = s_gates s"
  by (simp add: install_gate_def)

lemma restored_gate_sys:
  assumes sy: "sys_ok A W R s" and q: "q = s_next s"
  shows "sys_ok A W R ((install_gate q u (s\<lparr>s_next := Suc q, s_gate := (s_gate s)(q := newProviderGate)\<rparr>))\<lparr>s_gates := aput p q (s_gates s)\<rparr>)"
proof -
  let ?t = "s\<lparr>s_next := Suc q, s_gate := (s_gate s)(q := newProviderGate), s_gates := aput p q (s_gates s)\<rparr>"
  have "acct A W ?t" by (rule acct_cong [OF sys_okD(2) [OF sy]]) (auto simp: q dest!: aput_member)
  moreover have "sched_ok ?t" by (rule restored_ok [OF sys_okD(1) [OF sy]]) (simp add: q)
  moreover have "born ?t = born s" by (rule born_fields) simp_all
  ultimately have "sys_ok A W R ?t" using sys_okD(3) [OF sy] by (simp add: sys_ok_def)
  moreover have "install_gate q u ?t = (install_gate q u (s\<lparr>s_next := Suc q,
      s_gate := (s_gate s)(q := newProviderGate)\<rparr>))\<lparr>s_gates := aput p q (s_gates s)\<rparr>"
    by (cases s) (simp add: install_gate_def upd_gate_def)
  ultimately show ?thesis using accounts.install [of A W R ?t q u] by simp
qed

lemma restore_gates_sys: "sys_ok A W R s \<Longrightarrow> sys_ok A W R (restore_gates ts s)"
proof (induction ts arbitrary: s)
  case (Cons t ts)
  define n where "n = t\<lparr>t_Limit := normalized (t_Limit t)\<rparr>"
  define u where "u = (if IsZero (t_UpdatedAt n) then n\<lparr>t_UpdatedAt := s_now s\<rparr> else n)"
  show ?case
  proof (cases "t_Provider n = [] \<or> \<not> limit_Active (t_Limit n)")
    case True
    then have "restore_gates (t # ts) s = restore_gates ts s" by (simp add: Let_def n_def)
    then show ?thesis using Cons by simp
  next
    case False
    then have "restore_gates (t # ts) s = restore_gates ts ((install_gate (s_next s) u (s\<lparr>s_next := Suc (s_next s),
        s_gate := (s_gate s)(s_next s := newProviderGate)\<rparr>))\<lparr>s_gates := aput (t_Provider u) (s_next s) (s_gates s)\<rparr>)"
      by (simp only: restore_gates.simps Let_def n_def [symmetric] u_def [symmetric] install_gates) simp
    then show ?thesis using Cons.IH [OF restored_gate_sys [OF Cons.prems refl, where u = u and p = "t_Provider u"]] by simp
  qed
qed simp

lemma RestoreThrottles_sys:
  assumes "sys_ok A W R s" shows "sys_ok A W R (RestoreThrottles ts s)"
proof -
  let ?f = "\<lambda>(p :: string, q). upd_gate q (\<lambda>g. g\<lparr>pg_wake := stop (pg_wake g)\<rparr>)"
  have "sys_ok A W R (?f x t)" if "sys_ok A W R t" for x t using accounts.wakes [OF that] by (cases x) simp
  from accounts.fold_keeps [of A W R ?f, OF this assms]
  have 1: "sys_ok A W R (fold ?f (s_gates s) s)" .
  have 2: "sys_ok A W R (t\<lparr>s_gates := []\<rparr>)" if "sys_ok A W R t" for t
  proof -
    have "acct A W (t\<lparr>s_gates := []\<rparr>)" by (rule acct_cong [OF sys_okD(2) [OF that]]) auto
    then show ?thesis using that by (simp add: sys_ok_def born_def)
  qed
  have 3: "sys_ok A W R (publishGates t)" if "sys_ok A W R t" for t
  proof -
    have "acct A W (publishGates t)" by (rule acct_cong [OF sys_okD(2) [OF that]]) (auto simp: publishGates_def)
    then show ?thesis using that by (simp add: sys_ok_def born_def publishGates_def)
  qed
  have "sys_ok A W R (resetAllRamps t)" if "sys_ok A W R t" for t
    unfolding resetAllRamps_def by (rule accounts.fold_keeps [OF _ that]) (rule accounts.ramps_keep)
  then show ?thesis by (simp add: RestoreThrottles_def Let_def 1 2 3 restore_gates_sys)
qed


section \<open>Steps\<close>

text \<open>The operations that hand out no slot: the send gate, timers, limits, pauses, drains, options, time.\<close>

inductive sched_op :: "Scheduler \<Rightarrow> Scheduler \<Rightarrow> bool" where
  op_trip: "sched_op s (snd (Trip key d s))"
| op_backoff: "sched_op s (snd (BackoffFor rnd key d s))"
| op_send_start: "sched_op s (snd (WaitSend_start key hooks honor own s))"
| op_send_round: "sched_op s (snd (snd (snd (WaitSend_round l s))))"
| op_send_exit: "sched_op s (snd (WaitSend_exit l s))"
| op_send_ok: "sched_op s (EndSend key keepSerial s)"
| op_send_fail: "sched_op s (FailSend rnd key own s)"
| op_pacer: "sched_op s (pacer_fires i gen s)"
| op_throttle: "sched_op s (snd (UpdateThrottle provider upd s))"
| op_throttles: "sched_op s (snd (ListThrottles s))"
| op_restore_throttles: "sched_op s (RestoreThrottles ts s)"
| op_gate_wake: "sched_op s (gate_wakes provider q gen s)"
| op_options: "sched_op s (UpdateOptions opts s)"
| op_drain: "sched_op s (snd (DrainQueue scope s))"
| op_pause: "sched_op s (snd (AddHold h s))"
| op_replace: "sched_op s (snd (ReplaceHold h s))"
| op_resume: "sched_op s (RemoveHold hid s)"
| op_restore: "sched_op s (RestoreHolds hs s)"
| op_time: "s_now s \<le> now \<Longrightarrow> sched_op s (s\<lparr>s_now := now\<rparr>)"
| op_cancel: "sched_op s (s\<lparr>s_ctxDone := (s_ctxDone s)(w := True)\<rparr>)"
| op_storm: "sched_op s (s\<lparr>s_storms := st\<rparr>)"
| op_exit: "sched_op s (acquire_exit hooks w s)"

record sched_sys =
  y_s :: Scheduler
  y_slots :: slots
  y_acq :: "nat \<rightharpoonup> acquirer"
  y_refs :: "nat set"

definition waits_of :: "(nat \<rightharpoonup> acquirer) \<Rightarrow> waits" where
  "waits_of m w = map_option aq_group (m w)"

definition sys_init :: "Options \<Rightarrow> sched_sys" where
  "sys_init opts = \<lparr>y_s = New opts, y_slots = {#}, y_acq = Map.empty, y_refs = {}\<rparr>"

inductive sys_step :: "sched_sys \<Rightarrow> sched_sys \<Rightarrow> bool" where
  lookup: "acquire_lookup key m hooks (y_s y) = Some (Inr (i, opts), s')
    \<Longrightarrow> sys_step y (y\<lparr>y_s := s', y_refs := insert i (y_refs y)\<rparr>)"
| lookup_refused: "acquire_lookup key m hooks (y_s y) = Some (Inl e, s') \<Longrightarrow> sys_step y (y\<lparr>y_s := s'\<rparr>)"
| refused: "i \<in> y_refs y \<Longrightarrow> acquire i opts hooks (y_s y) = (AcqErr e, s') \<Longrightarrow> sys_step y (y\<lparr>y_s := s'\<rparr>)"
| granted: "i \<in> y_refs y \<Longrightarrow> acquire i opts hooks (y_s y) = (AcqGranted r, s')
    \<Longrightarrow> sys_step y (y\<lparr>y_s := s', y_slots := add_mset (r_group r, r_admission r) (y_slots y)\<rparr>)"
| queued: "i \<in> y_refs y \<Longrightarrow> acquire i opts hooks (y_s y) = (AcqQueued w, s')
    \<Longrightarrow> sys_step y (y\<lparr>y_s := s', y_acq := (y_acq y)(w \<mapsto> acquirer_of i w opts s')\<rparr>)"
| parks: "y_acq y w = Some a \<Longrightarrow> sys_step y (y\<lparr>y_s := acquire_parked (aq_group a) w hooks (y_s y)\<rparr>)"
| rounds: "y_acq y w = Some a \<Longrightarrow> acquire_round a (y_s y) = (r, a', s') \<Longrightarrow> (\<And>e. r \<noteq> RoundReturn e)
    \<Longrightarrow> sys_step y (y\<lparr>y_s := s', y_acq := (y_acq y)(w \<mapsto> a')\<rparr>)"
| drained: "y_acq y w = Some a \<Longrightarrow> acquire_round a (y_s y) = (RoundReturn e, a', s')
    \<Longrightarrow> sys_step y (y\<lparr>y_s := s', y_acq := (y_acq y)(w := None)\<rparr>)"
| wakes: "y_acq y w = Some a \<Longrightarrow> acquire_wake ev a (y_s y) = (WakeAgain, s') \<Longrightarrow> sys_step y (y\<lparr>y_s := s'\<rparr>)"
| gives_up: "y_acq y w = Some a \<Longrightarrow> acquire_wake ev a (y_s y) = (WakeReturn (Inl e), s')
    \<Longrightarrow> sys_step y (y\<lparr>y_s := s', y_acq := (y_acq y)(w := None)\<rparr>)"
| reads: "y_acq y w = Some a \<Longrightarrow> w_granted (s_waiter (y_s y) w) \<Longrightarrow> acquire_wake EvGrant a (y_s y) = (WakeReturn (Inr r), s')
    \<Longrightarrow> sys_step y (y\<lparr>y_s := s', y_slots := add_mset (r_group r, r_admission r) (y_slots y), y_acq := (y_acq y)(w := None)\<rparr>)"
| releases: "y_slots y = add_mset (i, a) B
    \<Longrightarrow> sys_step y (y\<lparr>y_s := snd (call_Release actual (slotRelease i a) (y_s y)), y_slots := B\<rparr>)"
| operates: "sched_op (y_s y) s' \<Longrightarrow> sys_step y (y\<lparr>y_s := s'\<rparr>)"

inductive sys_reach :: "Options \<Rightarrow> sched_sys \<Rightarrow> bool" for opts :: Options where
  reach_init: "sys_reach opts (sys_init opts)"
| reach_step: "sys_reach opts y \<Longrightarrow> sys_step y y' \<Longrightarrow> sys_reach opts y'"


section \<open>The invariant of reachable states\<close>

definition sys_inv :: "sched_sys \<Rightarrow> bool" where
  "sys_inv y \<longleftrightarrow> sys_ok (y_slots y) (waits_of (y_acq y)) (y_refs y) (y_s y)
     \<and> (\<forall>w a. y_acq y w = Some a \<longrightarrow> aq_waiter a = w)"

lemma waits_simps [simp]:
  "waits_of (m(w \<mapsto> a)) = (waits_of m)(w \<mapsto> aq_group a)" "waits_of (m(w := None)) = (waits_of m)(w := None)"
  "waits_of Map.empty = Map.empty" "m w = Some a \<Longrightarrow> waits_of m w = Some (aq_group a)"
  by (auto simp: waits_of_def)

lemma waits_same: "m w = Some a \<Longrightarrow> aq_group a' = aq_group a \<Longrightarrow> waits_of (m(w \<mapsto> a')) = waits_of m"
  by (auto simp: waits_of_def fun_eq_iff)

lemma sched_ok_New: "sched_ok (New opts)"
  by (simp add: New_def publishGates_def sched_ok_def links_ok_def fair_ok_def index_ok_def table_ok_def idle_links_def
      work_ok_def idle_exact_def synced_def zero_group_def zero_index_def)

lemma acct_New: "acct {#} Map.empty (New opts)"
  by (simp add: acct_def New_def publishGates_def slots_at_def unread_def leases_def zero_group_def)
     (simp add: gate_inv_def zero_gate_def zero_bucket_def bucket_wf_def)

lemma sched_op_sys: "sched_op s s' \<Longrightarrow> sys_ok A W R s \<Longrightarrow> sys_ok A W R s'"
proof (induction rule: sched_op.induct)
  case (op_time s now)
  have "acct A W (s\<lparr>s_now := now\<rparr>)" by (rule acct_cong [OF sys_okD(2) [OF op_time(2)]]) simp_all
  with op_time show ?case by (simp add: sys_ok_def born_def)
next
  case (op_cancel s w)
  let ?t = "s\<lparr>s_ctxDone := (s_ctxDone s)(w := True)\<rparr>"
  have "acct A W ?t" by (rule acct_cong [OF sys_okD(2) [OF op_cancel]]) simp_all
  with op_cancel show ?case by (simp add: sys_ok_def born_def)
qed (simp_all add: accounts.Trip_keeps accounts.BackoffFor_keeps accounts.WaitSend_start_keeps
    accounts.WaitSend_round_keeps accounts.WaitSend_exit_keeps accounts.EndSend_keeps accounts.FailSend_keeps
    accounts.pacer_keeps accounts.UpdateThrottle_keeps accounts.ListThrottles_keeps RestoreThrottles_sys
    accounts.gate_wakes_keeps accounts.UpdateOptions_keeps accounts.DrainQueue_keeps accounts.holds_keep accounts.setting acquire_exit_def
    accounts.log_keeps)

lemma lookup_ref:
  assumes sy: "sys_ok A W R s" and "acquire_lookup key m hooks s = Some (Inr (i, opts), s')"
  shows "sys_ok A W (insert i R) s'" "i \<in> mapped s'"
proof -
  define o1 where "o1 = (if map_of (s_groups s) key = None then makeGroupRoom s else Some s)"
  from assms(2) obtain s1 where s1: "o1 = Some s1" by (auto simp: acquire_lookup_def o1_def split: option.splits)
  have p1: "sys_ok A W R s1" using s1 sy room_sys by (auto simp: o1_def split: if_splits)
  obtain j s2 where gf: "groupFor key m True s1 = (j, s2)" by (rule prod.exhaust)
  have "i = j" "s' = attributeProvider j (wh_Provider hooks) s2"
    using assms(2) unfolding acquire_lookup_def o1_def [symmetric] s1 by (auto simp: gf Let_def split: if_splits)
  then show "sys_ok A W (insert i R) s'" "i \<in> mapped s'"
    using attribute_sys [OF groupFor_sys [OF p1 gf]] groupFor_ok(2) [OF sys_okD(1) [OF p1] gf] by simp_all
qed

lemma round_same: "acquire_round a s = (r, a', s') \<Longrightarrow> aq_group a' = aq_group a \<and> aq_waiter a' = aq_waiter a"
  by (auto simp: acquire_round_def round_free_def Let_def split: if_splits option.splits prod.splits)

lemma round_drained: "acquire_round a s = (RoundReturn e, a', s') \<Longrightarrow> s' = removeWaiter (aq_group a) (aq_waiter a) s"
  by (auto simp: acquire_round_def round_free_def round_held_def Let_def split: if_splits option.splits prod.splits)

lemma dropped_admission: "w_admission (s_waiter (dropHold_of w s) w) = w_admission (s_waiter s w)"
  by (simp add: dropHold_of_def put_attribution_def upd_waiter_def case_prod_beta dropHold_def clearHoldCount_def
      fireUnhold_def Let_def)

lemma step_inv: "sys_step y y' \<Longrightarrow> sys_inv y \<Longrightarrow> sys_inv y'"
proof (induction rule: sys_step.induct)
  case (lookup key m hooks y i opts s')
  then show ?case by (auto simp: sys_inv_def dest: lookup_ref(1))
next
  case (lookup_refused key m hooks y e s')
  then show ?case using accounts.lookup_keeps by (auto simp: sys_inv_def)
next
  case (refused i y opts hooks e s')
  then show ?case using acquire_sys [OF _ _ refused(2)] sys_okD(3) by (fastforce simp: sys_inv_def)
next
  case (granted i y opts hooks r s')
  then show ?case using acquire_sys [OF _ _ granted(2)] sys_okD(3) by (fastforce simp: sys_inv_def)
next
  case (queued i y opts hooks w s')
  then show ?case using acquire_sys [OF _ _ queued(2)] sys_okD(3) by (fastforce simp: sys_inv_def acquirer_of_def)
next
  case (parks y w a hooks)
  then show ?case by (simp add: sys_inv_def accounts.parked_keeps)
next
  case (rounds y w a r a' s')
  then show ?case using accounts.round_keeps [OF _ rounds(2,3)] round_same [OF rounds(2)]
    by (auto simp: sys_inv_def waits_same simp del: waits_simps)
next
  case (drained y w a e a' s')
  then show ?case using removeWaiter_sys round_drained [OF drained(2)] by (auto simp: sys_inv_def split: if_splits)
next
  case (wakes y w a ev s')
  then show ?case
    by (auto simp: sys_inv_def acquire_wake_def Let_def accounts.drainAdmission_keeps split: acq_event.splits)
next
  case (gives_up y w a ev e s')
  then have "s' = removeWaiter (aq_group a) w (y_s y)"
    by (auto simp: sys_inv_def acquire_wake_def Let_def split: acq_event.splits)
  then show ?case using gives_up removeWaiter_sys by (auto simp: sys_inv_def split: if_splits)
next
  case (reads y w a r s')
  have a: "aq_waiter a = w" using reads by (simp add: sys_inv_def)
  have "sys_ok (add_mset (r_group r, r_admission r) (y_slots y)) ((waits_of (y_acq y))(w := None)) (y_refs y) s'"
    using reads read_sys [of "y_slots y" "waits_of (y_acq y)" "y_refs y" "y_s y" w "aq_group a"]
    by (auto simp: sys_inv_def acquire_wake_def Let_def slotRelease_def a dropped_admission) (simp add: upd_waiter_def)
  then show ?case using reads by (auto simp: sys_inv_def split: if_splits)
next
  case (releases y i a B actual)
  then show ?case using call_Release_sys [of "slotRelease i a"] by (simp add: sys_inv_def slotRelease_def)
next
  case (operates y s')
  then show ?case by (auto simp: sys_inv_def dest: sched_op_sys)
qed

lemma reach_inv: "sys_reach opts y \<Longrightarrow> sys_inv y"
proof (induction rule: sys_reach.induct)
  case reach_init
  show ?case by (simp add: sys_inv_def sys_init_def sys_ok_def sched_ok_New acct_New)
next
  case (reach_step y y')
  from reach_step.hyps(2) reach_step.IH show ?case by (rule step_inv)
qed


section \<open>A concrete run\<close>

text \<open>One key with one slot: a caller holds the slot and a second one is queued behind it.\<close>

definition sys_opts :: Options where
  "sys_opts = \<lparr>o_MaxConcurrent = 1, o_MaxQueueSize = 0, o_MaxWait = 0, o_BaseBackoff = second, o_MaxBackoff = 60 * second,
     o_Storm = no_options\<rparr>"

definition sys_hooks :: WaiterHooks where
  "sys_hooks = \<lparr>wh_Client = ''c'', wh_Provider = ''p'', wh_Model = ''m'', wh_EstTokens = 0, wh_OnWait = False, wh_OnHold = False,
     wh_OnUnhold = False, wh_OnThrottle = False, wh_OnUnthrottle = False\<rparr>"

definition sys_s1 :: Scheduler where
  "sys_s1 = attributeProvider 0 ''p'' (snd (groupFor ''k'' 1 True (New sys_opts)))"

definition sys_s2 :: Scheduler where
  "sys_s2 = sys_s1\<lparr>s_idle := [],
     s_group := (s_group sys_s1)(0 := (s_group sys_s1 0)\<lparr>g_inFlight := 1, g_idleNode := False, g_idleListed := False\<rparr>)\<rparr>"

definition sys_s3 :: Scheduler where
  "sys_s3 = snd (acquire 0 sys_opts sys_hooks sys_s2)"

definition sys_y :: sched_sys where
  "sys_y = \<lparr>y_s = sys_s3, y_slots = {#(0, no_admission)#}, y_acq = [2 \<mapsto> acquirer_of 0 2 sys_opts sys_s3], y_refs = {0}\<rparr>"

lemmas table_evals = New_def publishGates_def sys_hooks_def groupFor_def attributeProvider_def provider_index_def linkLocked_def
  adoptPacing_def pacing_take_def idlePush_def upd_group_def upd_index_def upd_waiter_def upd_gate_def new_group_def zero_group_def
  zero_index_def Let_def

lemmas acquire_evals = acquire_def acquire_fast_def fast_path_open_def matchingHold_def admitLocked_def rampPolicy_def gate_of_def
  tryAdmit_def zero_ramp_def markGroupBusy_def idleUnlink_def slotRelease_def acquire_enqueue_def reserve_waiter_def new_waiter_def
  syncQueue_def

lemma demo_room: "makeGroupRoom (New sys_opts) = Some (New sys_opts)"
  by (subst makeGroupRoom.simps) (simp add: New_def publishGates_def maxSchedulerGroups_def)

lemma demo_lookup: "acquire_lookup ''k'' 1 sys_hooks (New sys_opts) = Some (Inr (0, sys_opts), sys_s1)"
  unfolding acquire_lookup_def demo_room by (simp add: table_evals sys_s1_def maxSchedulerGroups_def)

lemma sys_s1: "sys_s1 = (New sys_opts)\<lparr>s_next := 2, s_groups := [(''k'', 0)], s_providerGroups := [(''p'', 1)], s_idle := [0],
   s_group := (\<lambda>_. zero_group)(0 := zero_group\<lparr>g_key := ''k'', g_provider := ''p'', g_providerIdx := Some 1, g_providerNode := Some 1,
     g_idleNode := True, g_idleListed := True, g_maxConcurrent := 1, g_sendKick := Some 0, g_providerQueued := Some 1, g_providerFair := Some 1\<rparr>),
   s_index := (\<lambda>_. zero_index)(1 := zero_index\<lparr>pi_groups := [0]\<rparr>)\<rparr>"
  by (simp add: table_evals sys_s1_def fun_eq_iff numeral_eq_Suc)

lemma demo_grant: "acquire 0 sys_opts sys_hooks sys_s1 = (AcqGranted (slotRelease 0 no_admission), sys_s2)"
  by (simp add: acquire_evals table_evals sys_s1 sys_s2_def fun_eq_iff)

lemma demo_enqueue: "acquire 0 sys_opts sys_hooks sys_s2 = (AcqQueued 2, sys_s3)"
  by (simp add: acquire_evals table_evals sys_s1 sys_s2_def sys_s3_def sys_opts_def)

lemma demo_fields:
  "g_queue (s_group sys_s3 0) = [2]" "g_inFlight (s_group sys_s3 0) = 1" "s_groups sys_s3 = [(''k'', 0)]"
  "g_key (s_group sys_s3 0) = ''k''" "pi_groups (s_index sys_s3 (Suc 0)) = [0]"
  by (simp_all add: acquire_evals table_evals sys_s1 sys_s2_def sys_s3_def sys_opts_def)

lemma demo_looked_up: "sys_reach sys_opts ((sys_init sys_opts)\<lparr>y_s := sys_s1, y_refs := {0}\<rparr>)"
proof -
  have "sys_step (sys_init sys_opts) ((sys_init sys_opts)\<lparr>y_s := sys_s1, y_refs := insert 0 (y_refs (sys_init sys_opts))\<rparr>)"
    by (rule lookup [where opts = sys_opts and key = "''k''" and m = 1 and hooks = sys_hooks]) (simp add: sys_init_def demo_lookup)
  then show ?thesis using reach_step [OF reach_init] by (simp add: sys_init_def)
qed

lemma sys_y_reach: "sys_reach sys_opts sys_y"
proof -
  let ?y1 = "(sys_init sys_opts)\<lparr>y_s := sys_s1, y_refs := {0}\<rparr>"
  let ?y2 = "?y1\<lparr>y_s := sys_s2, y_slots := add_mset (0, no_admission) (y_slots ?y1)\<rparr>"
  have 2: "sys_reach sys_opts ?y2"
    using reach_step [OF demo_looked_up granted [of 0 ?y1 sys_opts sys_hooks "slotRelease 0 no_admission" sys_s2]]
    by (simp add: demo_grant slotRelease_def)
  have "sys_reach sys_opts (?y2\<lparr>y_s := sys_s3, y_acq := (y_acq ?y2)(2 \<mapsto> acquirer_of 0 2 sys_opts sys_s3)\<rparr>)"
    by (rule reach_step [OF 2 queued [where hooks = sys_hooks]]) (simp_all add: demo_enqueue)
  then show ?thesis by (simp add: sys_y_def sys_init_def)
qed


section \<open>Properties\<close>

text \<open>
  C25. In every reachable state the in-flight counter of every group is the number of its
  slots that callers hold and of its grants that nobody has read yet, and every provider gate
  counts exactly the leases that are still out and reserves exactly their tokens. Whatever
  the interleaving, nothing leaks and nothing is given back twice.
\<close>

theorem slots_and_leases_are_exact:
  assumes "sys_reach opts y"
  shows "(\<forall>i. g_inFlight (s_group (y_s y) i) = int (size {#a \<in># y_slots y. fst a = i#})
           + int (card {w. (\<exists>a. y_acq y w = Some a \<and> aq_group a = i) \<and> w \<notin> set (g_queue (s_group (y_s y) i))}))
    \<and> (\<forall>q. let L = leases q (y_slots y) (waits_of (y_acq y)) (y_s y) in
           pg_inFlight (s_gate (y_s y) q) = int (size L) \<and> pg_reserved (s_gate (y_s y) q) = sum_mset (image_mset adm_reserved L))"
proof -
  have ac: "acct (y_slots y) (waits_of (y_acq y)) (y_s y)" using reach_inv [OF assms] by (simp add: sys_inv_def sys_ok_def)
  have u: "unread (waits_of (y_acq y)) (y_s y) i
      = {w. (\<exists>a. y_acq y w = Some a \<and> aq_group a = i) \<and> w \<notin> set (g_queue (s_group (y_s y) i))}" for i
    by (auto simp: unread_def waits_of_def)
  show ?thesis using acctD(1,4) [OF ac] by (simp add: u slots_at_def gate_inv_def Let_def)
qed

theorem slots_and_leases_are_exact_witness:
  "g_inFlight (s_group sys_s3 0) = int (size {#a \<in># {#(0 :: nat, no_admission)#}. fst a = 0#})
     + int (card {w. (\<exists>a. y_acq sys_y w = Some a \<and> aq_group a = 0) \<and> w \<notin> set (g_queue (s_group sys_s3 0))})
   \<and> g_inFlight (s_group sys_s3 0) = 1"
  using slots_and_leases_are_exact [OF sys_y_reach] by (simp add: sys_y_def demo_fields)

text \<open>
  C26. In every reachable state the intrusive lists have never been corrupted (no panic), the
  fair counter of a provider is the length of its fair-waiting list, its queued counter is the
  number of its groups with a waiter, a group is marked for the fair drain only while somebody
  waits in it, no queue holds a waiter twice, and the idle order holds, once each, exactly
  the groups of the table without a slot or a waiter.
\<close>

theorem lists_and_counters_are_exact:
  assumes "sys_reach opts y" and "s = y_s y"
  shows "\<not> s_panic s
    \<and> (\<forall>x. distinct (pi_fair (s_index s x)) \<and> pi_fairCount (s_index s x) = int (length (pi_fair (s_index s x)))
          \<and> pi_queued (s_index s x) = int (length (filter (\<lambda>i. g_queue (s_group s i) \<noteq> []) (pi_groups (s_index s x)))))
    \<and> (\<forall>i. distinct (g_queue (s_group s i)) \<and> (g_gateWaiting (s_group s i) \<longrightarrow> g_queue (s_group s i) \<noteq> [])
          \<and> (i \<in> set (s_idle s) \<longleftrightarrow> i \<in> snd ` set (s_groups s) \<and> g_inFlight (s_group s i) = 0 \<and> g_queue (s_group s i) = []))
    \<and> distinct (s_idle s)"
proof -
  have ok: "sched_ok s" using reach_inv [OF assms(1)] by (simp add: sys_inv_def sys_ok_def assms(2))
  note D = sched_okD [OF ok]
  have q: "g_hasQueued (s_group s i) = (g_queue (s_group s i) \<noteq> [])" for i using D(8) [of i] by (simp add: synced_def)
  show ?thesis
    using fair_okD(1,2,6) [OF D(2)] index_okD(2) [OF D(3)] work_okD(2) [OF D(6)] D(5,7,8)
    by (simp add: queued_groups_def q idle_links_def idle_exact_def synced_def)
qed

theorem lists_and_counters_are_exact_witness:
  "\<not> s_panic sys_s3 \<and> pi_queued (s_index sys_s3 1) = 1 \<and> 0 \<notin> set (s_idle sys_s3)"
  using lists_and_counters_are_exact [OF sys_y_reach, of sys_s3] by (simp add: sys_y_def demo_fields)

text \<open>
  C27. Eviction never touches work: in every reachable state the group of every held slot and
  of every parked caller is in the table under its own key, not retired, and not on the idle
  order from which eviction picks.
\<close>

theorem work_is_never_evicted:
  assumes "sys_reach opts y" and "s = y_s y"
    and "(\<exists>a. (i, a) \<in># y_slots y) \<or> (\<exists>w a. y_acq y w = Some a \<and> aq_group a = i)"
  shows "map_of (s_groups s) (g_key (s_group s i)) = Some i \<and> \<not> g_retired (s_group s i) \<and> i \<notin> set (s_idle s)"
proof -
  have sy: "sys_ok (y_slots y) (waits_of (y_acq y)) (y_refs y) s"
    using reach_inv [OF assms(1)] by (simp add: sys_inv_def assms(2))
  note ok = sys_okD(1) [OF sy] and tb = sched_okD(4) [OF sys_okD(1) [OF sy]]
  have "i \<in> mapped s \<and> (g_inFlight (s_group s i) > 0 \<or> g_queue (s_group s i) \<noteq> [])"
    using assms(3)
  proof
    assume "\<exists>a. (i, a) \<in># y_slots y"
    then obtain a B where B: "y_slots y = add_mset (i, a) B" by (metis multi_member_split)
    show ?thesis using slot_mapped [of i a B] acct_release(2) [of i a B] sy sys_okD(2) [OF sy] by (auto simp: B)
  next
    assume "\<exists>w a. y_acq y w = Some a \<and> aq_group a = i"
    then obtain w where w: "waits_of (y_acq y) w = Some i" by (auto simp: waits_of_def)
    show ?thesis using waiter_mapped [OF sy w] acct_abandon(2) [OF sys_okD(2) [OF sy] w] by auto
  qed
  then obtain k where k: "(k, i) \<in> set (s_groups s)" and busy: "g_inFlight (s_group s i) > 0 \<or> g_queue (s_group s i) \<noteq> []"
    by auto
  have "i \<notin> set (s_idle s)" using sched_okD(7) [OF ok, of i] busy by (auto simp: idle_exact_def)
  then show ?thesis using table_okD(3) [OF tb k] map_of_is_SomeI [OF table_okD(1) [OF tb] k] by simp
qed

theorem work_is_never_evicted_witness:
  "map_of (s_groups sys_s3) ''k'' = Some 0 \<and> \<not> g_retired (s_group sys_s3 0) \<and> 0 \<notin> set (s_idle sys_s3)"
  using work_is_never_evicted [OF sys_y_reach, of sys_s3 0] by (simp add: sys_y_def demo_fields)

text \<open>
  C28. A lookup always answers: the eviction loop ends in every reachable state. A key that
  is already in the table is always accepted; a new key is refused, with \<^verbatim>\<open>ErrGroupLimit\<close>, exactly
  when the table stays full because every group left in it has a slot or a waiter, and when
  it is accepted the table is within its limit.
\<close>

theorem lookup_always_answers:
  assumes "sys_reach opts y" and "s = y_s y"
  shows "\<exists>r s'. acquire_lookup key m hooks s = Some (r, s')
     \<and> (case r of
          Inl e \<Rightarrow> e = ErrGroupLimit \<and> map_of (s_groups s) key = None \<and> s_groupCap s \<le> length (s_groups s')
             \<and> (\<forall>(k, i) \<in> set (s_groups s'). g_inFlight (s_group s' i) \<noteq> 0 \<or> g_queue (s_group s' i) \<noteq> [])
        | Inr (i, opts) \<Rightarrow> map_of (s_groups s') key = Some i
             \<and> (map_of (s_groups s) key = None \<longrightarrow> length (s_groups s') \<le> s_groupCap s))"
proof -
  have ok: "sched_ok s" using reach_inv [OF assms(1)] by (simp add: sys_inv_def sys_ok_def assms(2))
  obtain t where t: "makeGroupRoom s = Some t" "sched_ok t" "s_groupCap t = s_groupCap s"
      "set (s_groups t) \<subseteq> set (s_groups s)" "s_groupCap s \<le> length (s_groups t) \<longrightarrow> s_idle t = []"
    using makeGroupRoom_ok [OF ok] by blast
  define u where "u = (if map_of (s_groups s) key = None then t else s)"
  have u: "sched_ok u" "s_groupCap u = s_groupCap s" using ok t(2,3) by (simp_all add: u_def)
  have new: "map_of (s_groups u) key = None \<longleftrightarrow> map_of (s_groups s) key = None"
    using t(4) by (auto simp: u_def map_of_eq_None_iff)
  have room: "(if map_of (s_groups s) key = None then makeGroupRoom s else Some s) = Some u" by (simp add: u_def t(1))
  obtain i v where gf: "groupFor key m True u = (i, v)" by (rule prod.exhaust)
  note G = groupFor_ok [OF u(1) gf]
  have lk: "acquire_lookup key m hooks s = (if map_of (s_groups u) key = None \<and> length (s_groups u) \<ge> s_groupCap u
      then Some (Inl ErrGroupLimit, u)
      else Some (Inr (i, s_opts (attributeProvider i (wh_Provider hooks) v)), attributeProvider i (wh_Provider hooks) v))"
    unfolding acquire_lookup_def room by (simp add: gf Let_def)
  show ?thesis
  proof (cases "map_of (s_groups u) key = None \<and> length (s_groups u) \<ge> s_groupCap u")
    case True
    then have ut: "u = t" "s_idle t = []" using new t(5) u(2) by (auto simp: u_def)
    have "g_inFlight (s_group t j) \<noteq> 0 \<or> g_queue (s_group t j) \<noteq> []" if "(k, j) \<in> set (s_groups t)" for k j
      using sched_okD(7) [OF t(2), of j] ut(2) that by (force simp: idle_exact_def)
    then show ?thesis using True new u(2) by (auto simp: lk ut(1))
  next
    case False
    then show ?thesis using G(3,4) new u(2) by (auto simp: lk)
  qed
qed

theorem lookup_always_answers_witness:
  "\<exists>r s'. acquire_lookup ''k'' 1 sys_hooks sys_s3 = Some (r, s') \<and> (\<exists>i opts. r = Inr (i, opts) \<and> map_of (s_groups s') ''k'' = Some i)"
proof -
  have s: "sys_s3 = y_s sys_y" by (simp add: sys_y_def)
  have k: "map_of (s_groups sys_s3) ''k'' \<noteq> None" by (simp add: demo_fields)
  from lookup_always_answers [OF sys_y_reach s, of "''k''" 1 sys_hooks]
  show ?thesis
  proof (elim exE conjE)
    fix r s' assume r: "acquire_lookup ''k'' 1 sys_hooks sys_s3 = Some (r, s')"
      and c: "case r of Inl e \<Rightarrow> e = ErrGroupLimit \<and> map_of (s_groups sys_s3) ''k'' = None \<and> s_groupCap sys_s3 \<le> length (s_groups s')
             \<and> (\<forall>(k, i) \<in> set (s_groups s'). g_inFlight (s_group s' i) \<noteq> 0 \<or> g_queue (s_group s' i) \<noteq> [])
        | Inr (i, opts) \<Rightarrow> map_of (s_groups s') ''k'' = Some i
             \<and> (map_of (s_groups sys_s3) ''k'' = None \<longrightarrow> length (s_groups s') \<le> s_groupCap sys_s3)"
    show ?thesis using r c k by (cases r) auto
  qed
qed

lemma sum_slots:
  assumes "finite I" "\<And>i a. (i, a) \<in># A \<Longrightarrow> i \<in> I"
  shows "(\<Sum>i\<in>I. slots_at i A) = size A"
  using assms(2)
proof (induction A)
  case (add p A)
  obtain j b where p: "p = (j, b)" by (rule prod.exhaust)
  have "j \<in> I" using add.prems [of j b] by (simp add: p)
  have "(\<Sum>i\<in>I. slots_at i (add_mset p A)) = (\<Sum>i\<in>I. slots_at i A + of_bool (i = j))"
    by (rule sum.cong) (simp_all add: p)
  also have "\<dots> = (\<Sum>i\<in>I. slots_at i A) + 1" using \<open>j \<in> I\<close> assms(1) by (simp add: sum.distrib)
  also have "(\<Sum>i\<in>I. slots_at i A) = size A" by (rule add.IH) (use add.prems in auto)
  finally show ?case by simp
qed (simp add: slots_at_def)

lemma Stats_fold:
  "fold (\<lambda>(key, i) st. st\<lparr>st_InFlight := st_InFlight st + f i, st_Queued := st_Queued st + g i,
      st_SendWaiters := st_SendWaiters st + h i\<rparr>) xs st
   = st\<lparr>st_InFlight := st_InFlight st + sum_list (map (f \<circ> snd) xs), st_Queued := st_Queued st + sum_list (map (g \<circ> snd) xs),
       st_SendWaiters := st_SendWaiters st + sum_list (map (h \<circ> snd) xs)\<rparr>"
  by (induction xs arbitrary: st) auto

text \<open>
  The statistics add up: in every reachable state \<^verbatim>\<open>Stats\<close> reports as in flight the slots
  callers hold and the grants in transit, and as queued the callers still in a queue, so the
  two together are all slots and all parked callers.
\<close>

lemma Stats_count_callers:
  assumes "sys_reach opts y" and "s = y_s y"
  shows "st_InFlight (Stats_of s) + st_Queued (Stats_of s) = int (size (y_slots y)) + int (card (dom (y_acq y)))"
proof -
  let ?W = "waits_of (y_acq y)" and ?I = "snd ` set (s_groups s)"
  have sy: "sys_ok (y_slots y) ?W (y_refs y) s" using reach_inv [OF assms(1)] by (simp add: sys_inv_def assms(2))
  note ac = sys_okD(2) [OF sy] and ok = sys_okD(1) [OF sy]
  have d: "distinct (map snd (s_groups s))" by (rule table_okD(2) [OF sched_okD(4) [OF ok]])
  let ?q = "\<lambda>i. set (g_queue (s_group s i))"
  have L: "sum_list (map (f \<circ> snd) (s_groups s)) = (\<Sum>i\<in>?I. f i)" for f :: "nat \<Rightarrow> int"
    using sum_list_distinct_conv_sum_set [OF d, of f] by (simp add: comp_def)
  have st: "st_InFlight (Stats_of s) + st_Queued (Stats_of s)
      = (\<Sum>i\<in>?I. g_inFlight (s_group s i)) + (\<Sum>i\<in>?I. int (length (g_queue (s_group s i))))"
    unfolding Stats_of_def Stats_fold by (simp add: L)
  have part: "int (card {w. ?W w = Some i}) = int (card (unread ?W s i)) + int (length (g_queue (s_group s i)))" for i
  proof -
    have eq: "{w. ?W w = Some i} = unread ?W s i \<union> ?q i" using acctD(2) [OF ac, of _ i] by (auto simp: unread_def)
    have "card (unread ?W s i \<union> ?q i) = card (unread ?W s i) + card (?q i)"
      using acct_finite(2) [OF ac, of i] by (intro card_Un_disjoint) (auto simp: unread_def)
    then show ?thesis using work_okD(2) [OF sched_okD(6) [OF ok], of i] by (simp add: eq distinct_card)
  qed
  have dom: "dom (y_acq y) = (\<Union>i\<in>?I. {w. ?W w = Some i})"
    using waiter_mapped [OF sy] by (force simp: waits_of_def dom_def)
  have "finite {w. ?W w = Some i}" for i using acct_finite(1) [OF ac] by (rule rev_finite_subset) auto
  then have W: "card (dom (y_acq y)) = (\<Sum>i\<in>?I. card {w. ?W w = Some i})"
    unfolding dom by (intro card_UN_disjoint) auto
  have mem: "i \<in> ?I" if "(i, a) \<in># y_slots y" for i a
    using multi_member_split [OF that] slot_mapped [of i a] sy by auto
  have "(\<Sum>i\<in>?I. g_inFlight (s_group s i)) = int (size (y_slots y)) + (\<Sum>i\<in>?I. int (card (unread ?W s i)))"
    using sum_slots [where I = ?I and A = "y_slots y", OF _ mem] by (simp add: acctD(1) [OF ac] sum.distrib flip: of_nat_sum)
  then show ?thesis unfolding st W by (simp add: part sum.distrib)
qed

text \<open>
  Undisturbed, \<^verbatim>\<open>AcquireWith\<close> needs one iteration: in every reachable state the lookup followed by
  the first critical section of \<^verbatim>\<open>acquire\<close> returns, and never with \<^verbatim>\<open>errGroupRetired\<close>, the only result on
  which the code starts over; it grants, queues, or refuses with \<^verbatim>\<open>ErrGroupLimit\<close> or \<^verbatim>\<open>ErrQueueFull\<close>.
\<close>

lemma AcquireWith_needs_one_iteration:
  assumes "sys_reach opts y"
  shows "\<exists>r s'. AcquireWith_once key m hooks (y_s y) = Some (r, s')
     \<and> (\<forall>e. r = AcqErr e \<longrightarrow> e = ErrGroupLimit \<or> e = ErrQueueFull)"
proof -
  have sy: "sys_ok (y_slots y) (waits_of (y_acq y)) (y_refs y) (y_s y)" using reach_inv [OF assms] by (simp add: sys_inv_def)
  obtain t where t: "makeGroupRoom (y_s y) = Some t" using makeGroupRoom_ok [OF sys_okD(1) [OF sy]] by blast
  show ?thesis
  proof (cases "acquire_lookup key m hooks (y_s y)")
    case None
    then show ?thesis using t by (auto simp: acquire_lookup_def Let_def split: if_splits prod.splits)
  next
    case (Some p)
    obtain x s1 where p: "p = (x, s1)" by (rule prod.exhaust)
    show ?thesis
    proof (cases x)
      case (Inl e)
      then have "e = ErrGroupLimit" using Some p by (auto simp: acquire_lookup_def Let_def split: if_splits option.splits prod.splits)
      then show ?thesis using Some p Inl by (simp add: AcquireWith_once_def)
    next
      case (Inr io)
      obtain i os where io: "io = (i, os)" by (rule prod.exhaust)
      obtain r s' where r: "acquire i os hooks s1 = (r, s')" by (rule prod.exhaust)
      have sy1: "sys_ok (y_slots y) (waits_of (y_acq y)) (insert i (y_refs y)) s1" and im: "i \<in> mapped s1"
        using lookup_ref [OF sy] Some p Inr io by auto
      have "\<not> g_retired (s_group s1 i)" by (rule mapped_not_retired [OF sched_okD(4) [OF sys_okD(1) [OF sy1]] im])
      then have "\<forall>e. r = AcqErr e \<longrightarrow> e = ErrQueueFull"
        using r by (auto simp: acquire_def acquire_enqueue_def Let_def split: if_splits option.splits prod.splits)
      then show ?thesis using Some p Inr io r by (simp add: AcquireWith_once_def)
    qed
  qed
qed

end
