(* ===== verification/Pacing_Handover.thy ===== *)
theory Pacing_Handover
  imports System
begin

text \<open>
  Pacing outlives eviction (\<^verbatim>\<open>scheduler_pacing.go\<close>, \<^verbatim>\<open>scheduler_groups.go\<close>): the LRU of pacing states never
  holds a key that is in the table, so a group that is evicted and looked up again finds
  what it left behind and nothing older.
\<close>

definition pacing_ok :: "Scheduler \<Rightarrow> bool" where
  "pacing_ok s \<longleftrightarrow> pacing_wf (s_pacing s) \<and> (\<forall>(k, i) \<in> set (s_groups s). map_of (s_pacing s) k = None)"

lemma pacing_cong: "s_groups t = s_groups s \<Longrightarrow> s_pacing t = s_pacing s \<Longrightarrow> pacing_ok t = pacing_ok s"
  by (simp add: pacing_ok_def)

definition paced_ok :: "Scheduler \<Rightarrow> bool" where
  "paced_ok s \<longleftrightarrow> sched_ok s \<and> pacing_ok s"

definition paced_mid :: "nat \<Rightarrow> Scheduler \<Rightarrow> bool" where
  "paced_mid i s \<longleftrightarrow> mid_pass i s \<and> pacing_ok s"

lemma frame_pacing: "adm_frame s t \<Longrightarrow> pacing_ok t = pacing_ok s"
  by (rule pacing_cong) (simp_all add: adm_frameD)

lemma upd_pacing [simp]:
  "s_pacing (upd_group i f s) = s_pacing s" "s_pacing (upd_index x h s) = s_pacing s"
  "s_pacing (upd_gate q k s) = s_pacing s" "s_pacing (upd_waiter w l s) = s_pacing s"
  by (simp_all add: upd_group_def upd_index_def upd_gate_def upd_waiter_def)

lemma upd_pacing_ok [simp]:
  "pacing_ok (upd_group i f s) = pacing_ok s" "pacing_ok (upd_index x h s) = pacing_ok s"
  "pacing_ok (upd_gate q k s) = pacing_ok s" "pacing_ok (upd_waiter w l s) = pacing_ok s"
  "pacing_ok (grant_waiter i w a s) = pacing_ok s"
  by (simp_all add: pacing_ok_def grant_waiter_def)

interpretation paced: drain_invariant paced_ok paced_mid
proof unfold_locales
  fix s :: Scheduler and i :: nat
  assume "paced_ok s" "g_queue (s_group s i) \<noteq> []"
  then show "paced_mid i s" using drains.enter [of s i] by (simp add: paced_ok_def paced_mid_def)
next
  fix s :: Scheduler and i :: nat
  assume "paced_mid i s"
  then show "paced_ok (syncQueue i s)"
    using drains.leave [of i s] frame_pacing [of s "syncQueue i s"] by (simp add: paced_ok_def paced_mid_def frames)
next
  fix s i w lease wait gb s1
  assume ad: "admit_for i w s = (False, lease, wait, gb, s1)"
  note fr = frame_pacing [OF admitLocked_frame [OF ad]]
  show "paced_ok s1" if "paced_ok s" using that drains.refuse [OF _ ad] fr by (simp add: paced_ok_def)
  show "paced_mid i s1" if "paced_mid i s" using that drains.refuse_mid [OF _ ad] fr by (simp add: paced_mid_def)
next
  fix s i w lease wait gb s1
  assume m: "paced_mid i s" and w: "w \<in> set (g_queue (s_group s i))" and op: "group_open i s" "eligible w s"
    and ad: "admit_for i w s = (True, lease, wait, gb, s1)"
  then show "paced_mid i (grant_waiter i w lease s1)"
    using drains.take_mid [OF _ w op ad] frame_pacing [OF admitLocked_frame [OF ad]] by (simp add: paced_mid_def)
next
  fix s :: Scheduler and p d
  note fr = frame_pacing [of s "armThrottleDrain p d s"]
  show "paced_ok (armThrottleDrain p d s)" if "paced_ok s" using that drains.arms [of s p d] fr by (simp add: paced_ok_def frames)
  show "paced_mid i (armThrottleDrain p d s)" if "paced_mid i s" for i
    using that drains.arms_mid [of i s p d] fr by (simp add: paced_mid_def frames)
next
  fix s :: Scheduler and i :: nat
  assume "paced_ok s"
  then show "paced_ok (markGateWaiting i s)" "paced_ok (clearGateWaiting i s)"
    using mark_links [of s i] frame_pacing [of s "markGateWaiting i s"] frame_pacing [of s "clearGateWaiting i s"]
    by (simp_all add: paced_ok_def frames)
next
  fix s :: Scheduler and x c
  assume "paced_ok s"
  then show "paced_ok (upd_index x (\<lambda>idx. idx\<lparr>pi_cursor := c\<rparr>) s)" using drains.cursor [of s x c] by (simp add: paced_ok_def)
next
  fix s :: Scheduler and n
  assume "paced_ok s"
  then show "paced_ok (s\<lparr>s_kick := n\<rparr>)" using pacing_cong [of "s\<lparr>s_kick := n\<rparr>" s] by (simp add: paced_ok_def)
qed


section \<open>The table and the LRU\<close>

lemma pacing_keys:
  assumes "pacing_wf p" "map_of (pacing_put key st p) k \<noteq> None" shows "k = key \<or> map_of p k \<noteq> None"
proof -
  have a: "set (adel key p) \<subseteq> set p" by (auto simp: adel_def)
  then have "set (tl (adel key p)) \<subseteq> set p" by (cases "adel key p") auto
  with a have "set (akeys (pacing_put key st p)) \<subseteq> insert key (set (akeys p))"
    unfolding pacing_put_eq [OF assms(1)] by auto
  then show ?thesis using assms(2) by (auto simp: map_of_eq_None_iff)
qed

lemma detach_pacing [simp]: "s_pacing (detachProvider i s) = s_pacing s"
  by (auto simp: detachProvider_def unlinkLocked_def Let_def split: option.split)

lemma evict_pacing:
  assumes pp: "popped i s" and ok: "pacing_ok s"
  shows "pacing_ok (snd (evictIdleGroup i s))"
proof -
  note E = evict_ok(3) [OF pp] and D = evicted_ok(2,4) [OF pp]
  let ?k = "g_key (s_group s i)" and ?e = "snd (evictIdleGroup i s)"
  have wf: "pacing_wf (s_pacing s)" using ok by (simp add: pacing_ok_def)
  have p: "s_pacing ?e = s_pacing s \<or> (\<exists>st. s_pacing ?e = pacing_put ?k st (s_pacing s))"
    by (auto simp: evictIdleGroup_eq [OF pp] Let_def D)
  have "map_of (s_pacing ?e) k = None" if "(k, j) \<in> set (s_groups ?e)" for k j
  proof -
    have k: "k \<noteq> ?k" "(k, j) \<in> set (s_groups s)" using that by (auto simp: E adel_subset)
    then have none: "map_of (s_pacing s) k = None" using ok by (auto simp: pacing_ok_def)
    have "map_of (pacing_put ?k st (s_pacing s)) k = None" for st
      using pacing_keys [OF wf, of ?k st k] none k(1) by blast
    then show ?thesis using p none by auto
  qed
  moreover have "pacing_wf (s_pacing ?e)" using p wf pacing_wf_put [OF wf] by auto
  ultimately show ?thesis by (auto simp: pacing_ok_def)
qed

lemma room_paced:
  assumes "paced_ok s" "makeGroupRoom s = Some s'" shows "paced_ok s'"
proof -
  have ok: "sched_ok s" using assms(1) by (simp add: paced_ok_def)
  show ?thesis
  proof (rule makeGroupRoom_rule [where R = paced_ok, OF ok assms(2) assms(1)])
    fix s i s1 assume s: "sched_ok s" "paced_ok s" and pop: "popIdleGroup s = (Some i, s1)"
    note P = popIdleGroup_ok [OF s(1) pop]
    have "pacing_ok s1" using s(2) pacing_cong [OF P(2,4)] by (simp add: paced_ok_def)
    then show "paced_ok (snd (evictIdleGroup i s1))" using evict_pacing [OF P(1)] evict_ok(1) [OF P(1)] by (simp add: paced_ok_def)
  qed
qed

lemma idlePush_pacing [simp]: "s_pacing (idlePush i s) = s_pacing s"
  by (simp add: idlePush_def)

lemma adopt_pacing:
  "s_pacing (adoptPacing i s) = snd (pacing_take (g_key (s_group s i)) (s_pacing s))"
  by (simp add: adoptPacing_def Let_def split: prod.split option.split)

lemma take_pacing: "map_of (snd (pacing_take k p)) k' = (if k' = k then None else map_of p k')"
  by (auto simp: pacing_take_def split: option.split)

lemma create_paced:
  assumes "paced_ok s" "groupFor key m b s = (i, s')" shows "paced_ok s'"
proof -
  have ok: "sched_ok s" "pacing_wf (s_pacing s)" "\<forall>(k, i) \<in> set (s_groups s). map_of (s_pacing s) k = None"
    using assms(1) by (simp_all add: paced_ok_def pacing_ok_def)
  have "pacing_ok s'"
  proof (cases "map_of (s_groups s) key")
    case (Some j)
    then show ?thesis using assms by (auto simp: groupFor_def paced_ok_def)
  next
    case None
    have p: "s_pacing s' = snd (pacing_take key (s_pacing s))" and g: "s_groups s' = s_groups s @ [(key, s_next s)]"
      using assms(2) None by (auto simp: groupFor_def Let_def adopt_pacing new_group_def aput_new map_of_eq_None_iff)
    then show ?thesis using ok(2,3) pacing_wf_take [OF ok(2), of key] by (auto simp: pacing_ok_def take_pacing)
  qed
  then show ?thesis using groupFor_ok(1) [OF ok(1) assms(2)] by (simp add: paced_ok_def)
qed

lemma attribute_pacing [simp]: "s_pacing (attributeProvider i p s) = s_pacing s"
  by (auto simp: attributeProvider_def provider_index_def linkLocked_def Let_def split: option.split)

interpretation paced: sched_invariant paced_ok paced_mid
proof unfold_locales
  fix s f i assume "paced_ok s" "core (f (s_group s i)) = core (s_group s i)"
  then show "paced_ok (upd_group i f s)" using sched_ok_quiet [of f s i] by (simp add: paced_ok_def)
next
  fix s :: Scheduler and a b c d e k l
  let ?t = "s\<lparr>s_opts := a, s_storms := b, s_policy := c, s_holdCount := d, s_drains := e, s_holdSeq := k, s_log := l\<rparr>"
  assume "paced_ok s"
  then show "paced_ok ?t" using pacing_cong [of ?t s] by (simp add: paced_ok_def)
next
  fix s key m b j s' assume "paced_ok s" and gf: "groupFor key m b s = (j, s')"
  then show "j \<in> mapped s'" using groupFor_ok(2) [OF _ gf] by (simp add: paced_ok_def)
next
  fix s j p assume "paced_ok s" "j \<in> mapped s"
  then show "paced_ok (attributeProvider j p s)"
    using attributeProvider_ok [of s j p] pacing_cong [of "attributeProvider j p s" s] by (simp add: paced_ok_def)
next
  fix s p assume "paced_ok s"
  then show "paced_ok (snd (add_gate p s))"
    using restored_ok [of s "Suc (s_next s)"] by (simp add: paced_ok_def pacing_ok_def add_gate_def publishGates_def Let_def)
next
  fix s p q assume "paced_ok s"
  then show "paced_ok (clear_gate p q s)" by (simp add: paced_ok_def pacing_ok_def clear_gate_def publishGates_def)
next
  fix s q t assume "paced_ok s"
  then show "paced_ok (install_gate q t s)" by (simp add: paced_ok_def install_gate_def)
next
  fix s h w assume "paced_ok s"
  then show "paced_ok (upd_waiter w h s)" by (simp add: paced_ok_def)
next
  fix s q v assume "paced_ok s"
  then show "paced_ok (upd_gate q v s)" "paced_ok (upd_gate q v s)" by (simp_all add: paced_ok_def)
qed (fact room_paced create_paced)+


section \<open>Every step keeps it\<close>

lemma side_pacing [simp]:
  "s_pacing (markGroupIdle i s) = s_pacing s" "s_pacing (markGroupBusy i s) = s_pacing s"
  "s_pacing (settle_lease actual a s) = s_pacing s" "s_groups (settle_lease actual a s) = s_groups s"
  "s_pacing (put_attribution w r s) = s_pacing s" "s_groups (put_attribution w r s) = s_groups s"
  by (simp_all add: markGroupIdle_def markGroupBusy_def idleUnlink_def settle_lease_def put_attribution_def Let_def
      split: option.split prod.split)

lemma release_paced: "paced_ok s \<Longrightarrow> born s i \<Longrightarrow> paced_ok (release i s)"
proof -
  assume p: "paced_ok s" and b: "born s i"
  let ?t = "markGroupIdle i (if g_inFlight (s_group s i) > 0 then upd_group i (\<lambda>g. g\<lparr>g_inFlight := g_inFlight g - 1\<rparr>) s else s)"
  have "pacing_ok ?t = pacing_ok s" by (rule pacing_cong) simp_all
  then have "paced_ok ?t" using p b slot_freed [of s i] by (simp add: paced_ok_def)
  then show ?thesis by (simp add: release_def Let_def paced.drainAdmission_keeps)
qed

lemma removeWaiter_paced: "paced_ok s \<Longrightarrow> born s i \<Longrightarrow> paced_ok (removeWaiter i w s)"
proof -
  assume p: "paced_ok s" and b: "born s i"
  let ?t = "snd (unqueue_waiter i w s)"
  have sq: "s_groups (syncQueue i u) = s_groups u" "s_pacing (syncQueue i u) = s_pacing u" for u
    using adm_frameD(2,6) [of u "syncQueue i u"] by (simp_all add: frames)
  have "pacing_ok ?t = pacing_ok s" by (rule pacing_cong) (simp_all add: unqueue_waiter_def Let_def sq)
  then have "paced_ok ?t" using p b unqueue_waiter_ok [of s i w] by (simp add: paced_ok_def)
  then have "paced_ok (dropHold_of w ?t)" by (rule paced.attribution_keeps)
  then show ?thesis by (simp add: removeWaiter_def Let_def case_prod_beta paced.drainAdmission_keeps)
qed

lemma fast_pacing: "acquire_fast i hooks s = (r, s') \<Longrightarrow> s_groups s' = s_groups s \<and> s_pacing s' = s_pacing s"
proof -
  assume f: "acquire_fast i hooks s = (r, s')"
  obtain b a wait gb s1 where ad: "admitLocked i (wh_Provider hooks) (wh_EstTokens hooks) s = (b, a, wait, gb, s1)"
    by (metis prod_cases5)
  have arm: "s_groups (armThrottleDrain p d t) = s_groups t" "s_pacing (armThrottleDrain p d t) = s_pacing t" for p d t
    by (simp_all add: armThrottleDrain_def Let_def split: option.split)
  show ?thesis
    using f adm_frameD(2,6) [OF admitLocked_frame [OF ad]] by (auto simp: acquire_fast_def ad arm split: if_splits)
qed

lemma enqueue_pacing: "acquire_enqueue i opts hooks s = (r, s') \<Longrightarrow> s_groups s' = s_groups s \<and> s_pacing s' = s_pacing s"
proof -
  have sq: "s_groups (syncQueue i u) = s_groups u" "s_pacing (syncQueue i u) = s_pacing u" for u
    using adm_frameD(2,6) [of u "syncQueue i u"] by (simp_all add: frames)
  show "acquire_enqueue i opts hooks s = (r, s') \<Longrightarrow> s_groups s' = s_groups s \<and> s_pacing s' = s_pacing s"
    by (auto simp: acquire_enqueue_def Let_def sq split: if_splits option.splits prod.splits)
qed

lemma acquire_paced: "paced_ok s \<Longrightarrow> born s i \<Longrightarrow> acquire i opts hooks s = (r, s') \<Longrightarrow> paced_ok s'"
proof -
  assume p: "paced_ok s" and b: "born s i" and a: "acquire i opts hooks s = (r, s')"
  have "s_groups s' = s_groups s \<and> s_pacing s' = s_pacing s"
  proof (cases "g_retired (s_group s i)")
    case False
    obtain f s1 where fast: "acquire_fast i hooks s = (f, s1)" by (rule prod.exhaust)
    show ?thesis
    proof (cases f)
      case None
      then have "acquire_enqueue i opts hooks s1 = (r, s')" using a fast False by (simp add: acquire_def)
      from enqueue_pacing [OF this] fast_pacing [OF fast] show ?thesis by simp
    next
      case (Some rel)
      then show ?thesis using a fast False fast_pacing [OF fast] by (simp add: acquire_def)
    qed
  qed (use a in \<open>simp add: acquire_def\<close>)
  then show ?thesis using p acquire_ok [OF _ b a] pacing_cong [of s' s] by (simp add: paced_ok_def)
qed

lemma restore_gates_table: "s_groups (restore_gates ts s) = s_groups s \<and> s_pacing (restore_gates ts s) = s_pacing s"
  by (induction ts arbitrary: s) (simp_all add: Let_def install_gate_def)

lemma RestoreThrottles_paced:
  assumes p: "paced_ok s" and sy: "sys_ok A W R s" shows "paced_ok (RestoreThrottles ts s)"
proof -
  have f: "s_groups (fold f xs t) = s_groups t \<and> s_pacing (fold f xs t) = s_pacing t"
    if "\<And>x t. s_groups (f x t) = s_groups t \<and> s_pacing (f x t) = s_pacing t" for f and xs :: "'z list" and t
    using that by (induction xs arbitrary: t) simp_all
  have r: "s_groups (resetAllRamps t) = s_groups t \<and> s_pacing (resetAllRamps t) = s_pacing t" for t
    unfolding resetAllRamps_def resetRamps_def by (intro f) simp
  have "pacing_ok (RestoreThrottles ts s) = pacing_ok s"
    by (rule pacing_cong) (simp_all add: RestoreThrottles_def Let_def r publishGates_def restore_gates_table f split_beta)
  then show ?thesis using p sys_okD(1) [OF RestoreThrottles_sys [OF sy]] by (simp add: paced_ok_def)
qed

lemma sched_op_paced: "sched_op s s' \<Longrightarrow> sys_ok A W R s \<Longrightarrow> paced_ok s \<Longrightarrow> paced_ok s'"
proof (induction rule: sched_op.induct)
  case (op_restore_throttles s ts)
  then show ?case by (rule RestoreThrottles_paced [rotated])
qed (simp_all add: paced.Trip_keeps paced.BackoffFor_keeps paced.WaitSend_start_keeps
    paced.WaitSend_round_keeps paced.WaitSend_exit_keeps paced.EndSend_keeps paced.FailSend_keeps
    paced.pacer_keeps paced.UpdateThrottle_keeps paced.ListThrottles_keeps paced.gate_wakes_keeps paced.UpdateOptions_keeps
    paced.DrainQueue_keeps paced.holds_keep paced.setting acquire_exit_def paced.log_keeps, simp_all add: paced_ok_def pacing_ok_def)

lemma step_paced:
  "sys_step y y' \<Longrightarrow> sys_inv y \<Longrightarrow> paced_ok (y_s y) \<Longrightarrow> paced_ok (y_s y')"
proof (induction rule: sys_step.induct)
  case (drained y w a e a' s')
  have "born (y_s y) (aq_group a)"
    using waiter_mapped [of "y_slots y" "waits_of (y_acq y)" "y_refs y" "y_s y" w] drained by (simp add: sys_inv_def born_def)
  then show ?case using drained removeWaiter_paced round_drained [OF drained(2)] by simp
next
  case (wakes y w a ev s')
  then show ?case by (auto simp: acquire_wake_def Let_def paced.drainAdmission_keeps split: acq_event.splits)
next
  case (gives_up y w a ev e s')
  have "born (y_s y) (aq_group a)"
    using waiter_mapped [of "y_slots y" "waits_of (y_acq y)" "y_refs y" "y_s y" w] gives_up by (simp add: sys_inv_def born_def)
  then show ?case using gives_up removeWaiter_paced by (auto simp: acquire_wake_def Let_def split: acq_event.splits)
next
  case (reads y w a r s')
  have "s_groups s' = s_groups (y_s y) \<and> s_pacing s' = s_pacing (y_s y)"
    using reads(3) by (auto simp: acquire_wake_def Let_def dropHold_of_def)
  moreover have "sched_ok s'" using reads(3,5) by (auto simp: acquire_wake_def Let_def paced_ok_def)
  ultimately show ?case using reads(5) pacing_cong [of s' "y_s y"] by (simp add: paced_ok_def)
next
  case (releases y i a B actual)
  let ?s = "settle_lease actual a (y_s y)"
  have "i \<in> mapped (y_s y)" using slot_mapped [of i a B] releases(1,2) by (auto simp: sys_inv_def)
  then have "born ?s i" by (simp add: born_def)
  moreover have "paced_ok ?s" using releases(3) pacing_cong [of ?s "y_s y"] by (simp add: paced_ok_def)
  ultimately show ?case by (simp add: call_Release_def slotRelease_def release_paced)
qed (auto simp: sys_inv_def paced.lookup_keeps paced.parked_keeps sys_ok_def dest: acquire_paced sched_op_paced
    paced.round_keeps)

lemma reach_paced: "sys_reach opts y \<Longrightarrow> paced_ok (y_s y)"
proof (induction rule: sys_reach.induct)
  case reach_init
  show ?case by (simp add: sys_init_def paced_ok_def sched_ok_New) (simp add: pacing_ok_def New_def publishGates_def pacing_wf_def)
next
  case (reach_step y y')
  from step_paced [OF reach_step.hyps(2) reach_inv [OF reach_step.hyps(1)] reach_step.IH] show ?case .
qed


section \<open>Properties\<close>

text \<open>
  C36. Eviction is invisible to pacing: in every reachable state, evicting the least recently
  idle group and looking its key up again, at any later time, gives a new group with the same
  pacing state (window, both backoffs, trip flag), and its pacer runs to the end of the window
  exactly if the window is still closed.
\<close>

theorem evicted_pacing_comes_back:
  assumes "sys_reach opts y" and "popIdleGroup (y_s y) = (Some i, s1)" and "evictIdleGroup i s1 = (b, s2)"
    and "groupFor (g_key (s_group (y_s y) i)) m applyCap (s2\<lparr>s_now := now\<rparr>) = (j, s3)" and "zero_time \<le> now"
  shows "pacing_of (s_group s3 j) = pacing_of (s_group (y_s y) i)
    \<and> g_pacer (s_group s3 j) = (if g_nextAllowedAt (s_group (y_s y) i) > now
         then armed (g_nextAllowedAt (s_group (y_s y) i)) False zero_timer else zero_timer)"
proof -
  let ?s = "y_s y" and ?k = "g_key (s_group (y_s y) i)"
  have ok: "sched_ok ?s" "pacing_ok ?s" using reach_paced [OF assms(1)] by (simp_all add: paced_ok_def)
  note P = popIdleGroup_ok [OF ok(1) assms(2)]
  have s1: "pacing_of (s_group s1 i) = pacing_of (s_group ?s i)" "g_key (s_group s1 i) = ?k"
    using assms(2) by (auto simp: popIdleGroup_def idleUnlink_def upd_group_def pacing_of_def Let_def split: list.splits if_splits)
  have "i \<in> mapped ?s" using P(1,2) by (simp add: popped_def)
  then obtain k where "(k, i) \<in> set (s_groups ?s)" by auto
  then have none: "map_of (s_pacing ?s) ?k = None"
    using ok(2) table_okD(3) [OF sched_okD(4) [OF ok(1)]] by (fastforce simp: pacing_ok_def)
  have wf: "pacing_wf (s_pacing ?s)" using ok(2) by (simp add: pacing_ok_def)
  have s2: "s2 = snd (evictIdleGroup i s1)" using assms(3) by simp
  have gone: "map_of (s_groups s2) ?k = None" by (simp add: s2 evict_ok(3) [OF P(1)] s1(2))
  define st where "st = pacing_of (s_group ?s i)"
  define zero where "zero \<longleftrightarrow> IsZero (ps_nextAllowedAt st) \<and> ps_backoff st = 0 \<and> ps_requestBackoff st = 0 \<and> \<not> ps_tripped st"
  have p2: "s_pacing s2 = (if zero then s_pacing ?s else pacing_put ?k st (s_pacing ?s))"
    using evicted_ok(4) [OF P(1)] by (auto simp: s2 evictIdleGroup_eq [OF P(1)] Let_def s1 P(4) st_def zero_def)
  have tk: "fst (pacing_take ?k (s_pacing s2)) = (if zero then None else Some st)"
    using pacing_take_put [OF wf, of ?k st] none by (simp add: p2) (simp add: pacing_take_def)
  obtain r p where rp: "pacing_take ?k (s_pacing s2) = (r, p)" by (rule prod.exhaust)
  have r: "r = (if zero then None else Some st)" using tk by (simp add: rp)
  have eq: "s3 = idlePush j ((adoptPacing j (s2\<lparr>s_now := now, s_next := Suc j, s_group := (s_group s2)(j := new_group ?k m)\<rparr>))
      \<lparr>s_groups := aput ?k j (s_groups s2)\<rparr>)"
    using assms(4) gone by (auto simp: groupFor_def Let_def)
  have push: "pacing_of (s_group (idlePush j t) j) = pacing_of (s_group t j)" "g_pacer (s_group (idlePush j t) j) = g_pacer (s_group t j)" for t
    by (simp_all add: idlePush_def upd_group_def pacing_of_def)
  have new: "pacing_of (new_group ?k m) = \<lparr>ps_nextAllowedAt = zero_time, ps_backoff = 0, ps_requestBackoff = 0, ps_tripped = False\<rparr>"
      "g_pacer (new_group ?k m) = zero_timer" "g_key (new_group ?k m) = ?k"
    by (simp_all add: new_group_def zero_group_def pacing_of_def)
  have z: "st = \<lparr>ps_nextAllowedAt = zero_time, ps_backoff = 0, ps_requestBackoff = 0, ps_tripped = False\<rparr>" if zero
    using that by (cases st) (simp add: zero_def)
  have n: "ps_nextAllowedAt st = g_nextAllowedAt (s_group ?s i)" by (simp add: st_def pacing_of_def)
  show ?thesis
  proof (cases zero)
    case True
    have "pacing_of (s_group s3 j) = pacing_of (new_group ?k m)" "g_pacer (s_group s3 j) = zero_timer"
      by (simp_all add: eq push adoptPacing_def rp r True new)
    then show ?thesis using z [OF True] n assms(5) new(1) by (auto simp: st_def)
  next
    case False
    let ?t = "s2\<lparr>s_now := now, s_next := Suc j, s_group := (s_group s2)(j := new_group ?k m)\<rparr>"
    have "pacing_of (s_group (adoptPacing j ?t) j) = st"
      "g_pacer (s_group (adoptPacing j ?t) j) = (if ps_nextAllowedAt st > now then armed (ps_nextAllowedAt st) False zero_timer else zero_timer)"
      using False by (simp_all add: adoptPacing_def rp r new Let_def upd_group_def) (simp_all add: pacing_of_def)
    then show ?thesis by (simp add: eq push n [symmetric] st_def [symmetric])
  qed
qed

theorem evicted_pacing_comes_back_witness:
  "pacing_of (s_group (snd (groupFor ''k'' 0 False
       ((snd (evictIdleGroup 0 (snd (popIdleGroup (snd (Trip ''k'' 5 sys_s1))))))\<lparr>s_now := 3\<rparr>))) 2)
     = \<lparr>ps_nextAllowedAt = 5, ps_backoff = 0, ps_requestBackoff = 0, ps_tripped = True\<rparr>"
proof -
  let ?y = "((sys_init sys_opts)\<lparr>y_s := sys_s1, y_refs := {0}\<rparr>)\<lparr>y_s := snd (Trip ''k'' 5 sys_s1)\<rparr>"
  have r: "sys_reach sys_opts ?y"
    by (rule reach_step [OF demo_looked_up operates]) (simp add: op_trip)
  have t: "popIdleGroup (y_s ?y) = (Some 0, snd (popIdleGroup (y_s ?y)))" "g_key (s_group (y_s ?y) 0) = ''k''"
      "pacing_of (s_group (y_s ?y) 0) = \<lparr>ps_nextAllowedAt = 5, ps_backoff = 0, ps_requestBackoff = 0, ps_tripped = True\<rparr>"
    by (simp_all add: Trip_def extendWindow_def armPacingLater_def clearGateWaiting_def kickSend_def popIdleGroup_def pacing_of_def
        sys_s1 table_evals arm_def)
  have "fst (groupFor ''k'' 0 False ((snd (evictIdleGroup 0 (snd (popIdleGroup (y_s ?y)))))\<lparr>s_now := 3\<rparr>)) = 2"
    by (simp add: Trip_def extendWindow_def armPacingLater_def clearGateWaiting_def kickSend_def popIdleGroup_def pacing_of_def
        evictIdleGroup_def idleUnlink_def detachProvider_def unlinkLocked_def adel_def sys_s1 table_evals arm_def)
  then have g: "groupFor (g_key (s_group (y_s ?y) 0)) 0 False ((snd (evictIdleGroup 0 (snd (popIdleGroup (y_s ?y)))))\<lparr>s_now := 3\<rparr>)
      = (2, snd (groupFor ''k'' 0 False ((snd (evictIdleGroup 0 (snd (popIdleGroup (y_s ?y)))))\<lparr>s_now := 3\<rparr>)))"
    unfolding t(2) by (metis prod.collapse)
  from evicted_pacing_comes_back [OF r t(1) prod.collapse [symmetric] g] show ?thesis unfolding t(3) by simp
qed

end
