(* ===== verification/Wire_Format.thy ===== *)
theory Wire_Format
  imports Prelude "HOL-Library.Word"
begin

text \<open>
  The hand-written protobuf wire format of \<^verbatim>\<open>internal/format/proto.go\<close>: the encoders, their size
  functions and the one parser.

  \<^item> A byte is an \<open>8 word\<close>, a \<^verbatim>\<open>uint64\<close> a \<open>64 word\<close>, a \<^verbatim>\<open>uint32\<close> a \<open>32 word\<close> (an \<^verbatim>\<open>int32\<close> is its
    two's complement word). A field number and a wire type, Go \<^verbatim>\<open>int\<close>s that are only shifted and
    compared, are \<open>64 word\<close>s.
  \<^item> A slice or a string is its list of bytes; \<^verbatim>\<open>nil\<close> and the empty slice are both \<open>[]\<close>, which no
    operation here tells apart. The parser's result slices alias the message; nothing writes to it.
  \<^item> A length or an offset is a \<open>nat\<close>. A Go slice is shorter than \<open>2 ^ 63\<close> bytes, so that the
    source's comparison of a \<^verbatim>\<open>uint64\<close> length with the rest of the buffer is the one on naturals.
  \<^item> The field budget is passed and returned: a failed parse keeps what it has charged.
\<close>

unbundle bit_operations_syntax

section \<open>Definitions\<close>

type_synonym byte = "8 word"
type_synonym uint64 = "64 word"
type_synonym uint32 = "32 word"

definition wireVarint :: uint64 where
  "wireVarint = 0"

definition wireBytes :: uint64 where
  "wireBytes = 2"

definition protoFieldCountMax :: int where
  "protoFieldCountMax = 2 ^ 16"

datatype protoError =
    FieldCount
  | BadKey nat
  | BadVarint uint64 nat
  | BadLength uint64 nat
  | Overrun uint64 uint64
  | UnsupportedWire uint64 uint64
  | TruncatedFixed64 uint64
  | TruncatedFixed32 uint64
  | NotEmbedded

record protoFieldBudget =
  remaining :: int

definition newProtoFieldBudget :: protoFieldBudget where
  "newProtoFieldBudget = \<lparr>remaining = protoFieldCountMax\<rparr>"

definition consume :: "protoFieldBudget \<Rightarrow> protoError option \<times> protoFieldBudget" where
  "consume b = (if remaining b \<le> 0 then (Some FieldCount, b) else (None, b\<lparr>remaining := remaining b - 1\<rparr>))"

subsection \<open>Encoders\<close>

function appendVarint :: "byte list \<Rightarrow> uint64 \<Rightarrow> byte list" where
  "appendVarint dst v =
    (if 0x80 \<le> v then appendVarint (dst @ [ucast v OR 0x80]) (drop_bit 7 v) else dst @ [ucast v])"
  by pat_completeness auto

lemma unat_drop_bit_7_less [simp]: "unat (drop_bit 7 (v :: uint64)) < unat v" if "0x80 \<le> v"
proof -
  have "unat (0x80 :: uint64) \<le> unat v"
    using that by (simp only: word_le_nat_alt)
  then show ?thesis
    by (subst unat_drop_bit_eq) (simp add: drop_bit_eq_div)
qed

termination appendVarint
  by (relation "measure (\<lambda>(dst, v). unat v)") auto

declare appendVarint.simps [simp del]

definition appendTag :: "byte list \<Rightarrow> uint64 \<Rightarrow> uint64 \<Rightarrow> byte list" where
  "appendTag dst field wire = appendVarint dst (push_bit 3 field OR wire)"

definition appendString :: "byte list \<Rightarrow> uint64 \<Rightarrow> byte list \<Rightarrow> byte list" where
  "appendString dst field s =
    (if s = [] then dst
     else (let dst = appendTag dst field wireBytes;
               dst = appendVarint dst (word_of_nat (length s))
           in dst @ s))"

definition appendBytes :: "byte list \<Rightarrow> uint64 \<Rightarrow> byte list \<Rightarrow> byte list" where
  "appendBytes dst field b =
    (let dst = appendTag dst field wireBytes;
         dst = appendVarint dst (word_of_nat (length b))
     in dst @ b)"

definition appendMessage :: "byte list \<Rightarrow> uint64 \<Rightarrow> byte list \<Rightarrow> byte list" where
  "appendMessage dst field msg = appendBytes dst field msg"

definition appendBool :: "byte list \<Rightarrow> uint64 \<Rightarrow> bool \<Rightarrow> byte list" where
  "appendBool dst field b =
    (if \<not> b then dst
     else (let dst = appendTag dst field wireVarint in dst @ [1]))"

definition appendInt32 :: "byte list \<Rightarrow> uint64 \<Rightarrow> uint32 \<Rightarrow> byte list" where
  "appendInt32 dst field v =
    (if v = 0 then dst
     else (let dst = appendTag dst field wireVarint in appendVarint dst (ucast v)))"

definition appendUint32 :: "byte list \<Rightarrow> uint64 \<Rightarrow> uint32 \<Rightarrow> byte list" where
  "appendUint32 dst field v =
    (if v = 0 then dst
     else (let dst = appendTag dst field wireVarint in appendVarint dst (ucast v)))"

subsection \<open>Sizes\<close>

function varintLen_from :: "nat \<Rightarrow> uint64 \<Rightarrow> nat" where
  "varintLen_from n v = (if 0x80 \<le> v then varintLen_from (n + 1) (drop_bit 7 v) else n)"
  by pat_completeness auto

termination varintLen_from
  by (relation "measure (\<lambda>(n, v). unat v)") auto

declare varintLen_from.simps [simp del]

definition varintLen :: "uint64 \<Rightarrow> nat" where
  "varintLen v = varintLen_from 1 v"

definition tagLen :: "uint64 \<Rightarrow> uint64 \<Rightarrow> nat" where
  "tagLen field wire = varintLen (push_bit 3 field OR wire)"

definition bytesFieldLen :: "uint64 \<Rightarrow> nat \<Rightarrow> nat" where
  "bytesFieldLen field n = tagLen field wireBytes + varintLen (word_of_nat n) + n"

definition uint32FieldLen :: "uint64 \<Rightarrow> uint32 \<Rightarrow> nat" where
  "uint32FieldLen field v =
    (if v = 0 then 0 else tagLen field wireVarint + varintLen (ucast v))"

definition stringFieldLen :: "uint64 \<Rightarrow> byte list \<Rightarrow> nat" where
  "stringFieldLen field s = (if s = [] then 0 else bytesFieldLen field (length s))"

subsection \<open>The parser\<close>

record protoField =
  pf_num :: uint64
  pf_wire :: uint64
  pf_raw :: "byte list"
  pf_n :: uint64

function consumeVarint_from :: "byte list \<Rightarrow> nat \<Rightarrow> uint64 \<Rightarrow> uint64 \<times> int" where
  "consumeVarint_from b i v =
    (if i < length b \<and> i < 10 then
      (let c = b ! i in
       if c < 0x80 then
         (if i = 9 \<and> 1 < c then (0, -1)
          else (v OR push_bit (7 * i) (ucast c), int i + 1))
       else consumeVarint_from b (i + 1) (v OR push_bit (7 * i) (ucast (c AND 0x7f))))
     else (0, -1))"
  by pat_completeness auto

termination consumeVarint_from
  by (relation "measure (\<lambda>(b, i, v). length b - i)") auto

declare consumeVarint_from.simps [simp del]

definition consumeVarint :: "byte list \<Rightarrow> uint64 \<times> int" where
  "consumeVarint b = consumeVarint_from b 0 0"

text \<open>The switch on the wire type: the payload, the varint value and the offset after the field.\<close>

definition parse_payload ::
  "byte list \<Rightarrow> bool \<Rightarrow> nat \<Rightarrow> uint64 \<Rightarrow> uint64 \<Rightarrow> protoError + (byte list \<times> uint64 \<times> nat)" where
  "parse_payload msg fixedNumbers i num wire =
    (if wire = wireVarint then
       (case consumeVarint (drop i msg) of (v, m) \<Rightarrow>
         if m \<le> 0 then Inl (BadVarint num i) else Inr ([], v, i + nat m))
     else if wire = wireBytes then
       (case consumeVarint (drop i msg) of (l, m) \<Rightarrow>
         if m \<le> 0 then Inl (BadLength num i)
         else
           (let i = i + nat m in
            if length msg - i < unat l then Inl (Overrun num l)
            else Inr (take (unat l) (drop i msg), 0, i + unat l)))
     else if wire = 1 then
       (if \<not> fixedNumbers then Inl (UnsupportedWire wire num)
        else if length msg - i < 8 then Inl (TruncatedFixed64 num)
        else Inr (take 8 (drop i msg), 0, i + 8))
     else if wire = 5 then
       (if \<not> fixedNumbers then Inl (UnsupportedWire wire num)
        else if length msg - i < 4 then Inl (TruncatedFixed32 num)
        else Inr (take 4 (drop i msg), 0, i + 4))
     else Inl (UnsupportedWire wire num))"

lemma parse_payload_advances: "parse_payload msg fx i m w = Inr (r, v, j) \<Longrightarrow> i \<le> j"
  by (auto simp: parse_payload_def Let_def split: if_splits prod.splits)

function parse_from ::
  "byte list \<Rightarrow> bool \<Rightarrow> nat \<Rightarrow> protoField list \<Rightarrow> protoFieldBudget
    \<Rightarrow> (protoError + protoField list) \<times> protoFieldBudget" where
  "parse_from msg fixedNumbers i fs budget =
    (if i < length msg then
      (case consume budget of
         (Some err, budget) \<Rightarrow> (Inl err, budget)
       | (None, budget) \<Rightarrow>
         (case consumeVarint (drop i msg) of (key, m) \<Rightarrow>
           if m \<le> 0 then (Inl (BadKey i), budget)
           else
             (case parse_payload msg fixedNumbers (i + nat m) (drop_bit 3 key) (key AND 7) of
                Inl err \<Rightarrow> (Inl err, budget)
              | Inr (r, v, j) \<Rightarrow>
                  parse_from msg fixedNumbers j
                    (fs @ [\<lparr>pf_num = drop_bit 3 key, pf_wire = key AND 7, pf_raw = r, pf_n = v\<rparr>]) budget)))
     else (Inr fs, budget))"
  by pat_completeness auto

termination parse_from
  by (relation "measure (\<lambda>(msg, fx, i, fs, budget). length msg - i)")
    (auto dest!: parse_payload_advances)

declare parse_from.simps [simp del]

definition parseProtoFieldsWire ::
  "byte list \<Rightarrow> bool \<Rightarrow> protoFieldBudget \<Rightarrow> (protoError + protoField list) \<times> protoFieldBudget" where
  "parseProtoFieldsWire msg fixedNumbers budget = parse_from msg fixedNumbers 0 [] budget"

definition parseProtoFields :: "byte list \<Rightarrow> protoError + protoField list" where
  "parseProtoFields msg = fst (parseProtoFieldsWire msg False newProtoFieldBudget)"

definition parseProtoFieldsLenient :: "byte list \<Rightarrow> protoError + protoField list" where
  "parseProtoFieldsLenient msg = fst (parseProtoFieldsWire msg True newProtoFieldBudget)"

fun firstField :: "protoField list \<Rightarrow> uint64 \<Rightarrow> protoField option" where
  "firstField [] k = None"
| "firstField (f # fs) k = (if pf_num f = k then Some f else firstField fs k)"

definition subFields ::
  "protoField option \<Rightarrow> protoFieldBudget option \<Rightarrow> (protoError + protoField list) \<times> protoFieldBudget" where
  "subFields f budget =
    (let b = (case budget of None \<Rightarrow> newProtoFieldBudget | Some b \<Rightarrow> b) in
     case f of
       None \<Rightarrow> (Inl NotEmbedded, b)
     | Some f \<Rightarrow>
         if pf_wire f \<noteq> wireBytes then (Inl NotEmbedded, b)
         else parseProtoFieldsWire (pf_raw f) False b)"

section \<open>Varints\<close>

abbreviation varint :: "uint64 \<Rightarrow> byte list" where
  "varint v \<equiv> appendVarint [] v"

lemma appendVarint_append: "appendVarint (dst @ dst') v = dst @ appendVarint dst' v"
proof (induction dst' v rule: appendVarint.induct)
  case (1 dst' v)
  then show ?case
    by (subst (1 2) appendVarint.simps) simp
qed

lemma appendVarint_varint [simp]: "NO_MATCH [] dst \<Longrightarrow> appendVarint dst v = dst @ varint v"
  using appendVarint_append [of dst "[]" v] by simp

lemma varint_unfold:
  "varint v = (if 0x80 \<le> v then (ucast v OR 0x80) # varint (drop_bit 7 v) else [ucast v])"
  by (subst appendVarint.simps) simp

lemma varint_induct [case_names varint]:
  assumes "\<And>v. (0x80 \<le> v \<Longrightarrow> P (drop_bit 7 v)) \<Longrightarrow> P v"
  shows "P (v :: uint64)"
  by (induction v rule: measure_induct_rule [of unat]) (auto intro: assms)

lemma varintLen_from_add: "varintLen_from (k + m) v = k + varintLen_from m v"
proof (induction m v rule: varintLen_from.induct)
  case (1 m v)
  then show ?case
    by (subst (1 2) varintLen_from.simps) (simp add: add.assoc)
qed

lemma varintLen_unfold: "varintLen v = (if 0x80 \<le> v then Suc (varintLen (drop_bit 7 v)) else 1)"
  unfolding varintLen_def using varintLen_from_add [of 1 1 "drop_bit 7 v"]
  by (subst varintLen_from.simps) (simp add: eval_nat_numeral)

lemma length_varint [simp]: "length (varint v) = varintLen v"
proof (induction v rule: varint_induct)
  case (varint v)
  then show ?case
    by (simp add: varint_unfold [of v] varintLen_unfold [of v])
qed

lemma varintLen_pos [simp]: "0 < varintLen v" "varintLen v \<noteq> 0"
  by (simp_all add: varintLen_unfold)

lemma varint_nonempty [simp]: "varint v \<noteq> []"
  by (simp add: varint_unfold)

text \<open>One more byte of seven bits: the bits read so far and the bits still to come.\<close>

lemma seven_more_bits:
  "take_bit (7 * k) V OR push_bit (7 * k) (take_bit 7 (drop_bit (7 * k) V)) = take_bit (7 * Suc k) (V :: uint64)"
  by (rule bit_eqI) (auto simp: bit_simps)

lemma last_bits:
  "take_bit (7 * k) V OR push_bit (7 * k) (drop_bit (7 * k) V) = (V :: uint64)"
proof (rule bit_eqI)
  fix m
  show "bit (take_bit (7 * k) V OR push_bit (7 * k) (drop_bit (7 * k) V)) m \<longleftrightarrow> bit V m"
    by (cases "m < 7 * k") (auto simp: bit_simps dest: bit_imp_le_length)
qed

lemma tail_of_ten_bytes:
  assumes "v = drop_bit (7 * k) (V :: uint64)" "9 \<le> k" shows "v \<le> 1"
proof -
  have "unat v = unat V div 2 ^ (7 * k)"
    unfolding assms(1) by (subst unat_drop_bit_eq) (simp add: drop_bit_eq_div)
  also have "\<dots> \<le> unat V div 2 ^ 63"
  proof (rule div_le_mono2)
    show "(2 :: nat) ^ 63 \<le> 2 ^ (7 * k)"
      using assms(2) by (intro power_increasing) auto
  qed simp
  also have "\<dots> \<le> 1"
    using unsigned_less [of V, where 'a = nat] by simp
  finally show ?thesis
    by (simp add: word_le_nat_alt)
qed

lemma continued_byte:
  shows "\<not> (ucast (v :: uint64) OR 0x80 :: byte) < 0x80"
    and "ucast ((ucast v OR 0x80 :: byte) AND 0x7f) = take_bit 7 v"
proof -
  have "bit (ucast v OR 0x80 :: byte) 7"
    by (simp add: bit_simps)
  moreover have "\<not> bit w 7" if "w < 0x80" for w :: byte
  proof -
    have "\<not> bit (unat w) 7"
      using that by (simp add: bit_iff_odd word_less_nat_alt)
    then show ?thesis
      by (simp add: bit_simps)
  qed
  ultimately show "\<not> (ucast (v :: uint64) OR 0x80 :: byte) < 0x80"
    by blast
  have masks: "(0x7f :: byte) = mask 7" "(0x80 :: byte) = push_bit 7 1"
    by (simp_all add: mask_eq_exp_minus_1)
  show "ucast ((ucast v OR 0x80 :: byte) AND 0x7f) = take_bit 7 v"
    unfolding masks by (rule bit_eqI) (auto simp: bit_simps simp del: push_bit_of_1)
qed

lemma unat_ucast_byte: "unat (ucast (w :: byte) :: uint64) = unat w"
  using unsigned_less [of w, where 'a = nat]
  by (subst unsigned_ucast_eq) (rule take_bit_nat_eq_self, simp)

lemma final_byte:
  assumes "\<not> 0x80 \<le> (v :: uint64)"
  shows "(ucast v :: byte) < 0x80" "ucast (ucast v :: byte) = v"
    and "v \<le> 1 \<Longrightarrow> \<not> 1 < (ucast v :: byte)"
proof -
  have less: "unat v < 0x80"
    using assms by (simp add: word_le_nat_alt)
  have eq: "unat (ucast v :: byte) = unat v"
    using less by (subst unsigned_ucast_eq) (rule take_bit_nat_eq_self, simp)
  show "(ucast v :: byte) < 0x80"
    using less eq by (simp add: word_less_nat_alt)
  show "ucast (ucast v :: byte) = v"
    using eq unat_ucast_byte [of "ucast v"] by (simp only: word_unat_eq_iff)
  show "\<not> 1 < (ucast v :: byte)" if "v \<le> 1"
    using that eq by (simp add: word_less_nat_alt word_le_nat_alt)
qed

lemma consumeVarint_from_varint:
  "\<lbrakk>length pre = k; k \<le> 9; v = drop_bit (7 * k) V\<rbrakk>
    \<Longrightarrow> consumeVarint_from (pre @ varint v @ rest) k (take_bit (7 * k) V) = (V, int k + int (varintLen v))"
proof (induction v arbitrary: pre k rule: varint_induct)
  case (varint v)
  show ?case
  proof (cases "0x80 \<le> v")
    case True
    have "k < 9"
    proof (rule ccontr)
      assume "\<not> k < 9"
      then have "v \<le> 1"
        using tail_of_ten_bytes [OF varint.prems(3)] by simp
      with True show False
        by (simp add: word_le_nat_alt)
    qed
    then have "consumeVarint_from ((pre @ [ucast v OR 0x80]) @ varint (drop_bit 7 v) @ rest) (Suc k)
        (take_bit (7 * Suc k) V) = (V, int (Suc k) + int (varintLen (drop_bit 7 v)))"
      using varint True by (intro varint.IH) (simp_all add: drop_bit_drop_bit add.commute)
    moreover have "varint v = (ucast v OR 0x80) # varint (drop_bit 7 v)"
      "varintLen v = Suc (varintLen (drop_bit 7 v))"
      using True varint_unfold [of v] varintLen_unfold [of v] by simp_all
    moreover have "take_bit (7 * k) V OR push_bit (7 * k) (take_bit 7 v) = take_bit (7 * Suc k) V"
      using seven_more_bits varint.prems(3) by simp
    ultimately show ?thesis
      using varint.prems(1) \<open>k < 9\<close>
      by (subst consumeVarint_from.simps) (simp add: continued_byte Let_def nth_append)
  next
    case False
    then have "varint v = [ucast v]" "varintLen v = 1"
      using varint_unfold [of v] varintLen_unfold [of v] by simp_all
    moreover have "k = 9 \<Longrightarrow> v \<le> 1"
      using tail_of_ten_bytes [OF varint.prems(3)] by simp
    moreover have "take_bit (7 * k) V OR push_bit (7 * k) v = V"
      using last_bits varint.prems(3) by simp
    ultimately show ?thesis
      using varint.prems(1,2) final_byte [OF False]
      by (subst consumeVarint_from.simps) (auto simp: Let_def nth_append)
  qed
qed

lemma consumeVarint_varint [simp]: "consumeVarint (varint v @ rest) = (v, int (varintLen v))"
  using consumeVarint_from_varint [of "[]" 0 v v rest] by (simp add: consumeVarint_def)

lemma consumeVarint_from_bounds:
  "consumeVarint_from b i v = (w, m) \<Longrightarrow> m = -1 \<or> int i < m \<and> m \<le> int (min 10 (length b))"
proof (induction b i v rule: consumeVarint_from.induct)
  case (1 b i v)
  from 1(2) show ?case
    by (subst (asm) consumeVarint_from.simps)
      (use 1(1) in \<open>auto simp: Let_def not_less split: if_splits\<close>)
qed

lemma consumeVarint_bounds: "consumeVarint b = (w, m) \<Longrightarrow> m = -1 \<or> 0 < m \<and> m \<le> int (min 10 (length b))"
  unfolding consumeVarint_def by (drule consumeVarint_from_bounds) simp

section \<open>Fields on the wire\<close>

text \<open>The bytes of one field, and the fields the strict parser can produce.\<close>

definition field_bytes :: "protoField \<Rightarrow> byte list" where
  "field_bytes f = varint (push_bit 3 (pf_num f) OR pf_wire f) @
    (if pf_wire f = wireVarint then varint (pf_n f) else varint (word_of_nat (length (pf_raw f))) @ pf_raw f)"

definition field_ok :: "protoField \<Rightarrow> bool" where
  "field_ok f \<longleftrightarrow> pf_num f < 2 ^ 61 \<and>
    (pf_wire f = wireVarint \<and> pf_raw f = [] \<or>
     pf_wire f = wireBytes \<and> pf_n f = 0 \<and> length (pf_raw f) < 2 ^ 64)"

lemma field_key:
  assumes "k < 2 ^ 61" "w \<in> {wireVarint, wireBytes}"
  shows "drop_bit 3 (push_bit 3 k OR w) = k" "(push_bit 3 k OR w) AND 7 = w"
proof -
  have k: "\<not> bit k m" if "61 \<le> m" for m
  proof -
    have "unat k < 2 ^ m"
      using assms(1) that power_increasing [of 61 m "2 :: nat"] by (simp add: word_less_nat_alt)
    then have "\<not> bit (unat k) m"
      by (simp add: bit_iff_odd)
    then show ?thesis
      by (simp add: bit_simps)
  qed
  have w: "take_bit 3 w = w" "drop_bit 3 w = 0"
    using assms(2) by (auto simp: wireVarint_def wireBytes_def)
  have "drop_bit 3 (push_bit 3 k) = k"
  proof (rule bit_eqI)
    show "bit (drop_bit 3 (push_bit 3 k)) m \<longleftrightarrow> bit k m" for m
      using k [of m] by (cases "m < 61") (simp_all add: bit_simps)
  qed
  then show "drop_bit 3 (push_bit 3 k OR w) = k"
    using w by simp
  have "take_bit 3 (push_bit 3 k OR w) = w"
    using w by (simp add: take_bit_push_bit)
  then show "(push_bit 3 k OR w) AND 7 = w"
    by (simp add: take_bit_eq_mask mask_eq_exp_minus_1)
qed

lemma drop_length_append [simp]: "drop (length xs + k) (xs @ ys) = drop k ys"
  by simp

lemma unat_word_of_nat: "k < 2 ^ 64 \<Longrightarrow> unat (word_of_nat k :: uint64) = k"
  by (simp add: unsigned_of_nat take_bit_nat_eq_self)

lemma parse_payload_field:
  assumes "field_ok f" "k = varintLen (push_bit 3 (pf_num f) OR pf_wire f)"
  shows "parse_payload (pre @ field_bytes f @ rest) fx (length pre + k) (pf_num f) (pf_wire f)
    = Inr (pf_raw f, pf_n f, length pre + length (field_bytes f))"
  using assms
  by (auto simp: parse_payload_def field_bytes_def field_ok_def wireVarint_def wireBytes_def Let_def
      unat_word_of_nat)

lemma field_eta: "\<lparr>pf_num = pf_num f, pf_wire = pf_wire f, pf_raw = pf_raw f, pf_n = pf_n f\<rparr> = f"
  by simp

lemma parse_from_field:
  assumes "field_ok f" "0 < remaining b"
  shows "parse_from (pre @ field_bytes f @ rest) fx (length pre) fs b =
    parse_from (pre @ field_bytes f @ rest) fx (length pre + length (field_bytes f)) (fs @ [f])
      (b\<lparr>remaining := remaining b - 1\<rparr>)"
proof -
  have w: "pf_num f < 2 ^ 61" "pf_wire f \<in> {wireVarint, wireBytes}"
    using assms(1) by (auto simp: field_ok_def)
  obtain key where "consumeVarint (field_bytes f @ rest) = (key, int (varintLen key))"
    "key = push_bit 3 (pf_num f) OR pf_wire f"
    by (simp add: field_bytes_def)
  moreover from this have "drop_bit 3 key = pf_num f" "key AND 7 = pf_wire f"
    using field_key [OF w] by simp_all
  moreover have "0 < length (field_bytes f)" "varintLen key \<noteq> 0"
    by (simp_all add: field_bytes_def)
  ultimately show ?thesis
    using assms(2) parse_payload_field [OF assms(1), of "varintLen key" pre rest fx]
    by (subst parse_from.simps) (simp add: consume_def field_eta)
qed

lemma parse_from_fields:
  assumes "\<forall>f \<in> set gs. field_ok f" "0 \<le> remaining b"
  shows "parse_from (pre @ concat (map field_bytes gs)) fx (length pre) fs b =
    (if int (length gs) \<le> remaining b
     then (Inr (fs @ gs), b\<lparr>remaining := remaining b - int (length gs)\<rparr>)
     else (Inl FieldCount, b\<lparr>remaining := 0\<rparr>))"
  using assms
proof (induction gs arbitrary: pre fs b)
  case Nil
  then show ?case
    by (subst parse_from.simps) simp
next
  case (Cons f gs)
  show ?case
  proof (cases "0 < remaining b")
    case True
    then show ?thesis
      using Cons.prems Cons.IH [of "b\<lparr>remaining := remaining b - 1\<rparr>" "pre @ field_bytes f" "fs @ [f]"]
      by (simp add: parse_from_field)
  next
    case False
    moreover have "0 < length (field_bytes f)"
      by (simp add: field_bytes_def)
    ultimately show ?thesis
      using Cons.prems by (subst parse_from.simps) (simp add: consume_def)
  qed
qed

lemma parse_fields:
  assumes "\<forall>f \<in> set gs. field_ok f" "0 \<le> remaining b"
  shows "parseProtoFieldsWire (concat (map field_bytes gs)) fx b =
    (if int (length gs) \<le> remaining b
     then (Inr gs, b\<lparr>remaining := remaining b - int (length gs)\<rparr>)
     else (Inl FieldCount, b\<lparr>remaining := 0\<rparr>))"
  using parse_from_fields [OF assms, of "[]" fx "[]"] by (simp add: parseProtoFieldsWire_def)

section \<open>Messages as sequences of writes\<close>

text \<open>
  A message is built by a sequence of appends. \<open>put_fields\<close> is what one append puts on the wire:
  nothing for a zero value that proto3 omits, one field otherwise.
\<close>

datatype put =
    PutString uint64 "byte list"
  | PutBytes uint64 "byte list"
  | PutMessage uint64 "byte list"
  | PutBool uint64 bool
  | PutInt32 uint64 uint32
  | PutUint32 uint64 uint32

fun write_put :: "byte list \<Rightarrow> put \<Rightarrow> byte list" where
  "write_put dst (PutString k s) = appendString dst k s"
| "write_put dst (PutBytes k b) = appendBytes dst k b"
| "write_put dst (PutMessage k b) = appendMessage dst k b"
| "write_put dst (PutBool k b) = appendBool dst k b"
| "write_put dst (PutInt32 k v) = appendInt32 dst k v"
| "write_put dst (PutUint32 k v) = appendUint32 dst k v"

definition bytes_field :: "uint64 \<Rightarrow> byte list \<Rightarrow> protoField" where
  "bytes_field k b = \<lparr>pf_num = k, pf_wire = wireBytes, pf_raw = b, pf_n = 0\<rparr>"

definition varint_field :: "uint64 \<Rightarrow> uint64 \<Rightarrow> protoField" where
  "varint_field k v = \<lparr>pf_num = k, pf_wire = wireVarint, pf_raw = [], pf_n = v\<rparr>"

fun put_fields :: "put \<Rightarrow> protoField list" where
  "put_fields (PutString k s) = (if s = [] then [] else [bytes_field k s])"
| "put_fields (PutBytes k b) = [bytes_field k b]"
| "put_fields (PutMessage k b) = [bytes_field k b]"
| "put_fields (PutBool k b) = (if b then [varint_field k 1] else [])"
| "put_fields (PutInt32 k v) = (if v = 0 then [] else [varint_field k (ucast v)])"
| "put_fields (PutUint32 k v) = (if v = 0 then [] else [varint_field k (ucast v)])"

fun put_ok :: "put \<Rightarrow> bool" where
  "put_ok (PutString k s) \<longleftrightarrow> k < 2 ^ 61 \<and> length s < 2 ^ 63"
| "put_ok (PutBytes k b) \<longleftrightarrow> k < 2 ^ 61 \<and> length b < 2 ^ 63"
| "put_ok (PutMessage k b) \<longleftrightarrow> k < 2 ^ 61 \<and> length b < 2 ^ 63"
| "put_ok (PutBool k b) \<longleftrightarrow> k < 2 ^ 61"
| "put_ok (PutInt32 k v) \<longleftrightarrow> k < 2 ^ 61"
| "put_ok (PutUint32 k v) \<longleftrightarrow> k < 2 ^ 61"

fun put_size :: "put \<Rightarrow> nat" where
  "put_size (PutString k s) = stringFieldLen k s"
| "put_size (PutBytes k b) = bytesFieldLen k (length b)"
| "put_size (PutMessage k b) = bytesFieldLen k (length b)"
| "put_size (PutBool k b) = uint32FieldLen k (if b then 1 else 0)"
| "put_size (PutInt32 k v) = uint32FieldLen k v"
| "put_size (PutUint32 k v) = uint32FieldLen k v"

lemma varint_1: "varint 1 = [1]"
  by (simp add: varint_unfold word_le_nat_alt)

lemmas encoder_defs =
  appendTag_def appendString_def appendBytes_def appendMessage_def appendBool_def appendInt32_def
  appendUint32_def Let_def

lemma write_put_bytes: "write_put dst p = dst @ concat (map field_bytes (put_fields p))"
  by (cases p) (simp_all add: encoder_defs field_bytes_def bytes_field_def varint_field_def varint_1
      wireVarint_def wireBytes_def)

lemma write_puts_bytes:
  "foldl write_put dst ps = dst @ concat (map field_bytes (concat (map put_fields ps)))"
  by (induction ps arbitrary: dst) (simp_all add: write_put_bytes)

lemma put_fields_ok: "put_ok p \<Longrightarrow> f \<in> set (put_fields p) \<Longrightarrow> field_ok f"
  by (cases p) (auto simp: field_ok_def bytes_field_def varint_field_def split: if_splits)

lemma put_size_bytes: "length (write_put dst p) = length dst + put_size p"
  by (cases p) (simp_all add: encoder_defs stringFieldLen_def bytesFieldLen_def uint32FieldLen_def
      tagLen_def varintLen_unfold [of 1] word_le_nat_alt)

lemma write_puts_size: "length (foldl write_put dst ps) = length dst + sum_list (map put_size ps)"
  by (induction ps arbitrary: dst) (simp_all add: put_size_bytes)

text \<open>
  C38. Writing and parsing a protobuf message. For every sequence of appends, with field numbers below
  \<open>2 ^ 61\<close> and data no longer than a slice can be, the strict and the lenient parser return exactly the
  fields written, in order, values and payloads included, and nothing for the zero values the encoders
  omit; a message of more than \<open>2 ^ 16\<close> fields is refused with the field-count error and no other.
  The size functions give the exact number of bytes.
\<close>

theorem message_round_trip:
  assumes "\<forall>p \<in> set ps. put_ok p"
  shows "let msg = foldl write_put [] ps; written = concat (map put_fields ps);
             answer = (if length written \<le> 2 ^ 16 then Inr written else Inl FieldCount)
         in parseProtoFields msg = answer \<and> parseProtoFieldsLenient msg = answer \<and>
            length msg = sum_list (map put_size ps)"
proof -
  have "\<forall>f \<in> set (concat (map put_fields ps)). field_ok f"
    using assms put_fields_ok by auto
  note parse_fields [OF this, of newProtoFieldBudget]
  then show ?thesis
    using write_puts_bytes [of "[]" ps] write_puts_size [of "[]" ps]
    by (simp add: parseProtoFields_def parseProtoFieldsLenient_def newProtoFieldBudget_def
        protoFieldCountMax_def Let_def del: map_concat)
qed

definition demo_puts :: "put list" where
  "demo_puts = [PutUint32 1 300, PutString 15 [97, 98], PutBool 2 False, PutMessage 11 [], PutInt32 3 (-1)]"

theorem message_round_trip_witness:
  "parseProtoFields (foldl write_put [] demo_puts) =
     Inr [varint_field 1 300, bytes_field 15 [97, 98], bytes_field 11 [], varint_field 3 4294967295] \<and>
   length (foldl write_put [] demo_puts) = sum_list (map put_size demo_puts)"
proof -
  have "(ucast (-1 :: uint32) :: uint64) = 4294967295"
    by code_simp
  then show ?thesis
    using message_round_trip [of demo_puts] by (simp add: demo_puts_def Let_def)
qed

end
