(* ===== verification/Wire_Value.thy ===== *)
theory Wire_Value
  imports Wire_Format
begin

text \<open>
  The \<^verbatim>\<open>google.protobuf.Value\<close> decoder of \<^verbatim>\<open>internal/format/proto.go\<close>: map entries, and the mutually
  recursive decoding of values, structs and lists under one field budget and one depth limit.

  A decoded Go value is a \<open>goValue\<close>. A float is its 64 bits. A \<^verbatim>\<open>map[string]any\<close> is the association
  list of its assignments, which replaces the value of a key that is already there.
\<close>

section \<open>What a parse returns\<close>

text \<open>Every field of a result is a slice of the message, and the key before it takes a byte.\<close>

definition fields_size :: "protoField list \<Rightarrow> nat" where
  "fields_size fs = (\<Sum>f\<leftarrow>fs. length (pf_raw f) + 1)"

lemma fields_size_simps [simp]:
  "fields_size [] = 0" "fields_size (f # fs) = length (pf_raw f) + 1 + fields_size fs"
  "fields_size (fs @ gs) = fields_size fs + fields_size gs"
  by (simp_all add: fields_size_def)

definition parsed_ok :: "bool \<Rightarrow> protoField \<Rightarrow> bool" where
  "parsed_ok fixedNumbers f \<longleftrightarrow>
    (pf_wire f = wireVarint \<and> pf_raw f = [] \<or> pf_wire f = wireBytes \<and> pf_n f = 0 \<or>
     fixedNumbers \<and> pf_n f = 0 \<and>
       (pf_wire f = 1 \<and> length (pf_raw f) = 8 \<or> pf_wire f = 5 \<and> length (pf_raw f) = 4))"

lemma parse_payload_ok:
  assumes "parse_payload msg fx i k w = Inr (r, v, j)" "i \<le> length msg"
  shows "i + length r \<le> j" "j \<le> length msg"
    and "parsed_ok fx \<lparr>pf_num = k', pf_wire = w, pf_raw = r, pf_n = v\<rparr>"
  using assms
  by (auto simp: parse_payload_def parsed_ok_def wireVarint_def wireBytes_def Let_def
      split: if_splits prod.splits dest!: consumeVarint_bounds)

lemma parse_from_step:
  assumes "parse_from msg fx i fs b = (Inr gs, b')" "i < length msg"
  obtains m f j where "0 < m" "i + m \<le> length msg" "0 < remaining b"
    "parse_payload msg fx (i + m) (pf_num f) (pf_wire f) = Inr (pf_raw f, pf_n f, j)"
    "parse_from msg fx j (fs @ [f]) (b\<lparr>remaining := remaining b - 1\<rparr>) = (Inr gs, b')"
proof -
  obtain key m where key: "consumeVarint (drop i msg) = (key, m)"
    by fastforce
  from assms key obtain r v j where *: "0 < m" "0 < remaining b"
    "parse_payload msg fx (i + nat m) (drop_bit 3 key) (key AND 7) = Inr (r, v, j)"
    "parse_from msg fx j (fs @ [\<lparr>pf_num = drop_bit 3 key, pf_wire = key AND 7, pf_raw = r, pf_n = v\<rparr>])
      (b\<lparr>remaining := remaining b - 1\<rparr>) = (Inr gs, b')"
    by (subst (asm) parse_from.simps) (auto simp: consume_def split: if_splits sum.splits)
  moreover have "i + nat m \<le> length msg"
    using consumeVarint_bounds [OF key] assms(2) by auto
  ultimately show thesis
    using that [of "nat m" "\<lparr>pf_num = drop_bit 3 key, pf_wire = key AND 7, pf_raw = r, pf_n = v\<rparr>" j]
    by simp
qed

lemma parse_from_ok:
  assumes "parse_from msg fx i fs b = (Inr gs, b')" "i \<le> length msg"
  shows "\<exists>hs. gs = fs @ hs \<and> i + fields_size hs \<le> length msg \<and> (\<forall>f \<in> set hs. parsed_ok fx f)
    \<and> remaining b' = remaining b - int (length hs)"
  using assms
proof (induction "length msg - i" arbitrary: i fs b rule: less_induct)
  case less
  show ?case
  proof (cases "i < length msg")
    case False
    with less.prems show ?thesis
      by (subst (asm) parse_from.simps) auto
  next
    case True
    from less.prems(1) this obtain m f j where step: "0 < m" "i + m \<le> length msg"
      "parse_payload msg fx (i + m) (pf_num f) (pf_wire f) = Inr (pf_raw f, pf_n f, j)"
      "parse_from msg fx j (fs @ [f]) (b\<lparr>remaining := remaining b - 1\<rparr>) = (Inr gs, b')"
      by (rule parse_from_step)
    note payload = parse_payload_ok(1,2) [OF step(3,2)]
      parse_payload_ok(3) [OF step(3,2), where k' = "pf_num f"]
    have "length msg - j < length msg - i"
      using step payload(1,2) True by linarith
    from less.hyps [OF this step(4) payload(2)] obtain hs where "gs = fs @ [f] @ hs" "j + fields_size hs \<le> length msg"
      "\<forall>f \<in> set hs. parsed_ok fx f" "remaining b' = remaining b - 1 - int (length hs)"
      by auto
    with step payload show ?thesis
      by (intro exI [of _ "f # hs"]) (simp add: field_eta)
  qed
qed

lemma parse_ok:
  assumes "parseProtoFieldsWire msg fx b = (Inr fs, b')"
  shows "fields_size fs \<le> length msg" "\<forall>f \<in> set fs. parsed_ok fx f"
    and "remaining b' = remaining b - int (length fs)"
  using parse_from_ok [of msg fx 0 "[]" b fs b'] assms by (auto simp: parseProtoFieldsWire_def)

text \<open>A parse that fails keeps its charges, and the budget never goes below zero.\<close>

lemma parse_from_budget:
  "remaining (snd (parse_from msg fx i fs b)) \<le> remaining b \<and>
   (0 \<le> remaining b \<longrightarrow> 0 \<le> remaining (snd (parse_from msg fx i fs b)))"
proof (induction "length msg - i" arbitrary: i fs b rule: less_induct)
  case less
  obtain key m where key: "consumeVarint (drop i msg) = (key, m)"
    by fastforce
  show ?case
  proof (cases "i < length msg \<and> 0 < remaining b \<and> 0 < m")
    case False
    with key show ?thesis
      by (subst (1 2) parse_from.simps) (auto simp: consume_def)
  next
    case True
    show ?thesis
    proof (cases "parse_payload msg fx (i + nat m) (drop_bit 3 key) (key AND 7)")
      case (Inl e)
      with True key show ?thesis
        by (subst (1 2) parse_from.simps) (auto simp: consume_def)
    next
      case (Inr q)
      obtain r v j where q: "q = (r, v, j)"
        by (cases q)
      let ?f = "\<lparr>pf_num = drop_bit 3 key, pf_wire = key AND 7, pf_raw = r, pf_n = v\<rparr>"
      have "parse_from msg fx i fs b = parse_from msg fx j (fs @ [?f]) (b\<lparr>remaining := remaining b - 1\<rparr>)"
        using True key Inr q by (subst parse_from.simps) (simp add: consume_def)
      moreover have "i < j"
        using parse_payload_advances [OF Inr [unfolded q]] True by linarith
      ultimately show ?thesis
        using less [of j "fs @ [?f]" "b\<lparr>remaining := remaining b - 1\<rparr>"] True
        by (auto simp: diff_less_mono2)
    qed
  qed
qed

definition spent :: "protoFieldBudget \<Rightarrow> protoFieldBudget \<Rightarrow> bool" where
  "spent b b' \<longleftrightarrow> remaining b' \<le> remaining b \<and> (0 \<le> remaining b \<longrightarrow> 0 \<le> remaining b')"

lemma spent_refl [simp]: "spent b b"
  and spent_trans: "spent b b' \<Longrightarrow> spent b' b'' \<Longrightarrow> spent b b''"
  by (auto simp: spent_def)

lemma parse_spent: "parseProtoFieldsWire msg fx b = (r, b') \<Longrightarrow> spent b b'"
  using parse_from_budget [of msg fx 0 "[]" b] by (auto simp: parseProtoFieldsWire_def spent_def)

section \<open>Definitions\<close>

definition protoValueMaxDepth :: nat where
  "protoValueMaxDepth = 128"

datatype goValue =
    VNil
  | VString "byte list"
  | VBool bool
  | VNumber uint64
  | VRaw "byte list"
  | VStruct "(byte list \<times> goValue) list"
  | VList "goValue list"

fun entry_loop :: "protoField list \<Rightarrow> byte list \<Rightarrow> byte list \<Rightarrow> byte list \<times> byte list" where
  "entry_loop [] key val = (key, val)"
| "entry_loop (f # fs) key val =
    (if pf_num f = 1 then entry_loop fs (pf_raw f) val
     else if pf_num f = 2 then entry_loop fs key (pf_raw f)
     else entry_loop fs key val)"

text \<open>The key, the value bytes and \<^verbatim>\<open>ok\<close>, or the error.\<close>

definition decodeMapEntry ::
  "byte list \<Rightarrow> protoFieldBudget \<Rightarrow> (protoError + (byte list \<times> byte list \<times> bool)) \<times> protoFieldBudget" where
  "decodeMapEntry entry budget =
    (case parseProtoFieldsWire entry False budget of
       (Inl err, budget) \<Rightarrow> (Inl err, budget)
     | (Inr fs, budget) \<Rightarrow>
         (case entry_loop fs [] [] of (key, val) \<Rightarrow> (Inr (key, val, key \<noteq> []), budget)))"

text \<open>The eight little-endian bytes of a fixed64.\<close>

definition fixed64_bits :: "byte list \<Rightarrow> uint64" where
  "fixed64_bits r =
    ucast (r ! 0) OR push_bit 8 (ucast (r ! 1)) OR push_bit 16 (ucast (r ! 2)) OR push_bit 24 (ucast (r ! 3)) OR
    push_bit 32 (ucast (r ! 4)) OR push_bit 40 (ucast (r ! 5)) OR push_bit 48 (ucast (r ! 6)) OR
    push_bit 56 (ucast (r ! 7))"

lemma entry_loop_size:
  "length (snd (entry_loop fs key val)) \<le> max (length val) (fields_size fs)"
proof (induction fs arbitrary: key val)
  case (Cons f fs)
  show ?case
    using Cons [of "pf_raw f" val] Cons [of key "pf_raw f"] Cons [of key val] by auto
qed simp

lemma decodeMapEntry_size:
  assumes "decodeMapEntry e b = (Inr (key, val, c), b')" shows "length val \<le> length e"
proof -
  obtain fs where "parseProtoFieldsWire e False b = (Inr fs, b')" "entry_loop fs [] [] = (key, val)"
    using assms by (auto simp: decodeMapEntry_def split: prod.splits sum.splits)
  then show ?thesis
    using parse_ok(1) [of e False b fs b'] entry_loop_size [of fs "[]" "[]"] by simp
qed

function decodeProtoValue ::
    "byte list \<Rightarrow> nat \<Rightarrow> protoFieldBudget \<Rightarrow> goValue option \<times> protoFieldBudget"
  and value_loop ::
    "byte list \<Rightarrow> nat \<Rightarrow> protoField list \<Rightarrow> protoFieldBudget \<Rightarrow> goValue option \<times> protoFieldBudget"
  and decodeProtoStruct ::
    "byte list \<Rightarrow> nat \<Rightarrow> protoFieldBudget \<Rightarrow> (byte list \<times> goValue) list option \<times> protoFieldBudget"
  and struct_loop ::
    "nat \<Rightarrow> protoField list \<Rightarrow> (byte list \<times> goValue) list \<Rightarrow> protoFieldBudget
      \<Rightarrow> (byte list \<times> goValue) list option \<times> protoFieldBudget"
  and decodeProtoList ::
    "byte list \<Rightarrow> nat \<Rightarrow> protoFieldBudget \<Rightarrow> goValue list option \<times> protoFieldBudget"
  and list_loop ::
    "nat \<Rightarrow> protoField list \<Rightarrow> goValue list \<Rightarrow> protoFieldBudget \<Rightarrow> goValue list option \<times> protoFieldBudget"
where
  "decodeProtoValue b depth budget =
    (if protoValueMaxDepth < depth then (None, budget)
     else if b = [] then (Some VNil, budget)
     else
       (case parseProtoFieldsWire b True budget of
          (Inl err, budget) \<Rightarrow>
            if err = FieldCount then (None, budget) else (Some (VString b), budget)
        | (Inr fs, budget) \<Rightarrow> value_loop b depth fs budget))"
| "value_loop b depth [] budget = (Some (VString b), budget)"
| "value_loop b depth (f # fs) budget =
    (if pf_num f = 3 then (Some (VString (pf_raw f)), budget)
     else if pf_num f = 4 then (Some (VBool (pf_n f \<noteq> 0)), budget)
     else if pf_num f = 2 then
       (if length (pf_raw f) = 8 then (Some (VNumber (fixed64_bits (pf_raw f))), budget)
        else (Some (VRaw (pf_raw f)), budget))
     else if pf_num f = 5 then
       (case decodeProtoStruct (pf_raw f) (depth + 1) budget of (m, budget) \<Rightarrow> (map_option VStruct m, budget))
     else if pf_num f = 6 then
       (case decodeProtoList (pf_raw f) (depth + 1) budget of (l, budget) \<Rightarrow> (map_option VList l, budget))
     else if pf_num f = 1 then (Some VNil, budget)
     else value_loop b depth fs budget)"
| "decodeProtoStruct b depth budget =
    (case parseProtoFieldsWire b False budget of
       (Inl err, budget) \<Rightarrow> (None, budget)
     | (Inr fs, budget) \<Rightarrow> struct_loop depth fs [] budget)"
| "struct_loop depth [] out budget = (Some out, budget)"
| "struct_loop depth (f # fs) out budget =
    (if pf_num f \<noteq> 1 then struct_loop depth fs out budget
     else
       (case decodeMapEntry (pf_raw f) budget of
          (Inl err, budget) \<Rightarrow>
            if err = FieldCount then (None, budget) else struct_loop depth fs out budget
        | (Inr (k, vb, ok), budget) \<Rightarrow>
            if \<not> ok then struct_loop depth fs out budget
            else
              (case decodeProtoValue vb depth budget of
                 (None, budget) \<Rightarrow> (None, budget)
               | (Some v, budget) \<Rightarrow> struct_loop depth fs (aput k v out) budget)))"
| "decodeProtoList b depth budget =
    (case parseProtoFieldsWire b False budget of
       (Inl err, budget) \<Rightarrow> (None, budget)
     | (Inr fs, budget) \<Rightarrow> list_loop depth fs [] budget)"
| "list_loop depth [] out budget = (Some out, budget)"
| "list_loop depth (f # fs) out budget =
    (if pf_num f \<noteq> 1 then list_loop depth fs out budget
     else
       (case decodeProtoValue (pf_raw f) depth budget of
          (None, budget) \<Rightarrow> (None, budget)
        | (Some v, budget) \<Rightarrow> list_loop depth fs (out @ [v]) budget))"
  by pat_completeness auto

fun decode_size where
  "decode_size (Inl (Inl (b, d, bu))) = 2 * length b + 1"
| "decode_size (Inl (Inr (Inl (b, d, fs, bu)))) = 2 * fields_size fs"
| "decode_size (Inl (Inr (Inr (b, d, bu)))) = 2 * length b + 1"
| "decode_size (Inr (Inl (d, fs, out, bu))) = 2 * fields_size fs"
| "decode_size (Inr (Inr (Inl (b, d, bu)))) = 2 * length b + 1"
| "decode_size (Inr (Inr (Inr (d, fs, out, bu)))) = 2 * fields_size fs"

termination decodeProtoValue
  by (relation "measure decode_size")
    (auto dest!: parse_ok(1) [OF sym] decodeMapEntry_size [OF sym])

declare decodeProtoValue.simps [simp del] decodeProtoStruct.simps [simp del] decodeProtoList.simps [simp del]

definition decodeStringValueMapEntry ::
  "byte list \<Rightarrow> protoFieldBudget \<Rightarrow> (byte list \<times> goValue) option \<times> protoFieldBudget" where
  "decodeStringValueMapEntry entry budget =
    (case decodeMapEntry entry budget of
       (Inl err, budget) \<Rightarrow> (None, budget)
     | (Inr (key, vb, ok), budget) \<Rightarrow>
         if \<not> ok then (None, budget)
         else
           (case decodeProtoValue vb 0 budget of
              (None, budget) \<Rightarrow> (None, budget)
            | (Some v, budget) \<Rightarrow> (Some (key, v), budget)))"

section \<open>The frame budget\<close>

lemma decodeMapEntry_spent: "decodeMapEntry e b = (r, b') \<Longrightarrow> spent b b'"
  by (auto simp: decodeMapEntry_def split: prod.splits sum.splits dest!: parse_spent)

lemma decode_spent:
  shows "decodeProtoValue b d bu = (r1, bu') \<Longrightarrow> spent bu bu'"
    and "value_loop b d fs bu = (r2, bu') \<Longrightarrow> spent bu bu'"
    and "decodeProtoStruct b d bu = (r3, bu') \<Longrightarrow> spent bu bu'"
    and "struct_loop d fs m bu = (r4, bu') \<Longrightarrow> spent bu bu'"
    and "decodeProtoList b d bu = (r5, bu') \<Longrightarrow> spent bu bu'"
    and "list_loop d fs l bu = (r6, bu') \<Longrightarrow> spent bu bu'"
proof (induction b d bu and b d fs bu and b d bu and d fs m bu and b d bu and d fs l bu
    arbitrary: r1 bu' and r2 bu' and r3 bu' and r4 bu' and r5 bu' and r6 bu'
    rule: decodeProtoValue_value_loop_decodeProtoStruct_struct_loop_decodeProtoList_list_loop.induct)
  case (1 b d bu)
  then show ?case
    by (subst (asm) decodeProtoValue.simps)
      (auto split: if_splits prod.splits sum.splits dest: parse_spent intro: spent_trans)
next
  case (4 b d bu)
  then show ?case
    by (subst (asm) decodeProtoStruct.simps)
      (auto split: prod.splits sum.splits dest: parse_spent intro: spent_trans)
next
  case (6 d f fs m bu)
  then show ?case
    by (auto split: if_splits prod.splits sum.splits option.splits dest: decodeMapEntry_spent intro: spent_trans)
      (meson decodeMapEntry_spent spent_trans)
next
  case (7 b d bu)
  then show ?case
    by (subst (asm) decodeProtoList.simps)
      (auto split: prod.splits sum.splits dest: parse_spent intro: spent_trans)
next
  case (9 d f fs l bu)
  then show ?case
    by (auto split: if_splits prod.splits option.splits intro: spent_trans)
qed (auto split: if_splits prod.splits)

section \<open>Decoded values\<close>

text \<open>
  The type of a decoded value: at most \<open>n\<close> containers inside one another, in a struct every key
  once and none empty, and no number left undecoded that has the eight bytes of a float.
\<close>

inductive typed :: "nat \<Rightarrow> goValue \<Rightarrow> bool" where
  "typed m VNil"
| "typed m (VString s)"
| "typed m (VBool b)"
| "typed m (VNumber x)"
| "length r \<noteq> 8 \<Longrightarrow> typed m (VRaw r)"
| "distinct (map fst kvs) \<Longrightarrow> [] \<notin> fst ` set kvs \<Longrightarrow> \<forall>v \<in> snd ` set kvs. typed m v
    \<Longrightarrow> typed (Suc m) (VStruct kvs)"
| "\<forall>v \<in> set vs. typed m v \<Longrightarrow> typed (Suc m) (VList vs)"

lemmas typed_intros = typed.intros

inductive_simps typed_simps [simp]:
  "typed m (VRaw r)" "typed m (VStruct kvs)" "typed m (VList vs)"

text \<open>The number of values in a decoded value, itself included.\<close>

primrec nodes :: "goValue \<Rightarrow> nat" where
  "nodes VNil = 1"
| "nodes (VString s) = 1"
| "nodes (VBool b) = 1"
| "nodes (VNumber x) = 1"
| "nodes (VRaw r) = 1"
| "nodes (VStruct kvs) = 1 + sum_list (map snd (map (map_prod id nodes) kvs))"
| "nodes (VList vs) = 1 + sum_list (map nodes vs)"

abbreviation entry_nodes :: "(byte list \<times> goValue) list \<Rightarrow> nat" where
  "entry_nodes kvs \<equiv> sum_list (map (\<lambda>kv. nodes (snd kv)) kvs)"

lemma nodes_VStruct [simp]: "nodes (VStruct kvs) = 1 + entry_nodes kvs"
  by (simp add: o_def)

declare nodes.simps(6) [simp del]

lemma entry_nodes_aput: "entry_nodes (aput k v kvs) \<le> entry_nodes kvs + nodes v"
  by (induction kvs) auto


lemma parse_nodes: "parseProtoFieldsWire b fx bu = (Inr fs, bu') \<Longrightarrow> remaining bu = remaining bu' + int (length fs)"
  using parse_ok(3) by fastforce

definition entries_ok :: "nat \<Rightarrow> (byte list \<times> goValue) list \<Rightarrow> bool" where
  "entries_ok m kvs \<longleftrightarrow> distinct (map fst kvs) \<and> [] \<notin> fst ` set kvs \<and> (\<forall>v \<in> snd ` set kvs. typed m v)"

lemma entries_ok_simps [simp]:
  "entries_ok m []" "entries_ok m kvs \<Longrightarrow> typed (Suc m) (VStruct kvs)"
  by (auto simp: entries_ok_def)

lemma entries_ok_aput: "entries_ok m kvs \<Longrightarrow> typed m v \<Longrightarrow> k \<noteq> [] \<Longrightarrow> entries_ok m (aput k v kvs)"
  using set_aput_subset [of k v kvs] by (fastforce simp: entries_ok_def)

lemma decodeMapEntry_key: "decodeMapEntry e b = (Inr (k, v, c), b') \<Longrightarrow> c \<longleftrightarrow> k \<noteq> []"
  by (auto simp: decodeMapEntry_def split: prod.splits sum.splits)

definition value_res :: "nat \<Rightarrow> protoFieldBudget \<Rightarrow> goValue \<Rightarrow> protoFieldBudget \<Rightarrow> bool" where
  "value_res d bu v bu' \<longleftrightarrow> typed (129 - d) v \<and> int (nodes v) \<le> 1 + (remaining bu - remaining bu')"

lemma value_res_leaf [simp]:
  "value_res d bu VNil bu" "value_res d bu (VString s) bu" "value_res d bu (VBool c) bu"
  "value_res d bu (VNumber x) bu" "length r \<noteq> 8 \<Longrightarrow> value_res d bu (VRaw r) bu"
  by (simp_all add: value_res_def typed_intros)

lemma value_res_spent: "value_res d b v b'' \<Longrightarrow> spent a b \<Longrightarrow> value_res d a v b''"
  by (simp add: value_res_def spent_def)

lemma value_res_struct:
  "d \<le> 128 \<Longrightarrow> entries_ok (129 - (d + 1)) m \<Longrightarrow> int (entry_nodes m) \<le> remaining b - remaining b'
    \<Longrightarrow> value_res d b (VStruct m) b'"
  by (auto simp: value_res_def entries_ok_def intro!: exI [of _ "128 - d"])

lemma value_res_list:
  "d \<le> 128 \<Longrightarrow> \<forall>v \<in> set l. typed (129 - (d + 1)) v \<Longrightarrow> int (sum_list (map nodes l)) \<le> remaining b - remaining b'
    \<Longrightarrow> value_res d b (VList l) b'"
  by (auto simp: value_res_def intro!: exI [of _ "128 - d"])

text \<open>The loops keep the type of what they have collected, if the values below them have it.\<close>

definition typed_upto :: "nat \<Rightarrow> bool" where
  "typed_upto k \<longleftrightarrow> (\<forall>b d bu v bu'. length b \<le> k \<longrightarrow>
    decodeProtoValue b d bu = (Some v, bu') \<longrightarrow> value_res d bu v bu')"

lemma typed_uptoD:
  "typed_upto k \<Longrightarrow> decodeProtoValue b d bu = (Some v, bu') \<Longrightarrow> length b \<le> k \<Longrightarrow> value_res d bu v bu'"
  by (simp add: typed_upto_def)

lemma list_loop_typed:
  assumes "list_loop d fs l bu = (Some l', bu')" "typed_upto k" "\<forall>f \<in> set fs. length (pf_raw f) \<le> k"
    and "\<forall>v \<in> set l. typed (129 - d) v"
  shows "(\<forall>v \<in> set l'. typed (129 - d) v) \<and>
    int (sum_list (map nodes l')) \<le> int (sum_list (map nodes l)) + int (length fs) + (remaining bu - remaining bu')"
  using assms
proof (induction fs arbitrary: l bu)
  case (Cons f fs)
  show ?case
  proof (cases "pf_num f = 1")
    case False
    with Cons.IH [of l bu] Cons.prems show ?thesis by simp
  next
    case True
    with Cons.prems(1) obtain v b1 where v: "decodeProtoValue (pf_raw f) d bu = (Some v, b1)"
      and l: "list_loop d fs (l @ [v]) b1 = (Some l', bu')"
      by (auto split: prod.splits option.splits)
    have "length (pf_raw f) \<le> k" and fs: "\<forall>f \<in> set fs. length (pf_raw f) \<le> k"
      using Cons.prems(3) by simp_all
    then have v: "typed (129 - d) v" "int (nodes v) \<le> 1 + (remaining bu - remaining b1)"
      using typed_uptoD [OF Cons.prems(2) v] by (simp_all add: value_res_def)
    then have "\<forall>v \<in> set (l @ [v]). typed (129 - d) v"
      using Cons.prems(4) by simp
    from Cons.IH [OF l Cons.prems(2) fs this] v(2) show ?thesis
      by simp
  qed
qed simp

lemma struct_loop_step:
  assumes "struct_loop d (f # fs) m bu = (Some m', bu')"
  obtains b1 where "spent bu b1" "struct_loop d fs m b1 = (Some m', bu')"
  | k vb v b1 b2 where "spent bu b1" "length vb \<le> length (pf_raw f)" "k \<noteq> []"
      "decodeProtoValue vb d b1 = (Some v, b2)" "struct_loop d fs (aput k v m) b2 = (Some m', bu')"
proof (cases "pf_num f = 1")
  case False
  with assms that(1) [of bu] show ?thesis by simp
next
  case True
  obtain r b1 where r: "decodeMapEntry (pf_raw f) bu = (r, b1)"
    by fastforce
  note spent1 = decodeMapEntry_spent [OF r]
  show ?thesis
  proof (cases r)
    case (Inl e)
    with assms r True that(1) spent1 show ?thesis
      by (auto split: if_splits)
  next
    case (Inr q)
    obtain k vb c where q: "q = (k, vb, c)"
      by (cases q)
    note entry = r [unfolded Inr q]
    show ?thesis
      using assms True entry that spent1 decodeMapEntry_size [OF entry] decodeMapEntry_key [OF entry]
      by (auto split: if_splits prod.splits option.splits)
  qed
qed

lemma struct_loop_typed:
  assumes "struct_loop d fs m bu = (Some m', bu')" "typed_upto k" "\<forall>f \<in> set fs. length (pf_raw f) \<le> k"
    and "entries_ok (129 - d) m"
  shows "entries_ok (129 - d) m' \<and>
    int (entry_nodes m') \<le> int (entry_nodes m) + int (length fs) + (remaining bu - remaining bu')"
  using assms
proof (induction fs arbitrary: m bu)
  case (Cons f fs)
  from Cons.prems(1) show ?case
  proof (cases rule: struct_loop_step)
    case (1 b1)
    then show ?thesis
      using Cons.IH [OF 1(2)] Cons.prems(2-4) by (simp add: spent_def)
  next
    case (2 key vb v b1 b2)
    have v: "value_res d b1 v b2"
      using Cons.prems(2,3) 2(2,4) by (auto intro: typed_uptoD)
    then have "entries_ok (129 - d) (aput key v m)"
      using Cons.prems(4) 2(3) by (simp add: entries_ok_aput value_res_def)
    then show ?thesis
      using Cons.IH [OF 2(5)] Cons.prems(2,3) entry_nodes_aput [of key v m] v 2(1)
      by (simp add: spent_def value_res_def)
  qed
qed simp

lemma raw_size: "f \<in> set fs \<Longrightarrow> length (pf_raw f) < fields_size fs"
  by (induction fs) auto

lemma decodeProtoList_typed:
  assumes "decodeProtoList b d bu = (Some l, bu')" "typed_upto (length b)"
  shows "(\<forall>v \<in> set l. typed (129 - d) v) \<and> int (sum_list (map nodes l)) \<le> remaining bu - remaining bu'"
proof -
  from assms(1) obtain fs b1 where fs: "parseProtoFieldsWire b False bu = (Inr fs, b1)"
    and l: "list_loop d fs [] b1 = (Some l, bu')"
    by (auto simp: decodeProtoList.simps split: prod.splits sum.splits)
  have "\<forall>f \<in> set fs. length (pf_raw f) \<le> length b"
    using parse_ok(1) [OF fs] raw_size by fastforce
  then show ?thesis
    using list_loop_typed [OF l assms(2)] parse_ok(3) [OF fs] by simp
qed

lemma decodeProtoStruct_typed:
  assumes "decodeProtoStruct b d bu = (Some m, bu')" "typed_upto (length b)"
  shows "entries_ok (129 - d) m \<and> int (entry_nodes m) \<le> remaining bu - remaining bu'"
proof -
  from assms(1) obtain fs b1 where fs: "parseProtoFieldsWire b False bu = (Inr fs, b1)"
    and m: "struct_loop d fs [] b1 = (Some m, bu')"
    by (auto simp: decodeProtoStruct.simps split: prod.splits sum.splits)
  have "\<forall>f \<in> set fs. length (pf_raw f) \<le> length b"
    using parse_ok(1) [OF fs] raw_size by fastforce
  then show ?thesis
    using struct_loop_typed [OF m assms(2)] parse_ok(3) [OF fs] by simp
qed

lemma value_loop_typed:
  assumes "value_loop b d fs bu = (Some v, bu')" "d \<le> 128" "\<forall>f \<in> set fs. typed_upto (length (pf_raw f))"
  shows "value_res d bu v bu'"
  using assms
proof (induction fs)
  case (Cons f fs)
  then show ?case
    using decodeProtoStruct_typed [of "pf_raw f" "d + 1" bu] decodeProtoList_typed [of "pf_raw f" "d + 1" bu]
    by (auto split: if_splits prod.splits intro: value_res_struct value_res_list)
qed auto

lemma decodeProtoValue_typed: "decodeProtoValue b d bu = (Some v, bu') \<Longrightarrow> value_res d bu v bu'"
proof (induction "length b" arbitrary: b d bu v bu' rule: less_induct)
  case less
  from less.prems consider "v = VNil" "bu' = bu"
    | err where "parseProtoFieldsWire b True bu = (Inl err, bu')" "v = VString b"
    | fs b1 where "parseProtoFieldsWire b True bu = (Inr fs, b1)" "value_loop b d fs b1 = (Some v, bu')" "d \<le> 128"
    by (auto simp: decodeProtoValue.simps protoValueMaxDepth_def split: if_splits prod.splits sum.splits)
  then show ?case
  proof cases
    case 1
    then show ?thesis by simp
  next
    case 2
    then show ?thesis
      using value_res_spent [OF value_res_leaf(2)] parse_spent by blast
  next
    case 3
    have "typed_upto (length (pf_raw f))" if "f \<in> set fs" for f
      using less.hyps raw_size [OF that] parse_ok(1) [OF 3(1)] unfolding typed_upto_def
      by (meson le_less_trans less_le_trans)
    then show ?thesis
      using value_loop_typed [OF 3(2,3)] parse_spent [OF 3(1)] value_res_spent by blast
  qed
qed

section \<open>Tool-call arguments\<close>

lemma decodeMapEntry_pays:
  assumes "decodeMapEntry e bu = (Inr (k, vb, c), bu')" "k \<noteq> []"
  shows "remaining bu' < remaining bu"
proof -
  obtain fs where fs: "parseProtoFieldsWire e False bu = (Inr fs, bu')" "entry_loop fs [] [] = (k, vb)"
    using assms(1) by (auto simp: decodeMapEntry_def split: prod.splits sum.splits)
  then have "fs \<noteq> []"
    using assms(2) by auto
  then show ?thesis
    using parse_ok(3) [OF fs(1)] by (cases fs) auto
qed

text \<open>
  C40. What one entry of a tool call's arguments can decode to. Whatever bytes the upstream sends, an
  entry that is accepted has a non-empty key and a well-typed value: at most 129 containers nested in one
  another (the innermost empty), struct keys distinct and non-empty, and every eight-byte number decoded.
  Its number of values is at most the number of fields it has charged to the frame's budget, so all
  entries of a frame together never hold more than the budget; and the budget never goes negative.
\<close>

theorem arguments_are_typed_and_bounded:
  assumes "decodeStringValueMapEntry e bu = (Some (k, v), bu')" "0 \<le> remaining bu"
  shows "k \<noteq> [] \<and> typed (protoValueMaxDepth + 1) v \<and>
    int (nodes v) \<le> remaining bu - remaining bu' \<and> 0 \<le> remaining bu'"
proof -
  from assms(1) obtain vb b1 where e: "decodeMapEntry e bu = (Inr (k, vb, True), b1)"
    and v: "decodeProtoValue vb 0 b1 = (Some v, bu')"
    by (auto simp: decodeStringValueMapEntry_def split: prod.splits sum.splits option.splits if_splits)
  have "k \<noteq> []"
    using decodeMapEntry_key [OF e] by simp
  moreover have "spent bu bu'"
    using decodeMapEntry_spent [OF e] decode_spent(1) [OF v] by (rule spent_trans)
  ultimately show ?thesis
    using decodeProtoValue_typed [OF v] decodeMapEntry_pays [OF e] assms(2)
    by (simp add: value_res_def spent_def protoValueMaxDepth_def)
qed

text \<open>The entry \<open>{"k": [true]}\<close>.\<close>

definition demo_entry :: "byte list" where
  "demo_entry = [0x0A, 1, 0x6B, 0x12, 6, 0x32, 4, 0x0A, 2, 0x20, 1]"

lemma demo_entry_decodes:
  "decodeStringValueMapEntry demo_entry newProtoFieldBudget =
    (Some ([0x6B], VList [VBool True]), \<lparr>remaining = 65531\<rparr>)"
  by code_simp

theorem arguments_are_typed_and_bounded_witness:
  "typed 129 (VList [VBool True]) \<and> nodes (VList [VBool True]) \<le> 5"
  using arguments_are_typed_and_bounded [OF demo_entry_decodes]
  by (simp add: newProtoFieldBudget_def protoFieldCountMax_def protoValueMaxDepth_def)

end
