(* ===== verification/Cursor_Replies.thy ===== *)
theory Cursor_Replies
  imports Wire_Format
begin

text \<open>
  The replies the relay writes on a Cursor run (\<^verbatim>\<open>internal/format/cursor_bidi.go\<close> and the user message
  of \<^verbatim>\<open>cursor.go\<close>). The large ones are written in one pass: every enclosing length is computed before
  the bytes it covers exist. The reference definitions nest \<open>appendMessage\<close> instead.

  A capacity given to \<^verbatim>\<open>make\<close> has no effect on the bytes and is left out; that it is exact is part of the
  property. The random message id of \<^verbatim>\<open>UUID4\<close> is an argument.
\<close>

section \<open>Definitions\<close>

abbreviation (input) fAgentClientMessageExecClientMessage :: uint64 where "fAgentClientMessageExecClientMessage \<equiv> 2"
abbreviation (input) fAgentClientMessageKvClientMessage :: uint64 where "fAgentClientMessageKvClientMessage \<equiv> 3"
abbreviation (input) fAgentClientMessageConversationAction :: uint64 where "fAgentClientMessageConversationAction \<equiv> 4"
abbreviation (input) fAgentClientMessageClientHeartbeat :: uint64 where "fAgentClientMessageClientHeartbeat \<equiv> 7"
abbreviation (input) fKvMessageID :: uint64 where "fKvMessageID \<equiv> 1"
abbreviation (input) fKvClientGetBlobResult :: uint64 where "fKvClientGetBlobResult \<equiv> 2"
abbreviation (input) fKvClientSetBlobResult :: uint64 where "fKvClientSetBlobResult \<equiv> 3"
abbreviation (input) fGetBlobResultBlobData :: uint64 where "fGetBlobResultBlobData \<equiv> 1"
abbreviation (input) fExecMessageID :: uint64 where "fExecMessageID \<equiv> 1"
abbreviation (input) fExecMessageExecID :: uint64 where "fExecMessageExecID \<equiv> 15"
abbreviation (input) fExecClientRequestContext :: uint64 where "fExecClientRequestContext \<equiv> 10"
abbreviation (input) fRequestContextResultSucc :: uint64 where "fRequestContextResultSucc \<equiv> 1"
abbreviation (input) fRequestContextSuccessInner :: uint64 where "fRequestContextSuccessInner \<equiv> 1"
abbreviation (input) fExecClientMcpResult :: uint64 where "fExecClientMcpResult \<equiv> 11"
abbreviation (input) fConversationActionUserMessageAction :: uint64 where "fConversationActionUserMessageAction \<equiv> 1"
abbreviation (input) fUserMessageActionUserMessage :: uint64 where "fUserMessageActionUserMessage \<equiv> 1"

definition encodeClientHeartbeat :: "byte list" where
  "encodeClientHeartbeat = appendMessage [] fAgentClientMessageClientHeartbeat []"

definition encodeUserMessageAction :: "byte list \<Rightarrow> byte list \<Rightarrow> byte list" where
  "encodeUserMessageAction uuid txt =
    (let userMessage = appendString [] 1 txt;
         userMessage = appendString userMessage 2 uuid;
         userMessage = appendMessage userMessage 3 [];
         userMessage = appendInt32 userMessage 4 1;
         userMessageAction = appendMessage [] fUserMessageActionUserMessage userMessage
     in appendMessage [] fConversationActionUserMessageAction userMessageAction)"

definition encodeSteerUserMessage :: "byte list \<Rightarrow> byte list \<Rightarrow> byte list" where
  "encodeSteerUserMessage uuid txt =
    appendMessage [] fAgentClientMessageConversationAction (encodeUserMessageAction uuid txt)"

definition encodeKvGetBlobResult :: "uint64 \<Rightarrow> byte list \<Rightarrow> byte list" where
  "encodeKvGetBlobResult i blobData =
    (let resLen = (if 0 < length blobData then bytesFieldLen fGetBlobResultBlobData (length blobData) else 0);
         kvLen = uint32FieldLen fKvMessageID (ucast i) + bytesFieldLen fKvClientGetBlobResult resLen;
         out = appendTag [] fAgentClientMessageKvClientMessage wireBytes;
         out = appendVarint out (word_of_nat kvLen);
         out = appendUint32 out fKvMessageID (ucast i);
         out = appendTag out fKvClientGetBlobResult wireBytes;
         out = appendVarint out (word_of_nat resLen)
     in if 0 < length blobData then appendBytes out fGetBlobResultBlobData blobData else out)"

definition encodeKvSetBlobAck :: "uint64 \<Rightarrow> byte list" where
  "encodeKvSetBlobAck i =
    (let kv = appendUint32 [] fKvMessageID (ucast i);
         kv = appendMessage kv fKvClientSetBlobResult []
     in appendMessage [] fAgentClientMessageKvClientMessage kv)"

definition execClientBodyLen :: "uint64 \<Rightarrow> byte list \<Rightarrow> uint64 \<Rightarrow> nat \<Rightarrow> nat" where
  "execClientBodyLen i execID field payloadLen =
    (let body = uint32FieldLen fExecMessageID (ucast i);
         body = (if 0 < length execID then body + bytesFieldLen fExecMessageExecID (length execID) else body)
     in body + bytesFieldLen field payloadLen)"

definition execClientEnvelopeLen :: "uint64 \<Rightarrow> byte list \<Rightarrow> uint64 \<Rightarrow> nat \<Rightarrow> nat" where
  "execClientEnvelopeLen i execID field payloadLen =
    bytesFieldLen fAgentClientMessageExecClientMessage (execClientBodyLen i execID field payloadLen)"

definition appendExecClientHeader ::
  "byte list \<Rightarrow> uint64 \<Rightarrow> byte list \<Rightarrow> uint64 \<Rightarrow> nat \<Rightarrow> byte list" where
  "appendExecClientHeader dst i execID field payloadLen =
    (let dst = appendTag dst fAgentClientMessageExecClientMessage wireBytes;
         dst = appendVarint dst (word_of_nat (execClientBodyLen i execID field payloadLen));
         dst = appendUint32 dst fExecMessageID (ucast i);
         dst = (if 0 < length execID then appendBytes dst fExecMessageExecID execID else dst);
         dst = appendTag dst field wireBytes
     in appendVarint dst (word_of_nat payloadLen))"

definition mcpResultLens :: "byte list \<Rightarrow> bool \<Rightarrow> nat \<times> nat \<times> nat \<times> nat" where
  "mcpResultLens result isError =
    (let textLen = stringFieldLen 1 result in
     if isError then (textLen, 0, 0, bytesFieldLen 2 textLen)
     else
       (let itemLen = bytesFieldLen 1 textLen;
            successLen = bytesFieldLen 1 itemLen
        in (textLen, itemLen, successLen, bytesFieldLen 1 successLen)))"

definition encodeMcpResult :: "uint64 \<Rightarrow> byte list \<Rightarrow> byte list \<Rightarrow> bool \<Rightarrow> byte list" where
  "encodeMcpResult i execID result isError =
    (case mcpResultLens result isError of (textLen, itemLen, successLen, mcpResultLen) \<Rightarrow>
      let out = appendExecClientHeader [] i execID fExecClientMcpResult mcpResultLen in
      if isError then
        (let out = appendTag out 2 wireBytes;
             out = appendVarint out (word_of_nat textLen)
         in appendString out 1 result)
      else
        (let out = appendTag out 1 wireBytes;
             out = appendVarint out (word_of_nat successLen);
             out = appendTag out 1 wireBytes;
             out = appendVarint out (word_of_nat itemLen);
             out = appendTag out 1 wireBytes;
             out = appendVarint out (word_of_nat textLen)
         in appendString out 1 result))"

definition encodeRequestContextResult :: "uint64 \<Rightarrow> byte list \<Rightarrow> byte list" where
  "encodeRequestContextResult i execID =
    (let successLen = bytesFieldLen fRequestContextSuccessInner 0;
         resultLen = bytesFieldLen fRequestContextResultSucc successLen;
         out = appendExecClientHeader [] i execID fExecClientRequestContext resultLen;
         out = appendTag out fRequestContextResultSucc wireBytes;
         out = appendVarint out (word_of_nat successLen);
         out = appendTag out fRequestContextSuccessInner wireBytes
     in appendVarint out 0)"

section \<open>The nested reference\<close>

definition exec_body :: "uint64 \<Rightarrow> byte list \<Rightarrow> uint64 \<Rightarrow> byte list \<Rightarrow> put list" where
  "exec_body i execID field payload =
    [PutUint32 fExecMessageID (ucast i)] @
    (if execID = [] then [] else [PutBytes fExecMessageExecID execID]) @ [PutMessage field payload]"

definition kv_body :: "uint64 \<Rightarrow> byte list \<Rightarrow> put list" where
  "kv_body i blob = [PutUint32 fKvMessageID (ucast i),
    PutMessage fKvClientGetBlobResult (if blob = [] then [] else appendBytes [] fGetBlobResultBlobData blob)]"

definition mcp_payload :: "byte list \<Rightarrow> bool \<Rightarrow> byte list" where
  "mcp_payload result isError =
    (let txt = appendString [] 1 result in
     if isError then appendMessage [] 2 txt
     else appendMessage [] 1 (appendMessage [] 1 (appendMessage [] 1 txt)))"

abbreviation (input) message :: "uint64 \<Rightarrow> put list \<Rightarrow> byte list" where
  "message field ps \<equiv> appendMessage [] field (foldl write_put [] ps)"

lemmas size_defs = stringFieldLen_def bytesFieldLen_def uint32FieldLen_def tagLen_def

lemma length_message [simp]:
  "length (appendMessage [] k b) = bytesFieldLen k (length b)" "length (appendBytes [] k b) = bytesFieldLen k (length b)"
  by (simp_all add: encoder_defs size_defs)

lemma length_tag [simp]: "length (appendTag [] k w) = tagLen k w"
  by (simp add: encoder_defs size_defs)

lemma length_string [simp]: "length (appendString [] k b) = stringFieldLen k b"
  by (simp add: encoder_defs size_defs)

lemma length_exec_body: "length (foldl write_put [] (exec_body i execID k p)) = execClientBodyLen i execID k (length p)"
  unfolding write_puts_size by (simp add: exec_body_def execClientBodyLen_def Let_def)

lemma append_dst:
  "NO_MATCH [] dst \<Longrightarrow> appendTag dst k w = dst @ appendTag [] k w"
  "NO_MATCH [] dst \<Longrightarrow> appendString dst k b = dst @ appendString [] k b"
  "NO_MATCH [] dst \<Longrightarrow> appendBytes dst k b = dst @ appendBytes [] k b"
  "NO_MATCH [] dst \<Longrightarrow> appendMessage dst k b = dst @ appendMessage [] k b"
  "NO_MATCH [] dst \<Longrightarrow> appendUint32 dst k v = dst @ appendUint32 [] k v"
  by (simp_all add: encoder_defs)

lemma message_unfold: "appendMessage [] k b = appendTag [] k wireBytes @ varint (word_of_nat (length b)) @ b"
  by (simp add: encoder_defs)

lemma exec_reply_nests:
  "appendExecClientHeader [] i execID k (length p) @ p = message fAgentClientMessageExecClientMessage (exec_body i execID k p)"
  unfolding message_unfold length_exec_body
  by (simp add: appendExecClientHeader_def exec_body_def Let_def append_dst message_unfold)

lemma encodeMcpResult_nests:
  "encodeMcpResult i execID r e = appendExecClientHeader [] i execID fExecClientMcpResult (length (mcp_payload r e)) @ mcp_payload r e"
  by (cases e) (simp_all add: encodeMcpResult_def mcpResultLens_def mcp_payload_def Let_def append_dst
      message_unfold bytesFieldLen_def ac_simps)

lemma encodeRequestContextResult_nests:
  "encodeRequestContextResult i execID =
    appendExecClientHeader [] i execID fExecClientRequestContext
      (length (appendMessage [] fRequestContextResultSucc (appendMessage [] fRequestContextSuccessInner []))) @
    appendMessage [] fRequestContextResultSucc (appendMessage [] fRequestContextSuccessInner [])"
  by (simp add: encodeRequestContextResult_def Let_def append_dst message_unfold bytesFieldLen_def ac_simps)

lemma encodeKvGetBlobResult_nests:
  "encodeKvGetBlobResult i blob = message fAgentClientMessageKvClientMessage (kv_body i blob)"
  unfolding message_unfold write_puts_size
  by (simp add: encodeKvGetBlobResult_def kv_body_def Let_def append_dst message_unfold size_defs ac_simps)

section \<open>What the upstream reads\<close>

lemma parse_puts:
  assumes "\<forall>p \<in> set ps. put_ok p" "length ps \<le> 3"
  shows "parseProtoFields (foldl write_put [] ps) = Inr (concat (map put_fields ps))"
proof -
  have "length (put_fields p) \<le> 1" for p
    by (cases p) auto
  then have "length (concat (map put_fields ps)) \<le> length ps"
    by (induction ps) (auto simp: add_mono [of _ "Suc 0", simplified])
  then have "int (length (concat (map put_fields ps))) \<le> remaining newProtoFieldBudget"
    using assms(2) by (simp add: newProtoFieldBudget_def protoFieldCountMax_def)
  moreover have "\<forall>f \<in> set (concat (map put_fields ps)). field_ok f"
    using assms(1) put_fields_ok by auto
  moreover have "0 \<le> remaining newProtoFieldBudget"
    by (simp add: newProtoFieldBudget_def protoFieldCountMax_def)
  ultimately show ?thesis
    using write_puts_bytes [of "[]" ps] by (simp add: parseProtoFields_def parse_fields del: map_concat)
qed

lemma varintLen_le: "varintLen v \<le> 10"
  using consumeVarint_bounds [OF consumeVarint_varint [of v "[]"]] by simp

lemma field_sizes:
  "bytesFieldLen k m \<le> 20 + m" "stringFieldLen k b \<le> 20 + length b" "uint32FieldLen k v \<le> 20"
  using varintLen_le [of "push_bit 3 k OR wireBytes"] varintLen_le [of "push_bit 3 k OR wireVarint"]
    varintLen_le [of "word_of_nat m"] varintLen_le [of "word_of_nat (length b)"] varintLen_le [of "ucast v"]
  by (auto simp: size_defs)

lemma mcp_payload_size: "length (mcp_payload r e) \<le> 80 + length r"
  using field_sizes(2) [of 1 r] field_sizes(1) [of 2 "stringFieldLen 1 r"]
    field_sizes(1) [of 1 "stringFieldLen 1 r"] field_sizes(1) [of 1 "bytesFieldLen 1 (stringFieldLen 1 r)"]
    field_sizes(1) [of 1 "bytesFieldLen 1 (bytesFieldLen 1 (stringFieldLen 1 r))"]
  by (simp add: mcp_payload_def Let_def)

text \<open>
  A reply is one message: it is the nested encoding of its fields, the upstream's parser finds that one
  message and nothing after it, and in it exactly the given fields.
\<close>

definition one_message :: "byte list \<Rightarrow> uint64 \<Rightarrow> put list \<Rightarrow> bool" where
  "one_message reply k ps \<longleftrightarrow>
    reply = appendMessage [] k (foldl write_put [] ps) \<and>
    parseProtoFields reply = Inr [bytes_field k (foldl write_put [] ps)] \<and>
    parseProtoFields (foldl write_put [] ps) = Inr (concat (map put_fields ps))"

lemma one_message:
  assumes "reply = message k ps" "\<forall>p \<in> set ps. put_ok p" "length ps \<le> 3" "k < 2 ^ 61"
    and "sum_list (map put_size ps) < 2 ^ 63"
  shows "one_message reply k ps"
  using parse_puts [OF assms(2,3)] parse_puts [of "[PutMessage k (foldl write_put [] ps)]"] assms
    write_puts_size [of "[]" ps]
  by (simp add: one_message_def)

lemma exec_reply:
  assumes "reply = appendExecClientHeader [] i execID k (length p) @ p" "k < 2 ^ 61"
    and "length execID < 2 ^ 60" "length p < 2 ^ 61"
  shows "one_message reply fAgentClientMessageExecClientMessage (exec_body i execID k p)"
    and "length reply = execClientEnvelopeLen i execID k (length p)"
proof -
  have reply: "reply = message fAgentClientMessageExecClientMessage (exec_body i execID k p)"
    using assms(1) exec_reply_nests by simp
  then show "one_message reply fAgentClientMessageExecClientMessage (exec_body i execID k p)"
    using assms(2-4) field_sizes(1) [of 15 "length execID"] field_sizes(1) [of k "length p"]
      field_sizes(3) [of 1 "ucast i"]
    by (intro one_message) (auto simp: exec_body_def)
  show "length reply = execClientEnvelopeLen i execID k (length p)"
    unfolding reply execClientEnvelopeLen_def length_message length_exec_body ..
qed

lemma kv_reply:
  assumes "length blob < 2 ^ 60"
  shows "one_message (encodeKvGetBlobResult i blob) fAgentClientMessageKvClientMessage (kv_body i blob)"
  using field_sizes(3) [of 1 "ucast i"] field_sizes(1) [of 1 "length blob"] assms
    field_sizes(1) [of 2 "bytesFieldLen 1 (length blob)"] field_sizes(1) [of 2 0]
  by (intro one_message [OF encodeKvGetBlobResult_nests]) (auto simp: kv_body_def)

text \<open>
  C39. The single-pass reply encoders. For every correlation id, exec id, tool result and blob (shorter than
  \<open>2 ^ 60\<close> bytes) the bytes of a tool result, of a request context and of a blob reply are exactly the nested
  encoding of their messages, as many as the size functions announce; an upstream that parses a reply finds
  one message and in it the low 32 bits of the id (left out when zero), the exec id (left out when empty) and
  the payload, which for a tool result is the text under the error or the success branch and for a blob the
  data, absent when there is none.
\<close>

theorem replies_are_nested_messages:
  assumes "length execID < 2 ^ 60" "length result < 2 ^ 60" "length blob < 2 ^ 60"
  shows "one_message (encodeMcpResult i execID result isError) fAgentClientMessageExecClientMessage
      (exec_body i execID fExecClientMcpResult (mcp_payload result isError)) \<and>
    length (encodeMcpResult i execID result isError) =
      execClientEnvelopeLen i execID fExecClientMcpResult (length (mcp_payload result isError)) \<and>
    one_message (encodeRequestContextResult i execID) fAgentClientMessageExecClientMessage
      (exec_body i execID fExecClientRequestContext
        (appendMessage [] fRequestContextResultSucc (appendMessage [] fRequestContextSuccessInner []))) \<and>
    one_message (encodeKvGetBlobResult i blob) fAgentClientMessageKvClientMessage (kv_body i blob)"
proof (intro conjI)
  have p: "length (mcp_payload result isError) < 2 ^ 61"
    using mcp_payload_size [of result isError] assms(2) by simp
  note mcp = exec_reply [OF encodeMcpResult_nests _ assms(1) p]
  show "one_message (encodeMcpResult i execID result isError) fAgentClientMessageExecClientMessage
      (exec_body i execID fExecClientMcpResult (mcp_payload result isError))"
    by (rule mcp(1)) (simp add: word_less_nat_alt)
  show "length (encodeMcpResult i execID result isError) =
      execClientEnvelopeLen i execID fExecClientMcpResult (length (mcp_payload result isError))"
    by (rule mcp(2)) (simp add: word_less_nat_alt)
  show "one_message (encodeRequestContextResult i execID) fAgentClientMessageExecClientMessage
      (exec_body i execID fExecClientRequestContext
        (appendMessage [] fRequestContextResultSucc (appendMessage [] fRequestContextSuccessInner [])))"
    using field_sizes(1) [of 1 0] field_sizes(1) [of 1 "bytesFieldLen 1 0"]
    by (intro exec_reply(1) [OF encodeRequestContextResult_nests _ assms(1)]) (simp_all add: word_less_nat_alt)
  show "one_message (encodeKvGetBlobResult i blob) fAgentClientMessageKvClientMessage (kv_body i blob)"
    by (rule kv_reply [OF assms(3)])
qed

theorem replies_are_nested_messages_witness:
  "one_message (encodeMcpResult 300 [97] [111, 107] False) 2 (exec_body 300 [97] 11 (mcp_payload [111, 107] False)) \<and>
   concat (map put_fields (exec_body 300 [97] 11 (mcp_payload [111, 107] False))) =
     [varint_field 1 300, bytes_field 15 [97], bytes_field 11 (mcp_payload [111, 107] False)]"
  using replies_are_nested_messages [of "[97]" "[111, 107]" "[]" 300 False]
  by (simp add: exec_body_def)

end
