(* ===== verification/Blob_Store.thy ===== *)
theory Blob_Store
  imports Cursor_Replies
begin

text \<open>
  The blob store of a Cursor run and the handler that serves it (\<^verbatim>\<open>internal/format/cursor_bidi.go\<close>), with the
  stream writer that frames its replies and the Connect envelope of \<^verbatim>\<open>connect.go\<close>.

  \<^item> Each operation of the store is one critical section. The retention observer is a function that the
    store calls; what it changes is the state \<open>r\<close> that every call passes on.
  \<^item> The \<^verbatim>\<open>io.Writer\<close> under the stream is the argument \<open>Write\<close>: the bytes and the writer's state give the number of
    bytes written, the error and the new state.
  \<^item> Copying a blob before it is kept (\<^verbatim>\<open>cloneRetainedBytes\<close>) does not change its bytes.
\<close>

section \<open>Definitions\<close>

subsection \<open>The store\<close>

definition cursorBlobStoreBytesMax :: int where
  "cursorBlobStoreBytesMax = 64 * 2 ^ 20"

definition cursorBlobStoreEntriesMax :: int where
  "cursorBlobStoreEntriesMax = 65536"

definition cursorBlobIDLen :: nat where
  "cursorBlobIDLen = 32"

datatype 'e blobError =
    BlobID nat
  | BlobEntries
  | BlobBytes int int
  | NoObserver
  | ObserverInstalled
  | Observed 'e

type_synonym ('r, 'e) observer = "int \<Rightarrow> int \<Rightarrow> 'r \<Rightarrow> 'e option \<times> 'r"

record ('r, 'e) KVBlobStore =
  kv_m :: "(byte list \<times> byte list) list"
  kv_bytes :: int
  kv_retention :: "('r, 'e) observer option"

definition newKVBlobStore :: "('r, 'e) KVBlobStore" where
  "newKVBlobStore = \<lparr>kv_m = [], kv_bytes = 0, kv_retention = None\<rparr>"

definition SetRetentionLimit ::
  "('r, 'e) observer option \<Rightarrow> ('r, 'e) KVBlobStore \<Rightarrow> 'r \<Rightarrow> 'e blobError option \<times> ('r, 'e) KVBlobStore \<times> 'r" where
  "SetRetentionLimit limit s r =
    (case limit of
       None \<Rightarrow> (Some NoObserver, s, r)
     | Some f \<Rightarrow>
         if kv_retention s \<noteq> None then (Some ObserverInstalled, s, r)
         else
           (case f (kv_bytes s) (int (length (kv_m s))) r of
              (Some e, r) \<Rightarrow> (Some (Observed e), s, r)
            | (None, r) \<Rightarrow> (None, s\<lparr>kv_retention := Some f\<rparr>, r)))"

definition ClearRetentionLimit :: "('r, 'e) KVBlobStore \<Rightarrow> 'r \<Rightarrow> ('r, 'e) KVBlobStore \<times> 'r" where
  "ClearRetentionLimit s r =
    (case kv_retention s of
       None \<Rightarrow> (s, r)
     | Some f \<Rightarrow> (case f 0 0 r of (_, r) \<Rightarrow> (s\<lparr>kv_retention := None\<rparr>, r)))"

definition blob_put ::
  "byte list \<Rightarrow> byte list \<Rightarrow> ('r, 'e) KVBlobStore \<Rightarrow> 'r \<Rightarrow> 'e blobError option \<times> ('r, 'e) KVBlobStore \<times> 'r" where
  "blob_put key data s r =
    (if length key \<noteq> cursorBlobIDLen then (Some (BlobID (length key)), s, r)
     else
       let size = int (length data);
           old = map_of (kv_m s) key
       in
         if old = None \<and> int (length (kv_m s)) \<ge> cursorBlobStoreEntriesMax then (Some BlobEntries, s, r)
         else
           let base = (case old of None \<Rightarrow> kv_bytes s | Some b \<Rightarrow> kv_bytes s - int (length b)) in
           if size > cursorBlobStoreBytesMax - base then (Some (BlobBytes size base), s, r)
           else
             let entries = int (length (kv_m s)) + (if old = None then 1 else 0) in
             (case (case kv_retention s of None \<Rightarrow> (None, r) | Some f \<Rightarrow> f (base + size) entries r) of
                (Some e, r) \<Rightarrow> (Some (Observed e), s, r)
              | (None, r) \<Rightarrow> (None, s\<lparr>kv_m := aput key data (kv_m s), kv_bytes := base + size\<rparr>, r)))"

definition blob_get :: "byte list \<Rightarrow> ('r, 'e) KVBlobStore \<Rightarrow> byte list option" where
  "blob_get key s = (if length key \<noteq> cursorBlobIDLen then None else map_of (kv_m s) key)"

definition RetainedBytes :: "('r, 'e) KVBlobStore \<Rightarrow> int" where
  "RetainedBytes s = kv_bytes s"

definition RetainedEntries :: "('r, 'e) KVBlobStore \<Rightarrow> int" where
  "RetainedEntries s = int (length (kv_m s))"

text \<open>The loop of \<^verbatim>\<open>cursorBlobsForHistory\<close> from index \<open>i\<close>; the error carries the index of the blob.\<close>

fun history_loop ::
  "nat \<Rightarrow> byte list list \<Rightarrow> byte list list \<Rightarrow> ('r, 'e) KVBlobStore \<Rightarrow> 'r
    \<Rightarrow> (nat \<times> 'e blobError + ('r, 'e) KVBlobStore) \<times> 'r" where
  "history_loop i digests [] s r = (Inr s, r)"
| "history_loop i digests (b # blobs) s r =
    (if length digests \<le> i then history_loop (i + 1) digests blobs s r
     else
       (case blob_put (digests ! i) b s r of
          (Some e, s, r) \<Rightarrow> (Inl (i, e), r)
        | (None, s, r) \<Rightarrow> history_loop (i + 1) digests blobs s r))"

definition cursorBlobsForHistory ::
  "byte list list \<Rightarrow> byte list list \<Rightarrow> 'r \<Rightarrow> (nat \<times> 'e blobError + ('r, 'e) KVBlobStore) \<times> 'r" where
  "cursorBlobsForHistory digests blobs r = history_loop 0 digests blobs newKVBlobStore r"

subsection \<open>Framing\<close>

text \<open>\<^verbatim>\<open>binary.BigEndian.PutUint32\<close> after the zero flag byte.\<close>

definition frame_header :: "byte list \<Rightarrow> byte list" where
  "frame_header payload =
    (let l = (word_of_nat (length payload) :: uint32)
     in [0, ucast (drop_bit 24 l), ucast (drop_bit 16 l), ucast (drop_bit 8 l), ucast l])"

definition AppendConnectEnvelope :: "byte list \<Rightarrow> byte list \<Rightarrow> byte list" where
  "AppendConnectEnvelope dst msg = (let dst = dst @ frame_header msg in dst @ msg)"

datatype 'x ioError = ErrShortWrite | WriteError 'x

type_synonym ('w, 'x) Writer = "byte list \<Rightarrow> 'w \<Rightarrow> int \<times> 'x option \<times> 'w"

record ('w, 'x) streamWriter =
  sw_w :: 'w
  sw_err :: "'x ioError option"

function writeAll :: "('w, 'x) Writer \<Rightarrow> 'w \<Rightarrow> byte list \<Rightarrow> 'x ioError option \<times> 'w" where
  "writeAll Write w p =
    (if p = [] then (None, w)
     else
       (case Write p w of (m, err, w) \<Rightarrow>
         (case err of
            Some x \<Rightarrow> (Some (WriteError x), w)
          | None \<Rightarrow> if m \<le> 0 then (Some ErrShortWrite, w) else writeAll Write w (drop (nat m) p))))"
  by pat_completeness auto

termination writeAll
  by (relation "measure (\<lambda>(Write, w, p). length p)") auto

declare writeAll.simps [simp del]

definition writeFramed ::
  "('w, 'x) Writer \<Rightarrow> byte list \<Rightarrow> ('w, 'x) streamWriter \<Rightarrow> 'x ioError option \<times> ('w, 'x) streamWriter" where
  "writeFramed Write payload s =
    (case sw_err s of
       Some e \<Rightarrow> (Some e, s)
     | None \<Rightarrow>
         (case writeAll Write (sw_w s) (frame_header payload) of
            (Some e, w) \<Rightarrow> (Some e, s\<lparr>sw_w := w, sw_err := Some e\<rparr>)
          | (None, w) \<Rightarrow>
              if length payload > 0 then
                (case writeAll Write w payload of
                   (Some e, w) \<Rightarrow> (Some e, s\<lparr>sw_w := w, sw_err := Some e\<rparr>)
                 | (None, w) \<Rightarrow> (None, s\<lparr>sw_w := w\<rparr>))
              else (None, s\<lparr>sw_w := w\<rparr>)))"

subsection \<open>The handler\<close>

datatype ('e, 'x) kvError =
    KvDecode protoError
  | GetArgsDecode protoError
  | SetArgsDecode protoError
  | BlobCache "'e blobError"
  | ReplyWrite "'x ioError"

definition kv_get_reply ::
  "('w, 'x) Writer \<Rightarrow> uint64 \<Rightarrow> protoField \<Rightarrow> ('w, 'x) streamWriter \<Rightarrow> ('r, 'e) KVBlobStore
    \<Rightarrow> ('e, 'x) kvError option \<times> ('w, 'x) streamWriter" where
  "kv_get_reply Write i g sw blobs =
    (case fst (subFields (Some g) None) of
       Inl e \<Rightarrow> (Some (GetArgsDecode e), sw)
     | Inr args \<Rightarrow>
         let data = (case firstField args 1 of
                       None \<Rightarrow> []
                     | Some b \<Rightarrow> (case blob_get (pf_raw b) blobs of None \<Rightarrow> [] | Some blob \<Rightarrow> blob))
         in (case writeFramed Write (encodeKvGetBlobResult i data) sw of
               (e, sw) \<Rightarrow> (map_option ReplyWrite e, sw)))"

definition kv_set_reply ::
  "('w, 'x) Writer \<Rightarrow> uint64 \<Rightarrow> protoField \<Rightarrow> ('w, 'x) streamWriter \<Rightarrow> ('r, 'e) KVBlobStore \<Rightarrow> 'r
    \<Rightarrow> ('e, 'x) kvError option \<times> ('w, 'x) streamWriter \<times> ('r, 'e) KVBlobStore \<times> 'r" where
  "kv_set_reply Write i f sw blobs r =
    (case fst (subFields (Some f) None) of
       Inl e \<Rightarrow> (Some (SetArgsDecode e), sw, blobs, r)
     | Inr args \<Rightarrow>
         (case (case (firstField args 1, firstField args 2) of
                  (Some bid, Some bdata) \<Rightarrow> blob_put (pf_raw bid) (pf_raw bdata) blobs r
                | _ \<Rightarrow> (None, blobs, r)) of
            (Some e, blobs, r) \<Rightarrow> (Some (BlobCache e), sw, blobs, r)
          | (None, blobs, r) \<Rightarrow>
              (case writeFramed Write (encodeKvSetBlobAck i) sw of
                 (e, sw) \<Rightarrow> (map_option ReplyWrite e, sw, blobs, r))))"

definition handleKvServerMessage ::
  "('w, 'x) Writer \<Rightarrow> protoField option \<Rightarrow> ('w, 'x) streamWriter \<Rightarrow> ('r, 'e) KVBlobStore \<Rightarrow> 'r
    \<Rightarrow> ('e, 'x) kvError option \<times> ('w, 'x) streamWriter \<times> ('r, 'e) KVBlobStore \<times> 'r" where
  "handleKvServerMessage Write kvField sw blobs r =
    (case fst (subFields kvField None) of
       Inl e \<Rightarrow> (Some (KvDecode e), sw, blobs, r)
     | Inr kv \<Rightarrow>
         let i = (case firstField kv fKvMessageID of None \<Rightarrow> 0 | Some f \<Rightarrow> pf_n f) in
         (case firstField kv 2 of
            Some g \<Rightarrow> (case kv_get_reply Write i g sw blobs of (e, sw) \<Rightarrow> (e, sw, blobs, r))
          | None \<Rightarrow>
              (case firstField kv 3 of
                 Some f \<Rightarrow> kv_set_reply Write i f sw blobs r
               | None \<Rightarrow> (None, sw, blobs, r))))"

section \<open>The store's invariant\<close>

definition kv_total :: "(byte list \<times> byte list) list \<Rightarrow> int" where
  "kv_total m = (\<Sum>kv\<leftarrow>m. int (length (snd kv)))"

text \<open>
  A blob per 32-byte digest, the exact byte count, and both caps.
\<close>

definition kv_ok :: "('r, 'e) KVBlobStore \<Rightarrow> bool" where
  "kv_ok s \<longleftrightarrow> distinct (akeys (kv_m s)) \<and> (\<forall>k \<in> set (akeys (kv_m s)). length k = cursorBlobIDLen) \<and>
    kv_bytes s = kv_total (kv_m s) \<and> kv_bytes s \<le> cursorBlobStoreBytesMax \<and>
    int (length (kv_m s)) \<le> cursorBlobStoreEntriesMax"

lemma kv_total_aput:
  "distinct (akeys m) \<Longrightarrow> kv_total (aput k v m) =
    (case map_of m k of None \<Rightarrow> kv_total m | Some b \<Rightarrow> kv_total m - int (length b)) + int (length v)"
  by (induction k v m rule: aput.induct) (auto simp: kv_total_def split: option.splits)

lemma kv_ok_new: "kv_ok newKVBlobStore"
  by (simp add: kv_ok_def newKVBlobStore_def kv_total_def cursorBlobStoreBytesMax_def cursorBlobStoreEntriesMax_def)

lemma kv_ok_retention:
  "SetRetentionLimit limit s r = (e, s', r') \<Longrightarrow> kv_ok s \<Longrightarrow> kv_ok s'"
  "ClearRetentionLimit s r = (s', r') \<Longrightarrow> kv_ok s \<Longrightarrow> kv_ok s'"
  by (auto simp: SetRetentionLimit_def ClearRetentionLimit_def kv_ok_def
      split: option.splits if_splits prod.splits)

lemma blob_put_refused: "blob_put k v s r = (Some e, s', r') \<Longrightarrow> s' = s"
  by (auto simp: blob_put_def Let_def split: if_splits option.splits prod.splits)

lemma blob_put_accepted:
  assumes "blob_put k v s r = (None, s', r')" "kv_ok s"
  shows "length k = cursorBlobIDLen" "kv_m s' = aput k v (kv_m s)"
    and "kv_bytes s' = kv_total (kv_m s')" "kv_bytes s' \<le> cursorBlobStoreBytesMax"
    and "int (length (kv_m s')) \<le> cursorBlobStoreEntriesMax"
  using assms
  by (cases "map_of (kv_m s) k";
      auto simp: blob_put_def Let_def kv_ok_def kv_total_aput length_aput_map_of split: if_splits option.splits prod.splits)+

lemma blob_put_ok:
  assumes "blob_put k v s r = (e, s', r')" "kv_ok s" shows "kv_ok s'"
proof (cases e)
  case None
  note a = blob_put_accepted [OF assms(1) [unfolded None] assms(2)]
  then show ?thesis
    using assms(2) by (auto simp: kv_ok_def)
next
  case (Some x)
  then show ?thesis
    using assms blob_put_refused [of k v s r x s' r'] by simp
qed

lemma kv_total_nonneg: "0 \<le> kv_total m"
  by (induction m) (auto simp: kv_total_def)

lemma kv_total_aput_ge: "int (length v) \<le> kv_total (aput k v m)"
  using kv_total_nonneg by (induction k v m rule: aput.induct) (auto simp: kv_total_def add_increasing)

lemma blob_put_size:
  assumes "blob_put k v s r = (None, s', r')" "kv_ok s" shows "int (length v) \<le> cursorBlobStoreBytesMax"
proof -
  have "int (length v) \<le> kv_total (kv_m s')"
    unfolding blob_put_accepted(2) [OF assms] by (rule kv_total_aput_ge)
  then show ?thesis
    using blob_put_accepted(3,4) [OF assms] by simp
qed

section \<open>Writing\<close>

text \<open>
  A writer that never fails, as \<^verbatim>\<open>io.Writer\<close> documents it: some of the bytes are written, in order, and \<open>out\<close> is
  everything that has been.
\<close>

definition reliable :: "('w, 'x) Writer \<Rightarrow> ('w \<Rightarrow> byte list) \<Rightarrow> bool" where
  "reliable Write out \<longleftrightarrow> (\<forall>p w. p \<noteq> [] \<longrightarrow>
    (\<exists>m w'. Write p w = (m, None, w') \<and> 0 < m \<and> m \<le> int (length p) \<and> out w' = out w @ take (nat m) p))"

lemma writeAll_reliable:
  assumes "reliable Write out"
  shows "\<exists>w'. writeAll Write w p = (None, w') \<and> out w' = out w @ p"
proof (induction "length p" arbitrary: p w rule: less_induct)
  case less
  show ?case
  proof (cases "p = []")
    case True
    then show ?thesis by (simp add: writeAll.simps)
  next
    case False
    then obtain m w' where w: "Write p w = (m, None, w')" "0 < m" "out w' = out w @ take (nat m) p"
      using assms unfolding reliable_def by blast
    moreover obtain w'' where "writeAll Write w' (drop (nat m) p) = (None, w'')"
      "out w'' = out w' @ drop (nat m) p"
      using less [of "drop (nat m) p" w'] w False by auto
    ultimately show ?thesis
      using False by (simp add: writeAll.simps [of Write w])
  qed
qed

lemma writeFramed_reliable:
  assumes "reliable Write out" "sw_err s = None"
  obtains s' where "writeFramed Write p s = (None, s')" "sw_err s' = None"
    "out (sw_w s') = out (sw_w s) @ AppendConnectEnvelope [] p"
proof -
  obtain w1 where w1: "writeAll Write (sw_w s) (frame_header p) = (None, w1)"
    "out w1 = out (sw_w s) @ frame_header p"
    using writeAll_reliable [OF assms(1)] by blast
  obtain w2 where w2: "writeAll Write w1 p = (None, w2)" "out w2 = out w1 @ p"
    using writeAll_reliable [OF assms(1)] by blast
  have "\<exists>s'. writeFramed Write p s = (None, s') \<and> sw_err s' = None \<and>
    out (sw_w s') = out (sw_w s) @ AppendConnectEnvelope [] p"
    using w1 w2 assms(2) by (cases "p = []") (auto simp: writeFramed_def AppendConnectEnvelope_def Let_def)
  then show thesis using that by blast
qed

text \<open>A stream that has failed stays silent.\<close>

lemma writeFramed_dead: "sw_err s = Some e \<Longrightarrow> writeFramed Write p s = (Some e, s)"
  by (simp add: writeFramed_def)

lemma writeFramed_sticky: "writeFramed Write p s = (Some e, s') \<Longrightarrow> sw_err s' = Some e"
  by (auto simp: writeFramed_def split: option.splits prod.splits if_splits)

section \<open>Serving a run\<close>

lemma subFields_bytes: "fst (subFields (Some (bytes_field k b)) None) = parseProtoFields b"
  by (simp add: subFields_def bytes_field_def parseProtoFields_def)

text \<open>What the upstream sends to store and to fetch a blob.\<close>

definition set_blob_msg :: "uint32 \<Rightarrow> byte list \<Rightarrow> byte list \<Rightarrow> protoField" where
  "set_blob_msg i key data = bytes_field 4 (foldl write_put []
    [PutUint32 1 i, PutMessage 3 (foldl write_put [] [PutBytes 1 key, PutBytes 2 data])])"

definition get_blob_msg :: "uint32 \<Rightarrow> byte list \<Rightarrow> protoField" where
  "get_blob_msg i key = bytes_field 4 (foldl write_put []
    [PutUint32 1 i, PutMessage 2 (foldl write_put [] [PutBytes 1 key])])"

lemma field_sels [simp]:
  "pf_num (bytes_field k b) = k" "pf_raw (bytes_field k b) = b"
  "pf_num (varint_field k v) = k" "pf_n (varint_field k v) = v"
  by (simp_all add: bytes_field_def varint_field_def)

lemma set_blob_parse:
  assumes "length key < 2 ^ 60" "length data < 2 ^ 60"
  shows "handleKvServerMessage Write (Some (set_blob_msg i key data)) sw s r =
    kv_set_reply Write (ucast i) (bytes_field 3 (foldl write_put [] [PutBytes 1 key, PutBytes 2 data])) sw s r"
proof -
  have "length (foldl write_put [] [PutBytes 1 key, PutBytes 2 data]) < 2 ^ 63"
    unfolding write_puts_size
    using assms field_sizes(1) [of 1 "length key"] field_sizes(1) [of 2 "length data"] by simp
  then have "parseProtoFields (foldl write_put []
      [PutUint32 1 i, PutMessage 3 (foldl write_put [] [PutBytes 1 key, PutBytes 2 data])]) =
    Inr (put_fields (PutUint32 1 i) @ [bytes_field 3 (foldl write_put [] [PutBytes 1 key, PutBytes 2 data])])"
    by (subst parse_puts) (auto simp: word_less_nat_alt)
  then show ?thesis
    unfolding handleKvServerMessage_def set_blob_msg_def subFields_bytes by simp
qed

lemma get_blob_parse:
  assumes "length key < 2 ^ 60"
  shows "handleKvServerMessage Write (Some (get_blob_msg i key)) sw s r =
    (case kv_get_reply Write (ucast i) (bytes_field 2 (foldl write_put [] [PutBytes 1 key])) sw s of
       (e, sw) \<Rightarrow> (e, sw, s, r))"
proof -
  have "length (foldl write_put [] [PutBytes 1 key]) < 2 ^ 63"
    unfolding write_puts_size using assms field_sizes(1) [of 1 "length key"] by simp
  then have "parseProtoFields (foldl write_put [] [PutUint32 1 i, PutMessage 2 (foldl write_put [] [PutBytes 1 key])]) =
    Inr (put_fields (PutUint32 1 i) @ [bytes_field 2 (foldl write_put [] [PutBytes 1 key])])"
    by (subst parse_puts) (auto simp: word_less_nat_alt)
  then show ?thesis
    unfolding handleKvServerMessage_def get_blob_msg_def subFields_bytes by simp
qed

lemma set_args_parse:
  assumes "length key < 2 ^ 60" "length data < 2 ^ 60"
  shows "parseProtoFields (foldl write_put [] [PutBytes 1 key, PutBytes 2 data]) = Inr [bytes_field 1 key, bytes_field 2 data]"
  using assms by (subst parse_puts) (auto simp: word_less_nat_alt)

lemma kv_set_reply_puts:
  assumes "length key < 2 ^ 60" "length data < 2 ^ 60"
  shows "kv_set_reply Write i (bytes_field 3 (foldl write_put [] [PutBytes 1 key, PutBytes 2 data])) sw s r =
    (case blob_put key data s r of
       (Some e, s', r') \<Rightarrow> (Some (BlobCache e), sw, s', r')
     | (None, s', r') \<Rightarrow>
         (case writeFramed Write (encodeKvSetBlobAck i) sw of (e, sw) \<Rightarrow> (map_option ReplyWrite e, sw, s', r')))"
  unfolding kv_set_reply_def subFields_bytes set_args_parse [OF assms] by simp

lemma kv_get_reply_gets:
  assumes "length key < 2 ^ 60"
  shows "kv_get_reply Write i (bytes_field 2 (foldl write_put [] [PutBytes 1 key])) sw s =
    (case writeFramed Write (encodeKvGetBlobResult i (case blob_get key s of None \<Rightarrow> [] | Some b \<Rightarrow> b)) sw of
       (e, sw) \<Rightarrow> (map_option ReplyWrite e, sw))"
proof -
  have "parseProtoFields (foldl write_put [] [PutBytes 1 key]) = Inr [bytes_field 1 key]"
    using assms by (subst parse_puts) (auto simp: word_less_nat_alt)
  then show ?thesis
    unfolding kv_get_reply_def subFields_bytes by simp
qed

text \<open>
  What the upstream reads from the reply to a get request, by the parser of the same wire format: the \<^verbatim>\<open>blob_data\<close> of
  the result, whose absence means that the blob was not found.
\<close>

definition reply_blob :: "byte list \<Rightarrow> byte list option" where
  "reply_blob reply =
    (case parseProtoFields reply of
       Inl e \<Rightarrow> None
     | Inr msg \<Rightarrow>
         (case fst (subFields (firstField msg fAgentClientMessageKvClientMessage) None) of
            Inl e \<Rightarrow> None
          | Inr kv \<Rightarrow>
              (case fst (subFields (firstField kv fKvClientGetBlobResult) None) of
                 Inl e \<Rightarrow> None
               | Inr res \<Rightarrow> map_option pf_raw (firstField res fGetBlobResultBlobData))))"

lemma reply_blob_get:
  assumes "length blob < 2 ^ 60"
  shows "reply_blob (encodeKvGetBlobResult i blob) = (if blob = [] then None else Some blob)"
proof -
  note reply = kv_reply [OF assms, of i, unfolded one_message_def]
  have "parseProtoFields (if blob = [] then [] else appendBytes [] fGetBlobResultBlobData blob) =
      Inr (if blob = [] then [] else [bytes_field fGetBlobResultBlobData blob])"
    using parse_puts [of "[]"] parse_puts [of "[PutBytes fGetBlobResultBlobData blob]"] assms by (auto simp: word_less_nat_alt)
  then show ?thesis
    using reply unfolding reply_blob_def by (auto simp: subFields_bytes kv_body_def)
qed

text \<open>The blob a request for a digest finds; none and the empty one look alike.\<close>

abbreviation found_blob :: "byte list \<Rightarrow> ('r, 'e) KVBlobStore \<Rightarrow> byte list" where
  "found_blob key s \<equiv> (case blob_get key s of None \<Rightarrow> [] | Some b \<Rightarrow> b)"

lemma found_blob_size: "kv_ok s \<Longrightarrow> int (length (found_blob key s)) \<le> cursorBlobStoreBytesMax"
proof -
  assume ok: "kv_ok s"
  have "(k, b) \<in> set m \<Longrightarrow> int (length b) \<le> kv_total m" for k b m
    using kv_total_nonneg by (induction m) (auto simp: kv_total_def add_increasing add_increasing2)
  then have "blob_get key s = Some b \<Longrightarrow> int (length b) \<le> kv_total (kv_m s)" for b
    by (auto simp: blob_get_def split: if_splits dest: map_of_SomeD)
  then show ?thesis
    using ok kv_total_nonneg [of "kv_m s"] by (fastforce simp: kv_ok_def split: option.split)
qed

lemma get_request_served:
  assumes "kv_ok s" "reliable Write out" "sw_err sw = None" "length key < 2 ^ 60"
  shows "\<exists>sw'. handleKvServerMessage Write (Some (get_blob_msg j key)) sw s r = (None, sw', s, r) \<and>
      out (sw_w sw') = out (sw_w sw) @ AppendConnectEnvelope [] (encodeKvGetBlobResult (ucast j) (found_blob key s))"
    and "reply_blob (encodeKvGetBlobResult (ucast j) (found_blob key s)) = (if found_blob key s = [] then None else Some (found_blob key s))"
proof -
  obtain sw' where "writeFramed Write (encodeKvGetBlobResult (ucast j) (found_blob key s)) sw = (None, sw')"
    "out (sw_w sw') = out (sw_w sw) @ AppendConnectEnvelope [] (encodeKvGetBlobResult (ucast j) (found_blob key s))"
    using writeFramed_reliable [OF assms(2,3)] by blast
  then show "\<exists>sw'. handleKvServerMessage Write (Some (get_blob_msg j key)) sw s r = (None, sw', s, r) \<and>
      out (sw_w sw') = out (sw_w sw) @ AppendConnectEnvelope [] (encodeKvGetBlobResult (ucast j) (found_blob key s))"
    by (simp add: get_blob_parse [OF assms(4), unfolded kv_get_reply_gets [OF assms(4)]])
  show "reply_blob (encodeKvGetBlobResult (ucast j) (found_blob key s)) = (if found_blob key s = [] then None else Some (found_blob key s))"
    using found_blob_size [OF assms(1), of key] by (intro reply_blob_get) (simp add: cursorBlobStoreBytesMax_def)
qed

text \<open>
  C37. A blob the upstream stores is served when it asks for it. On a healthy stream, a set request whose blob
  the store accepts writes exactly one frame, the acknowledgement with the request's id. From then on a get request for any
  digest writes exactly one frame, with its own id, and leaves the store as it is; the upstream reads from that frame
  the new blob for its digest and for every other digest the blob stored there before, and not-found where there is none. The one
  exception is the empty blob: the store keeps it, but its reply has no data and reads as not-found. The store keeps one blob
  per 32-byte digest, its exact byte count, and both its caps. A set request whose
  blob the store refuses changes nothing, writes nothing and returns the refusal.
\<close>

theorem stored_blob_is_served:
  assumes "kv_ok s" "reliable Write out" "sw_err sw = None"
    and "length key < 2 ^ 60" "length data < 2 ^ 60"
  shows "case blob_put key data s r of
      (Some e, s', r') \<Rightarrow>
        handleKvServerMessage Write (Some (set_blob_msg i key data)) sw s r = (Some (BlobCache e), sw, s, r')
    | (None, s', r') \<Rightarrow>
        kv_ok s' \<and> length key = 32 \<and>
        (\<exists>sw'.
          handleKvServerMessage Write (Some (set_blob_msg i key data)) sw s r = (None, sw', s', r') \<and>
          out (sw_w sw') = out (sw_w sw) @ AppendConnectEnvelope [] (encodeKvSetBlobAck (ucast i)) \<and>
          (\<forall>k. length k < 2 ^ 60 \<longrightarrow>
            (let b = (if k = key then data else found_blob k s);
                 reply = encodeKvGetBlobResult (ucast j) b
             in reply_blob reply = (if b = [] then None else Some b) \<and>
                (\<exists>sw''. handleKvServerMessage Write (Some (get_blob_msg j k)) sw' s' r' = (None, sw'', s', r') \<and>
                  out (sw_w sw'') = out (sw_w sw') @ AppendConnectEnvelope [] reply))))"
proof (cases "blob_put key data s r")
  case (fields e s' r')
  note set_msg = set_blob_parse [OF assms(4,5), unfolded kv_set_reply_puts [OF assms(4,5)]]
  show ?thesis
  proof (cases e)
    case (Some x)
    then show ?thesis
      using fields blob_put_refused [of key data s r x s' r']
      by (simp add: set_msg)
  next
    case None
    note put = blob_put_accepted(1,2) [OF fields [unfolded None] assms(1)]
    obtain sw' where w: "writeFramed Write (encodeKvSetBlobAck (ucast i)) sw = (None, sw')" "sw_err sw' = None"
      "out (sw_w sw') = out (sw_w sw) @ AppendConnectEnvelope [] (encodeKvSetBlobAck (ucast i))"
      using writeFramed_reliable [OF assms(2,3)] by blast
    note ok = blob_put_ok [OF fields assms(1)]
    have found: "found_blob k s' = (if k = key then data else found_blob k s)" for k
      using put by (simp add: blob_get_def)
    have "\<forall>k. length k < 2 ^ 60 \<longrightarrow>
            (let b = (if k = key then data else found_blob k s);
                 reply = encodeKvGetBlobResult (ucast j) b
             in reply_blob reply = (if b = [] then None else Some b) \<and>
                (\<exists>sw''. handleKvServerMessage Write (Some (get_blob_msg j k)) sw' s' r' = (None, sw'', s', r') \<and>
                  out (sw_w sw'') = out (sw_w sw') @ AppendConnectEnvelope [] reply))"
      unfolding found [symmetric] Let_def
      by (intro allI impI conjI get_request_served [OF ok assms(2) w(2)])
    then show ?thesis
      using fields None put(1) ok w by (simp add: cursorBlobIDLen_def set_msg)
  qed
qed

text \<open>A writer that keeps everything, two bytes at a time.\<close>

definition demo_write :: "(byte list, unit) Writer" where
  "demo_write p w = (min 2 (int (length p)), None, w @ take 2 p)"

lemma demo_write_reliable: "reliable demo_write (\<lambda>w. w)"
  by (auto simp: reliable_def demo_write_def min_def nat_le_eq_zle)

abbreviation demo_stream :: "(byte list, unit) streamWriter" where
  "demo_stream \<equiv> \<lparr>sw_w = [], sw_err = None\<rparr>"

definition demo_store :: "(unit, unit) KVBlobStore" where
  "demo_store = \<lparr>kv_m = [(replicate 32 7, [1, 2, 3])], kv_bytes = 3, kv_retention = None\<rparr>"

lemma demo_put: "blob_put (replicate 32 7) [1, 2, 3] newKVBlobStore () = (None, demo_store, ())"
  by (simp add: blob_put_def newKVBlobStore_def cursorBlobIDLen_def cursorBlobStoreEntriesMax_def
      cursorBlobStoreBytesMax_def demo_store_def)

theorem stored_blob_is_served_witness:
  "\<exists>sw' sw''.
     handleKvServerMessage demo_write (Some (set_blob_msg 5 (replicate 32 7) [1, 2, 3])) demo_stream newKVBlobStore () =
       (None, sw', demo_store, ()) \<and>
     sw_w sw' = AppendConnectEnvelope [] (encodeKvSetBlobAck 5) \<and>
     handleKvServerMessage demo_write (Some (get_blob_msg 6 (replicate 32 7))) sw' demo_store () =
       (None, sw'', demo_store, ()) \<and>
     sw_w sw'' = sw_w sw' @ AppendConnectEnvelope [] (encodeKvGetBlobResult 6 [1, 2, 3]) \<and>
     reply_blob (encodeKvGetBlobResult 6 [1, 2, 3]) = Some [1, 2, 3]"
proof -
  obtain sw' where sw': "handleKvServerMessage demo_write (Some (set_blob_msg 5 (replicate 32 7) [1, 2, 3])) demo_stream newKVBlobStore () =
       (None, sw', demo_store, ())" "sw_w sw' = AppendConnectEnvelope [] (encodeKvSetBlobAck 5)"
    and get: "\<forall>k :: byte list. length k < 2 ^ 60 \<longrightarrow>
      (let b = (if k = replicate 32 7 then [1, 2, 3] else found_blob k (newKVBlobStore :: (unit, unit) KVBlobStore));
           reply = encodeKvGetBlobResult 6 b
       in reply_blob reply = (if b = [] then None else Some b) \<and>
          (\<exists>sw''. handleKvServerMessage demo_write (Some (get_blob_msg 6 k)) sw' demo_store () = (None, sw'', demo_store, ()) \<and>
            sw_w sw'' = sw_w sw' @ AppendConnectEnvelope [] reply))"
    using stored_blob_is_served [where s = "newKVBlobStore :: (unit, unit) KVBlobStore" and sw = demo_stream and
        key = "replicate 32 7" and data = "[1, 2, 3]" and r = "()" and i = 5 and j = 6,
        OF kv_ok_new demo_write_reliable]
    unfolding demo_put by auto
  from get [rule_format, of "replicate 32 7"] sw' show ?thesis by (auto simp: Let_def)
qed

end
