(* ===== verification/Cursor_Run.thy ===== *)
theory Cursor_Run
  imports Blob_Store "HOL-Library.Multiset"
begin

text \<open>
  What a Cursor run retains (\<^verbatim>\<open>internal/format/cursor_run.go\<close>): the tool calls that await a result and the events
  on their way from the pump to the turn driver, their byte accounting, their caps, and the observers that a
  store installs while the run is parked.

  \<^item> Each operation is one critical section of the run's lock. \<^verbatim>\<open>pushEvent\<close> has two: \<open>pushEvent\<close> reserves the bytes,
    and \<open>cancelEvent\<close> is the branch in which \<^verbatim>\<open>Close\<close> wins the select. The channel between them carries the event to
    the driver, which calls \<open>releaseEvent\<close>.
  \<^item> \<^verbatim>\<open>failClosedLocked\<close> records the reason and closes the run in one step.
  \<^item> The values of an event's delta are an \<open>evValue\<close>: a number of any Go type is \<open>ENum\<close>, \<^verbatim>\<open>[]any\<close> is \<open>EList\<close>,
    \<^verbatim>\<open>[]map[string]any\<close> is \<open>EMaps\<close>, and a type the walker does not know is \<open>EOther\<close>. An error is its message and whether it
    wraps \<^verbatim>\<open>metrics.ErrMetricRange\<close>.
\<close>

section \<open>Definitions\<close>

subsection \<open>Sizes\<close>

definition cursorRunEventBytesMax :: int where
  "cursorRunEventBytesMax = 64 * 2 ^ 20"

definition cursorRunPendingCap :: int where
  "cursorRunPendingCap = 4096"

definition cursorRunPendingBytesMax :: int where
  "cursorRunPendingBytesMax = 64 * 2 ^ 20"

definition CursorRunRetainedBytesMax :: int where
  "CursorRunRetainedBytesMax = cursorRunPendingBytesMax + cursorRunEventBytesMax"

definition cursorRunEventValueDepthMax :: nat where
  "cursorRunEventValueDepthMax = 16"

definition cursorRunEventSizeLimit :: int where
  "cursorRunEventSizeLimit = cursorRunEventBytesMax + 1"

definition cursorRunAddSize :: "int \<Rightarrow> int \<Rightarrow> int" where
  "cursorRunAddSize m add =
    (if add \<le> 0 then m
     else if m \<ge> cursorRunEventSizeLimit - add then cursorRunEventSizeLimit
     else m + add)"

datatype evValue =
    ENil
  | EString "byte list"
  | EBytes "byte list"
  | EBool bool
  | ENum
  | EMap "(byte list \<times> evValue) list"
  | EList "evValue list"
  | EMaps "evValue list"
  | EOther

fun cursorRunValueSize :: "evValue \<Rightarrow> nat \<Rightarrow> int"
  and map_size :: "(byte list \<times> evValue) list \<Rightarrow> nat \<Rightarrow> int \<Rightarrow> int"
  and list_size :: "evValue list \<Rightarrow> nat \<Rightarrow> int \<Rightarrow> int" where
  "cursorRunValueSize v depth =
    (if depth > cursorRunEventValueDepthMax then 0
     else
       (case v of
          ENil \<Rightarrow> 0
        | EString s \<Rightarrow> cursorRunAddSize 0 (int (length s))
        | EBytes s \<Rightarrow> cursorRunAddSize 0 (int (length s))
        | EBool b \<Rightarrow> 1
        | ENum \<Rightarrow> 8
        | EMap kvs \<Rightarrow> map_size kvs depth 0
        | EList vs \<Rightarrow> list_size vs depth 0
        | EMaps vs \<Rightarrow> list_size vs depth 0
        | EOther \<Rightarrow> 0))"
| "map_size [] depth m = m"
| "map_size ((k, v) # kvs) depth m =
    (let m = cursorRunAddSize m (int (length k));
         m = cursorRunAddSize m (cursorRunValueSize v (depth + 1))
     in if m \<ge> cursorRunEventSizeLimit then cursorRunEventSizeLimit else map_size kvs depth m)"
| "list_size [] depth m = m"
| "list_size (v # vs) depth m =
    (let m = cursorRunAddSize m (cursorRunValueSize v (depth + 1))
     in if m \<ge> cursorRunEventSizeLimit then cursorRunEventSizeLimit else list_size vs depth m)"

record CursorToolCall =
  tc_CallID :: "byte list"
  tc_Name :: "byte list"
  tc_Args :: "byte list"
  tc_execID :: uint64
  tc_execIDStr :: "byte list"

definition cursorRunToolCallSize :: "CursorToolCall \<Rightarrow> int" where
  "cursorRunToolCallSize call =
    (let m = cursorRunAddSize 0 (int (length (tc_CallID call)));
         m = cursorRunAddSize m (int (length (tc_Name call)));
         m = cursorRunAddSize m (int (length (tc_Args call)));
         m = cursorRunAddSize m (int (length (tc_execIDStr call)))
     in m)"

datatype evKind = evDelta | evToolCall | evDone | evErr

datatype evError = EvError (ee_msg: "byte list") (ee_range: bool)

record runEvent =
  ev_kind :: evKind
  ev_delta :: evValue
  ev_toolCall :: "CursorToolCall option"
  ev_err :: "evError option"
  ev_size :: int

definition cursorRunEventSize :: "runEvent \<Rightarrow> int" where
  "cursorRunEventSize ev =
    (let m = cursorRunValueSize (ev_delta ev) 0;
         m = (case ev_toolCall ev of None \<Rightarrow> m | Some call \<Rightarrow> cursorRunAddSize m (cursorRunToolCallSize call));
         m = (case ev_err ev of None \<Rightarrow> m | Some e \<Rightarrow> cursorRunAddSize m (int (length (ee_msg e))))
     in m)"

subsection \<open>The run\<close>

datatype 'e runError =
    RunEventBytes int int
  | RunPendingCap
  | RunPendingBytes int int
  | RunRetention 'e
  | RunClosed
  | RunLimitInstalled
  | RunNoObserver
  | RunBlobLimit "'e blobError"

record ('r, 'e) CursorRun =
  rn_closed :: bool
  rn_pending :: "(byte list \<times> CursorToolCall) list"
  rn_pendingBytes :: int
  rn_queuedBytes :: int
  rn_closeErr :: "'e runError option"
  rn_retention :: "(int \<Rightarrow> 'r \<Rightarrow> 'e option \<times> 'r) option"
  rn_blobs :: "('r, 'e) KVBlobStore"
  rn_usagePrompt :: int
  rn_usageDeltaSum :: int
  rn_turnEnded :: bool

definition NewCursorRun :: "('r, 'e) KVBlobStore option \<Rightarrow> ('r, 'e) CursorRun" where
  "NewCursorRun blobs =
    \<lparr>rn_closed = False, rn_pending = [], rn_pendingBytes = 0, rn_queuedBytes = 0, rn_closeErr = None,
     rn_retention = None, rn_blobs = (case blobs of None \<Rightarrow> newKVBlobStore | Some b \<Rightarrow> b),
     rn_usagePrompt = 0, rn_usageDeltaSum = 0, rn_turnEnded = False\<rparr>"

definition run_Close :: "('r, 'e) CursorRun \<Rightarrow> ('r, 'e) CursorRun" where
  "run_Close run = (if \<not> rn_closed run then run\<lparr>rn_closed := True\<rparr> else run)"

definition failClosedLocked :: "'e runError \<Rightarrow> ('r, 'e) CursorRun \<Rightarrow> ('r, 'e) CursorRun" where
  "failClosedLocked err run =
    run_Close (if rn_closeErr run = None then run\<lparr>rn_closeErr := Some err\<rparr> else run)"

definition notifyRetentionLocked :: "int \<Rightarrow> ('r, 'e) CursorRun \<Rightarrow> 'r \<Rightarrow> 'e option \<times> 'r" where
  "notifyRetentionLocked tot run r = (case rn_retention run of None \<Rightarrow> (None, r) | Some f \<Rightarrow> f tot r)"

text \<open>The event with its size, and whether its bytes are reserved.\<close>

definition pushEvent :: "runEvent \<Rightarrow> ('r, 'e) CursorRun \<Rightarrow> 'r \<Rightarrow> bool \<times> runEvent \<times> ('r, 'e) CursorRun \<times> 'r" where
  "pushEvent ev run r =
    (let ev = ev\<lparr>ev_size := cursorRunEventSize ev\<rparr> in
     if rn_closed run then (False, ev, run, r)
     else if ev_size ev > cursorRunEventBytesMax - rn_queuedBytes run then
       (False, ev, failClosedLocked (RunEventBytes (ev_size ev) (rn_queuedBytes run)) run, r)
     else
       (case notifyRetentionLocked (rn_pendingBytes run + rn_queuedBytes run + ev_size ev) run r of
          (Some e, r) \<Rightarrow> (False, ev, failClosedLocked (RunRetention e) run, r)
        | (None, r) \<Rightarrow> (True, ev, run\<lparr>rn_queuedBytes := rn_queuedBytes run + ev_size ev\<rparr>, r)))"

definition cancelEvent :: "runEvent \<Rightarrow> ('r, 'e) CursorRun \<Rightarrow> 'r \<Rightarrow> ('r, 'e) CursorRun \<times> 'r" where
  "cancelEvent ev run r =
    (let run = run\<lparr>rn_queuedBytes := rn_queuedBytes run - ev_size ev\<rparr>;
         run = (if rn_queuedBytes run < 0 then run\<lparr>rn_queuedBytes := 0\<rparr> else run)
     in (run, snd (notifyRetentionLocked (rn_pendingBytes run + rn_queuedBytes run) run r)))"

definition releaseEvent :: "runEvent \<Rightarrow> ('r, 'e) CursorRun \<Rightarrow> 'r \<Rightarrow> ('r, 'e) CursorRun \<times> 'r" where
  "releaseEvent ev run r =
    (if ev_size ev = 0 then (run, r)
     else
       let run = run\<lparr>rn_queuedBytes := rn_queuedBytes run - ev_size ev\<rparr>;
           run = (if rn_queuedBytes run < 0 then run\<lparr>rn_queuedBytes := 0\<rparr> else run)
       in (run, snd (notifyRetentionLocked (rn_pendingBytes run + rn_queuedBytes run) run r)))"

definition addPending :: "CursorToolCall \<Rightarrow> ('r, 'e) CursorRun \<Rightarrow> 'r \<Rightarrow> bool \<times> ('r, 'e) CursorRun \<times> 'r" where
  "addPending call run r =
    (let size = cursorRunToolCallSize call in
     if rn_closed run then (False, run, r)
     else
       let old = map_of (rn_pending run) (tc_CallID call) in
       if old = None \<and> int (length (rn_pending run)) \<ge> cursorRunPendingCap then
         (False, failClosedLocked RunPendingCap run, r)
       else
         let base = (if rn_pendingBytes run < 0 then 0 else rn_pendingBytes run);
             base = (case old of
                       None \<Rightarrow> base
                     | Some c \<Rightarrow> if base - cursorRunToolCallSize c < 0 then 0 else base - cursorRunToolCallSize c)
         in
           if size > cursorRunPendingBytesMax - base then
             (False, failClosedLocked (RunPendingBytes size base) run, r)
           else
             (case notifyRetentionLocked (base + size + rn_queuedBytes run) run r of
                (Some e, r) \<Rightarrow> (False, failClosedLocked (RunRetention e) run, r)
              | (None, r) \<Rightarrow>
                  (True, run\<lparr>rn_pending := aput (tc_CallID call) call (rn_pending run), rn_pendingBytes := base + size\<rparr>, r)))"

definition retainedBytesLocked :: "('r, 'e) CursorRun \<Rightarrow> int" where
  "retainedBytesLocked run =
    (let tot = (if rn_pendingBytes run < 0 then 0 else rn_pendingBytes run);
         tot = tot + rn_queuedBytes run
     in if tot < 0 then 0 else tot)"

definition takePendingLocked ::
  "byte list \<Rightarrow> ('r, 'e) CursorRun \<Rightarrow> 'r \<Rightarrow> CursorToolCall option \<times> ('r, 'e) CursorRun \<times> 'r" where
  "takePendingLocked i run r =
    (case map_of (rn_pending run) i of
       None \<Rightarrow> (None, run, r)
     | Some call \<Rightarrow>
         let run = run\<lparr>rn_pending := adel i (rn_pending run),
                       rn_pendingBytes := rn_pendingBytes run - cursorRunToolCallSize call\<rparr>;
             run = (if rn_pendingBytes run < 0 then run\<lparr>rn_pendingBytes := 0\<rparr> else run)
         in (Some call, run, snd (notifyRetentionLocked (rn_pendingBytes run + rn_queuedBytes run) run r)))"

definition run_SetRetentionLimit ::
  "(int \<Rightarrow> 'r \<Rightarrow> 'e option \<times> 'r) option \<Rightarrow> ('r, 'e) observer option \<Rightarrow> ('r, 'e) CursorRun \<Rightarrow> 'r
    \<Rightarrow> 'e runError option \<times> ('r, 'e) CursorRun \<times> 'r" where
  "run_SetRetentionLimit stream blobs run r =
    (if rn_closed run then (Some RunClosed, run, r)
     else if rn_retention run \<noteq> None then (Some RunLimitInstalled, run, r)
     else if stream = None \<and> blobs = None then (Some RunNoObserver, run, r)
     else
       (case (case stream of None \<Rightarrow> (None, r) | Some f \<Rightarrow> f (retainedBytesLocked run) r) of
          (Some e, r) \<Rightarrow> (Some (RunRetention e), run, r)
        | (None, r) \<Rightarrow>
            (case (case blobs of
                     None \<Rightarrow> (None, rn_blobs run, r)
                   | Some b \<Rightarrow> SetRetentionLimit (Some b) (rn_blobs run) r) of
               (Some e, bs, r) \<Rightarrow>
                 (Some (RunBlobLimit e), run, (case stream of None \<Rightarrow> r | Some f \<Rightarrow> snd (f 0 r)))
             | (None, bs, r) \<Rightarrow> (None, run\<lparr>rn_retention := stream, rn_blobs := bs\<rparr>, r))))"

definition ClearRetentionLimits :: "('r, 'e) CursorRun \<Rightarrow> 'r \<Rightarrow> ('r, 'e) CursorRun \<times> 'r" where
  "ClearRetentionLimits run r =
    (case (case rn_retention run of
             None \<Rightarrow> (run, r)
           | Some f \<Rightarrow> (run\<lparr>rn_retention := None\<rparr>, snd (f 0 r))) of
       (run, r) \<Rightarrow>
         (case ClearRetentionLimit (rn_blobs run) r of (bs, r) \<Rightarrow> (run\<lparr>rn_blobs := bs\<rparr>, r)))"

definition PendingBytes :: "('r, 'e) CursorRun \<Rightarrow> int" where
  "PendingBytes run = (if rn_pendingBytes run < 0 then 0 else rn_pendingBytes run)"

definition QueuedBytes :: "('r, 'e) CursorRun \<Rightarrow> int" where
  "QueuedBytes run = (if rn_queuedBytes run < 0 then 0 else rn_queuedBytes run)"

definition PendingToolCallIDs :: "('r, 'e) CursorRun \<Rightarrow> byte list list" where
  "PendingToolCallIDs run = akeys (rn_pending run)"

text \<open>The pump's handler stores a pushed blob in the run's own store.\<close>

definition run_put_blob ::
  "byte list \<Rightarrow> byte list \<Rightarrow> ('r, 'e) CursorRun \<Rightarrow> 'r \<Rightarrow> 'e blobError option \<times> ('r, 'e) CursorRun \<times> 'r" where
  "run_put_blob key data run r =
    (case blob_put key data (rn_blobs run) r of (e, bs, r) \<Rightarrow> (e, run\<lparr>rn_blobs := bs\<rparr>, r))"

section \<open>Sizes are bounded and exact below the limit\<close>

lemma limit_pos [simp]: "0 < cursorRunEventSizeLimit" "cursorRunEventBytesMax < cursorRunEventSizeLimit"
  "cursorRunPendingBytesMax < cursorRunEventSizeLimit"
  by (simp_all add: cursorRunEventSizeLimit_def cursorRunEventBytesMax_def cursorRunPendingBytesMax_def)

definition in_limit :: "int \<Rightarrow> bool" where
  "in_limit m \<longleftrightarrow> 0 \<le> m \<and> m \<le> cursorRunEventSizeLimit"

lemma in_limit_simps [simp]: "in_limit 0" "in_limit 1" "in_limit 8" "in_limit cursorRunEventSizeLimit"
  by (simp_all add: in_limit_def cursorRunEventSizeLimit_def cursorRunEventBytesMax_def)

lemma in_limit_add [simp]: "in_limit m \<Longrightarrow> in_limit (cursorRunAddSize m a)"
  by (simp add: in_limit_def cursorRunAddSize_def)

lemma in_limit_value:
  "in_limit (cursorRunValueSize v d)"
  "in_limit m \<Longrightarrow> in_limit (map_size kvs d m)"
  "in_limit m \<Longrightarrow> in_limit (list_size vs d m)"
  by (induction v d and kvs d m and vs d m rule: cursorRunValueSize_map_size_list_size.induct)
    (auto simp: Let_def split: evValue.splits)

lemma in_limit_call [simp]: "in_limit (cursorRunToolCallSize c)"
  by (simp add: cursorRunToolCallSize_def Let_def)

lemma in_limit_event [simp]: "in_limit (cursorRunEventSize ev)"
  using in_limit_value(1) [of "ev_delta ev" 0]
  by (simp add: cursorRunEventSize_def Let_def split: option.splits del: cursorRunValueSize.simps)

lemma size_nonneg [simp]: "0 \<le> cursorRunToolCallSize c" "0 \<le> cursorRunEventSize ev"
  using in_limit_call [of c] in_limit_event [of ev] by (simp_all add: in_limit_def)

lemma cursorRunToolCallSize_exact:
  "cursorRunToolCallSize c < cursorRunEventSizeLimit \<Longrightarrow> cursorRunToolCallSize c =
    int (length (tc_CallID c) + length (tc_Name c) + length (tc_Args c) + length (tc_execIDStr c))"
  by (auto simp: cursorRunToolCallSize_def cursorRunAddSize_def Let_def split: if_splits)

section \<open>The accounts of one run\<close>

definition pending_total :: "(byte list \<times> CursorToolCall) list \<Rightarrow> int" where
  "pending_total m = (\<Sum>kc\<leftarrow>m. cursorRunToolCallSize (snd kc))"

text \<open>
  \<open>Q\<close> are the sizes of the events that are reserved and not yet released or cancelled.
\<close>

definition run_ok :: "int multiset \<Rightarrow> ('r, 'e) CursorRun \<Rightarrow> bool" where
  "run_ok Q run \<longleftrightarrow>
    distinct (akeys (rn_pending run)) \<and> (\<forall>kc \<in> set (rn_pending run). fst kc = tc_CallID (snd kc)) \<and>
    rn_pendingBytes run = pending_total (rn_pending run) \<and> rn_pendingBytes run \<le> cursorRunPendingBytesMax \<and>
    int (length (rn_pending run)) \<le> cursorRunPendingCap \<and>
    rn_queuedBytes run = sum_mset Q \<and> (\<forall>q \<in># Q. 0 \<le> q) \<and> rn_queuedBytes run \<le> cursorRunEventBytesMax \<and>
    kv_ok (rn_blobs run)"

abbreviation retained :: "('r, 'e) CursorRun \<Rightarrow> int" where
  "retained run \<equiv> rn_pendingBytes run + rn_queuedBytes run"

lemma pending_total_nonneg: "0 \<le> pending_total m"
  by (induction m) (auto simp: pending_total_def)

lemma pending_total_aput:
  "distinct (akeys m) \<Longrightarrow> pending_total (aput k c m) =
    pending_total m - (case map_of m k of None \<Rightarrow> 0 | Some b \<Rightarrow> cursorRunToolCallSize b) + cursorRunToolCallSize c"
  by (induction k c m rule: aput.induct) (auto simp: pending_total_def split: option.splits)

lemma pending_total_adel:
  "distinct (akeys m) \<Longrightarrow> map_of m k = Some c \<Longrightarrow> pending_total (adel k m) = pending_total m - cursorRunToolCallSize c"
proof (induction m)
  case (Cons p m)
  then show ?case
    by (cases p) (auto simp: pending_total_def adel_Cons adel_absent)
qed simp

lemma pending_total_le: "map_of m k = Some c \<Longrightarrow> cursorRunToolCallSize c \<le> pending_total m"
proof (induction m)
  case (Cons p m)
  then show ?case
    using pending_total_nonneg [of m] by (cases p) (auto simp: pending_total_def split: if_splits intro: add_increasing)
qed simp

lemma sum_mset_nonneg_int: "(\<forall>q \<in># Q. 0 \<le> q) \<Longrightarrow> 0 \<le> sum_mset (Q :: int multiset)"
  by (induction Q) auto

lemma run_ok_nonneg:
  assumes "run_ok Q run" shows "0 \<le> rn_pendingBytes run" "0 \<le> rn_queuedBytes run"
  using assms pending_total_nonneg sum_mset_nonneg_int [of Q] by (auto simp: run_ok_def)

lemma retainedBytesLocked_ok [simp]: "run_ok Q run \<Longrightarrow> retainedBytesLocked run = retained run"
  using run_ok_nonneg [of Q run] by (simp add: retainedBytesLocked_def Let_def)

lemma run_ok_outstanding: "run_ok (add_mset q Q) run \<Longrightarrow> 0 \<le> q \<and> q \<le> rn_queuedBytes run"
  using sum_mset_nonneg_int [of Q] by (simp add: run_ok_def)

lemma close_simps [simp]:
  "rn_pending (failClosedLocked e run) = rn_pending run" "rn_pendingBytes (failClosedLocked e run) = rn_pendingBytes run"
  "rn_queuedBytes (failClosedLocked e run) = rn_queuedBytes run" "rn_blobs (failClosedLocked e run) = rn_blobs run"
  "rn_retention (failClosedLocked e run) = rn_retention run"
  "rn_pending (run_Close run) = rn_pending run" "rn_pendingBytes (run_Close run) = rn_pendingBytes run"
  "rn_queuedBytes (run_Close run) = rn_queuedBytes run" "rn_blobs (run_Close run) = rn_blobs run"
  "rn_retention (run_Close run) = rn_retention run"
  by (simp_all add: failClosedLocked_def run_Close_def)

lemma run_ok_close [simp]: "run_ok Q (failClosedLocked e run) = run_ok Q run" "run_ok Q (run_Close run) = run_ok Q run"
  by (simp_all add: run_ok_def)

lemma run_ok_new: "kv_ok b \<Longrightarrow> run_ok {#} (NewCursorRun (Some b))" "run_ok {#} (NewCursorRun None)"
  by (simp_all add: run_ok_def NewCursorRun_def pending_total_def kv_ok_new cursorRunPendingBytesMax_def
      cursorRunPendingCap_def cursorRunEventBytesMax_def)

lemma pushEvent_ok:
  assumes "pushEvent ev run r = (ok, ev', run', r')" "run_ok Q run"
  shows "run_ok (if ok then add_mset (ev_size ev') Q else Q) run'"
  using assms
  by (auto simp: pushEvent_def Let_def run_ok_def split: if_splits prod.splits option.splits)

lemma settle_ok:
  assumes "run_ok (add_mset (ev_size ev) Q) run" shows "run_ok Q (fst (cancelEvent ev run r))" "run_ok Q (fst (releaseEvent ev run r))"
  using assms run_ok_outstanding [OF assms] sum_mset_nonneg_int [of Q]
  by (auto simp: cancelEvent_def releaseEvent_def Let_def run_ok_def)

lemma addPending_ok:
  assumes "addPending call run r = (ok, run', r')" "run_ok Q run" shows "run_ok Q run'"
proof (cases ok)
  case False
  then show ?thesis
    using assms by (auto simp: addPending_def Let_def split: if_splits prod.splits option.splits)
next
  case True
  let ?m = "rn_pending run" and ?k = "tc_CallID call"
  define base where "base = rn_pendingBytes run - (case map_of ?m ?k of None \<Rightarrow> 0 | Some c \<Rightarrow> cursorRunToolCallSize c)"
  have "0 \<le> rn_pendingBytes run" "map_of ?m ?k = Some c \<Longrightarrow> cursorRunToolCallSize c \<le> rn_pendingBytes run" for c
    using run_ok_nonneg [OF assms(2)] pending_total_le [of ?m ?k] assms(2) by (auto simp: run_ok_def)
  then have run': "run' = run\<lparr>rn_pending := aput ?k call ?m, rn_pendingBytes := base + cursorRunToolCallSize call\<rparr>"
    "cursorRunToolCallSize call \<le> cursorRunPendingBytesMax - base"
    "map_of ?m ?k = None \<Longrightarrow> int (length ?m) < cursorRunPendingCap"
    using assms(1) True by (auto simp: addPending_def Let_def base_def split: if_splits prod.splits option.splits)
  then show ?thesis
    using assms(2) set_aput_subset [of ?k call ?m]
    by (auto simp: run_ok_def base_def pending_total_aput length_aput_map_of split: option.splits)
qed

lemma takePendingLocked_ok:
  assumes "takePendingLocked i run r = (c, run', r')" "run_ok Q run" shows "run_ok Q run'"
proof (cases "map_of (rn_pending run) i")
  case None
  then show ?thesis using assms by (simp add: takePendingLocked_def)
next
  case (Some call)
  let ?m = "rn_pending run"
  have m: "distinct (akeys ?m)" "rn_pendingBytes run = pending_total ?m"
    using assms(2) by (auto simp: run_ok_def)
  have "set (adel i ?m) \<subseteq> set ?m"
    by (auto simp: adel_def)
  moreover have "pending_total (adel i ?m) = pending_total ?m - cursorRunToolCallSize call"
    by (rule pending_total_adel [OF m(1) Some])
  moreover have "0 \<le> pending_total (adel i ?m)"
    by (rule pending_total_nonneg)
  moreover have "run' = run\<lparr>rn_pending := adel i ?m, rn_pendingBytes := pending_total (adel i ?m)\<rparr>"
    using assms(1) Some m(2) calculation(2,3) by (auto simp: takePendingLocked_def Let_def)
  ultimately show ?thesis
    using assms(2) size_nonneg(1) [of call] length_adel_le [of i ?m] distinct_akeys_adel [OF m(1), of i]
    by (auto simp: run_ok_def simp del: size_nonneg)
qed

lemma run_put_blob_ok:
  assumes "run_put_blob k v run r = (e, run', r')" "run_ok Q run" shows "run_ok Q run'"
  using assms blob_put_ok [of k v "rn_blobs run" r] by (auto simp: run_put_blob_def run_ok_def split: prod.splits)

lemma ClearRetentionLimits_ok: "run_ok Q run \<Longrightarrow> run_ok Q (fst (ClearRetentionLimits run r))"
  using kv_ok_retention(2) by (fastforce simp: ClearRetentionLimits_def run_ok_def split: option.splits prod.splits)

lemma run_SetRetentionLimit_ok:
  assumes "run_SetRetentionLimit f g run r = (e, run', r')" "run_ok Q run" shows "run_ok Q run'"
  using assms kv_ok_retention(1)
  by (fastforce simp: run_SetRetentionLimit_def run_ok_def split: option.splits prod.splits if_splits)

text \<open>A growth is either committed after its new total was accepted, or refused, with nothing changed but the closing.\<close>

definition turned_down :: "('r, 'e) CursorRun \<Rightarrow> 'r \<Rightarrow> ('r, 'e) CursorRun \<Rightarrow> 'r \<Rightarrow> bool" where
  "turned_down run r run' r' \<longleftrightarrow> (run' = run \<or> (\<exists>e. run' = failClosedLocked e run)) \<and>
    (r' = r \<or> (\<exists>m e. notifyRetentionLocked m run r = (Some e, r')))"

lemma pushEvent_result:
  assumes "pushEvent ev run r = (ok, ev', run', r')"
  shows "if ok then notifyRetentionLocked (retained run + ev_size ev') run r = (None, r') \<and> 0 \<le> ev_size ev' \<and>
      run' = run\<lparr>rn_queuedBytes := rn_queuedBytes run + ev_size ev'\<rparr>
    else turned_down run r run' r'"
  using assms unfolding turned_down_def
  by (auto simp: pushEvent_def Let_def split: if_splits prod.splits option.splits)

lemma addPending_result:
  assumes "addPending call run r = (ok, run', r')" "run_ok Q run"
  shows "if ok then notifyRetentionLocked (retained run') run r = (None, r') \<and> rn_retention run' = rn_retention run \<and>
      rn_blobs run' = rn_blobs run
    else turned_down run r run' r'"
  using assms(1) run_ok_nonneg [OF assms(2)] unfolding turned_down_def
  by (auto simp: addPending_def Let_def split: if_splits prod.splits option.splits)

lemma notify_updates [simp]:
  "notifyRetentionLocked m (run\<lparr>rn_queuedBytes := q\<rparr>) r = notifyRetentionLocked m run r"
  "notifyRetentionLocked m (run\<lparr>rn_pending := ps, rn_pendingBytes := b\<rparr>) r = notifyRetentionLocked m run r"
  by (simp_all add: notifyRetentionLocked_def)

lemma settle_result:
  assumes "run_ok (add_mset (ev_size ev) Q) run"
  shows "cancelEvent ev run r = (run\<lparr>rn_queuedBytes := rn_queuedBytes run - ev_size ev\<rparr>,
      snd (notifyRetentionLocked (retained run - ev_size ev) run r))"
    and "releaseEvent ev run r = (if ev_size ev = 0 then (run, r) else cancelEvent ev run r)"
  using run_ok_outstanding [OF assms]
  by (simp_all add: cancelEvent_def releaseEvent_def Let_def add_diff_eq)

text \<open>What the operations on the stream bytes leave alone.\<close>

definition stream_op :: "('r, 'e) CursorRun \<Rightarrow> 'r \<Rightarrow> ('r, 'e) CursorRun \<Rightarrow> 'r \<Rightarrow> bool" where
  "stream_op run r run' r' \<longleftrightarrow> rn_blobs run' = rn_blobs run \<and> rn_retention run' = rn_retention run \<and>
    (rn_retention run = None \<longrightarrow> r' = r)"

lemma stream_op_turned_down: "turned_down run r run' r' \<Longrightarrow> stream_op run r run' r'"
  by (auto simp: turned_down_def stream_op_def notifyRetentionLocked_def)

lemma stream_ops:
  shows "pushEvent ev run r = (ok, ev', run', r') \<Longrightarrow> stream_op run r run' r'"
    and "cancelEvent ev run r = (run', r') \<Longrightarrow> stream_op run r run' r'"
    and "releaseEvent ev run r = (run', r') \<Longrightarrow> stream_op run r run' r'"
    and "addPending call run r = (ok, run', r') \<Longrightarrow> run_ok Q run \<Longrightarrow> stream_op run r run' r'"
    and "takePendingLocked i run r = (c, run', r') \<Longrightarrow> stream_op run r run' r'"
    and "stream_op run r (run_Close run) r"
  using pushEvent_result [of ev run r ok ev' run' r'] addPending_result [of call run r ok run' r' Q] stream_op_turned_down [of run r run' r']
  by (auto simp: cancelEvent_def releaseEvent_def takePendingLocked_def stream_op_def notifyRetentionLocked_def Let_def
      split: if_splits option.splits)

section \<open>Observers\<close>

text \<open>
  What a run and its blob store rely on in an observer: a total it accepts is the one it has been told
  last, a total it refuses changes nothing, and it never refuses one that does not grow. \<open>good\<close> is what the
  observer's owner keeps true across the calls.
\<close>

locale retention_observer =
  fixes obs :: "'n \<Rightarrow> 'r \<Rightarrow> 'e option \<times> 'r"
    and told :: "'r \<Rightarrow> 'n"
    and good :: "'r \<Rightarrow> bool"
    and valid :: "'n \<Rightarrow> bool"
    and shrinks :: "'n \<Rightarrow> 'n \<Rightarrow> bool"
  assumes accepted: "good r \<Longrightarrow> valid m \<Longrightarrow> obs m r = (None, r') \<Longrightarrow> good r' \<and> told r' = m"
    and refused: "good r \<Longrightarrow> obs m r = (Some e, r') \<Longrightarrow> r' = r"
    and not_refused: "good r \<Longrightarrow> valid m \<Longrightarrow> shrinks m (told r) \<Longrightarrow> \<exists>r'. obs m r = (None, r')"

text \<open>The observer of a run's stream bytes: every operation of the run keeps it informed.\<close>

locale stream_observed = retention_observer obs told good "\<lambda>m. 0 \<le> m" "\<lambda>m m'. m \<le> m'"
  for obs :: "int \<Rightarrow> 'r \<Rightarrow> 'e option \<times> 'r" and told :: "'r \<Rightarrow> int" and good :: "'r \<Rightarrow> bool"
begin

definition informed :: "('r, 'e) CursorRun \<Rightarrow> 'r \<Rightarrow> bool" where
  "informed run r \<longleftrightarrow> rn_retention run = Some obs \<and> good r \<and> told r = retained run"

lemma informed_close: "informed run r \<Longrightarrow> informed (failClosedLocked e run) r"
  "informed run r \<Longrightarrow> informed (run_Close run) r"
  by (simp_all add: informed_def)

lemma notified:
  assumes "notifyRetentionLocked m run r = (None, r')" "informed run r" "0 \<le> m"
  shows "good r' \<and> told r' = m"
  using assms accepted [of r m r'] by (simp add: informed_def notifyRetentionLocked_def)

lemma informed_turned_down:
  assumes "turned_down run r run' r'" "informed run r" shows "informed run' r'"
proof -
  have "r' = r"
    using assms refused [of r] by (auto simp: turned_down_def informed_def notifyRetentionLocked_def)
  then show ?thesis
    using assms informed_close(1) by (auto simp: turned_down_def)
qed

lemma informed_pushEvent:
  assumes "pushEvent ev run r = (ok, ev', run', r')" "run_ok Q run" "informed run r"
  shows "informed run' r'"
  using pushEvent_result [OF assms(1)] run_ok_nonneg [OF assms(2)] notified [OF _ assms(3)]
    informed_turned_down [OF _ assms(3)] assms(3)
  by (cases ok) (auto simp: informed_def add.assoc)

lemma informed_settle:
  assumes "run_ok (add_mset (ev_size ev) Q) run" "informed run r"
  shows "informed (fst (cancelEvent ev run r)) (snd (cancelEvent ev run r))"
    and "informed (fst (releaseEvent ev run r)) (snd (releaseEvent ev run r))"
proof -
  let ?m = "retained run - ev_size ev"
  have m: "0 \<le> ?m" "?m \<le> told r"
    using run_ok_outstanding [OF assms(1)] run_ok_nonneg [OF assms(1)] assms(2) by (auto simp: informed_def)
  then obtain r' where r': "notifyRetentionLocked ?m run r = (None, r')"
    using not_refused [of r ?m] assms(2) by (auto simp: informed_def notifyRetentionLocked_def)
  then show cancel: "informed (fst (cancelEvent ev run r)) (snd (cancelEvent ev run r))"
    unfolding settle_result(1) [OF assms(1)]
    using notified [OF r' assms(2) m(1)] assms(2) by (simp add: informed_def)
  then show "informed (fst (releaseEvent ev run r)) (snd (releaseEvent ev run r))"
    unfolding settle_result(2) [OF assms(1)] using assms(2) by simp
qed

lemma informed_addPending:
  assumes "addPending call run r = (ok, run', r')" "run_ok Q run" "informed run r"
  shows "informed run' r'"
  using addPending_result [OF assms(1,2)] run_ok_nonneg [OF addPending_ok [OF assms(1,2)]] notified [OF _ assms(3)]
    informed_turned_down [OF _ assms(3)] assms(3)
  by (cases ok) (auto simp: informed_def)

lemma informed_takePendingLocked:
  assumes "takePendingLocked i run r = (c, run', r')" "run_ok Q run" "informed run r"
  shows "informed run' r'"
proof (cases "map_of (rn_pending run) i")
  case None
  then show ?thesis using assms by (simp add: takePendingLocked_def)
next
  case (Some call)
  let ?b = "rn_pendingBytes run - cursorRunToolCallSize call" and ?q = "rn_queuedBytes run"
  have b: "0 \<le> ?b" "0 \<le> ?b + ?q" "?b + ?q \<le> told r"
    using pending_total_le [OF Some] run_ok_nonneg [OF assms(2)] size_nonneg(1) [of call] assms(2,3)
    by (auto simp: run_ok_def informed_def)
  then obtain r'' where r'': "obs (?b + ?q) r = (None, r'')"
    using not_refused [of r "?b + ?q"] assms(3) by (auto simp: informed_def)
  then show ?thesis
    using accepted [OF _ b(2) r''] assms(1,3) b(1) Some
    by (auto simp: takePendingLocked_def Let_def informed_def notifyRetentionLocked_def)
qed

end

text \<open>The observer of a run's blobs.\<close>

locale blobs_observed =
  retention_observer "\<lambda>m. obs (fst m) (snd m)" told good "\<lambda>m. 0 \<le> fst m \<and> 0 \<le> snd m" "\<lambda>m m'. fst m \<le> fst m' \<and> snd m \<le> snd m'"
  for obs :: "('r, 'e) observer" and told :: "'r \<Rightarrow> int \<times> int" and good :: "'r \<Rightarrow> bool"
begin

definition informed :: "('r, 'e) KVBlobStore \<Rightarrow> 'r \<Rightarrow> bool" where
  "informed s r \<longleftrightarrow> kv_retention s = Some obs \<and> good r \<and> told r = (kv_bytes s, int (length (kv_m s)))"

lemma informed_blob_put:
  assumes "blob_put k v s r = (e, s', r')" "kv_ok s" "informed s r"
  shows "informed s' r'"
proof (cases e)
  case (Some x)
  have "r' = r"
    using assms(1,3) Some refused [of r]
    by (fastforce simp: blob_put_def Let_def informed_def split: if_splits option.splits prod.splits)
  then show ?thesis
    using assms(1,3) Some blob_put_refused [of k v s r x s' r'] by simp
next
  case None
  note put = blob_put_accepted [OF assms(1) [unfolded None] assms(2)]
  have "obs (kv_bytes s') (int (length (kv_m s'))) r = (None, r') \<and> kv_retention s' = Some obs"
    using assms(1,3) None unfolding informed_def
    by (cases "map_of (kv_m s) k")
      (auto simp: blob_put_def Let_def length_aput_map_of add.commute split: if_splits prod.splits option.splits)
  moreover have "0 \<le> kv_bytes s'"
    using put(3) kv_total_nonneg by simp
  ultimately show ?thesis
    using accepted [of r "(kv_bytes s', int (length (kv_m s')))" r'] assms(3) by (simp add: informed_def)
qed

end

end
