(* ===== verification/Run_Store.thy ===== *)
theory Run_Store
  imports Cursor_Run
begin

text \<open>
  The store of parked Cursor runs (\<^verbatim>\<open>internal/proxy/cursor_store.go\<close>): the index by tool-call id, the aggregate
  budgets with the observers installed in every parked run, the lookup by the trailing ids of a request, and
  the expiry timer.

  \<^item> Runs and entries are addresses: \<open>ps_runs\<close> and \<open>ps_entry\<close> are the heap. The closures that \<^verbatim>\<open>retentionLimits\<close> makes for
    an entry keep their variables in \<open>pa_streamLast\<close> and \<open>pa_blobLast\<close> at the entry's address.
  \<^item> An operation of the store is one step; so is each operation of a run. Observers run inside the step of
    the run that calls them.
  \<^item> A goroutine that will close a swept run is an address in \<open>ps_closing\<close>. An armed timer is its deadline and its
    revision. The scope of a request is the digest itself.
\<close>

section \<open>Definitions\<close>

subsection \<open>Aggregate budgets\<close>

definition cursorRunMax :: nat where
  "cursorRunMax = 256"

definition cursorParkedBlobBytesMax :: int where
  "cursorParkedBlobBytesMax = 512 * 2 ^ 20"

definition cursorParkedBlobEntriesMax :: int where
  "cursorParkedBlobEntriesMax = 1000000"

definition cursorParkedStreamBytesMax :: int where
  "cursorParkedStreamBytesMax = 512 * 2 ^ 20"

datatype parkError = ParkedStreamBytes | ParkedBlobBytes | ParkedBlobEntries

record parkAcct =
  pa_streamBytesMax :: int
  pa_streamReserveBytes :: int
  pa_blobBytesMax :: int
  pa_blobEntriesMax :: int
  pa_streamBytes :: int
  pa_blobBytes :: int
  pa_blobEntries :: int
  pa_streamLast :: "nat \<Rightarrow> int"
  pa_blobLast :: "nat \<Rightarrow> int \<times> int"

definition parkedStreamLimit :: "parkAcct \<Rightarrow> int" where
  "parkedStreamLimit a =
    (let limit = pa_streamBytesMax a - pa_streamReserveBytes a in if limit < 0 then 0 else limit)"

definition applyStreamDelta :: "int \<Rightarrow> parkAcct \<Rightarrow> bool \<times> parkAcct" where
  "applyStreamDelta delta a =
    (if delta > 0 \<and> delta > parkedStreamLimit a - pa_streamBytes a then (False, a)
     else
       let a = a\<lparr>pa_streamBytes := pa_streamBytes a + delta\<rparr>
       in (True, if pa_streamBytes a < 0 then a\<lparr>pa_streamBytes := 0\<rparr> else a))"

definition applyBlobDelta :: "int \<Rightarrow> int \<Rightarrow> parkAcct \<Rightarrow> parkError option \<times> parkAcct" where
  "applyBlobDelta bytesDelta entriesDelta a =
    (if bytesDelta > 0 \<and> bytesDelta > pa_blobBytesMax a - pa_blobBytes a then (Some ParkedBlobBytes, a)
     else if entriesDelta > 0 \<and> entriesDelta > pa_blobEntriesMax a - pa_blobEntries a then (Some ParkedBlobEntries, a)
     else
       let a = a\<lparr>pa_blobBytes := pa_blobBytes a + bytesDelta\<rparr>;
           a = (if pa_blobBytes a < 0 then a\<lparr>pa_blobBytes := 0\<rparr> else a);
           a = a\<lparr>pa_blobEntries := pa_blobEntries a + entriesDelta\<rparr>;
           a = (if pa_blobEntries a < 0 then a\<lparr>pa_blobEntries := 0\<rparr> else a)
       in (None, a))"

definition stream_observer :: "nat \<Rightarrow> int \<Rightarrow> parkAcct \<Rightarrow> parkError option \<times> parkAcct" where
  "stream_observer e tot a =
    (let delta = tot - pa_streamLast a e in
     if delta = 0 then (None, a)
     else
       (case applyStreamDelta delta a of
          (False, a) \<Rightarrow> (Some ParkedStreamBytes, a)
        | (True, a) \<Rightarrow> (None, a\<lparr>pa_streamLast := (pa_streamLast a)(e := tot)\<rparr>)))"

definition blob_observer :: "nat \<Rightarrow> int \<Rightarrow> int \<Rightarrow> parkAcct \<Rightarrow> parkError option \<times> parkAcct" where
  "blob_observer e bytes entries a =
    (let bytesDelta = bytes - fst (pa_blobLast a e);
         entriesDelta = entries - snd (pa_blobLast a e)
     in
       if bytesDelta = 0 \<and> entriesDelta = 0 then (None, a)
       else
         (case applyBlobDelta bytesDelta entriesDelta a of
            (Some err, a) \<Rightarrow> (Some err, a)
          | (None, a) \<Rightarrow> (None, a\<lparr>pa_blobLast := (pa_blobLast a)(e := (bytes, entries))\<rparr>)))"

subsection \<open>The store\<close>

record cursorRunEntry =
  en_run :: nat
  en_scope :: "byte list"
  en_pending :: "byte list list"
  en_at :: time

record cursorRunStore =
  ps_ttl :: duration
  ps_byCall :: "((byte list \<times> byte list) \<times> nat) list"
  ps_entries :: "(nat \<times> nat) list"
  ps_timer :: "(time \<times> nat) option"
  ps_revision :: nat
  ps_acct :: parkAcct
  ps_entry :: "nat \<Rightarrow> cursorRunEntry"
  ps_runs :: "nat \<Rightarrow> (parkAcct, parkError) CursorRun"
  ps_next :: nat
  ps_closing :: "nat list"

definition newCursorRunStore :: "duration \<Rightarrow> (nat \<Rightarrow> (parkAcct, parkError) CursorRun) \<Rightarrow> cursorRunStore" where
  "newCursorRunStore ttl runs =
    \<lparr>ps_ttl = ttl, ps_byCall = [], ps_entries = [], ps_timer = None, ps_revision = 0,
     ps_acct = \<lparr>pa_streamBytesMax = cursorParkedStreamBytesMax, pa_streamReserveBytes = CursorRunRetainedBytesMax,
       pa_blobBytesMax = cursorParkedBlobBytesMax, pa_blobEntriesMax = cursorParkedBlobEntriesMax,
       pa_streamBytes = 0, pa_blobBytes = 0, pa_blobEntries = 0, pa_streamLast = (\<lambda>_. 0), pa_blobLast = (\<lambda>_. (0, 0))\<rparr>,
     ps_entry = (\<lambda>_. \<lparr>en_run = 0, en_scope = [], en_pending = [], en_at = zero_time\<rparr>), ps_runs = runs,
     ps_next = 0, ps_closing = []\<rparr>"

definition set_run :: "nat \<Rightarrow> (parkAcct, parkError) CursorRun \<Rightarrow> parkAcct \<Rightarrow> cursorRunStore \<Rightarrow> cursorRunStore" where
  "set_run i run a s = s\<lparr>ps_runs := (ps_runs s)(i := run), ps_acct := a\<rparr>"

fun remove_calls ::
  "byte list \<Rightarrow> nat \<Rightarrow> byte list list \<Rightarrow> ((byte list \<times> byte list) \<times> nat) list \<Rightarrow> ((byte list \<times> byte list) \<times> nat) list" where
  "remove_calls scope e [] byCall = byCall"
| "remove_calls scope e (i # ids) byCall =
    remove_calls scope e ids (if map_of byCall (scope, i) = Some e then adel (scope, i) byCall else byCall)"

definition removeLocked :: "nat \<Rightarrow> cursorRunStore \<Rightarrow> cursorRunStore" where
  "removeLocked e s =
    (let en = ps_entry s e in
     case ClearRetentionLimits (ps_runs s (en_run en)) (ps_acct s) of
       (run, a) \<Rightarrow>
         (set_run (en_run en) run a s)
           \<lparr>ps_entries := adel (en_run en) (ps_entries s),
            ps_byCall := remove_calls (en_scope en) e (en_pending en) (ps_byCall s)\<rparr>)"

fun sweep_loop :: "time \<Rightarrow> (nat \<times> nat) list \<Rightarrow> cursorRunStore \<Rightarrow> cursorRunStore" where
  "sweep_loop now [] s = s"
| "sweep_loop now ((i, e) # es) s =
    (if rn_closed (ps_runs s i) \<or> time_Sub now (en_at (ps_entry s e)) \<ge> ps_ttl s
     then sweep_loop now es ((removeLocked e s)\<lparr>ps_closing := ps_closing s @ [i]\<rparr>)
     else sweep_loop now es s)"

definition sweepLocked :: "time \<Rightarrow> cursorRunStore \<Rightarrow> cursorRunStore" where
  "sweepLocked now s = sweep_loop now (ps_entries s) s"

fun until_loop :: "duration \<Rightarrow> (nat \<Rightarrow> cursorRunEntry) \<Rightarrow> (nat \<times> nat) list \<Rightarrow> time \<Rightarrow> time" where
  "until_loop ttl en [] until = until"
| "until_loop ttl en ((i, e) # es) until =
    (let d = en_at (en e) + ttl in until_loop ttl en es (if IsZero until \<or> d < until then d else until))"

definition rearmLocked :: "cursorRunStore \<Rightarrow> cursorRunStore" where
  "rearmLocked s =
    (let s = s\<lparr>ps_timer := None, ps_revision := ps_revision s + 1\<rparr>;
         until = until_loop (ps_ttl s) (ps_entry s) (ps_entries s) zero_time
     in if IsZero until then s else s\<lparr>ps_timer := Some (until, ps_revision s)\<rparr>)"

text \<open>The callback of the timer that was armed at a revision.\<close>

definition expire :: "nat \<Rightarrow> time \<Rightarrow> cursorRunStore \<Rightarrow> cursorRunStore" where
  "expire revision now s = (if ps_revision s \<noteq> revision then s else rearmLocked (sweepLocked now s))"

definition UpdateTTL :: "duration \<Rightarrow> time \<Rightarrow> cursorRunStore \<Rightarrow> cursorRunStore" where
  "UpdateTTL ttl now s = rearmLocked (sweepLocked now (s\<lparr>ps_ttl := ttl\<rparr>))"

fun claim_ids ::
  "byte list \<Rightarrow> ((byte list \<times> byte list) \<times> nat) list \<Rightarrow> byte list list \<Rightarrow> byte list list \<Rightarrow> byte list list option" where
  "claim_ids scope byCall [] pending = Some pending"
| "claim_ids scope byCall (i # ids) pending =
    (if i = [] \<or> i \<in> set pending \<or> map_of byCall (scope, i) \<noteq> None then None
     else claim_ids scope byCall ids (pending @ [i]))"

fun add_calls ::
  "byte list \<Rightarrow> nat \<Rightarrow> byte list list \<Rightarrow> ((byte list \<times> byte list) \<times> nat) list \<Rightarrow> ((byte list \<times> byte list) \<times> nat) list" where
  "add_calls scope e [] byCall = byCall"
| "add_calls scope e (i # ids) byCall = add_calls scope e ids (aput (scope, i) e byCall)"

text \<open>The part of \<^verbatim>\<open>parkWith\<close> between the sweep and the deferred re-arming.\<close>

definition park_entry ::
  "byte list \<Rightarrow> nat \<Rightarrow> byte list list \<Rightarrow> time \<Rightarrow> cursorRunStore \<Rightarrow> bool \<times> cursorRunStore" where
  "park_entry scope i ids now s =
    (if length (ps_entries s) \<ge> cursorRunMax \<or> rn_closed (ps_runs s i) \<or> map_of (ps_entries s) i \<noteq> None then (False, s)
     else
       (case claim_ids scope (ps_byCall s) ids [] of
          None \<Rightarrow> (False, s)
        | Some pending \<Rightarrow>
            let e = ps_next s;
                a = (ps_acct s)\<lparr>pa_streamLast := (pa_streamLast (ps_acct s))(e := 0),
                                pa_blobLast := (pa_blobLast (ps_acct s))(e := (0, 0))\<rparr>;
                s = s\<lparr>ps_next := e + 1, ps_entry := (ps_entry s)(e :=
                  \<lparr>en_run = i, en_scope = scope, en_pending = pending, en_at = now\<rparr>)\<rparr>
            in
              (case run_SetRetentionLimit (Some (stream_observer e)) (Some (blob_observer e)) (ps_runs s i) a of
                 (Some err, run, a) \<Rightarrow> (False, set_run i run a s)
               | (None, run, a) \<Rightarrow>
                   (True, (set_run i run a s)
                      \<lparr>ps_entries := aput i e (ps_entries s),
                       ps_byCall := add_calls scope e pending (ps_byCall s)\<rparr>))))"

definition parkWith ::
  "byte list \<Rightarrow> nat \<Rightarrow> byte list list \<Rightarrow> time \<Rightarrow> time \<Rightarrow> cursorRunStore \<Rightarrow> bool \<times> cursorRunStore" where
  "parkWith scope i ids now now' s =
    (if ids = [] then (False, s)
     else (case park_entry scope i ids now' (sweepLocked now s) of (ok, s) \<Rightarrow> (ok, rearmLocked s)))"

definition park :: "byte list \<Rightarrow> nat \<Rightarrow> time \<Rightarrow> time \<Rightarrow> cursorRunStore \<Rightarrow> bool \<times> cursorRunStore" where
  "park scope i now now' s = parkWith scope i (PendingToolCallIDs (ps_runs s i)) now now' s"

fun tail_loop ::
  "byte list \<Rightarrow> ((byte list \<times> byte list) \<times> nat) list \<Rightarrow> byte list list \<Rightarrow> nat option \<Rightarrow> byte list list
    \<Rightarrow> nat option \<times> byte list list" where
  "tail_loop scope byCall [] target tail = (target, tail)"
| "tail_loop scope byCall (i # ids) target tail =
    (case map_of byCall (scope, i) of
       None \<Rightarrow> (target, tail)
     | Some e \<Rightarrow>
         (case target of
            None \<Rightarrow> tail_loop scope byCall ids (Some e) (tail @ [i])
          | Some t \<Rightarrow> if t \<noteq> e then (target, tail) else tail_loop scope byCall ids target (tail @ [i])))"

definition findByToolTail ::
  "byte list \<Rightarrow> byte list list \<Rightarrow> time \<Rightarrow> cursorRunStore \<Rightarrow> (nat \<times> byte list list) option \<times> cursorRunStore" where
  "findByToolTail scope ids now s =
    (if ids = [] then (None, s)
     else
       let s = sweepLocked now s in
       (case tail_loop scope (ps_byCall s) (rev ids) None [] of
          (None, tail) \<Rightarrow> (None, rearmLocked s)
        | (Some e, tail) \<Rightarrow>
            if rn_closed (ps_runs s (en_run (ps_entry s e))) then (None, rearmLocked s)
            else (Some (en_run (ps_entry s e), rev tail), rearmLocked (removeLocked e s))))"

definition drop_run :: "nat \<Rightarrow> cursorRunStore \<Rightarrow> cursorRunStore" where
  "drop_run i s = (case map_of (ps_entries s) i of None \<Rightarrow> s | Some e \<Rightarrow> rearmLocked (removeLocked e s))"

end
