(* ===== verification/Run_Store_Inv.thy ===== *)
theory Run_Store_Inv
  imports Run_Store
begin

text \<open>
  The invariant of the parked-run store: its aggregates are the exact sums over the parked runs, within their
  budgets; exactly the parked runs are observed; the two indexes agree. It is shown for every operation of
  the store and of the runs, in any order.
\<close>

section \<open>Aggregates\<close>

definition limits_ok :: "parkAcct \<Rightarrow> bool" where
  "limits_ok a \<longleftrightarrow> pa_streamBytesMax a = cursorParkedStreamBytesMax \<and> pa_streamReserveBytes a = CursorRunRetainedBytesMax \<and>
    pa_blobBytesMax a = cursorParkedBlobBytesMax \<and> pa_blobEntriesMax a = cursorParkedBlobEntriesMax"

text \<open>\<open>S\<close> are the entries whose observers have reported.\<close>

definition stream_ok :: "nat set \<Rightarrow> parkAcct \<Rightarrow> bool" where
  "stream_ok S a \<longleftrightarrow> (\<forall>e \<in> S. 0 \<le> pa_streamLast a e) \<and> pa_streamBytes a = (\<Sum>e\<in>S. pa_streamLast a e) \<and>
    pa_streamBytes a \<le> parkedStreamLimit a"

definition blob_ok :: "nat set \<Rightarrow> parkAcct \<Rightarrow> bool" where
  "blob_ok S a \<longleftrightarrow> (\<forall>e \<in> S. 0 \<le> fst (pa_blobLast a e) \<and> 0 \<le> snd (pa_blobLast a e)) \<and>
    pa_blobBytes a = (\<Sum>e\<in>S. fst (pa_blobLast a e)) \<and> pa_blobEntries a = (\<Sum>e\<in>S. snd (pa_blobLast a e)) \<and>
    pa_blobBytes a \<le> pa_blobBytesMax a \<and> pa_blobEntries a \<le> pa_blobEntriesMax a"

definition acct_ok :: "nat set \<Rightarrow> parkAcct \<Rightarrow> bool" where
  "acct_ok S a \<longleftrightarrow> finite S \<and> limits_ok a \<and> stream_ok S a \<and> blob_ok S a"

lemma sum_fun_upd:
  fixes f :: "'a \<Rightarrow> 'b" and g :: "'b \<Rightarrow> int"
  assumes "finite S" "e \<in> S" shows "(\<Sum>x\<in>S. g ((f(e := v)) x)) = (\<Sum>x\<in>S. g (f x)) - g (f e) + g v"
  using assms by (simp add: sum.remove [of S e])

lemma sum_member_le:
  fixes f :: "'a \<Rightarrow> int"
  assumes "finite S" "e \<in> S" "\<forall>x \<in> S. 0 \<le> f x" shows "f e \<le> (\<Sum>x\<in>S. f x)"
  using assms by (intro member_le_sum) auto

definition stream_set :: "nat \<Rightarrow> int \<Rightarrow> parkAcct \<Rightarrow> parkAcct" where
  "stream_set e m a = a\<lparr>pa_streamBytes := pa_streamBytes a + (m - pa_streamLast a e), pa_streamLast := (pa_streamLast a)(e := m)\<rparr>"

definition blob_set :: "nat \<Rightarrow> int \<times> int \<Rightarrow> parkAcct \<Rightarrow> parkAcct" where
  "blob_set e m a = a\<lparr>pa_blobBytes := pa_blobBytes a + (fst m - fst (pa_blobLast a e)),
     pa_blobEntries := pa_blobEntries a + (snd m - snd (pa_blobLast a e)), pa_blobLast := (pa_blobLast a)(e := m)\<rparr>"

lemma set_sels [simp]:
  "pa_streamLast (stream_set e m a) = (pa_streamLast a)(e := m)" "pa_blobLast (stream_set e m a) = pa_blobLast a"
  "pa_blobLast (blob_set e n a) = (pa_blobLast a)(e := n)" "pa_streamLast (blob_set e n a) = pa_streamLast a"
  "limits_ok (stream_set e m a) = limits_ok a" "limits_ok (blob_set e n a) = limits_ok a"
  "blob_ok S (stream_set e m a) = blob_ok S a" "stream_ok S (blob_set e n a) = stream_ok S a"
  by (simp_all add: stream_set_def blob_set_def limits_ok_def blob_ok_def stream_ok_def parkedStreamLimit_def)

lemma stream_observer_accepted:
  assumes "stream_observer e m a = (None, a')" "acct_ok S a" "e \<in> S" "0 \<le> m"
  shows "a' = stream_set e m a \<and> acct_ok S a'"
proof -
  let ?d = "m - pa_streamLast a e"
  have S: "finite S" "\<forall>x \<in> S. 0 \<le> pa_streamLast a x" "pa_streamBytes a = (\<Sum>x\<in>S. pa_streamLast a x)"
    "pa_streamBytes a \<le> parkedStreamLimit a"
    using assms(2) by (simp_all add: acct_ok_def stream_ok_def)
  have "0 \<le> pa_streamBytes a + ?d"
    using sum_member_le [OF S(1) assms(3) S(2)] S(3) assms(4) by simp
  then have a': "a' = stream_set e m a" and lim: "pa_streamBytes a + ?d \<le> parkedStreamLimit a"
    using assms(1) S(4)
    by (auto simp: stream_observer_def applyStreamDelta_def stream_set_def Let_def split: if_splits)
  have "stream_ok S a'"
    using S lim assms(4) sum_fun_upd [OF S(1) assms(3), of "\<lambda>x. x" "pa_streamLast a" m]
    unfolding a' stream_ok_def by (simp add: stream_set_def parkedStreamLimit_def)
  then show ?thesis
    using assms(2) a' by (simp add: acct_ok_def)
qed

lemma blob_observer_accepted:
  assumes "blob_observer e m n a = (None, a')" "acct_ok S a" "e \<in> S" "0 \<le> m" "0 \<le> n"
  shows "a' = blob_set e (m, n) a \<and> acct_ok S a'"
proof -
  let ?l = "pa_blobLast a"
  have S: "finite S" "\<forall>x \<in> S. 0 \<le> fst (?l x)" "\<forall>x \<in> S. 0 \<le> snd (?l x)"
    "pa_blobBytes a = (\<Sum>x\<in>S. fst (?l x))" "pa_blobEntries a = (\<Sum>x\<in>S. snd (?l x))"
    "pa_blobBytes a \<le> pa_blobBytesMax a" "pa_blobEntries a \<le> pa_blobEntriesMax a"
    using assms(2) by (simp_all add: acct_ok_def blob_ok_def)
  have "0 \<le> pa_blobBytes a + (m - fst (?l e))" "0 \<le> pa_blobEntries a + (n - snd (?l e))"
    using sum_member_le [OF S(1) assms(3) S(2)] sum_member_le [OF S(1) assms(3) S(3)] S(4,5) assms(4,5) by simp_all
  then have a': "a' = blob_set e (m, n) a" and lim: "pa_blobBytes a + (m - fst (?l e)) \<le> pa_blobBytesMax a"
    "pa_blobEntries a + (n - snd (?l e)) \<le> pa_blobEntriesMax a"
    using assms(1) S(6,7)
    by (auto simp: blob_observer_def applyBlobDelta_def blob_set_def Let_def split: if_splits)
  have "blob_ok S a'"
    using S lim assms(4,5) sum_fun_upd [OF S(1) assms(3), of fst ?l "(m, n)"] sum_fun_upd [OF S(1) assms(3), of snd ?l "(m, n)"]
    unfolding a' blob_ok_def by (simp add: blob_set_def)
  then show ?thesis
    using assms(2) a' by (simp add: acct_ok_def)
qed

lemma observer_refused:
  "stream_observer e m a = (Some x, a') \<Longrightarrow> a' = a \<and> pa_streamLast a e < m"
  "blob_observer e m n a = (Some x, a') \<Longrightarrow> a' = a \<and> (fst (pa_blobLast a e) < m \<or> snd (pa_blobLast a e) < n)"
  by (auto simp: stream_observer_def applyStreamDelta_def blob_observer_def applyBlobDelta_def Let_def
      split: if_splits prod.splits option.splits bool.splits)

text \<open>What an observer's calls keep: its own account may change, everything else is that of \<open>a0\<close>.\<close>

definition good_stream :: "nat set \<Rightarrow> nat \<Rightarrow> parkAcct \<Rightarrow> parkAcct \<Rightarrow> bool" where
  "good_stream S e a0 a \<longleftrightarrow> e \<in> S \<and> acct_ok S a \<and> pa_blobLast a = pa_blobLast a0 \<and>
    (\<forall>x. x \<noteq> e \<longrightarrow> pa_streamLast a x = pa_streamLast a0 x)"

definition good_blob :: "nat set \<Rightarrow> nat \<Rightarrow> parkAcct \<Rightarrow> parkAcct \<Rightarrow> bool" where
  "good_blob S e a0 a \<longleftrightarrow> e \<in> S \<and> acct_ok S a \<and> pa_streamLast a = pa_streamLast a0 \<and>
    (\<forall>x. x \<noteq> e \<longrightarrow> pa_blobLast a x = pa_blobLast a0 x)"

interpretation st: stream_observed "stream_observer e" "\<lambda>a. pa_streamLast a e" "good_stream S e a0" for S e a0
proof unfold_locales
  fix a a' :: parkAcct and m
  assume "good_stream S e a0 a" "0 \<le> m" "stream_observer e m a = (None, a')"
  then show "good_stream S e a0 a' \<and> pa_streamLast a' e = m"
    using stream_observer_accepted [of e m a a' S] by (auto simp: good_stream_def)
next
  fix a a' :: parkAcct and m x
  assume "stream_observer e m a = (Some x, a')"
  then show "a' = a"
    using observer_refused(1) by blast
next
  fix a :: parkAcct and m
  assume "m \<le> pa_streamLast a e"
  then show "\<exists>a'. stream_observer e m a = (None, a')"
    using observer_refused(1) [of e m a] by (cases "stream_observer e m a"; cases "fst (stream_observer e m a)") auto
qed

interpretation bl: blobs_observed "blob_observer e" "\<lambda>a. pa_blobLast a e" "good_blob S e a0" for S e a0
proof unfold_locales
  fix a a' :: parkAcct and m :: "int \<times> int"
  assume "good_blob S e a0 a" "0 \<le> fst m \<and> 0 \<le> snd m" "blob_observer e (fst m) (snd m) a = (None, a')"
  then show "good_blob S e a0 a' \<and> pa_blobLast a' e = m"
    using blob_observer_accepted [of e "fst m" "snd m" a a' S] by (auto simp: good_blob_def)
next
  fix a a' :: parkAcct and x and m :: "int \<times> int"
  assume "blob_observer e (fst m) (snd m) a = (Some x, a')"
  then show "a' = a"
    using observer_refused(2) by blast
next
  fix a :: parkAcct and m :: "int \<times> int"
  assume "fst m \<le> fst (pa_blobLast a e) \<and> snd m \<le> snd (pa_blobLast a e)"
  then show "\<exists>a'. blob_observer e (fst m) (snd m) a = (None, a')"
    using observer_refused(2) [of e "fst m" "snd m" a]
    by (cases "blob_observer e (fst m) (snd m) a"; cases "fst (blob_observer e (fst m) (snd m) a)") auto
qed

lemma acct_ok_insert:
  assumes "acct_ok S a" "e \<notin> S"
  shows "acct_ok (insert e S) (a\<lparr>pa_streamLast := (pa_streamLast a)(e := 0), pa_blobLast := (pa_blobLast a)(e := (0, 0))\<rparr>)"
proof -
  have "(\<Sum>x\<in>S. g ((f(e := v)) x)) = (\<Sum>x\<in>S. g (f x))" for f :: "nat \<Rightarrow> 'x" and g :: "'x \<Rightarrow> int" and v
    using assms(2) by (intro sum.cong) auto
  note this [of id "pa_streamLast a" 0, simplified] this [of fst "pa_blobLast a" "(0, 0)"] this [of snd "pa_blobLast a" "(0, 0)"]
  then show ?thesis
    using assms by (auto simp: acct_ok_def stream_ok_def blob_ok_def limits_ok_def parkedStreamLimit_def)
qed

lemma acct_ok_remove:
  assumes "acct_ok S a" "pa_streamLast a e = 0" "pa_blobLast a e = (0, 0)" shows "acct_ok (S - {e}) a"
proof -
  have "(\<Sum>x\<in>S - {e}. f x) = (\<Sum>x\<in>S. f x)" if "f e = 0" for f :: "nat \<Rightarrow> int"
    using that assms(1) by (cases "e \<in> S") (simp_all add: acct_ok_def sum_diff1)
  note this [of "pa_streamLast a"] this [of "\<lambda>x. fst (pa_blobLast a x)"] this [of "\<lambda>x. snd (pa_blobLast a x)"]
  then show ?thesis
    using assms by (simp add: acct_ok_def stream_ok_def blob_ok_def)
qed

section \<open>The invariant\<close>

abbreviation parked_entries :: "cursorRunStore \<Rightarrow> nat set" where
  "parked_entries s \<equiv> snd ` set (ps_entries s)"

definition entry_table_ok :: "cursorRunStore \<Rightarrow> bool" where
  "entry_table_ok s \<longleftrightarrow> distinct (akeys (ps_entries s)) \<and> length (ps_entries s) \<le> cursorRunMax \<and>
    (\<forall>(i, e) \<in> set (ps_entries s). en_run (ps_entry s e) = i \<and> e < ps_next s \<and>
       en_pending (ps_entry s e) \<noteq> [] \<and> distinct (en_pending (ps_entry s e)) \<and> [] \<notin> set (en_pending (ps_entry s e)))"

definition calls_ok :: "cursorRunStore \<Rightarrow> bool" where
  "calls_ok s \<longleftrightarrow> (\<forall>sc c e. map_of (ps_byCall s) (sc, c) = Some e \<longleftrightarrow>
       e \<in> parked_entries s \<and> en_scope (ps_entry s e) = sc \<and> c \<in> set (en_pending (ps_entry s e)))"

fun watched :: "nat option \<Rightarrow> (parkAcct, parkError) CursorRun \<Rightarrow> parkAcct \<Rightarrow> bool" where
  "watched None run a \<longleftrightarrow> rn_retention run = None \<and> kv_retention (rn_blobs run) = None"
| "watched (Some e) run a \<longleftrightarrow> rn_retention run = Some (stream_observer e) \<and> kv_retention (rn_blobs run) = Some (blob_observer e) \<and>
    pa_streamLast a e = retained run \<and> pa_blobLast a e = (kv_bytes (rn_blobs run), int (length (kv_m (rn_blobs run))))"

definition store_ok :: "(nat \<Rightarrow> int multiset) \<Rightarrow> cursorRunStore \<Rightarrow> bool" where
  "store_ok Q s \<longleftrightarrow> entry_table_ok s \<and> calls_ok s \<and> acct_ok (parked_entries s) (ps_acct s) \<and>
    (\<forall>i. run_ok (Q i) (ps_runs s i) \<and> watched (map_of (ps_entries s) i) (ps_runs s i) (ps_acct s))"

lemma entry_ok:
  assumes "entry_table_ok s"
  shows "map_of (ps_entries s) i = Some e \<longleftrightarrow> (i, e) \<in> set (ps_entries s)"
    and "(i, e) \<in> set (ps_entries s) \<Longrightarrow> en_run (ps_entry s e) = i \<and> e < ps_next s \<and> e \<in> parked_entries s"
  using assms by (auto simp: entry_table_ok_def image_iff intro: rev_bexI)

lemma parked_entry:
  assumes "entry_table_ok s" "e \<in> parked_entries s" shows "map_of (ps_entries s) (en_run (ps_entry s e)) = Some e"
proof -
  obtain i where "(i, e) \<in> set (ps_entries s)"
    using assms(2) by auto
  then show ?thesis
    using entry_ok [OF assms(1), of i e] by simp
qed

lemma store_okD:
  assumes "store_ok Q s"
  shows "entry_table_ok s" "calls_ok s" "acct_ok (parked_entries s) (ps_acct s)" "run_ok (Q i) (ps_runs s i)"
    and "map_of (ps_entries s) i = t \<Longrightarrow> watched t (ps_runs s i) (ps_acct s)"
    and "map_of (ps_entries s) i = Some e \<Longrightarrow> en_run (ps_entry s e) = i" "map_of (ps_entries s) i = Some e \<Longrightarrow> e < ps_next s"
    and "map_of (ps_entries s) i = Some e \<Longrightarrow> e \<in> parked_entries s"
proof -
  show ok: "entry_table_ok s" and "calls_ok s" "acct_ok (parked_entries s) (ps_acct s)" "run_ok (Q i) (ps_runs s i)"
    and "map_of (ps_entries s) i = t \<Longrightarrow> watched t (ps_runs s i) (ps_acct s)"
    using assms by (auto simp: store_ok_def)
  show "map_of (ps_entries s) i = Some e \<Longrightarrow> en_run (ps_entry s e) = i" "map_of (ps_entries s) i = Some e \<Longrightarrow> e < ps_next s"
    "map_of (ps_entries s) i = Some e \<Longrightarrow> e \<in> parked_entries s"
    using entry_ok [OF ok] by blast+
qed

lemma watched_other:
  "watched t run a \<Longrightarrow> (\<And>e. t = Some e \<Longrightarrow> pa_streamLast a' e = pa_streamLast a e \<and> pa_blobLast a' e = pa_blobLast a e) \<Longrightarrow>
    watched t run a'"
  by (cases t) auto

section \<open>Operations of a run\<close>

lemma set_run_sels [simp]:
  "ps_entries (set_run i run a s) = ps_entries s" "ps_entry (set_run i run a s) = ps_entry s"
  "ps_next (set_run i run a s) = ps_next s" "ps_byCall (set_run i run a s) = ps_byCall s"
  "ps_acct (set_run i run a s) = a" "ps_runs (set_run i run a s) = (ps_runs s)(i := run)"
  by (simp_all add: set_run_def)

lemma run_step:
  assumes ok: "store_ok Q s" and run: "run_ok q run" "watched (map_of (ps_entries s) i) run a"
    and a: "acct_ok (parked_entries s) a"
    and frame: "\<And>x. x \<in> parked_entries s \<Longrightarrow> map_of (ps_entries s) i \<noteq> Some x \<Longrightarrow>
      pa_streamLast a x = pa_streamLast (ps_acct s) x \<and> pa_blobLast a x = pa_blobLast (ps_acct s) x"
  shows "store_ok (Q(i := q)) (set_run i run a s)"
proof -
  have "watched (map_of (ps_entries s) j) (ps_runs s j) a" if "j \<noteq> i" for j
  proof (rule watched_other)
    show "watched (map_of (ps_entries s) j) (ps_runs s j) (ps_acct s)"
      by (rule store_okD(5) [OF ok refl])
    fix e assume "map_of (ps_entries s) j = Some e"
    then show "pa_streamLast a e = pa_streamLast (ps_acct s) e \<and> pa_blobLast a e = pa_blobLast (ps_acct s) e"
      using frame [of e] store_okD(6,8) [OF ok, of _ e] that by metis
  qed
  then show ?thesis
    using ok run a by (auto simp: store_ok_def entry_table_ok_def calls_ok_def)
qed

lemma stream_step:
  assumes ok: "store_ok Q s" and run: "run_ok q run" and op: "stream_op (ps_runs s i) (ps_acct s) run a"
    and informed: "\<And>S e a0. stream_observed.informed (stream_observer e) (\<lambda>a. pa_streamLast a e) (good_stream S e a0)
        (ps_runs s i) (ps_acct s) \<Longrightarrow>
      stream_observed.informed (stream_observer e) (\<lambda>a. pa_streamLast a e) (good_stream S e a0) run a"
  shows "store_ok (Q(i := q)) (set_run i run a s)"
proof (cases "map_of (ps_entries s) i")
  case None
  then have "a = ps_acct s" "watched None run a"
    using store_okD(5) [OF ok None] op by (auto simp: stream_op_def)
  then show ?thesis
    using ok None by (intro run_step [OF ok run]) (simp_all add: store_ok_def)
next
  case (Some e)
  have e: "watched (Some e) (ps_runs s i) (ps_acct s)" "e \<in> parked_entries s" "acct_ok (parked_entries s) (ps_acct s)"
    using store_okD [OF ok] Some by blast+
  have "stream_observed.informed (stream_observer e) (\<lambda>a. pa_streamLast a e) (good_stream (parked_entries s) e (ps_acct s)) run a"
    by (rule informed, use e in \<open>simp add: st.informed_def good_stream_def\<close>)
  then show ?thesis
    using e op Some by (intro run_step [OF ok run]) (auto simp: st.informed_def good_stream_def stream_op_def)
qed

lemma blob_step:
  assumes ok: "store_ok Q s" and put: "run_put_blob k v (ps_runs s i) (ps_acct s) = (err, run, a)"
  shows "store_ok Q (set_run i run a s)"
proof -
  have run: "run_ok (Q i) run"
    using run_put_blob_ok [OF put] ok by (simp add: store_ok_def)
  obtain bs where bs: "blob_put k v (rn_blobs (ps_runs s i)) (ps_acct s) = (err, bs, a)" "run = (ps_runs s i)\<lparr>rn_blobs := bs\<rparr>"
    using put by (auto simp: run_put_blob_def split: prod.splits)
  have kv: "kv_ok (rn_blobs (ps_runs s i))"
    using ok by (simp add: store_ok_def run_ok_def)
  have "store_ok (Q(i := Q i)) (set_run i run a s)"
  proof (cases "map_of (ps_entries s) i")
    case None
    then have "watched None (ps_runs s i) (ps_acct s)"
      using store_okD(5) [OF ok] by blast
    moreover have "a = ps_acct s \<and> kv_retention bs = None" if "kv_retention (rn_blobs (ps_runs s i)) = None"
      using that bs(1) by (auto simp: blob_put_def Let_def split: if_splits option.splits prod.splits)
    ultimately show ?thesis
      using ok None bs(2) by (intro run_step [OF ok run]) (auto simp: store_ok_def)
  next
    case (Some e)
    have e: "watched (Some e) (ps_runs s i) (ps_acct s)" "e \<in> parked_entries s" "acct_ok (parked_entries s) (ps_acct s)"
      using store_okD [OF ok] Some by blast+
    have "blobs_observed.informed (blob_observer e) (\<lambda>a. pa_blobLast a e) (good_blob (parked_entries s) e (ps_acct s)) bs a"
      by (rule bl.informed_blob_put [OF bs(1) kv]) (use e in \<open>simp add: bl.informed_def good_blob_def\<close>)
    then show ?thesis
      using e bs(2) Some by (intro run_step [OF ok run]) (auto simp: bl.informed_def good_blob_def)
  qed
  then show ?thesis by simp
qed

section \<open>Removing an entry\<close>

lemma set_adel_subset: "set (adel k xs) \<subseteq> set xs"
  by (auto simp: adel_def)

lemma map_of_remove_calls:
  "map_of (remove_calls sc e ids m) (sc', c) =
    (if sc' = sc \<and> c \<in> set ids \<and> map_of m (sc', c) = Some e then None else map_of m (sc', c))"
  by (induction sc e ids m rule: remove_calls.induct) auto

lemma removeLocked_sels [simp]:
  "ps_entries (removeLocked e s) = adel (en_run (ps_entry s e)) (ps_entries s)"
  "ps_byCall (removeLocked e s) = remove_calls (en_scope (ps_entry s e)) e (en_pending (ps_entry s e)) (ps_byCall s)"
  "ps_entry (removeLocked e s) = ps_entry s" "ps_next (removeLocked e s) = ps_next s" "ps_ttl (removeLocked e s) = ps_ttl s"
  "ps_timer (removeLocked e s) = ps_timer s" "ps_revision (removeLocked e s) = ps_revision s"
  "ps_closing (removeLocked e s) = ps_closing s"
  by (simp_all add: removeLocked_def Let_def set_run_def split: prod.splits)

lemma removed_parked:
  assumes "entry_table_ok s" "map_of (ps_entries s) i = Some e"
  shows "parked_entries (s\<lparr>ps_entries := adel i (ps_entries s)\<rparr>) = parked_entries s - {e}"
proof -
  note e = entry_ok [OF assms(1)]
  have ie: "(i, e) \<in> set (ps_entries s)"
    using assms(2) e(1) by blast
  have iff: "j \<noteq> i \<longleftrightarrow> x \<noteq> e" if "(j, x) \<in> set (ps_entries s)" for j x
    using e(2) [OF that, THEN conjunct1] e(2) [OF ie, THEN conjunct1] e(1) [THEN iffD2, OF that] assms(2)
    by (metis option.inject)
  have "parked_entries (s\<lparr>ps_entries := adel i (ps_entries s)\<rparr>) = snd ` {jx \<in> set (ps_entries s). snd jx \<noteq> e}"
    using iff by (fastforce simp: adel_def intro!: image_cong)
  then show ?thesis
    by auto
qed

lemma ClearRetentionLimits_watched:
  assumes "watched (Some e) run a" "acct_ok S a" "e \<in> S" "ClearRetentionLimits run a = (run', a')"
  shows "watched None run' a'" "acct_ok (S - {e}) a'"
    and "x \<noteq> e \<Longrightarrow> pa_streamLast a' x = pa_streamLast a x \<and> pa_blobLast a' x = pa_blobLast a x"
    and "rn_closed run' = rn_closed run" "retained run' = retained run"
proof -
  have nonneg: "0 \<le> pa_streamLast a e" "0 \<le> fst (pa_blobLast a e)" "0 \<le> snd (pa_blobLast a e)"
    using assms(2,3) by (auto simp: acct_ok_def stream_ok_def blob_ok_def)
  obtain a1 where a1: "stream_observer e 0 a = (None, a1)"
    using st.not_refused [of S e a a 0] nonneg assms(2,3) by (auto simp: good_stream_def)
  note s1 = stream_observer_accepted [OF a1 assms(2,3), simplified]
  obtain a2 where a2: "blob_observer e 0 0 a1 = (None, a2)"
    using bl.not_refused [of S e a1 a1 "(0, 0)"] nonneg s1 assms(3) by (auto simp: good_blob_def)
  note s2 = blob_observer_accepted [OF a2 conjunct2 [OF s1] assms(3), simplified]
  have run': "run' = run\<lparr>rn_retention := None, rn_blobs := (rn_blobs run)\<lparr>kv_retention := None\<rparr>\<rparr>" "a' = a2"
    using assms(1,4) a1 a2 by (auto simp: ClearRetentionLimits_def ClearRetentionLimit_def)
  then show "watched None run' a'" "rn_closed run' = rn_closed run" "retained run' = retained run"
    by simp_all
  show "acct_ok (S - {e}) a'"
    using conjunct1 [OF s1] s2 run'(2) by (intro acct_ok_remove) auto
  show "x \<noteq> e \<Longrightarrow> pa_streamLast a' x = pa_streamLast a x \<and> pa_blobLast a' x = pa_blobLast a x"
    using s1 s2 run'(2) by simp
qed

lemma removeLocked_ok:
  assumes ok: "store_ok Q s" and e: "map_of (ps_entries s) i = Some e"
  shows "store_ok Q (removeLocked e s)" "rn_closed (ps_runs (removeLocked e s) j) = rn_closed (ps_runs s j)"
proof -
  obtain run a where clear: "ClearRetentionLimits (ps_runs s i) (ps_acct s) = (run, a)"
    by fastforce
  note e = e store_okD(6,8) [OF ok e]
  note w = ClearRetentionLimits_watched [OF store_okD(5) [OF ok e(1)] store_okD(3) [OF ok] e(3) clear]
  have s': "ps_runs (removeLocked e s) = (ps_runs s)(i := run)" "ps_acct (removeLocked e s) = a"
    using clear e(2) by (simp_all add: removeLocked_def Let_def)
  show "rn_closed (ps_runs (removeLocked e s) j) = rn_closed (ps_runs s j)"
    using s' w(4) by simp
  note parked = removed_parked [OF store_okD(1) [OF ok] e(1), simplified]
  have "entry_table_ok (removeLocked e s)"
    using store_okD(1) [OF ok] length_adel_le [of "en_run (ps_entry s e)" "ps_entries s"]
      distinct_akeys_adel [of "ps_entries s"] set_adel_subset [of _ "ps_entries s"]
    by (fastforce simp: entry_table_ok_def)
  moreover have "calls_ok (removeLocked e s)"
    unfolding calls_ok_def removeLocked_sels e(2) parked map_of_remove_calls
  proof (intro allI)
    fix sc c x
    have "map_of (ps_byCall s) (sc, c) = Some x \<longleftrightarrow>
        x \<in> parked_entries s \<and> en_scope (ps_entry s x) = sc \<and> c \<in> set (en_pending (ps_entry s x))"
      using store_okD(2) [OF ok] unfolding calls_ok_def by blast
    then show "(if sc = en_scope (ps_entry s e) \<and> c \<in> set (en_pending (ps_entry s e)) \<and> map_of (ps_byCall s) (sc, c) = Some e
          then None else map_of (ps_byCall s) (sc, c)) = Some x \<longleftrightarrow>
        x \<in> parked_entries s - {e} \<and> en_scope (ps_entry s x) = sc \<and> c \<in> set (en_pending (ps_entry s x))"
      by (cases "x = e"; cases "map_of (ps_byCall s) (sc, c) = Some e") auto
  qed
  moreover have "run_ok (Q j) (ps_runs (removeLocked e s) j)" for j
    using store_okD(4) [OF ok, of j] ClearRetentionLimits_ok [OF store_okD(4) [OF ok, of i], of "ps_acct s"] clear s'(1) by auto
  moreover have "watched (map_of (ps_entries (removeLocked e s)) j) (ps_runs (removeLocked e s) j) a" for j
  proof (cases "j = i")
    case False
    have "watched (map_of (ps_entries s) j) (ps_runs s j) a"
      by (rule watched_other [OF store_okD(5) [OF ok refl]], rule w(3)) (use False e(2) store_okD(6) [OF ok, of j] in blast)
    then show ?thesis
      using s' e(2) False by simp
  qed (use s' e(2) w(1) in simp)
  ultimately show "store_ok Q (removeLocked e s)"
    using w(2) s'(2) e(2) parked by (simp add: store_ok_def)
qed

section \<open>Operations of the store\<close>

text \<open>Fields that the invariant does not read.\<close>

lemma store_ok_updates [simp]:
  "store_ok Q (s\<lparr>ps_ttl := t\<rparr>) = store_ok Q s" "store_ok Q (s\<lparr>ps_timer := u\<rparr>) = store_ok Q s"
  "store_ok Q (s\<lparr>ps_revision := r\<rparr>) = store_ok Q s" "store_ok Q (s\<lparr>ps_closing := c\<rparr>) = store_ok Q s"
  by (simp_all add: store_ok_def entry_table_ok_def calls_ok_def)

definition stale :: "time \<Rightarrow> cursorRunStore \<Rightarrow> nat \<times> nat \<Rightarrow> bool" where
  "stale now s ie \<longleftrightarrow> rn_closed (ps_runs s (fst ie)) \<or> time_Sub now (en_at (ps_entry s (snd ie))) \<ge> ps_ttl s"

definition swept :: "time \<Rightarrow> (nat \<times> nat) list \<Rightarrow> cursorRunStore \<Rightarrow> cursorRunStore \<Rightarrow> bool" where
  "swept now es s s' \<longleftrightarrow> ps_entry s' = ps_entry s \<and> ps_ttl s' = ps_ttl s \<and> ps_next s' = ps_next s \<and>
    ps_revision s' = ps_revision s \<and> ps_timer s' = ps_timer s \<and> (\<forall>j. rn_closed (ps_runs s' j) = rn_closed (ps_runs s j)) \<and>
    ps_entries s' = filter (\<lambda>ie. \<not> (ie \<in> set es \<and> stale now s ie)) (ps_entries s) \<and>
    ps_closing s' = ps_closing s @ map fst (filter (stale now s) es)"

lemma swept_remove:
  assumes ok: "store_ok Q s" and es: "(i, e) \<in> set (ps_entries s)" "i \<notin> fst ` set es" "stale now s (i, e)"
    and rest: "swept now es ((removeLocked e s)\<lparr>ps_closing := ps_closing s @ [i]\<rparr>) s'"
  shows "swept now ((i, e) # es) s s'"
proof -
  have mem: "map_of (ps_entries s) i = Some e"
    using es(1) entry_ok(1) [OF store_okD(1) [OF ok]] by blast
  note run = store_okD(6) [OF ok mem] and rm = removeLocked_ok(2) [OF ok mem]
  have st: "stale now ((removeLocked e s)\<lparr>ps_closing := ps_closing s @ [i]\<rparr>) = stale now s"
    by (rule ext) (simp add: stale_def rm)
  have "j \<noteq> i \<and> \<not> ((j, x) \<in> set es \<and> stale now s (j, x)) \<longleftrightarrow> \<not> ((j, x) \<in> set ((i, e) # es) \<and> stale now s (j, x))"
    if "(j, x) \<in> set (ps_entries s)" for j x
    using that es(2,3) entry_ok(1) [OF store_okD(1) [OF ok], of j x] mem by force
  then have "filter (\<lambda>ie. \<not> (ie \<in> set es \<and> stale now s ie)) (adel i (ps_entries s)) =
      filter (\<lambda>ie. \<not> (ie \<in> set ((i, e) # es) \<and> stale now s ie)) (ps_entries s)"
    unfolding adel_def filter_filter by (intro filter_cong [OF refl]) auto
  then show ?thesis
    using rest es(3) run st rm by (simp add: swept_def)
qed

lemma sweep_loop_ok:
  assumes "store_ok Q s" "set es \<subseteq> set (ps_entries s)" "distinct (akeys es)"
  shows "store_ok Q (sweep_loop now es s) \<and> swept now es s (sweep_loop now es s)"
  using assms
proof (induction now es s rule: sweep_loop.induct)
  case (2 now i e es s)
  have ie: "(i, e) \<in> set (ps_entries s)" and es: "set es \<subseteq> set (ps_entries s)" "i \<notin> fst ` set es" "distinct (akeys es)"
    using "2.prems" by auto
  show ?case
  proof (cases "stale now s (i, e)")
    case True
    have mem: "map_of (ps_entries s) i = Some e"
      using ie entry_ok(1) [OF store_okD(1) [OF "2.prems"(1)]] by blast
    then have "set es \<subseteq> set (ps_entries (removeLocked e s))"
      using es(1,2) store_okD(6) [OF "2.prems"(1)] by (force simp: adel_def)
    then show ?thesis
      using "2.IH"(1) [OF _ _ _ es(3)] True removeLocked_ok [OF "2.prems"(1) mem]
        swept_remove [OF "2.prems"(1) ie es(2) True] by (simp add: stale_def)
  next
    case False
    have "swept now es s s' \<Longrightarrow> swept now ((i, e) # es) s s'" for s'
      using False unfolding swept_def by (auto intro!: filter_cong)
    then show ?thesis
      using "2.IH"(2) [OF _ "2.prems"(1) es(1,3)] False by (simp add: stale_def)
  qed
qed (simp add: swept_def)

lemma sweepLocked_ok:
  assumes "store_ok Q s"
  shows "store_ok Q (sweepLocked now s)" "swept now (ps_entries s) s (sweepLocked now s)"
    and "ps_entries (sweepLocked now s) = filter (\<lambda>ie. \<not> stale now s ie) (ps_entries s)"
proof -
  show "store_ok Q (sweepLocked now s)" and sw: "swept now (ps_entries s) s (sweepLocked now s)"
    using sweep_loop_ok [OF assms subset_refl] store_okD(1) [OF assms] by (auto simp: sweepLocked_def entry_table_ok_def)
  then show "ps_entries (sweepLocked now s) = filter (\<lambda>ie. \<not> stale now s ie) (ps_entries s)"
    by (auto simp: swept_def intro!: filter_cong)
qed

lemma rearmLocked_ok [simp]: "store_ok Q (rearmLocked s) = store_ok Q s"
  by (simp add: rearmLocked_def Let_def)

lemma expire_ok: "store_ok Q s \<Longrightarrow> store_ok Q (expire r now s)"
  by (simp add: expire_def sweepLocked_ok(1))

lemma UpdateTTL_ok: "store_ok Q s \<Longrightarrow> store_ok Q (UpdateTTL ttl now s)"
  by (simp add: UpdateTTL_def sweepLocked_ok(1))

lemma drop_run_ok: "store_ok Q s \<Longrightarrow> store_ok Q (drop_run i s)"
  by (simp add: drop_run_def removeLocked_ok(1) split: option.split)

section \<open>Parking and finding\<close>

lemma claim_ids_Some:
  "claim_ids sc m ids pending = Some p \<Longrightarrow>
    p = pending @ ids \<and> (distinct pending \<longrightarrow> distinct p) \<and> [] \<notin> set ids \<and> (\<forall>c \<in> set ids. map_of m (sc, c) = None)"
  by (induction sc m ids pending rule: claim_ids.induct) (auto split: if_splits)

lemma map_of_add_calls:
  "map_of (add_calls sc e ids m) (sc', c) = (if sc' = sc \<and> c \<in> set ids then Some e else map_of m (sc', c))"
  by (induction sc e ids m rule: add_calls.induct) auto

text \<open>A run that is not observed takes the observers of a new entry or is left as it is, with the aggregates as before.\<close>

lemma run_SetRetentionLimit_cases:
  assumes eq: "run_SetRetentionLimit (Some (stream_observer e)) (Some (blob_observer e)) run a = (err, run', a')"
    and run: "watched None run a" "run_ok q run"
  obtains (refused) "err \<noteq> None" "run' = run" "a' = a"
  | (rolled_back) a1 where "stream_observer e (retained run) a = (None, a1)" "a' = snd (stream_observer e 0 a1)" "err \<noteq> None" "run' = run"
  | (installed) a1 where "stream_observer e (retained run) a = (None, a1)"
      "blob_observer e (kv_bytes (rn_blobs run)) (int (length (kv_m (rn_blobs run)))) a1 = (None, a')" "err = None"
      "run' = run\<lparr>rn_retention := Some (stream_observer e), rn_blobs := (rn_blobs run)\<lparr>kv_retention := Some (blob_observer e)\<rparr>\<rparr>"
  using eq run(1) retainedBytesLocked_ok [OF run(2)] observer_refused
  unfolding run_SetRetentionLimit_def SetRetentionLimit_def
  by (fastforce split: if_splits prod.splits option.splits)

lemma run_SetRetentionLimit_watched:
  assumes run: "watched None run a" "run_ok q run" and a: "acct_ok S a" "e \<in> S" "pa_streamLast a e = 0" "pa_blobLast a e = (0, 0)"
    and eq: "run_SetRetentionLimit (Some (stream_observer e)) (Some (blob_observer e)) run a = (err, run', a')"
  shows "acct_ok S a' \<and> (\<forall>x. x \<noteq> e \<longrightarrow> pa_streamLast a' x = pa_streamLast a x \<and> pa_blobLast a' x = pa_blobLast a x) \<and>
    (if err = None then watched (Some e) run' a' else run' = run \<and> pa_streamLast a' e = 0 \<and> pa_blobLast a' e = (0, 0))"
  using eq run
proof (cases rule: run_SetRetentionLimit_cases)
  case refused
  then show ?thesis using a by auto
next
  case (rolled_back a1)
  have "0 \<le> retained run"
    using run_ok_nonneg [OF run(2)] by simp
  note s1 = stream_observer_accepted [OF rolled_back(1) a(1,2) this]
  obtain a2 where a2: "stream_observer e 0 a1 = (None, a2)"
    using st.not_refused [of S e a1 a1 0] s1 a(2) \<open>0 \<le> retained run\<close> by (auto simp: good_stream_def)
  show ?thesis
    using stream_observer_accepted [OF a2 conjunct2 [OF s1] a(2) order_refl] conjunct1 [OF s1] a(4) a2 rolled_back by auto
next
  case (installed a1)
  have "0 \<le> retained run" "0 \<le> kv_bytes (rn_blobs run)"
    using run_ok_nonneg [OF run(2)] run(2) kv_total_nonneg by (auto simp: run_ok_def kv_ok_def)
  note s1 = stream_observer_accepted [OF installed(1) a(1,2) this(1)]
    and s2 = blob_observer_accepted [OF installed(2) _ a(2) this(2)]
  show ?thesis
    using s2 [OF conjunct2 [OF s1]] conjunct1 [OF s1] installed(3,4) by auto
qed

definition new_entry :: "nat \<Rightarrow> cursorRunEntry \<Rightarrow> cursorRunStore \<Rightarrow> cursorRunStore" where
  "new_entry e en s = s\<lparr>ps_next := e + 1, ps_entry := (ps_entry s)(e := en)\<rparr>"

lemma new_entry_sels [simp]:
  "ps_entries (new_entry e en s) = ps_entries s" "ps_entry (new_entry e en s) = (ps_entry s)(e := en)"
  "ps_next (new_entry e en s) = e + 1" "ps_byCall (new_entry e en s) = ps_byCall s" "ps_acct (new_entry e en s) = ps_acct s"
  "ps_runs (new_entry e en s) = ps_runs s"
  by (simp_all add: new_entry_def)

lemma new_entry_ok:
  assumes "store_ok Q s" shows "store_ok Q (new_entry (ps_next s) en s)" (is "store_ok Q ?s")
proof -
  have new: "ps_next s \<notin> parked_entries s"
    using store_okD(7) [OF assms] parked_entry [OF store_okD(1) [OF assms]] by blast
  have "entry_table_ok (new_entry (ps_next s) en s)"
    using store_okD(1) [OF assms] by (auto simp: entry_table_ok_def)
  moreover have "calls_ok (new_entry (ps_next s) en s)"
    unfolding calls_ok_def
  proof (intro allI)
    fix sc c x
    have "map_of (ps_byCall s) (sc, c) = Some x \<longleftrightarrow>
        x \<in> parked_entries s \<and> en_scope (ps_entry s x) = sc \<and> c \<in> set (en_pending (ps_entry s x))"
      using store_okD(2) [OF assms] unfolding calls_ok_def by blast
    then show "map_of (ps_byCall ?s) (sc, c) = Some x \<longleftrightarrow>
        x \<in> parked_entries ?s \<and> en_scope (ps_entry ?s x) = sc \<and> c \<in> set (en_pending (ps_entry ?s x))"
      using new by (cases "x = ps_next s") simp_all
  qed
  ultimately show ?thesis
    using assms by (simp add: store_ok_def)
qed

lemma add_entry_ok:
  assumes ok: "store_ok Q s" and i: "map_of (ps_entries s) i = None" "length (ps_entries s) < cursorRunMax"
    and ids: "ids \<noteq> []" "distinct ids" "[] \<notin> set ids" "\<forall>c \<in> set ids. map_of (ps_byCall s) (sc, c) = None"
    and e: "e < ps_next s" "e \<notin> parked_entries s" "ps_entry s e = \<lparr>en_run = i, en_scope = sc, en_pending = ids, en_at = t\<rparr>"
    and run: "run_ok (Q i) run" "watched (Some e) run a" "acct_ok (insert e (parked_entries s)) a"
    and frame: "\<And>x. x \<noteq> e \<Longrightarrow> pa_streamLast a x = pa_streamLast (ps_acct s) x \<and> pa_blobLast a x = pa_blobLast (ps_acct s) x"
  shows "store_ok Q ((set_run i run a s)\<lparr>ps_entries := aput i e (ps_entries s), ps_byCall := add_calls sc e ids (ps_byCall s)\<rparr>)"
    (is "store_ok Q ?s")
proof -
  have ie: "aput i e (ps_entries s) = ps_entries s @ [(i, e)]"
    using i(1) by (intro aput_new) (simp add: map_of_None_keys)
  have "entry_table_ok ?s"
    using store_okD(1) [OF ok] i ids e unfolding entry_table_ok_def
    by (auto simp: ie map_of_None_keys)
  moreover have "calls_ok ?s"
    unfolding calls_ok_def
  proof (intro allI)
    fix sc' c x
    have "map_of (ps_byCall s) (sc', c) = Some x \<longleftrightarrow>
        x \<in> parked_entries s \<and> en_scope (ps_entry s x) = sc' \<and> c \<in> set (en_pending (ps_entry s x))"
      using store_okD(2) [OF ok] unfolding calls_ok_def by blast
    then show "map_of (ps_byCall ?s) (sc', c) = Some x \<longleftrightarrow>
        x \<in> parked_entries ?s \<and> en_scope (ps_entry ?s x) = sc' \<and> c \<in> set (en_pending (ps_entry ?s x))"
      using e(2,3) ids(4) by (cases "x = e"; cases "sc' = sc \<and> c \<in> set ids") (auto simp: ie map_of_add_calls)
  qed
  moreover have "run_ok (Q j) (ps_runs ?s j) \<and> watched (map_of (ps_entries ?s) j) (ps_runs ?s j) a" for j
  proof (cases "j = i")
    case False
    have "watched (map_of (ps_entries s) j) (ps_runs s j) a"
      by (rule watched_other [OF store_okD(5) [OF ok refl]], rule frame) (use store_okD(8) [OF ok, of j] e(2) in blast)
    then show ?thesis
      using False store_okD(4) [OF ok, of j] by simp
  qed (use run in simp)
  ultimately show ?thesis
    using run(3) by (simp add: store_ok_def ie)
qed

lemma park_entry_ok:
  assumes ok: "store_ok Q s" and ids: "ids \<noteq> []" and eq: "park_entry sc i ids now s = (b, s')"
  shows "store_ok Q s'"
proof (cases "length (ps_entries s) \<ge> cursorRunMax \<or> rn_closed (ps_runs s i) \<or> map_of (ps_entries s) i \<noteq> None \<or>
    claim_ids sc (ps_byCall s) ids [] = None")
  case True
  then show ?thesis
    using ok eq by (auto simp: park_entry_def split: if_splits)
next
  case False
  let ?e = "ps_next s" and ?a = "ps_acct s" and ?S = "parked_entries s"
  let ?a' = "?a\<lparr>pa_streamLast := (pa_streamLast ?a)(?e := 0), pa_blobLast := (pa_blobLast ?a)(?e := (0, 0))\<rparr>"
  let ?s = "new_entry ?e \<lparr>en_run = i, en_scope = sc, en_pending = ids, en_at = now\<rparr> s"
  have i: "map_of (ps_entries s) i = None" "length (ps_entries s) < cursorRunMax"
    and ids': "claim_ids sc (ps_byCall s) ids [] = Some ids" "distinct ids" "[] \<notin> set ids" "\<forall>c \<in> set ids. map_of (ps_byCall s) (sc, c) = None"
    using False claim_ids_Some [of sc "ps_byCall s" ids "[]"] by auto
  have e: "?e \<notin> ?S"
    using store_okD(7) [OF ok] parked_entry [OF store_okD(1) [OF ok]] by blast
  obtain err run a where set: "run_SetRetentionLimit (Some (stream_observer ?e)) (Some (blob_observer ?e)) (ps_runs s i) ?a' = (err, run, a)"
    using prod_cases3 by blast
  have "watched None (ps_runs s i) ?a'"
    using store_okD(5) [OF ok i(1)] by simp
  note w = run_SetRetentionLimit_watched [OF this store_okD(4) [OF ok] acct_ok_insert [OF store_okD(3) [OF ok] e] insertI1 _ _ set, simplified]
  have run: "run_ok (Q i) run"
    by (rule run_SetRetentionLimit_ok [OF set store_okD(4) [OF ok]])
  show ?thesis
  proof (cases err)
    case None
    then have "s' = (set_run i run a ?s)\<lparr>ps_entries := aput i ?e (ps_entries ?s), ps_byCall := add_calls sc ?e ids (ps_byCall ?s)\<rparr>"
      using False eq set ids'(1) by (auto simp: park_entry_def Let_def new_entry_def)
    then show ?thesis
      using add_entry_ok [where Q = Q and s = ?s and i = i and ids = ids and sc = sc and e = ?e and t = now and run = run and a = a]
        new_entry_ok [OF ok] i ids ids' e run w None by simp
  next
    case (Some x)
    then have s': "s' = set_run i run a ?s"
      using False eq set ids'(1) by (auto simp: park_entry_def Let_def new_entry_def)
    have "acct_ok ?S a"
      using w Some e acct_ok_remove [of "insert ?e ?S" a ?e] by simp
    then have "store_ok (Q(i := Q i)) (set_run i run a ?s)"
      by (intro run_step [OF new_entry_ok [OF ok] run]) (use i(1) w Some e store_okD(5) [OF ok i(1)] in \<open>simp_all, metis\<close>)
    then show ?thesis
      using s' by simp
  qed
qed

lemma parkWith_ok: "store_ok Q s \<Longrightarrow> parkWith sc i ids now now' s = (b, s') \<Longrightarrow> store_ok Q s'"
  using park_entry_ok [OF sweepLocked_ok(1)] by (auto simp: parkWith_def split: if_splits prod.splits)

lemma tail_loop_parked:
  "tail_loop sc m ids t tail = (Some e, tail') \<Longrightarrow> t = Some e \<or> (\<exists>c. map_of m (sc, c) = Some e)"
  by (induction sc m ids t tail rule: tail_loop.induct) (auto split: option.splits if_splits)

lemma findByToolTail_ok: 
  assumes ok: "store_ok Q s" and eq: "findByToolTail sc ids now s = (res, s')" shows "store_ok Q s'"
proof -
  let ?s = "sweepLocked now s"
  note ok' = sweepLocked_ok(1) [OF ok, of now]
  have "store_ok Q (removeLocked e ?s)" if "tail_loop sc (ps_byCall ?s) (rev ids) None [] = (Some e, tail)" for e tail
  proof -
    have "e \<in> parked_entries ?s"
      using tail_loop_parked [OF that] store_okD(2) [OF ok'] unfolding calls_ok_def by blast
    then show ?thesis
      by (rule removeLocked_ok(1) [OF ok' parked_entry [OF store_okD(1) [OF ok']]])
  qed
  then show ?thesis
    using eq ok ok' by (auto simp: findByToolTail_def Let_def split: if_splits prod.splits option.splits)
qed

section \<open>Every reachable store\<close>

text \<open>
  A state is the store with its runs, and for every run the sizes of its events that are reserved and not yet
  released or cancelled. Steps are the critical sections of the pumps, the drivers, the store's callers and
  the timer callbacks, in any order. The clock may jump but is never Go's zero time, and the configuration has a
  positive TTL.
\<close>

inductive store_step :: "(nat \<Rightarrow> int multiset) \<times> cursorRunStore \<Rightarrow> (nat \<Rightarrow> int multiset) \<times> cursorRunStore \<Rightarrow> bool" where
  push: "pushEvent ev (ps_runs s i) (ps_acct s) = (ok, ev', run, a) \<Longrightarrow>
    store_step (Q, s) (Q(i := if ok then add_mset (ev_size ev') (Q i) else Q i), set_run i run a s)"
| cancel: "cancelEvent ev (ps_runs s i) (ps_acct s) = (run, a) \<Longrightarrow> Q i = add_mset (ev_size ev) q \<Longrightarrow>
    store_step (Q, s) (Q(i := q), set_run i run a s)"
| release: "releaseEvent ev (ps_runs s i) (ps_acct s) = (run, a) \<Longrightarrow> Q i = add_mset (ev_size ev) q \<Longrightarrow>
    store_step (Q, s) (Q(i := q), set_run i run a s)"
| add: "addPending call (ps_runs s i) (ps_acct s) = (ok, run, a) \<Longrightarrow> store_step (Q, s) (Q, set_run i run a s)"
| take: "takePendingLocked c (ps_runs s i) (ps_acct s) = (call, run, a) \<Longrightarrow> store_step (Q, s) (Q, set_run i run a s)"
| blob: "run_put_blob k v (ps_runs s i) (ps_acct s) = (err, run, a) \<Longrightarrow> store_step (Q, s) (Q, set_run i run a s)"
| close: "store_step (Q, s) (Q, set_run i (run_Close (ps_runs s i)) (ps_acct s) s)"
| park: "parkWith sc i ids now now' s = (ok, s') \<Longrightarrow> 0 < now' \<Longrightarrow> store_step (Q, s) (Q, s')"
| find: "findByToolTail sc ids now s = (res, s') \<Longrightarrow> store_step (Q, s) (Q, s')"
| drop: "store_step (Q, s) (Q, drop_run i s)"
| ttl: "0 < d \<Longrightarrow> d \<le> max_int64 \<Longrightarrow> store_step (Q, s) (Q, UpdateTTL d now s)"
| timer: "store_step (Q, s) (Q, expire r now s)"

definition initial_store :: "duration \<Rightarrow> (nat \<Rightarrow> int multiset) \<times> cursorRunStore \<Rightarrow> bool" where
  "initial_store ttl qs \<longleftrightarrow> 0 < ttl \<and> ttl \<le> max_int64 \<and> (\<exists>runs. qs = (\<lambda>_. {#}, newCursorRunStore ttl runs) \<and>
    (\<forall>i. runs i = NewCursorRun None \<or> (\<exists>b. kv_ok b \<and> kv_retention b = None \<and> runs i = NewCursorRun (Some b))))"

inductive store_reach :: "(nat \<Rightarrow> int multiset) \<times> cursorRunStore \<Rightarrow> bool" where
  start: "initial_store ttl qs \<Longrightarrow> store_reach qs"
| step: "store_reach qs \<Longrightarrow> store_step qs qs' \<Longrightarrow> store_reach qs'"

lemma initial_store_ok: "initial_store ttl qs \<Longrightarrow> store_ok (fst qs) (snd qs)"
proof -
  assume "initial_store ttl qs"
  then obtain runs where qs: "qs = (\<lambda>_. {#}, newCursorRunStore ttl runs)"
    and runs: "\<And>i. runs i = NewCursorRun None \<or> (\<exists>b. kv_ok b \<and> kv_retention b = None \<and> runs i = NewCursorRun (Some b))"
    unfolding initial_store_def by blast
  have "run_ok {#} (runs i) \<and> watched None (runs i) a" for i a
    using runs [of i] run_ok_new by (auto simp: NewCursorRun_def newKVBlobStore_def)
  then show ?thesis
    unfolding qs
    by (simp add: store_ok_def newCursorRunStore_def entry_table_ok_def calls_ok_def acct_ok_def limits_ok_def stream_ok_def
        blob_ok_def parkedStreamLimit_def cursorParkedBlobBytesMax_def cursorParkedBlobEntriesMax_def Let_def)
qed

lemma store_step_ok:
  assumes "store_step qs qs'" "store_ok (fst qs) (snd qs)" shows "store_ok (fst qs') (snd qs')"
  using assms
proof (induction rule: store_step.induct)
  case (push ev s i ok ev' run a Q)
  then have ok: "store_ok Q s" "run_ok (Q i) (ps_runs s i)"
    using store_okD(4) [of Q s i] by auto
  show ?case
    unfolding fst_conv snd_conv
    by (rule stream_step [OF ok(1) pushEvent_ok [OF push(1) ok(2)] stream_ops(1) [OF push(1)]])
      (rule st.informed_pushEvent [OF push(1) ok(2)])
next
  case (cancel ev s i run a Q q)
  then have ok: "store_ok Q s" "run_ok (add_mset (ev_size ev) q) (ps_runs s i)"
    using store_okD(4) [of Q s i] by auto
  show ?case
    unfolding fst_conv snd_conv
    by (rule stream_step [OF ok(1) _ stream_ops(2) [OF cancel(1)]])
      (use settle_ok(1) [OF ok(2), of "ps_acct s"] st.informed_settle(1) [OF ok(2), of _ _ _ "ps_acct s"] cancel(1) in simp_all)
next
  case (release ev s i run a Q q)
  then have ok: "store_ok Q s" "run_ok (add_mset (ev_size ev) q) (ps_runs s i)"
    using store_okD(4) [of Q s i] by auto
  show ?case
    unfolding fst_conv snd_conv
    by (rule stream_step [OF ok(1) _ stream_ops(3) [OF release(1)]])
      (use settle_ok(2) [OF ok(2), of "ps_acct s"] st.informed_settle(2) [OF ok(2), of _ _ _ "ps_acct s"] release(1) in simp_all)
next
  case (add call s i ok run a Q)
  then have ok: "store_ok Q s" "run_ok (Q i) (ps_runs s i)"
    using store_okD(4) [of Q s i] by auto
  show ?case
    using stream_step [OF ok(1) addPending_ok [OF add(1) ok(2)] stream_ops(4) [OF add(1) ok(2)]]
      st.informed_addPending [OF add(1) ok(2)] by simp
next
  case (take c s i call run a Q)
  then have ok: "store_ok Q s" "run_ok (Q i) (ps_runs s i)"
    using store_okD(4) [of Q s i] by auto
  show ?case
    using stream_step [OF ok(1) takePendingLocked_ok [OF take(1) ok(2)] stream_ops(5) [OF take(1)]]
      st.informed_takePendingLocked [OF take(1) ok(2)] by simp
next
  case (close Q s i)
  then have ok: "store_ok Q s" "run_ok (Q i) (run_Close (ps_runs s i))"
    using store_okD(4) [of Q s i] by auto
  show ?case
    using stream_step [OF ok stream_ops(6)] st.informed_close(2) by simp
next
  case (blob k v s i err run a Q)
  then show ?case using blob_step [of Q s k v i] by simp
next
  case (park sc i ids now now' s ok s' Q)
  then show ?case using parkWith_ok [of Q s sc i ids now now' ok s'] by simp
next
  case (find sc ids now s res s' Q)
  then show ?case using findByToolTail_ok [of Q s sc ids now] by simp
qed (simp_all add: drop_run_ok UpdateTTL_ok expire_ok)

lemma store_reach_ok: "store_reach qs \<Longrightarrow> store_ok (fst qs) (snd qs)"
  by (induction rule: store_reach.induct) (auto intro: initial_store_ok store_step_ok)

end
