(* ===== verification/Parked_Runs.thy ===== *)
theory Parked_Runs
  imports Run_Store_Inv
begin

text \<open>
  What the parked-run store promises: the aggregate budgets, the lookup of the run to resume, and expiry without
  traffic, with a small store on which each is seen.
\<close>

section \<open>The expiry timer\<close>

definition clocked :: "cursorRunStore \<Rightarrow> bool" where
  "clocked s \<longleftrightarrow> 0 < ps_ttl s \<and> ps_ttl s \<le> max_int64 \<and> (\<forall>e \<in> parked_entries s. 0 < en_at (ps_entry s e))"

definition timer_armed :: "cursorRunStore \<Rightarrow> bool" where
  "timer_armed s \<longleftrightarrow> (if ps_entries s = [] then ps_timer s = None
     else \<exists>e \<in> parked_entries s. ps_timer s = Some (en_at (ps_entry s e) + ps_ttl s, ps_revision s) \<and>
       (\<forall>x \<in> parked_entries s. en_at (ps_entry s e) \<le> en_at (ps_entry s x)))"

lemma until_loop_min:
  assumes "\<forall>e \<in> snd ` set es. 0 < en_at (en e) + ttl" "0 \<le> u"
  shows "(until_loop ttl en es u = 0 \<longleftrightarrow> u = 0 \<and> es = []) \<and> (0 < u \<longrightarrow> until_loop ttl en es u \<le> u) \<and>
    (\<forall>e \<in> snd ` set es. until_loop ttl en es u \<le> en_at (en e) + ttl) \<and>
    (until_loop ttl en es u = u \<or> (\<exists>e \<in> snd ` set es. until_loop ttl en es u = en_at (en e) + ttl))"
  using assms
proof (induction ttl en es u rule: until_loop.induct)
  case (2 ttl en i e es u)
  then show ?case
    by (cases "u = 0 \<or> en_at (en e) + ttl < u") (auto simp: Let_def split: if_splits)
qed simp

lemma rearm_sels [simp]:
  "ps_entries (rearmLocked s) = ps_entries s" "ps_entry (rearmLocked s) = ps_entry s" "ps_ttl (rearmLocked s) = ps_ttl s"
  "ps_revision (rearmLocked s) = ps_revision s + 1" "ps_closing (rearmLocked s) = ps_closing s" "ps_byCall (rearmLocked s) = ps_byCall s"
  "clocked (rearmLocked s) = clocked s"
  by (simp_all add: rearmLocked_def Let_def clocked_def)

lemma rearmLocked_armed:
  assumes "clocked s" shows "timer_armed (rearmLocked s)"
proof (cases "ps_entries s = []")
  case True
  then show ?thesis by (simp add: timer_armed_def rearmLocked_def)
next
  case False
  let ?u = "until_loop (ps_ttl s) (ps_entry s) (ps_entries s) 0"
  have "\<forall>e \<in> parked_entries s. 0 < en_at (ps_entry s e) + ps_ttl s"
    using assms by (auto simp: clocked_def)
  note u = until_loop_min [OF this order_refl]
  have "?u \<noteq> 0"
    using u False by blast
  then obtain e where "e \<in> parked_entries s" "?u = en_at (ps_entry s e) + ps_ttl s"
    using u by blast
  moreover have "\<forall>x \<in> parked_entries s. en_at (ps_entry s e) \<le> en_at (ps_entry s x)"
    using u calculation(2) by auto
  moreover have "ps_timer (rearmLocked s) = Some (?u, ps_revision (rearmLocked s))"
    using \<open>?u \<noteq> 0\<close> by (simp add: rearmLocked_def Let_def)
  ultimately show ?thesis
    using False by (auto simp: timer_armed_def)
qed

lemma sweepLocked_clocked: "store_ok Q s \<Longrightarrow> clocked s \<Longrightarrow> clocked (sweepLocked now s)"
  using sweepLocked_ok(2,3) [of Q s now] unfolding clocked_def swept_def by auto

lemma removeLocked_clocked: "clocked s \<Longrightarrow> clocked (removeLocked e s)"
  using set_adel_subset [of _ "ps_entries s"] by (auto simp: clocked_def)

lemma park_entry_clocked:
  assumes "clocked s" "0 < now" "park_entry sc i ids now s = (ok, s')" shows "clocked s'"
  using assms set_aput_subset [of i "ps_next s" "ps_entries s"]
  by (fastforce simp: park_entry_def clocked_def set_run_def Let_def split: if_splits option.splits prod.splits)

definition timed :: "cursorRunStore \<Rightarrow> bool" where
  "timed s \<longleftrightarrow> clocked s \<and> timer_armed s"

lemma rearmLocked_timed: "clocked s \<Longrightarrow> timed (rearmLocked s)"
  by (simp add: timed_def rearmLocked_armed)

lemma set_run_timed [simp]: "timed (set_run i run a s) = timed s"
  by (simp add: timed_def clocked_def timer_armed_def set_run_def)

lemma store_step_timed:
  assumes "store_step qs qs'" "store_ok (fst qs) (snd qs)" "timed (snd qs)" shows "timed (snd qs')"
  using assms
proof (induction rule: store_step.induct)
  case (park sc i ids now now' s ok s' Q)
  then have "clocked (sweepLocked now s)"
    using sweepLocked_clocked [of Q s now] by (simp add: timed_def)
  then show ?case
    using park park_entry_clocked [of "sweepLocked now s" now' sc i ids]
    by (auto simp: parkWith_def rearmLocked_timed split: if_splits prod.splits)
next
  case (find sc ids now s res s' Q)
  then have "clocked (sweepLocked now s)"
    using sweepLocked_clocked [of Q s now] by (simp add: timed_def)
  then show ?case
    using find
    by (auto simp: findByToolTail_def Let_def rearmLocked_timed removeLocked_clocked split: if_splits prod.splits option.splits)
next
  case (drop Q s i)
  then show ?case
    by (auto simp: drop_run_def timed_def rearmLocked_armed removeLocked_clocked split: option.splits)
next
  case (ttl d Q s now)
  then have "clocked (s\<lparr>ps_ttl := d\<rparr>)" "store_ok Q (s\<lparr>ps_ttl := d\<rparr>)"
    by (simp_all add: timed_def clocked_def)
  then show ?case
    using sweepLocked_clocked by (simp add: UpdateTTL_def rearmLocked_timed)
next
  case (timer Q s r now)
  then show ?case
    using sweepLocked_clocked [of Q s now] by (auto simp: expire_def rearmLocked_armed timed_def)
qed simp_all

lemma store_reach_timed: "store_reach qs \<Longrightarrow> timed (snd qs)"
proof (induction rule: store_reach.induct)
  case (start ttl qs)
  then show ?case
    by (auto simp: initial_store_def newCursorRunStore_def timed_def clocked_def timer_armed_def)
next
  case (step qs qs')
  then show ?case
    using store_step_timed store_reach_ok by blast
qed

section \<open>Properties\<close>

lemma parked_sum:
  fixes g :: "nat \<Rightarrow> int"
  assumes "entry_table_ok s" "\<And>i e. (i, e) \<in> set (ps_entries s) \<Longrightarrow> g e = f i"
  shows "(\<Sum>e \<in> parked_entries s. g e) = (\<Sum>i \<in> set (akeys (ps_entries s)). f i)"
proof -
  let ?E = "set (ps_entries s)"
  have "inj_on snd ?E" "inj_on fst ?E"
    using entry_ok [OF assms(1)] by (auto intro!: inj_onI) (metis option.inject)+
  then have "(\<Sum>e \<in> snd ` ?E. g e) = (\<Sum>ie \<in> ?E. g (snd ie))" "(\<Sum>i \<in> fst ` ?E. f i) = (\<Sum>ie \<in> ?E. f (fst ie))"
    by (simp_all add: sum.reindex)
  moreover have "(\<Sum>ie \<in> ?E. g (snd ie)) = (\<Sum>ie \<in> ?E. f (fst ie))"
    using assms(2) by (intro sum.cong) auto
  ultimately show ?thesis by simp
qed

text \<open>
  C10. The budgets of the parked runs, in every reachable state of the store, its runs and their pumps. A run
  is observed exactly while it is parked. The three aggregates are the exact sums of what the parked runs
  retain, and are within their caps; at most 256 runs are parked. The stream bytes of all parked runs and of any one
  other run together stay within \<^verbatim>\<open>cursorParkedStreamBytesMax\<close>, which is what the reserve is for.
\<close>

theorem parked_budget:
  assumes "store_reach (Q, s)"
  shows "(rn_retention (ps_runs s i) \<noteq> None \<longleftrightarrow> i \<in> set (akeys (ps_entries s))) \<and>
    (kv_retention (rn_blobs (ps_runs s i)) \<noteq> None \<longleftrightarrow> i \<in> set (akeys (ps_entries s))) \<and>
    pa_streamBytes (ps_acct s) = (\<Sum>j \<in> set (akeys (ps_entries s)). PendingBytes (ps_runs s j) + QueuedBytes (ps_runs s j)) \<and>
    pa_blobBytes (ps_acct s) = (\<Sum>j \<in> set (akeys (ps_entries s)). RetainedBytes (rn_blobs (ps_runs s j))) \<and>
    pa_blobEntries (ps_acct s) = (\<Sum>j \<in> set (akeys (ps_entries s)). RetainedEntries (rn_blobs (ps_runs s j))) \<and>
    pa_blobBytes (ps_acct s) \<le> cursorParkedBlobBytesMax \<and> pa_blobEntries (ps_acct s) \<le> cursorParkedBlobEntriesMax \<and>
    length (ps_entries s) \<le> cursorRunMax \<and>
    (i \<notin> set (akeys (ps_entries s)) \<longrightarrow>
      pa_streamBytes (ps_acct s) + (PendingBytes (ps_runs s i) + QueuedBytes (ps_runs s i)) \<le> cursorParkedStreamBytesMax)"
proof -
  let ?P = "set (akeys (ps_entries s))" and ?a = "ps_acct s" and ?r = "ps_runs s"
  have ok: "store_ok Q s"
    using store_reach_ok [OF assms] by simp
  note w = store_okD(5) [OF ok] and acct = store_okD(3) [OF ok, unfolded acct_ok_def limits_ok_def stream_ok_def blob_ok_def]
  have bytes: "PendingBytes (?r j) = rn_pendingBytes (?r j)" "QueuedBytes (?r j) = rn_queuedBytes (?r j)" for j
    using run_ok_nonneg [OF store_okD(4) [OF ok, of j]] by (simp_all add: PendingBytes_def QueuedBytes_def)
  have last: "watched (Some e) (?r j) ?a" if "(j, e) \<in> set (ps_entries s)" for j e
    using w [of j "Some e"] that entry_ok(1) [OF store_okD(1) [OF ok]] by blast
  note sum = parked_sum [OF store_okD(1) [OF ok]]
  have "(\<Sum>e \<in> parked_entries s. pa_streamLast ?a e) = (\<Sum>j \<in> ?P. PendingBytes (?r j) + QueuedBytes (?r j))"
    "(\<Sum>e \<in> parked_entries s. fst (pa_blobLast ?a e)) = (\<Sum>j \<in> ?P. RetainedBytes (rn_blobs (?r j)))"
    "(\<Sum>e \<in> parked_entries s. snd (pa_blobLast ?a e)) = (\<Sum>j \<in> ?P. RetainedEntries (rn_blobs (?r j)))"
    by (rule sum, use last in \<open>fastforce simp: bytes RetainedBytes_def RetainedEntries_def\<close>)+
  moreover have "rn_retention (?r i) \<noteq> None \<longleftrightarrow> i \<in> ?P" "kv_retention (rn_blobs (?r i)) \<noteq> None \<longleftrightarrow> i \<in> ?P"
    using w [of i, OF refl] map_of_None_keys [of "ps_entries s" i] by (cases "map_of (ps_entries s) i"; simp)+
  moreover have "rn_pendingBytes (?r i) + rn_queuedBytes (?r i) \<le> CursorRunRetainedBytesMax"
    using store_okD(4) [OF ok, of i] by (simp add: run_ok_def CursorRunRetainedBytesMax_def)
  moreover have "parkedStreamLimit ?a = cursorParkedStreamBytesMax - CursorRunRetainedBytesMax"
    using acct by (simp add: parkedStreamLimit_def cursorParkedStreamBytesMax_def CursorRunRetainedBytesMax_def
        cursorRunPendingBytesMax_def cursorRunEventBytesMax_def)
  moreover have "length (ps_entries s) \<le> cursorRunMax"
    using store_okD(1) [OF ok] by (simp add: entry_table_ok_def)
  ultimately show ?thesis
    using acct by (simp add: bytes)
qed

text \<open>A run that is parked in the scope on this id, open and not expired.\<close>

definition owned :: "time \<Rightarrow> cursorRunStore \<Rightarrow> byte list \<Rightarrow> byte list \<Rightarrow> nat \<Rightarrow> bool" where
  "owned now s sc c i \<longleftrightarrow> (\<exists>e. (i, e) \<in> set (ps_entries s) \<and> \<not> stale now s (i, e) \<and> en_scope (ps_entry s e) = sc \<and>
    c \<in> set (en_pending (ps_entry s e)))"

lemma tail_loop_target:
  "tail_loop sc m ids (Some e) tail = (Some e, tail @ takeWhile (\<lambda>c. map_of m (sc, c) = Some e) ids)"
  by (induction sc m ids "Some e" tail rule: tail_loop.induct) (auto split: option.splits)

lemma tail_loop_eq:
  "tail_loop sc m (c # ids) None [] =
    (case map_of m (sc, c) of None \<Rightarrow> (None, []) | Some e \<Rightarrow> (Some e, takeWhile (\<lambda>c. map_of m (sc, c) = Some e) (c # ids)))"
  by (simp add: tail_loop_target split: option.split)

lemma owned_iff:
  assumes ok: "store_ok Q s"
  shows "map_of (ps_byCall (sweepLocked now s)) (sc, c) = Some e \<longleftrightarrow>
      owned now s sc c (en_run (ps_entry s e)) \<and> (en_run (ps_entry s e), e) \<in> set (ps_entries (sweepLocked now s))"
    and "(i, e) \<in> set (ps_entries (sweepLocked now s)) \<Longrightarrow>
      owned now s sc c i \<longleftrightarrow> map_of (ps_byCall (sweepLocked now s)) (sc, c) = Some e"
    and "owned now s sc c i \<Longrightarrow> \<exists>e. (i, e) \<in> set (ps_entries (sweepLocked now s))"
proof -
  let ?s = "sweepLocked now s"
  note ok' = sweepLocked_ok(1) [OF ok, of now] and entries = sweepLocked_ok(3) [OF ok, of now]
  have entry: "ps_entry ?s = ps_entry s"
    using sweepLocked_ok(2) [OF ok] by (simp add: swept_def)
  have run: "en_run (ps_entry s e) = i" "map_of (ps_entries ?s) i = Some e" if "(i, e) \<in> set (ps_entries ?s)" for i e
    using entry_ok [OF store_okD(1) [OF ok']] that entry by auto
  have calls: "map_of (ps_byCall ?s) (sc, c) = Some e \<longleftrightarrow>
      e \<in> parked_entries ?s \<and> en_scope (ps_entry s e) = sc \<and> c \<in> set (en_pending (ps_entry s e))" for e
    using store_okD(2) [OF ok'] unfolding calls_ok_def entry by blast
  have owned: "owned now s sc c i \<longleftrightarrow>
      (\<exists>e. (i, e) \<in> set (ps_entries ?s) \<and> en_scope (ps_entry s e) = sc \<and> c \<in> set (en_pending (ps_entry s e)))" for i
    unfolding owned_def entries by auto
  show two: "owned now s sc c i \<longleftrightarrow> map_of (ps_byCall ?s) (sc, c) = Some e" if "(i, e) \<in> set (ps_entries ?s)" for i e
    unfolding owned calls using run [of i] that by (metis image_eqI option.inject snd_conv)
  show "owned now s sc c i \<Longrightarrow> \<exists>e. (i, e) \<in> set (ps_entries ?s)"
    unfolding owned by blast
  have "(en_run (ps_entry s e), e) \<in> set (ps_entries ?s)" if "map_of (ps_byCall ?s) (sc, c) = Some e"
    using that run(1) unfolding calls by auto
  then show "map_of (ps_byCall ?s) (sc, c) = Some e \<longleftrightarrow>
      owned now s sc c (en_run (ps_entry s e)) \<and> (en_run (ps_entry s e), e) \<in> set (ps_entries ?s)"
    using two by blast
qed

text \<open>
  C22. Resuming a parked run. \<open>findByToolTail\<close> returns a run exactly when the last id of the request is one that an open,
  unexpired run of the same scope is parked on; it returns that run with the longest tail of the ids that are
  all its own, in message order. The run it returns, and every expired or closed one, is no longer parked; all other
  runs still are.
\<close>

theorem findByToolTail_resumes:
  assumes "store_reach (Q, s)" "ids \<noteq> []" "findByToolTail sc ids now s = (res, s')"
  shows "(res = Some (i, tail) \<longleftrightarrow> owned now s sc (last ids) i \<and> tail = rev (takeWhile (\<lambda>c. owned now s sc c i) (rev ids))) \<and>
    ps_entries s' = filter (\<lambda>je. \<not> stale now s je \<and> \<not> owned now s sc (last ids) (fst je)) (ps_entries s)"
proof -
  let ?s = "sweepLocked now s" and ?c = "last ids"
  have ok: "store_ok Q s"
    using store_reach_ok [OF assms(1)] by simp
  note own = owned_iff [OF ok, where now = now and sc = sc] and ok' = sweepLocked_ok(1) [OF ok, of now]
  have entry: "ps_entry ?s = ps_entry s" and closed: "\<And>j. rn_closed (ps_runs ?s j) = rn_closed (ps_runs s j)"
    using sweepLocked_ok(2) [OF ok] by (simp_all add: swept_def)
  obtain cs where ids: "rev ids = ?c # cs"
    using assms(2) by (metis append_butlast_last_id rev.simps(2) rev_rev_ident rev_swap)
  show ?thesis
  proof (cases "map_of (ps_byCall ?s) (sc, ?c)")
    case None
    then have none: "\<not> owned now s sc ?c j" for j
      using own(2,3) by force
    have "res = None" "s' = rearmLocked ?s"
      using assms(2,3) None by (simp_all add: findByToolTail_def Let_def ids tail_loop_eq)
    then show ?thesis
      using none sweepLocked_ok(3) [OF ok, of now] by simp
  next
    case (Some e)
    let ?i = "en_run (ps_entry s e)"
    have e: "owned now s sc ?c ?i" "(?i, e) \<in> set (ps_entries ?s)"
      using own(1) Some by blast+
    have open_run: "\<not> rn_closed (ps_runs s ?i)"
      using e(2) sweepLocked_ok(3) [OF ok, of now] by (auto simp: stale_def)
    have unique: "owned now s sc ?c j \<longleftrightarrow> j = ?i" for j
      using own(1) [of ?c e] own(2) [of j _ ?c] own(3) [of ?c j] Some e entry_ok(2) [OF store_okD(1) [OF ok']] entry
      by (metis option.inject)
    have "(\<lambda>c. map_of (ps_byCall ?s) (sc, c) = Some e) = (\<lambda>c. owned now s sc c ?i)"
      using own(2) [OF e(2)] by auto
    then have res: "res = Some (?i, rev (takeWhile (\<lambda>c. owned now s sc c ?i) (rev ids)))" "s' = rearmLocked (removeLocked e ?s)"
      using assms(2,3) Some open_run e(1) by (simp_all add: findByToolTail_def Let_def ids tail_loop_target entry closed)
    have "ps_entries s' = filter (\<lambda>je. \<not> stale now s je \<and> fst je \<noteq> ?i) (ps_entries s)"
      by (auto simp: res(2) entry sweepLocked_ok(3) [OF ok] adel_def intro!: filter_cong)
    then show ?thesis
      using unique res(1) by auto
  qed
qed

text \<open>
  C33. Expiry needs no traffic. Whenever a run is parked, the timer is armed with the current revision, for a moment no
  later than the end of this run's TTL. When it fires at or after that end, the run is no longer parked and is handed
  to a closer; a run that is open and within its TTL stays parked with its timer armed. A callback of an
  earlier timer changes nothing.
\<close>

theorem parked_expiry:
  assumes "store_reach (Q, s)" "map_of (ps_entries s) i = Some e"
  shows "(\<exists>u. ps_timer s = Some (u, ps_revision s) \<and> u \<le> en_at (ps_entry s e) + ps_ttl s) \<and>
    (en_at (ps_entry s e) + ps_ttl s \<le> now \<longrightarrow>
      map_of (ps_entries (expire (ps_revision s) now s)) i = None \<and> i \<in> set (ps_closing (expire (ps_revision s) now s))) \<and>
    (now < en_at (ps_entry s e) + ps_ttl s \<and> \<not> rn_closed (ps_runs s i) \<longrightarrow>
      map_of (ps_entries (expire (ps_revision s) now s)) i = Some e \<and> timer_armed (expire (ps_revision s) now s)) \<and>
    (r \<noteq> ps_revision s \<longrightarrow> expire r now s = s)"
proof -
  let ?s = "sweepLocked now s"
  have ok: "store_ok Q s" and timed: "clocked s" "timer_armed s"
    using store_reach_ok [OF assms(1)] store_reach_timed [OF assms(1)] by (simp_all add: timed_def)
  note e = entry_ok(1) [OF store_okD(1) [OF ok], THEN iffD1, OF assms(2)]
  have old: "time_Sub now (en_at (ps_entry s e)) \<ge> ps_ttl s \<longleftrightarrow> en_at (ps_entry s e) + ps_ttl s \<le> now"
    using timed(1) time_Sub_le_iff [of "ps_ttl s" now "en_at (ps_entry s e)"] by (auto simp: clocked_def int64_defs)
  have entries: "ps_entries ?s = filter (\<lambda>ie. \<not> stale now s ie) (ps_entries s)"
    and closing: "ps_closing ?s = ps_closing s @ map fst (filter (stale now s) (ps_entries s))"
    using sweepLocked_ok(2,3) [OF ok, of now] by (simp_all add: swept_def)
  have "timer_armed (rearmLocked ?s)"
    by (rule rearmLocked_armed [OF sweepLocked_clocked [OF ok timed(1)]])
  moreover have "\<exists>u. ps_timer s = Some (u, ps_revision s) \<and> u \<le> en_at (ps_entry s e) + ps_ttl s"
    using timed(2) e store_okD(8) [OF ok assms(2)] by (fastforce simp: timer_armed_def split: if_splits)
  moreover have "map_of (ps_entries ?s) i = (if stale now s (i, e) then None else Some e)"
  proof -
    have "map_of (ps_entries ?s) i = Some x \<longleftrightarrow> (i, x) \<in> set (ps_entries ?s)" for x
      by (rule entry_ok(1) [OF store_okD(1) [OF sweepLocked_ok(1) [OF ok]]])
    moreover have "(i, x) \<in> set (ps_entries s) \<longleftrightarrow> x = e" for x
      using entry_ok(1) [OF store_okD(1) [OF ok], of i x] assms(2) by auto
    ultimately show ?thesis
      unfolding entries by (cases "map_of (filter (\<lambda>ie. \<not> stale now s ie) (ps_entries s)) i") auto
  qed
  moreover have "stale now s (i, e) \<Longrightarrow> i \<in> set (ps_closing ?s)"
    using e by (force simp: closing)
  ultimately show ?thesis
    using old by (auto simp: expire_def stale_def)
qed

section \<open>A run that is parked\<close>

definition demo_call :: CursorToolCall where
  "demo_call = \<lparr>tc_CallID = [1], tc_Name = [2], tc_Args = [3, 4], tc_execID = 7, tc_execIDStr = []\<rparr>"

definition demo_fresh :: cursorRunStore where
  "demo_fresh = newCursorRunStore hour (\<lambda>_. NewCursorRun None)"

definition demo_waiting :: cursorRunStore where
  "demo_waiting = (case addPending demo_call (ps_runs demo_fresh 0) (ps_acct demo_fresh) of (ok, run, a) \<Rightarrow> set_run 0 run a demo_fresh)"

definition demo_parked :: cursorRunStore where
  "demo_parked = snd (parkWith [9] 0 [[1]] 50 60 demo_waiting)"

lemmas demo_defs = demo_parked_def demo_waiting_def demo_fresh_def demo_call_def newCursorRunStore_def NewCursorRun_def
  newKVBlobStore_def addPending_def cursorRunToolCallSize_def cursorRunAddSize_def cursorRunEventSizeLimit_def
  cursorRunPendingCap_def cursorRunPendingBytesMax_def cursorRunEventBytesMax_def notifyRetentionLocked_def set_run_def
  parkWith_def sweepLocked_def park_entry_def cursorRunMax_def run_SetRetentionLimit_def SetRetentionLimit_def
  retainedBytesLocked_def stream_observer_def blob_observer_def applyStreamDelta_def applyBlobDelta_def parkedStreamLimit_def
  cursorParkedStreamBytesMax_def CursorRunRetainedBytesMax_def rearmLocked_def second_def hour_def Let_def

lemma demo_parked_store:
  "ps_entries demo_parked = [(0, 0)]" "ps_timer demo_parked = Some (60 + hour, 1)" "ps_ttl demo_parked = hour"
  "ps_revision demo_parked = 1" "pa_streamBytes (ps_acct demo_parked) = 4" "en_at (ps_entry demo_parked 0) = 60"
  "en_scope (ps_entry demo_parked 0) = [9]" "en_pending (ps_entry demo_parked 0) = [[1]]" "rn_closed (ps_runs demo_parked 0) = False"
  by (simp_all add: demo_defs)

lemma demo_reach: "store_reach (\<lambda>_. {#}, demo_parked)"
proof -
  have "store_reach (\<lambda>_. {#}, demo_fresh)"
    by (rule store_reach.start [of hour]) (auto simp: initial_store_def demo_fresh_def time_defs max_int64_def)
  moreover obtain ok run a where add: "addPending demo_call (ps_runs demo_fresh 0) (ps_acct demo_fresh) = (ok, run, a)"
    using prod_cases3 by blast
  ultimately have "store_reach (\<lambda>_. {#}, demo_waiting)"
    using store_reach.step store_step.add [OF add] by (simp add: demo_waiting_def)
  moreover obtain b where "parkWith [9] 0 [[1]] 50 60 demo_waiting = (b, demo_parked)"
    unfolding demo_parked_def using prod.collapse by metis
  ultimately show ?thesis
    using store_reach.step store_step.park by fastforce
qed

theorem parked_budget_witness:
  "pa_streamBytes (ps_acct demo_parked) = 4 \<and>
    (\<Sum>j \<in> set (akeys (ps_entries demo_parked)). PendingBytes (ps_runs demo_parked j) + QueuedBytes (ps_runs demo_parked j)) = 4 \<and>
    rn_retention (ps_runs demo_parked 0) \<noteq> None \<and> rn_retention (ps_runs demo_parked 1) = None"
  using parked_budget [OF demo_reach, of 0] parked_budget [OF demo_reach, of 1] demo_parked_store by simp

lemma demo_owned: "owned 100 demo_parked [9] [1] 0" "\<not> owned 100 demo_parked [9] [5] 0"
  by (simp_all add: owned_def stale_def demo_parked_store time_Sub_def int64_defs time_defs)

theorem findByToolTail_resumes_witness:
  "fst (findByToolTail [9] [[5], [1]] 100 demo_parked) = Some (0, [[1]]) \<and>
    ps_entries (snd (findByToolTail [9] [[5], [1]] 100 demo_parked)) = []"
  using findByToolTail_resumes [OF demo_reach, of "[[5], [1]]" "[9]" 100 _ _ 0 "[[1]]", OF _ prod.collapse [symmetric]] demo_owned
    demo_parked_store(1) by simp

theorem parked_expiry_witness:
  "ps_timer demo_parked = Some (60 + hour, 1) \<and> ps_entries (expire 1 (60 + hour) demo_parked) = [] \<and>
    0 \<in> set (ps_closing (expire 1 (60 + hour) demo_parked)) \<and> map_of (ps_entries (expire 1 100 demo_parked)) 0 = Some 0 \<and>
    expire 0 (60 + hour) demo_parked = demo_parked"
  using parked_expiry [OF demo_reach, of 0 0 "60 + hour" 0] parked_expiry [OF demo_reach, of 0 0 100 0] demo_parked_store
    sweepLocked_ok(3) [OF store_reach_ok [OF demo_reach, simplified], of "60 + hour"]
  by (simp add: hour_def second_def expire_def stale_def time_Sub_def int64_defs)

end
