(* ===== verification/Connect_Reader.thy ===== *)
theory Connect_Reader
  imports Blob_Store
begin

text \<open>
  The reader of Connect frames (\<^verbatim>\<open>internal/format/connect.go\<close>) and that it reads back what the framed writer wrote.

  \<^item> A \<^verbatim>\<open>bufio.Reader\<close> is the bytes still to come and the error that ends them, with no error for a clean end.
    \<open>ReadFull\<close> is \<^verbatim>\<open>io.ReadFull\<close> as it is documented.
  \<^item> The two calls of \<^verbatim>\<open>json.Unmarshal\<close> on the terminal frame are the arguments \<open>endOf\<close> and \<open>errorOf\<close>, one per target type: a
    decoding error, a JSON \<^verbatim>\<open>null\<close>, or the fields. Nothing is assumed of them.
\<close>

unbundle bit_operations_syntax

section \<open>Definitions\<close>

definition connectFlagCompressed :: byte where
  "connectFlagCompressed = 1"

definition connectFlagEndStream :: byte where
  "connectFlagEndStream = 2"

definition connectFrameHeader :: nat where
  "connectFrameHeader = 5"

definition connectMaxFrame :: uint32 where
  "connectMaxFrame = 33554432"

datatype 'x readError = EOF | ErrUnexpectedEOF | ReadError 'x

record 'x Reader =
  rd_bytes :: "byte list"
  rd_err :: "'x option"

definition ReadFull :: "nat \<Rightarrow> 'x Reader \<Rightarrow> ('x readError + byte list) \<times> 'x Reader" where
  "ReadFull m rd =
    (if m \<le> length (rd_bytes rd) then (Inr (take m (rd_bytes rd)), rd\<lparr>rd_bytes := drop m (rd_bytes rd)\<rparr>)
     else
       (Inl (case rd_err rd of
               Some x \<Rightarrow> ReadError x
             | None \<Rightarrow> if rd_bytes rd = [] then EOF else ErrUnexpectedEOF),
        rd\<lparr>rd_bytes := []\<rparr>))"

text \<open>\<^verbatim>\<open>binary.BigEndian.Uint32\<close>.\<close>

definition BigEndian_Uint32 :: "byte list \<Rightarrow> uint32" where
  "BigEndian_Uint32 b =
    push_bit 24 (ucast (b ! 0)) OR push_bit 16 (ucast (b ! 1)) OR push_bit 8 (ucast (b ! 2)) OR ucast (b ! 3)"

record connectEnvelope =
  ce_endStream :: bool
  ce_payload :: "byte list"

datatype 'j endError =
    EndInvalid 'j
  | EndNotObject
  | EndInvalidError 'j
  | EndNoCode
  | EndUpstream "byte list" "byte list"

datatype ('x, 'j) connectError =
    FrameHeader "'x readError"
  | FrameLength uint32
  | FrameBody "'x readError"
  | CompressedFrame byte
  | EndStreamFailed "'j endError"

type_synonym 'j endDecoder = "byte list \<Rightarrow> 'j + byte list option"
type_synonym 'j errorDecoder = "byte list \<Rightarrow> 'j + (byte list \<times> byte list) option"

definition endStreamError :: "'j endDecoder \<Rightarrow> 'j errorDecoder \<Rightarrow> byte list \<Rightarrow> 'j endError option" where
  "endStreamError endOf errorOf payload =
    (case endOf payload of
       Inl e \<Rightarrow> Some (EndInvalid e)
     | Inr None \<Rightarrow> Some EndNotObject
     | Inr (Some err) \<Rightarrow>
         if length err > 0 then
           (case errorOf err of
              Inl e \<Rightarrow> Some (EndInvalidError e)
            | Inr None \<Rightarrow> Some EndNoCode
            | Inr (Some (code, msg)) \<Rightarrow> if code = [] then Some EndNoCode else Some (EndUpstream code msg))
         else None)"

definition connect_next ::
  "'j endDecoder \<Rightarrow> 'j errorDecoder \<Rightarrow> 'x Reader \<Rightarrow> (('x, 'j) connectError + connectEnvelope) \<times> 'x Reader" where
  "connect_next endOf errorOf c =
    (case ReadFull connectFrameHeader c of
       (Inl e, c) \<Rightarrow> (Inl (FrameHeader e), c)
     | (Inr hdr, c) \<Rightarrow>
         let flags = hdr ! 0;
             len = BigEndian_Uint32 (drop 1 hdr)
         in
           if len > connectMaxFrame then (Inl (FrameLength len), c)
           else
             (case ReadFull (unat len) c of
                (Inl e, c) \<Rightarrow> (Inl (FrameBody e), c)
              | (Inr payload, c) \<Rightarrow>
                  if flags AND connectFlagCompressed \<noteq> 0 then (Inl (CompressedFrame flags), c)
                  else
                    let env = \<lparr>ce_endStream = flags AND connectFlagEndStream \<noteq> 0, ce_payload = payload\<rparr> in
                    if ce_endStream env then
                      (case endStreamError endOf errorOf payload of
                         Some e \<Rightarrow> (Inl (EndStreamFailed e), c)
                       | None \<Rightarrow> (Inr env, c))
                    else (Inr env, c)))"

section \<open>Frames\<close>

text \<open>All frames up to the first error, and that error.\<close>

lemma connect_next_shorter:
  "connect_next endOf errorOf c = (Inr env, c') \<Longrightarrow> length (rd_bytes c') < length (rd_bytes c)"
  by (auto simp: connect_next_def ReadFull_def connectFrameHeader_def Let_def split: if_splits option.splits prod.splits sum.splits)

function read_frames :: "'j endDecoder \<Rightarrow> 'j errorDecoder \<Rightarrow> 'x Reader \<Rightarrow> connectEnvelope list \<times> ('x, 'j) connectError" where
  "read_frames endOf errorOf c =
    (case connect_next endOf errorOf c of
       (Inl e, c) \<Rightarrow> ([], e)
     | (Inr env, c) \<Rightarrow> (case read_frames endOf errorOf c of (envs, e) \<Rightarrow> (env # envs, e)))"
  by pat_completeness auto
termination
  by (relation "measure (\<lambda>(endOf, errorOf, c). length (rd_bytes c))") (auto dest: connect_next_shorter [OF sym])

declare read_frames.simps [simp del]

lemma BigEndian_round_trip:
  "BigEndian_Uint32 [ucast (drop_bit 24 l), ucast (drop_bit 16 l), ucast (drop_bit 8 l), ucast l] = l" for l :: uint32
proof (rule bit_word_eqI)
  fix k
  assume k: "k < LENGTH(32)"
  consider "k < 8" | "8 \<le> k" "k < 16" | "16 \<le> k" "k < 24" | "24 \<le> k" "k < 32"
    using k by force
  then show "bit (BigEndian_Uint32 [ucast (drop_bit 24 l), ucast (drop_bit 16 l), ucast (drop_bit 8 l), ucast l]) k = bit l k"
    by cases (auto simp: BigEndian_Uint32_def bit_simps)
qed

lemma frame_length_ok:
  "length p \<le> unat connectMaxFrame \<Longrightarrow> unat (word_of_nat (length p) :: uint32) = length p \<and> \<not> (word_of_nat (length p) :: uint32) > connectMaxFrame"
  by (auto simp: connectMaxFrame_def unat_of_nat word_less_nat_alt)

lemma connect_next_frame:
  assumes "length p \<le> unat connectMaxFrame" "rd_bytes c = AppendConnectEnvelope [] p @ rest"
  shows "connect_next endOf errorOf c = (Inr \<lparr>ce_endStream = False, ce_payload = p\<rparr>, c\<lparr>rd_bytes := rest\<rparr>)"
  using frame_length_ok [OF assms(1)] assms(2)
  by (simp add: connect_next_def ReadFull_def connectFrameHeader_def AppendConnectEnvelope_def frame_header_def Let_def
      BigEndian_round_trip)

lemma read_frames_written:
  "list_all (\<lambda>p. length p \<le> unat connectMaxFrame) ps \<Longrightarrow> rd_bytes c = concat (map (AppendConnectEnvelope []) ps) \<Longrightarrow>
    rd_err c = None \<Longrightarrow>
    read_frames endOf errorOf c = (map (\<lambda>p. \<lparr>ce_endStream = False, ce_payload = p\<rparr>) ps, FrameHeader EOF)"
proof (induction ps arbitrary: c)
  case Nil
  then show ?case
    by (subst read_frames.simps) (simp add: connect_next_def ReadFull_def connectFrameHeader_def)
next
  case (Cons p ps)
  then show ?case
    using connect_next_frame [where endOf = endOf and errorOf = errorOf and c = c and p = p and rest = "concat (map (AppendConnectEnvelope []) ps)"]
      Cons.IH [of "c\<lparr>rd_bytes := concat (map (AppendConnectEnvelope []) ps)\<rparr>"]
    by (subst read_frames.simps) simp
qed

text \<open>A frame that is cut off is an error, and never the clean end of the stream.\<close>

lemma connect_next_truncated:
  assumes "length p \<le> unat connectMaxFrame" "AppendConnectEnvelope [] p = rd_bytes c @ rest" "rest \<noteq> []" "rd_bytes c \<noteq> []" "rd_err c = None"
  shows "fst (connect_next endOf errorOf c) = Inl (if length (rd_bytes c) < 5 then FrameHeader ErrUnexpectedEOF
    else FrameBody (if length (rd_bytes c) = 5 then EOF else ErrUnexpectedEOF))"
proof -
  have "length (rd_bytes c) + length rest = 5 + length p"
    using arg_cong [OF assms(2), of length] by (simp add: AppendConnectEnvelope_def frame_header_def Let_def)
  then have short: "length (rd_bytes c) < 5 + length p"
    using assms(3) by (cases rest) auto
  show ?thesis
  proof (cases "length (rd_bytes c) < 5")
    case True
    then show ?thesis
      using assms(4,5) by (simp add: connect_next_def ReadFull_def connectFrameHeader_def)
  next
    case False
    then have hdr: "take 5 (rd_bytes c) = frame_header p"
      using arg_cong [OF assms(2), of "take 5"] by (simp add: AppendConnectEnvelope_def frame_header_def Let_def)
    show ?thesis
      using False short hdr frame_length_ok [OF assms(1)] assms(5)
      by (auto simp: connect_next_def ReadFull_def connectFrameHeader_def frame_header_def Let_def BigEndian_round_trip)
  qed
qed

end
