(* ===== verification/Turn_Driver.thy ===== *)
theory Turn_Driver
  imports Cursor_Run Connect_Reader
begin

text \<open>
  Driving a turn of a Cursor run (\<^verbatim>\<open>internal/format/cursor_run.go\<close>): the usage the pump accumulates, the loop that turns
  the queued events into client chunks and parks on tool calls, and the results that resume a parked run.

  \<^item> One iteration of the driver's loop is \<open>turn_iter\<close>; what its \<^verbatim>\<open>select\<close> yields is a \<open>turnInput\<close>. \<open>td_idle\<close> says that the settle
    timer exists, whose channel is \<^verbatim>\<open>idle\<close>.
  \<^item> \<open>emit\<close> is the proxy's \<^verbatim>\<open>emitDelta\<close>, which writes to the client and may fail. The object made for a tool call is a
    \<open>ToolChunk\<close> of its index, id, name and arguments.
  \<^item> The pause and the resumption of the transport's idle bound are left out. The Go map of results is an association
    list; a fresh message id for the steer is the argument \<open>uuid\<close>.
\<close>

section \<open>Definitions\<close>

subsection \<open>Usage\<close>

text \<open>\<^verbatim>\<open>ErrMetricRange\<close> is the only error of the checked counts; it is \<open>None\<close> here.\<close>

definition addCount :: "int \<Rightarrow> int \<Rightarrow> int option" where
  "addCount tot val =
    (if val < 0 then None
     else
       let nxt = wrap64 (tot + val) in
       if nxt < 0 then None else Some nxt)"

definition sumCount :: "int \<Rightarrow> int \<Rightarrow> int option" where
  "sumCount tot val = (if tot < 0 then None else addCount tot val)"

fun sum_counts_from :: "int \<Rightarrow> int list \<Rightarrow> int option" where
  "sum_counts_from tot [] = Some tot"
| "sum_counts_from tot (v # vs) =
    (case sumCount tot v of
       None \<Rightarrow> None
     | Some nxt \<Rightarrow> sum_counts_from nxt vs)"

definition SumCounts :: "int list \<Rightarrow> int option" where
  "SumCounts vs = sum_counts_from 0 vs"

definition protoTokenCount :: "uint64 \<Rightarrow> int option" where
  "protoTokenCount m = (if int (unat m) > max_int64 then None else Some (int (unat m)))"

datatype updateError = UpdateDecode protoError | UpdateRange

definition bytes_of :: "string \<Rightarrow> byte list" where
  "bytes_of = map of_char"

definition delta_event :: "string \<Rightarrow> byte list \<Rightarrow> runEvent" where
  "delta_event key txt =
    \<lparr>ev_kind = evDelta, ev_delta = EMap [(bytes_of key, EString txt)], ev_toolCall = None, ev_err = None, ev_size = 0\<rparr>"

text \<open>Whether the arm is present, its error, and the event it pushes.\<close>

definition pushInteractionDelta ::
  "protoField list \<Rightarrow> uint64 \<Rightarrow> uint64 \<Rightarrow> string \<Rightarrow> (protoError option \<times> runEvent option) option" where
  "pushInteractionDelta upd deltaField textField key =
    (case firstField upd deltaField of
       None \<Rightarrow> None
     | Some f \<Rightarrow>
         (case fst (subFields (Some f) None) of
            Inl e \<Rightarrow> Some (Some e, None)
          | Inr td \<Rightarrow>
              (case firstField td textField of
                 None \<Rightarrow> Some (None, None)
               | Some t \<Rightarrow>
                   if length (pf_raw t) > 0 then Some (None, Some (delta_event key (pf_raw t))) else Some (None, None))))"

definition token_delta :: "protoField \<Rightarrow> ('r, 'e) CursorRun \<Rightarrow> updateError option \<times> ('r, 'e) CursorRun" where
  "token_delta f run =
    (case fst (subFields (Some f) None) of
       Inl e \<Rightarrow> (Some (UpdateDecode e), run)
     | Inr td \<Rightarrow>
         (case firstField td 1 of
            None \<Rightarrow> (None, run)
          | Some t \<Rightarrow>
              (case protoTokenCount (pf_n t) of
                 None \<Rightarrow> (Some UpdateRange, run)
               | Some cnt \<Rightarrow>
                   (case SumCounts [rn_usageDeltaSum run, cnt] of
                      None \<Rightarrow> (Some UpdateRange, run)
                    | Some tot \<Rightarrow> (None, run\<lparr>rn_usageDeltaSum := tot\<rparr>)))))"

definition handleInteractionUpdate ::
  "protoField \<Rightarrow> ('r, 'e) CursorRun \<Rightarrow> updateError option \<times> runEvent option \<times> ('r, 'e) CursorRun" where
  "handleInteractionUpdate iu run =
    (case fst (subFields (Some iu) None) of
       Inl e \<Rightarrow> (Some (UpdateDecode e), None, run)
     | Inr upd \<Rightarrow>
         (case pushInteractionDelta upd 1 1 ''content'' of
            Some (e, ev) \<Rightarrow> (map_option UpdateDecode e, ev, run)
          | None \<Rightarrow>
              (case pushInteractionDelta upd 4 1 ''reasoning_content'' of
                 Some (e, ev) \<Rightarrow> (map_option UpdateDecode e, ev, run)
               | None \<Rightarrow>
                   (case firstField upd 8 of
                      Some f \<Rightarrow> (case token_delta f run of (e, run) \<Rightarrow> (e, None, run))
                    | None \<Rightarrow>
                        (case firstField upd 14 of
                           None \<Rightarrow> (None, None, run)
                         | Some f \<Rightarrow>
                             (case fst (subFields (Some f) None) of
                                Inl e \<Rightarrow> (Some (UpdateDecode e), None, run)
                              | Inr _ \<Rightarrow> (None, None, run\<lparr>rn_turnEnded := True\<rparr>)))))))"

definition handleCheckpointUpdate ::
  "protoField \<Rightarrow> ('r, 'e) CursorRun \<Rightarrow> updateError option \<times> ('r, 'e) CursorRun" where
  "handleCheckpointUpdate cp run =
    (case fst (subFields (Some cp) None) of
       Inl e \<Rightarrow> (Some (UpdateDecode e), run)
     | Inr cs \<Rightarrow>
         (case firstField cs 5 of
            None \<Rightarrow> (None, run)
          | Some td \<Rightarrow>
              (case fst (subFields (Some td) None) of
                 Inl e \<Rightarrow> (Some (UpdateDecode e), run)
               | Inr details \<Rightarrow>
                   (case firstField details 1 of
                      None \<Rightarrow> (None, run)
                    | Some u \<Rightarrow>
                        if pf_n u > 0 then
                          (case protoTokenCount (pf_n u) of
                             None \<Rightarrow> (Some UpdateRange, run)
                           | Some cnt \<Rightarrow> (None, run\<lparr>rn_usagePrompt := cnt\<rparr>))
                        else (None, run)))))"

definition usageSnapshot :: "('r, 'e) CursorRun \<Rightarrow> int \<times> int \<times> int" where
  "usageSnapshot run = (rn_usagePrompt run, rn_usageDeltaSum run, 0)"

subsection \<open>The turn\<close>

datatype TurnOutcome = TurnFinished | TurnParked | TurnErrored

datatype ('e, 'x, 'c) turnError =
    TurnRun "'e runError"
  | TurnUnexpectedEOF
  | TurnEvent evError
  | TurnEmit 'c
  | TurnClosed
  | TurnNoPending "byte list"
  | TurnVanished "byte list"
  | TurnWriteResult "'x ioError"
  | TurnWriteSteer "'x ioError"

record ('e, 'x, 'c) TurnResult =
  tr_Outcome :: TurnOutcome
  tr_ToolCalls :: "CursorToolCall list"
  tr_Prompt :: int
  tr_Output :: int
  tr_Reasoning :: int
  tr_VisibleOutput :: bool
  tr_Err :: "('e, 'x, 'c) turnError option"
  tr_ClientAbort :: bool

definition errored :: "('e, 'x, 'c) turnError \<Rightarrow> bool \<Rightarrow> bool \<Rightarrow> ('e, 'x, 'c) TurnResult" where
  "errored err visible abort =
    \<lparr>tr_Outcome = TurnErrored, tr_ToolCalls = [], tr_Prompt = 0, tr_Output = 0, tr_Reasoning = 0,
     tr_VisibleOutput = visible, tr_Err = Some err, tr_ClientAbort = abort\<rparr>"

text \<open>\<^verbatim>\<open>errors.Is(err, metrics.ErrMetricRange)\<close>.\<close>

fun is_metric_range :: "('e, 'x, 'c) turnError option \<Rightarrow> bool" where
  "is_metric_range (Some (TurnEvent e)) = ee_range e"
| "is_metric_range _ = False"

definition finish ::
  "TurnOutcome \<Rightarrow> CursorToolCall list \<Rightarrow> ('e, 'x, 'c) turnError option \<Rightarrow> bool \<Rightarrow> ('r, 'e) CursorRun
    \<Rightarrow> ('e, 'x, 'c) TurnResult" where
  "finish outcome calls err visible run =
    (case (if is_metric_range err then (0, 0, 0) else usageSnapshot run) of (prompt, outp, reasoning) \<Rightarrow>
      \<lparr>tr_Outcome = outcome, tr_ToolCalls = calls, tr_Prompt = prompt, tr_Output = outp, tr_Reasoning = reasoning,
       tr_VisibleOutput = visible, tr_Err = err, tr_ClientAbort = False\<rparr>)"

definition has_text :: "string \<Rightarrow> (byte list \<times> evValue) list \<Rightarrow> bool" where
  "has_text key delta = (case map_of delta (bytes_of key) of Some (EString s) \<Rightarrow> s \<noteq> [] | _ \<Rightarrow> False)"

definition cursorVisibleDelta :: "evValue \<Rightarrow> bool" where
  "cursorVisibleDelta d =
    (case d of
       EMap delta \<Rightarrow>
         has_text ''content'' delta \<or> has_text ''reasoning_content'' delta \<or>
         (case map_of delta (bytes_of ''tool_calls'') of Some (EMaps calls) \<Rightarrow> length calls > 0 | _ \<Rightarrow> False)
     | _ \<Rightarrow> False)"

definition pendingHas :: "byte list \<Rightarrow> ('r, 'e) CursorRun \<Rightarrow> bool" where
  "pendingHas i run = (map_of (rn_pending run) i \<noteq> None)"

datatype chunk = DeltaChunk evValue | ToolChunk nat "byte list" "byte list" "byte list"

type_synonym ('w, 'c) emitter = "chunk \<Rightarrow> 'w \<Rightarrow> 'c option \<times> 'w"

record driver =
  td_calls :: "CursorToolCall list"
  td_seen :: "byte list list"
  td_visible :: bool
  td_idle :: bool
  td_expired :: bool

definition new_driver :: driver where
  "new_driver = \<lparr>td_calls = [], td_seen = [], td_visible = False, td_idle = False, td_expired = False\<rparr>"

definition emit_chunk :: "('w, 'c) emitter option \<Rightarrow> chunk \<Rightarrow> 'w \<Rightarrow> 'c option \<times> 'w" where
  "emit_chunk emit c w = (case emit of None \<Rightarrow> (None, w) | Some f \<Rightarrow> f c w)"

text \<open>The body of the loop after an event was received and released.\<close>

definition turn_event ::
  "('w, 'c) emitter option \<Rightarrow> runEvent \<Rightarrow> driver \<Rightarrow> ('r, 'e) CursorRun \<Rightarrow> 'w
    \<Rightarrow> ('e, 'x, 'c) TurnResult option \<times> driver \<times> 'w" where
  "turn_event emit ev d run w =
    (case ev_kind ev of
       evDelta \<Rightarrow>
         let d = (if cursorVisibleDelta (ev_delta ev) then d\<lparr>td_visible := True\<rparr> else d) in
         (case emit_chunk emit (DeltaChunk (ev_delta ev)) w of
            (Some err, w) \<Rightarrow> (Some (errored (TurnEmit err) (td_visible d) True), d, w)
          | (None, w) \<Rightarrow> (None, d, w))
     | evToolCall \<Rightarrow>
         (case ev_toolCall ev of
            None \<Rightarrow> (None, d, w)
          | Some call \<Rightarrow>
              if \<not> pendingHas (tc_CallID call) run \<or> tc_CallID call \<in> set (td_seen d) then (None, d, w)
              else
                let d = d\<lparr>td_seen := td_seen d @ [tc_CallID call], td_calls := td_calls d @ [call], td_visible := True\<rparr> in
                (case emit_chunk emit (ToolChunk (length (td_calls d) - 1) (tc_CallID call) (tc_Name call) (tc_Args call)) w of
                   (Some err, w) \<Rightarrow> (Some (errored (TurnEmit err) (td_visible d) True), d, w)
                 | (None, w) \<Rightarrow> (None, d\<lparr>td_idle := True, td_expired := False\<rparr>, w)))
     | evDone \<Rightarrow> (Some (finish TurnFinished (td_calls d) None (td_visible d) run), d, w)
     | evErr \<Rightarrow> (Some (finish TurnErrored (td_calls d) (map_option TurnEvent (ev_err ev)) (td_visible d) run), d, w))"

datatype turnInput = Received runEvent | ChannelClosed | SettleExpired | NothingQueued

definition turn_iter ::
  "('w, 'c) emitter option \<Rightarrow> turnInput \<Rightarrow> driver \<Rightarrow> ('r, 'e) CursorRun \<Rightarrow> 'r \<Rightarrow> 'w
    \<Rightarrow> ('e, 'x, 'c) TurnResult option \<times> driver \<times> ('r, 'e) CursorRun \<times> 'r \<times> 'w" where
  "turn_iter emit inp d run r w =
    (case inp of
       NothingQueued \<Rightarrow> (Some (finish TurnParked (td_calls d) None (td_visible d) run), d, run, r, w)
     | SettleExpired \<Rightarrow> (None, d\<lparr>td_expired := True\<rparr>, run, r, w)
     | ChannelClosed \<Rightarrow>
         (Some (case rn_closeErr run of
                  Some e \<Rightarrow> finish TurnErrored (td_calls d) (Some (TurnRun e)) (td_visible d) run
                | None \<Rightarrow> finish TurnErrored (td_calls d) (Some TurnUnexpectedEOF) (td_visible d) run), d, run, r, w)
     | Received ev \<Rightarrow>
         (case releaseEvent ev run r of (run, r) \<Rightarrow>
           (case turn_event emit ev d run w of (res, d, w) \<Rightarrow> (res, d, run, r, w))))"

subsection \<open>Resuming\<close>

record ToolResult =
  tres_Text :: "byte list"
  tres_IsError :: bool

fun write_results ::
  "('w, 'x) Writer \<Rightarrow> (byte list \<times> ToolResult) list \<Rightarrow> ('w, 'x) streamWriter \<Rightarrow> ('r, 'e) CursorRun \<Rightarrow> 'r
    \<Rightarrow> ('e, 'x, 'c) turnError option \<times> ('w, 'x) streamWriter \<times> ('r, 'e) CursorRun \<times> 'r" where
  "write_results Write [] sw run r = (None, sw, run, r)"
| "write_results Write ((i, res) # results) sw run r =
    (case takePendingLocked i run r of
       (None, run, r) \<Rightarrow> (Some (TurnVanished i), sw, run, r)
     | (Some call, run, r) \<Rightarrow>
         (case writeFramed Write (encodeMcpResult (tc_execID call) (tc_execIDStr call) (tres_Text res) (tres_IsError res)) sw of
            (Some e, sw) \<Rightarrow> (Some (TurnWriteResult e), sw, run, r)
          | (None, sw) \<Rightarrow> write_results Write results sw run r))"

text \<open>\<^verbatim>\<open>resumeTurn\<close> up to its call of \<^verbatim>\<open>runTurn\<close>; with no error the caller drives the turn.\<close>

definition resumeTurn ::
  "('w, 'x) Writer \<Rightarrow> byte list \<Rightarrow> (byte list \<times> ToolResult) list \<Rightarrow> byte list \<Rightarrow> ('w, 'x) streamWriter \<Rightarrow> ('r, 'e) CursorRun \<Rightarrow> 'r
    \<Rightarrow> ('e, 'x, 'c) turnError option \<times> ('w, 'x) streamWriter \<times> ('r, 'e) CursorRun \<times> 'r" where
  "resumeTurn Write uuid results steerText sw run r =
    (if rn_closed run then (Some (case rn_closeErr run of Some e \<Rightarrow> TurnRun e | None \<Rightarrow> TurnClosed), sw, run, r)
     else
       (case find (\<lambda>i. map_of (rn_pending run) i = None) (akeys results) of
          Some i \<Rightarrow> (Some (TurnNoPending i), sw, run, r)
        | None \<Rightarrow>
            let run = run\<lparr>rn_usagePrompt := 0, rn_usageDeltaSum := 0, rn_turnEnded := False\<rparr> in
            (case write_results Write results sw run r of
               (Some e, sw, run, r) \<Rightarrow> (Some e, sw, run, r)
             | (None, sw, run, r) \<Rightarrow>
                 if steerText \<noteq> [] then
                   (case writeFramed Write (encodeSteerUserMessage uuid steerText) sw of
                      (Some e, sw) \<Rightarrow> (Some (TurnWriteSteer e), sw, run, r)
                    | (None, sw) \<Rightarrow> (None, sw, run, r))
                 else (None, sw, run, r))))"

section \<open>Usage is exact\<close>

text \<open>The checked sum of two counts is their sum, and fails exactly on a negative count or an overflow.\<close>

lemma SumCounts_exact:
  assumes "in_int64 a" "in_int64 b"
  shows "SumCounts [a, b] = (if 0 \<le> a \<and> 0 \<le> b \<and> a + b \<le> max_int64 then Some (a + b) else None)"
proof (cases "0 \<le> a \<and> 0 \<le> b")
  case True
  have "wrap64 (0 + a) = a"
    using assms(1) by (simp add: wrap64_id)
  moreover have "wrap64 (a + b) < 0" if "a + b > max_int64"
  proof -
    have "(a + b + 9223372036854775808) mod 18446744073709551616 = (a + b - 9223372036854775808) mod 18446744073709551616"
      using minus_mod_self2 [of "a + b + 9223372036854775808" 18446744073709551616] by simp
    also have "\<dots> = a + b - 9223372036854775808"
      using that assms True by (intro mod_pos_pos_trivial) (auto simp: int64_defs)
    finally show ?thesis
      using assms by (simp add: wrap64_def int64_defs)
  qed
  moreover have "wrap64 (a + b) = a + b" if "a + b \<le> max_int64"
    using that True by (intro wrap64_id) (simp add: int64_defs)
  ultimately show ?thesis
    using True by (auto simp: SumCounts_def sumCount_def addCount_def Let_def not_le)
next
  case False
  then show ?thesis
    using assms(1) wrap64_id [of a] by (auto simp: SumCounts_def sumCount_def addCount_def Let_def split: option.splits)
qed

lemma token_delta_usage:
  assumes "token_delta f run = (err, run')" "in_int64 (rn_usageDeltaSum run)" "0 \<le> rn_usageDeltaSum run"
  shows "0 \<le> rn_usageDeltaSum run' \<and> in_int64 (rn_usageDeltaSum run') \<and> rn_usageDeltaSum run \<le> rn_usageDeltaSum run'"
proof -
  have "in_int64 c \<and> 0 \<le> c" if "protoTokenCount m = Some c" for m c
  proof -
    have "0 \<le> c" "c \<le> max_int64"
      using that by (auto simp: protoTokenCount_def split: if_splits)
    then show ?thesis
      by (simp add: int64_defs)
  qed
  then show ?thesis
    using assms SumCounts_exact [OF assms(2)]
    by (fastforce simp: token_delta_def int64_defs split: sum.splits option.splits if_splits)
qed

section \<open>A turn and its pump\<close>

text \<open>
  The pump and the driver of one turn, interleaved at their critical sections. The queue is the channel; \<open>ts_pushed\<close> are
  the events that entered it in this turn and \<open>ts_got\<close> the ones the driver has taken. The client keeps what it is sent.
\<close>

record ('r, 'e) turnSys =
  ts_run :: "('r, 'e) CursorRun"
  ts_acct :: 'r
  ts_queue :: "runEvent list"
  ts_ended :: bool
  ts_driver :: driver
  ts_result :: "('e, unit, unit) TurnResult option"
  ts_client :: "chunk list"
  ts_pushed :: "runEvent list"
  ts_got :: "runEvent list"

definition recording :: "(chunk list, unit) emitter" where
  "recording c w = (None, w @ [c])"

fun offered :: "turnInput \<Rightarrow> ('r, 'e) turnSys \<Rightarrow> bool" where
  "offered (Received ev) s \<longleftrightarrow> ts_queue s \<noteq> [] \<and> hd (ts_queue s) = ev"
| "offered ChannelClosed s \<longleftrightarrow> ts_queue s = [] \<and> ts_ended s"
| "offered SettleExpired s \<longleftrightarrow> td_idle (ts_driver s) \<and> \<not> td_expired (ts_driver s)"
| "offered NothingQueued s \<longleftrightarrow> ts_queue s = [] \<and> \<not> ts_ended s \<and> td_expired (ts_driver s)"

fun taken :: "turnInput \<Rightarrow> runEvent list" where
  "taken (Received ev) = [ev]"
| "taken _ = []"

definition tool_id :: "runEvent \<Rightarrow> byte list option" where
  "tool_id ev = (if ev_kind ev = evToolCall then map_option tc_CallID (ev_toolCall ev) else None)"

inductive turn_step :: "('r, 'e) turnSys \<Rightarrow> ('r, 'e) turnSys \<Rightarrow> bool" where
  register: "addPending call (ts_run s) (ts_acct s) = (ok, run, a) \<Longrightarrow> turn_step s (s\<lparr>ts_run := run, ts_acct := a\<rparr>)"
| push: "\<not> ts_ended s \<Longrightarrow> pushEvent ev (ts_run s) (ts_acct s) = (ok, ev', run, a) \<Longrightarrow>
    \<forall>i. tool_id ev = Some i \<longrightarrow> pendingHas i (ts_run s) \<Longrightarrow>
    turn_step s (s\<lparr>ts_run := run, ts_acct := a, ts_queue := ts_queue s @ (if ok then [ev'] else []),
      ts_pushed := ts_pushed s @ (if ok then [ev'] else [])\<rparr>)"
| interaction: "handleInteractionUpdate iu (ts_run s) = (err, ev, run) \<Longrightarrow> turn_step s (s\<lparr>ts_run := run\<rparr>)"
| checkpoint: "handleCheckpointUpdate cp (ts_run s) = (err, run) \<Longrightarrow> turn_step s (s\<lparr>ts_run := run\<rparr>)"
| close: "turn_step s (s\<lparr>ts_run := run_Close (ts_run s)\<rparr>)"
| pump_exit: "turn_step s (s\<lparr>ts_run := run_Close (ts_run s), ts_ended := True\<rparr>)"
| drive: "ts_result s = None \<Longrightarrow> offered inp s \<Longrightarrow>
    turn_iter (Some recording) inp (ts_driver s) (ts_run s) (ts_acct s) (ts_client s) = (res, d, run, a, w) \<Longrightarrow>
    turn_step s (s\<lparr>ts_run := run, ts_acct := a, ts_queue := drop (length (taken inp)) (ts_queue s), ts_driver := d,
      ts_result := res, ts_client := w, ts_got := ts_got s @ taken inp\<rparr>)"

definition turn_start :: "runEvent list \<Rightarrow> ('r, 'e) turnSys \<Rightarrow> bool" where
  "turn_start q0 s \<longleftrightarrow> ts_queue s = q0 \<and> ts_driver s = new_driver \<and> ts_result s = None \<and> ts_client s = [] \<and>
    ts_pushed s = [] \<and> ts_got s = []"

inductive turn_reach :: "runEvent list \<Rightarrow> ('r, 'e) turnSys \<Rightarrow> bool" for q0 where
  start: "turn_start q0 s \<Longrightarrow> turn_reach q0 s"
| step: "turn_reach q0 s \<Longrightarrow> turn_step s s' \<Longrightarrow> turn_reach q0 s'"

text \<open>The chunks the client should have: one per surfaced call, numbered, and the deltas of the events taken.\<close>

definition tool_chunks :: "CursorToolCall list \<Rightarrow> chunk list" where
  "tool_chunks calls = map (\<lambda>k. ToolChunk k (tc_CallID (calls ! k)) (tc_Name (calls ! k)) (tc_Args (calls ! k))) [0..<length calls]"

definition deltas :: "runEvent list \<Rightarrow> evValue list" where
  "deltas evs = map ev_delta (filter (\<lambda>ev. ev_kind ev = evDelta) evs)"

fun is_tool_chunk :: "chunk \<Rightarrow> bool" where
  "is_tool_chunk (ToolChunk k i a b) = True"
| "is_tool_chunk (DeltaChunk v) = False"

definition client_ok :: "CursorToolCall list \<Rightarrow> runEvent list \<Rightarrow> chunk list \<Rightarrow> bool" where
  "client_ok calls got w \<longleftrightarrow> filter is_tool_chunk w = tool_chunks calls \<and>
    filter (\<lambda>c. \<not> is_tool_chunk c) w = map DeltaChunk (deltas got)"

definition driver_ok :: "driver \<Rightarrow> ('r, 'e) CursorRun \<Rightarrow> runEvent list \<Rightarrow> chunk list \<Rightarrow> bool" where
  "driver_ok d run got w \<longleftrightarrow> td_seen d = map tc_CallID (td_calls d) \<and> distinct (td_seen d) \<and>
    (\<forall>i \<in> set (td_seen d). pendingHas i run) \<and> (td_idle d \<longleftrightarrow> td_calls d \<noteq> []) \<and> (td_expired d \<longrightarrow> td_idle d) \<and>
    client_ok (td_calls d) got w"

definition turn_inv :: "runEvent list \<Rightarrow> ('r, 'e) turnSys \<Rightarrow> bool" where
  "turn_inv q0 s \<longleftrightarrow> q0 @ ts_pushed s = ts_got s @ ts_queue s \<and>
    (\<forall>ev \<in> set (ts_pushed s). \<forall>i. tool_id ev = Some i \<longrightarrow> pendingHas i (ts_run s)) \<and>
    (\<forall>ev \<in> set (drop (length q0) (ts_got s)). \<forall>i. tool_id ev = Some i \<longrightarrow> i \<in> set (td_seen (ts_driver s))) \<and>
    driver_ok (ts_driver s) (ts_run s) (ts_got s) (ts_client s)"

subsection \<open>What the pump keeps\<close>

lemma pending_kept:
  shows "addPending call run r = (ok, run', r') \<Longrightarrow> pendingHas i run \<Longrightarrow> pendingHas i run'"
    and "pushEvent ev run r = (ok, ev', run', r') \<Longrightarrow> pendingHas i run' = pendingHas i run"
    and "releaseEvent ev run r = (run', r') \<Longrightarrow> pendingHas i run' = pendingHas i run"
    and "pendingHas i (run_Close run) = pendingHas i run"
  unfolding addPending_def pushEvent_def releaseEvent_def pendingHas_def Let_def
  by (auto split: if_splits option.splits prod.splits)

lemma pending_kept_update:
  shows "handleInteractionUpdate iu run = (err, evo, run') \<Longrightarrow> pendingHas i run' = pendingHas i run"
    and "handleCheckpointUpdate cp run = (err, run') \<Longrightarrow> pendingHas i run' = pendingHas i run"
  unfolding handleInteractionUpdate_def handleCheckpointUpdate_def token_delta_def pendingHas_def
  by (auto split: option.splits sum.splits prod.splits if_splits)

lemma push_tool_id: "pushEvent ev run r = (ok, ev', run', r') \<Longrightarrow> tool_id ev' = tool_id ev"
  by (auto simp: pushEvent_def Let_def tool_id_def split: if_splits option.splits prod.splits)

lemma turn_inv_run:
  assumes "turn_inv q0 s" "\<And>i. pendingHas i (ts_run s) \<Longrightarrow> pendingHas i run"
  shows "turn_inv q0 (s\<lparr>ts_run := run, ts_acct := a\<rparr>)" "turn_inv q0 (s\<lparr>ts_run := run\<rparr>)"
    "turn_inv q0 (s\<lparr>ts_run := run, ts_ended := b\<rparr>)"
  using assms by (auto simp: turn_inv_def driver_ok_def)

lemma turn_inv_push:
  assumes "turn_inv q0 s" "pushEvent ev (ts_run s) (ts_acct s) = (ok, ev', run, a)" "\<forall>i. tool_id ev = Some i \<longrightarrow> pendingHas i (ts_run s)"
  shows "turn_inv q0 (s\<lparr>ts_run := run, ts_acct := a, ts_queue := ts_queue s @ (if ok then [ev'] else []),
      ts_pushed := ts_pushed s @ (if ok then [ev'] else [])\<rparr>)"
  using assms push_tool_id [OF assms(2)] pending_kept(2) [OF assms(2)]
  by (auto simp: turn_inv_def driver_ok_def)

subsection \<open>What the driver does\<close>

lemma client_ok_delta:
  "client_ok calls got w \<Longrightarrow> ev_kind ev = evDelta \<Longrightarrow> client_ok calls (got @ [ev]) (w @ [DeltaChunk (ev_delta ev)])"
  by (simp add: client_ok_def deltas_def)

lemma client_ok_other: "client_ok calls got w \<Longrightarrow> ev_kind ev \<noteq> evDelta \<Longrightarrow> client_ok calls (got @ [ev]) w"
  by (simp add: client_ok_def deltas_def)

lemma client_ok_tool:
  "client_ok calls got w \<Longrightarrow> ev_kind ev \<noteq> evDelta \<Longrightarrow>
    client_ok (calls @ [c]) (got @ [ev]) (w @ [ToolChunk (length calls) (tc_CallID c) (tc_Name c) (tc_Args c)])"
  by (simp add: client_ok_def deltas_def tool_chunks_def nth_append)

lemma turn_event_cases:
  fixes res :: "('e, 'x, unit) TurnResult option"
  assumes "turn_event (Some recording) ev d run w = (res, d', w')"
  obtains (delta) v where "ev_kind ev = evDelta" "res = None" "d' = d\<lparr>td_visible := v\<rparr>" "w' = w @ [DeltaChunk (ev_delta ev)]"
  | (tool) call where "ev_kind ev = evToolCall" "ev_toolCall ev = Some call" "pendingHas (tc_CallID call) run"
      "tc_CallID call \<notin> set (td_seen d)" "res = None"
      "d' = d\<lparr>td_seen := td_seen d @ [tc_CallID call], td_calls := td_calls d @ [call], td_visible := True, td_idle := True, td_expired := False\<rparr>"
      "w' = w @ [ToolChunk (length (td_calls d)) (tc_CallID call) (tc_Name call) (tc_Args call)]"
  | (skipped) "ev_kind ev = evToolCall" "d' = d" "w' = w" "res = None"
      "\<And>i. tool_id ev = Some i \<Longrightarrow> pendingHas i run \<Longrightarrow> i \<in> set (td_seen d)"
  | (finished) "ev_kind ev = evDone" "d' = d" "w' = w" "res = Some (finish TurnFinished (td_calls d) None (td_visible d) run)"
  | (failed) "ev_kind ev = evErr" "d' = d" "w' = w" "res = Some (finish TurnErrored (td_calls d) (map_option TurnEvent (ev_err ev)) (td_visible d) run)"
proof (cases "ev_kind ev")
  case evDelta
  then show thesis
    using assms delta [of True] delta [of "td_visible d"]
    by (auto simp: turn_event_def emit_chunk_def recording_def Let_def split: if_splits)
next
  case evToolCall
  then show thesis
  proof (cases "\<exists>call. ev_toolCall ev = Some call \<and> pendingHas (tc_CallID call) run \<and> tc_CallID call \<notin> set (td_seen d)")
    case True
    then show thesis
      using evToolCall assms tool by (auto simp: turn_event_def emit_chunk_def recording_def Let_def)
  next
    case False
    then show thesis
      using evToolCall assms skipped by (auto simp: turn_event_def tool_id_def split: option.splits if_splits)
  qed
qed (use assms finished failed in \<open>auto simp: turn_event_def\<close>)

lemma turn_event_ok:
  assumes eq: "turn_event (Some recording) ev d run w = (res, d', w')" and ok: "driver_ok d run got w"
  shows "driver_ok d' run (got @ [ev]) w' \<and> set (td_seen d) \<subseteq> set (td_seen d') \<and>
    (\<forall>i. tool_id ev = Some i \<longrightarrow> pendingHas i run \<longrightarrow> i \<in> set (td_seen d'))"
  using eq
proof (cases rule: turn_event_cases)
  case (delta v)
  then show ?thesis
    using ok client_ok_delta by (auto simp: driver_ok_def tool_id_def)
next
  case (tool call)
  then show ?thesis
    using ok client_ok_tool [of "td_calls d" got w ev call] by (auto simp: driver_ok_def tool_id_def)
next
  case skipped
  then show ?thesis
    using ok client_ok_other [of "td_calls d" got w ev] by (auto simp: driver_ok_def)
qed (use ok client_ok_other [of "td_calls d" got w ev] in \<open>auto simp: driver_ok_def tool_id_def\<close>)

lemma turn_inv_receive:
  assumes inv: "turn_inv q0 s" and q: "ts_queue s = ev # q"
    and iter: "turn_iter (Some recording) (Received ev) (ts_driver s) (ts_run s) (ts_acct s) (ts_client s) = (res, d, run, a, w)"
  shows "turn_inv q0 (s\<lparr>ts_run := run, ts_acct := a, ts_queue := q, ts_driver := d, ts_result := res, ts_client := w,
    ts_got := ts_got s @ [ev]\<rparr>)"
proof -
  have rel: "releaseEvent ev (ts_run s) (ts_acct s) = (run, a)" and te: "turn_event (Some recording) ev (ts_driver s) run (ts_client s) = (res, d, w)"
    using iter by (auto simp: turn_iter_def split: prod.splits)
  note pend = pending_kept(3) [OF rel]
  have "driver_ok (ts_driver s) run (ts_got s) (ts_client s)"
    using inv pend by (auto simp: turn_inv_def driver_ok_def)
  note ok = turn_event_ok [OF te this]
  have "ev \<in> set (ts_pushed s)" if "length q0 \<le> length (ts_got s)"
  proof -
    have "drop (length q0) (q0 @ ts_pushed s) = drop (length q0) (ts_got s) @ ev # q"
      using inv q that by (simp add: turn_inv_def)
    then show ?thesis by simp
  qed
  then have new: "length q0 \<le> length (ts_got s) \<Longrightarrow> tool_id ev = Some i \<Longrightarrow> i \<in> set (td_seen d)" for i
    using inv ok pend by (auto simp: turn_inv_def)
  have "\<forall>x \<in> set (drop (length q0) (ts_got s @ [ev])). \<forall>i. tool_id x = Some i \<longrightarrow> i \<in> set (td_seen d)"
    using inv ok new by (cases "length q0 \<le> length (ts_got s)") (auto simp: turn_inv_def)
  then show ?thesis
    using inv q ok pend by (simp add: turn_inv_def)
qed

lemma turn_inv_step:
  assumes "turn_step s s'" "turn_inv q0 s" shows "turn_inv q0 s'"
  using assms
proof (induction rule: turn_step.induct)
  case (register call s ok run a)
  then show ?case
    using turn_inv_run(1) [OF register(2) pending_kept(1) [OF register(1)]] by simp
next
  case (push s ev ok ev' run a)
  then show ?case
    using turn_inv_push [OF push(4,2,3)] by simp
next
  case (interaction iu s err ev run)
  then show ?case
    using turn_inv_run(2) [OF interaction(2), of run] pending_kept_update(1) [OF interaction(1)] by simp
next
  case (checkpoint cp s err run)
  then show ?case
    using turn_inv_run(2) [OF checkpoint(2), of run] pending_kept_update(2) [OF checkpoint(1)] by simp
next
  case (drive s inp res d run a w)
  show ?case
  proof (cases inp)
    case (Received ev)
    then obtain q where "ts_queue s = ev # q"
      using drive(2) by (cases "ts_queue s") auto
    then show ?thesis
      using turn_inv_receive [OF drive(4)] drive(3) Received by simp
  qed (use drive in \<open>auto simp: turn_iter_def turn_inv_def driver_ok_def\<close>)
qed (use turn_inv_run(2,3) pending_kept(4) in blast)+

lemma turn_reach_inv: "turn_reach q0 s \<Longrightarrow> turn_inv q0 s"
proof (induction rule: turn_reach.induct)
  case (start s)
  then show ?case
    by (simp add: turn_start_def turn_inv_def driver_ok_def new_driver_def client_ok_def tool_chunks_def deltas_def)
qed (rule turn_inv_step)

lemma turn_result_step:
  assumes "turn_step s s'" "ts_result s = None" "ts_result s' = Some res"
  obtains inp d run a w where "offered inp s"
    "turn_iter (Some recording) inp (ts_driver s) (ts_run s) (ts_acct s) (ts_client s) = (Some res, d, run, a, w)"
  using assms by (cases rule: turn_step.cases) auto

text \<open>
  C20. A turn surfaces every tool call exactly once. However the pump and the driver interleave, the calls surfaced so far
  have distinct ids, all of them still pending; the client has been sent one numbered chunk for each, in order, and
  the deltas of the events taken, in order. A turn that parks does so with at least one call, reports all of them, and
  has surfaced every call whose event entered the queue during the turn; a turn finishes only on the
  upstream's completion event.
\<close>

theorem turn_surfaces_every_call:
  assumes "turn_reach q0 s"
  shows "distinct (map tc_CallID (td_calls (ts_driver s))) \<and> (\<forall>c \<in> set (td_calls (ts_driver s)). pendingHas (tc_CallID c) (ts_run s)) \<and>
    filter is_tool_chunk (ts_client s) = tool_chunks (td_calls (ts_driver s)) \<and>
    filter (\<lambda>c. \<not> is_tool_chunk c) (ts_client s) = map DeltaChunk (deltas (ts_got s)) \<and>
    (\<forall>s' res. turn_step s s' \<longrightarrow> ts_result s = None \<longrightarrow> ts_result s' = Some res \<longrightarrow>
      (tr_Outcome res = TurnParked \<longrightarrow> tr_ToolCalls res = td_calls (ts_driver s) \<and> td_calls (ts_driver s) \<noteq> [] \<and>
        (\<forall>ev \<in> set (ts_pushed s). \<forall>i. tool_id ev = Some i \<longrightarrow> i \<in> set (map tc_CallID (td_calls (ts_driver s))))) \<and>
      (tr_Outcome res = TurnFinished \<longrightarrow> tr_ToolCalls res = td_calls (ts_driver s) \<and> (\<exists>q ev. ts_queue s = ev # q \<and> ev_kind ev = evDone)))"
proof -
  define calls where "calls = td_calls (ts_driver s)"
  have inv: "turn_inv q0 s"
    by (rule turn_reach_inv [OF assms(1)])
  then have d: "driver_ok (ts_driver s) (ts_run s) (ts_got s) (ts_client s)"
    by (simp add: turn_inv_def)
  have "(tr_Outcome res = TurnParked \<longrightarrow> tr_ToolCalls res = calls \<and> calls \<noteq> [] \<and>
        (\<forall>ev \<in> set (ts_pushed s). \<forall>i. tool_id ev = Some i \<longrightarrow> i \<in> set (map tc_CallID calls))) \<and>
      (tr_Outcome res = TurnFinished \<longrightarrow> tr_ToolCalls res = calls \<and> (\<exists>q ev. ts_queue s = ev # q \<and> ev_kind ev = evDone))"
    if step: "turn_step s s'" "ts_result s = None" "ts_result s' = Some res" for s' res
  proof -
    obtain inp dr run a w where inp: "offered inp s"
      "turn_iter (Some recording) inp (ts_driver s) (ts_run s) (ts_acct s) (ts_client s) = (Some res, dr, run, a, w)"
      using turn_result_step [OF step] by blast
    show ?thesis
    proof (cases inp)
      case (Received ev)
      then obtain q where q: "ts_queue s = ev # q"
        using inp(1) by (cases "ts_queue s") auto
      have "turn_event (Some recording) ev (ts_driver s) run (ts_client s) = (Some res, dr, w)"
        using inp(2) Received by (auto simp: turn_iter_def split: prod.splits)
      then show ?thesis
        by (cases rule: turn_event_cases) (use q in \<open>auto simp: finish_def calls_def split: prod.splits\<close>)
    next
      case NothingQueued
      then have "res = finish TurnParked calls None (td_visible (ts_driver s)) (ts_run s)"
        using inp(2) by (auto simp: turn_iter_def calls_def)
      moreover have "drop (length q0) (ts_got s) = ts_pushed s"
        using NothingQueued inp(1) inv by (auto simp: turn_inv_def dest: arg_cong [where f = "drop (length q0)"])
      ultimately show ?thesis
        using NothingQueued inp(1) inv d by (auto simp: finish_def turn_inv_def driver_ok_def calls_def usageSnapshot_def)
    qed (use inp(2) in \<open>auto simp: turn_iter_def finish_def split: option.splits prod.splits\<close>)
  qed
  then show ?thesis
    using d by (auto simp: driver_ok_def client_ok_def calls_def)
qed

subsection \<open>Resuming a parked run\<close>

definition result_frame :: "('r, 'e) CursorRun \<Rightarrow> byte list \<times> ToolResult \<Rightarrow> byte list" where
  "result_frame run ires =
    (let call = the (map_of (rn_pending run) (fst ires))
     in encodeMcpResult (tc_execID call) (tc_execIDStr call) (tres_Text (snd ires)) (tres_IsError (snd ires)))"

lemma takePending_pending:
  "takePendingLocked i run r = (c, run', r') \<Longrightarrow> c = map_of (rn_pending run) i \<and> (c \<noteq> None \<longrightarrow> rn_pending run' = adel i (rn_pending run)) \<and>
    rn_usagePrompt run' = rn_usagePrompt run \<and> rn_usageDeltaSum run' = rn_usageDeltaSum run"
  by (auto simp: takePendingLocked_def Let_def split: option.splits if_splits)

lemma write_results_ok:
  fixes run :: "('r, 'e) CursorRun" and sw :: "('w, 'x) streamWriter"
  assumes "reliable Write out" "sw_err sw = None" "distinct (akeys results)" "\<forall>i \<in> set (akeys results). map_of (rn_pending run) i \<noteq> None"
  shows "\<exists>sw' run' r'. write_results Write results sw run r = (None :: ('e, 'x, unit) turnError option, sw', run', r') \<and> sw_err sw' = None \<and>
    out (sw_w sw') = out (sw_w sw) @ concat (map (\<lambda>ires. AppendConnectEnvelope [] (result_frame run ires)) results) \<and>
    (\<forall>i. map_of (rn_pending run') i = (if i \<in> set (akeys results) then None else map_of (rn_pending run) i)) \<and>
    rn_usagePrompt run' = rn_usagePrompt run \<and> rn_usageDeltaSum run' = rn_usageDeltaSum run"
  using assms(2,3,4)
proof (induction results arbitrary: sw run r)
  case (Cons ires results)
  obtain i res where ires: "ires = (i, res)" by (cases ires)
  obtain c run1 r1 where tk: "takePendingLocked i run r = (c, run1, r1)"
    using prod_cases3 by blast
  then obtain call where call: "c = Some call" "map_of (rn_pending run) i = Some call" "rn_pending run1 = adel i (rn_pending run)"
    "rn_usagePrompt run1 = rn_usagePrompt run" "rn_usageDeltaSum run1 = rn_usageDeltaSum run"
    using takePending_pending [OF tk] Cons.prems(3) ires by auto
  obtain sw1 where sw1: "writeFramed Write (encodeMcpResult (tc_execID call) (tc_execIDStr call) (tres_Text res) (tres_IsError res)) sw = (None, sw1)"
    "sw_err sw1 = None" "out (sw_w sw1) = out (sw_w sw) @ AppendConnectEnvelope [] (result_frame run ires)"
    using writeFramed_reliable [OF assms(1) Cons.prems(1), of "encodeMcpResult (tc_execID call) (tc_execIDStr call) (tres_Text res) (tres_IsError res)"]
    by (metis (mono_tags) call(2) fst_conv snd_conv ires option.sel result_frame_def)
  have rest: "i \<notin> set (akeys results)" "distinct (akeys results)" "\<forall>j \<in> set (akeys results). map_of (rn_pending run1) j \<noteq> None"
    using Cons.prems(2,3) ires call(3) by auto
  have same: "map (\<lambda>x. AppendConnectEnvelope [] (result_frame run1 x)) results = map (\<lambda>x. AppendConnectEnvelope [] (result_frame run x)) results"
    using rest(1) call(3) by (auto simp: result_frame_def)
  show ?case
    using Cons.IH [OF sw1(2) rest(2,3), of r1] tk call sw1 same ires by (auto split: if_splits)
qed simp

definition resume_msgs :: "('r, 'e) CursorRun \<Rightarrow> (byte list \<times> ToolResult) list \<Rightarrow> byte list \<Rightarrow> byte list \<Rightarrow> byte list list" where
  "resume_msgs run results uuid steer =
    map (result_frame run) results @ (if steer = [] then [] else [encodeSteerUserMessage uuid steer])"

lemma resumeTurn_writes:
  fixes run :: "('r, 'e) CursorRun" and sw :: "('w, 'x) streamWriter"
  assumes "reliable Write out" "sw_err sw = None" "distinct (akeys results)" "\<not> rn_closed run"
    and pending: "\<forall>i \<in> set (akeys results). pendingHas i run"
  shows "\<exists>sw' run' r'. resumeTurn Write uuid results steer sw run r = (None :: ('e, 'x, unit) turnError option, sw', run', r') \<and>
    out (sw_w sw') = out (sw_w sw) @ concat (map (AppendConnectEnvelope []) (resume_msgs run results uuid steer)) \<and>
    (\<forall>i. pendingHas i run' \<longleftrightarrow> pendingHas i run \<and> i \<notin> set (akeys results)) \<and> rn_usagePrompt run' = 0 \<and> rn_usageDeltaSum run' = 0"
proof -
  let ?run = "run\<lparr>rn_usagePrompt := 0, rn_usageDeltaSum := 0, rn_turnEnded := False\<rparr>"
  have frames: "result_frame ?run = result_frame run"
    by (rule ext) (simp add: result_frame_def)
  have all: "find (\<lambda>i. map_of (rn_pending run) i = None) (akeys results) = None"
    using pending by (auto simp: find_None_iff pendingHas_def)
  have "\<forall>i \<in> set (akeys results). map_of (rn_pending ?run) i \<noteq> None"
    using pending by (simp add: pendingHas_def)
  then obtain sw1 run1 r1 where w: "write_results Write results sw ?run r = (None :: ('e, 'x, unit) turnError option, sw1, run1, r1)"
    "sw_err sw1 = None"
    "out (sw_w sw1) = out (sw_w sw) @ concat (map (AppendConnectEnvelope [] \<circ> result_frame run) results)"
    "\<forall>i. map_of (rn_pending run1) i = (if i \<in> set (akeys results) then None else map_of (rn_pending run) i)"
    "rn_usagePrompt run1 = 0" "rn_usageDeltaSum run1 = 0"
    using write_results_ok [OF assms(1,2,3), of ?run r] frames by (fastforce simp: comp_def)
  have run1: "\<forall>i. pendingHas i run1 \<longleftrightarrow> pendingHas i run \<and> i \<notin> set (akeys results)"
    using w(4) by (simp add: pendingHas_def)
  show ?thesis
  proof (cases "steer = []")
    case True
    then show ?thesis
      using w run1 all assms(4) by (auto simp: resumeTurn_def resume_msgs_def)
  next
    case False
    obtain sw2 where sw2: "writeFramed Write (encodeSteerUserMessage uuid steer) sw1 = (None, sw2)"
      "out (sw_w sw2) = out (sw_w sw1) @ AppendConnectEnvelope [] (encodeSteerUserMessage uuid steer)"
      using writeFramed_reliable [OF assms(1) w(2)] by blast
    then show ?thesis
      using False w run1 all assms(4) by (auto simp: resumeTurn_def resume_msgs_def)
  qed
qed

text \<open>
  C31. Resuming writes exactly the answers. On an open run, results for pending calls are written as one frame each,
  in order, with the correlation ids of their calls, and then the steer, if there is one; a reader of these bytes gets
  exactly these messages and a clean end. The answered calls, and only they, are no longer pending, and usage starts
  at zero. A result for a call that is not pending, or a closed run, is refused with nothing written or taken.
\<close>

theorem resume_writes_the_answers:
  fixes run :: "('r, 'e) CursorRun" and sw :: "('w, 'x) streamWriter"
  assumes "reliable Write out" "sw_err sw = None" "distinct (akeys results)"
    and "\<forall>m \<in> set (resume_msgs run results uuid steer). length m \<le> unat connectMaxFrame"
  shows "if rn_closed run then
      \<exists>e. resumeTurn Write uuid results steer sw run r = (Some (e :: ('e, 'x, unit) turnError), sw, run, r)
    else if \<exists>i \<in> set (akeys results). \<not> pendingHas i run then
      \<exists>i \<in> set (akeys results). \<not> pendingHas i run \<and>
        resumeTurn Write uuid results steer sw run r = (Some (TurnNoPending i :: ('e, 'x, unit) turnError), sw, run, r)
    else \<exists>sw' run' r' bs. resumeTurn Write uuid results steer sw run r = (None :: ('e, 'x, unit) turnError option, sw', run', r') \<and>
      out (sw_w sw') = out (sw_w sw) @ bs \<and>
      read_frames endOf errorOf \<lparr>rd_bytes = bs, rd_err = None :: 'y option\<rparr> =
        (map (\<lambda>m. \<lparr>ce_endStream = False, ce_payload = m\<rparr>) (resume_msgs run results uuid steer), FrameHeader EOF) \<and>
      (\<forall>i. pendingHas i run' \<longleftrightarrow> pendingHas i run \<and> i \<notin> set (akeys results)) \<and>
      rn_usagePrompt run' = 0 \<and> rn_usageDeltaSum run' = 0"
proof (cases "rn_closed run")
  case True
  then show ?thesis by (simp add: resumeTurn_def)
next
  case False
  let ?find = "find (\<lambda>i. map_of (rn_pending run) i = None) (akeys results)"
  show ?thesis
  proof (cases "\<exists>i \<in> set (akeys results). \<not> pendingHas i run")
    case True
    then have "?find \<noteq> None"
      unfolding find_None_iff pendingHas_def by auto
    then obtain i where i: "?find = Some i"
      by blast
    then have "i \<in> set (akeys results)" "\<not> pendingHas i run"
      using find_Some_iff [of "\<lambda>i. map_of (rn_pending run) i = None" "akeys results" i] by (auto simp: pendingHas_def)
    moreover have "resumeTurn Write uuid results steer sw run r = (Some (TurnNoPending i :: ('e, 'x, unit) turnError), sw, run, r)"
      using False i by (simp add: resumeTurn_def)
    ultimately show ?thesis
      unfolding if_not_P [OF False] if_P [OF True] by blast
  next
    case all: False
    let ?bs = "concat (map (AppendConnectEnvelope []) (resume_msgs run results uuid steer))"
    have "read_frames endOf errorOf \<lparr>rd_bytes = ?bs, rd_err = None :: 'y option\<rparr> =
        (map (\<lambda>m. \<lparr>ce_endStream = False, ce_payload = m\<rparr>) (resume_msgs run results uuid steer), FrameHeader EOF)"
      using assms(4) by (intro read_frames_written) (simp_all add: list_all_iff)
    then show ?thesis
      using resumeTurn_writes [OF assms(1,2,3) False, of uuid steer r] all False by auto
  qed
qed

section \<open>A turn with one call\<close>

definition turn_call :: CursorToolCall where
  "turn_call = \<lparr>tc_CallID = [1], tc_Name = [2], tc_Args = [3, 4], tc_execID = 7, tc_execIDStr = []\<rparr>"

definition turn_call_event :: runEvent where
  "turn_call_event = \<lparr>ev_kind = evToolCall, ev_delta = ENil, ev_toolCall = Some turn_call, ev_err = None, ev_size = 0\<rparr>"

definition driven :: "turnInput \<Rightarrow> (unit, unit) turnSys \<Rightarrow> (unit, unit) turnSys" where
  "driven inp s =
    (case turn_iter (Some recording) inp (ts_driver s) (ts_run s) (ts_acct s) (ts_client s) of (res, d, run, a, w) \<Rightarrow>
      s\<lparr>ts_run := run, ts_acct := a, ts_queue := drop (length (taken inp)) (ts_queue s), ts_driver := d,
        ts_result := res, ts_client := w, ts_got := ts_got s @ taken inp\<rparr>)"

definition turn_open :: "(unit, unit) turnSys" where
  "turn_open = \<lparr>ts_run = NewCursorRun None, ts_acct = (), ts_queue = [], ts_ended = False, ts_driver = new_driver,
    ts_result = None, ts_client = [], ts_pushed = [], ts_got = []\<rparr>"

definition turn_asked :: "(unit, unit) turnSys" where
  "turn_asked = (case addPending turn_call (ts_run turn_open) () of (ok, run, a) \<Rightarrow> turn_open\<lparr>ts_run := run, ts_acct := a\<rparr>)"

definition turn_queued :: "(unit, unit) turnSys" where
  "turn_queued = (case pushEvent turn_call_event (ts_run turn_asked) () of (ok, ev, run, a) \<Rightarrow>
    turn_asked\<lparr>ts_run := run, ts_acct := a, ts_queue := ts_queue turn_asked @ (if ok then [ev] else []),
      ts_pushed := ts_pushed turn_asked @ (if ok then [ev] else [])\<rparr>)"

definition turn_idle :: "(unit, unit) turnSys" where
  "turn_idle = driven SettleExpired (driven (Received (hd (ts_queue turn_queued))) turn_queued)"

lemmas turn_demo_defs = turn_idle_def turn_queued_def turn_asked_def turn_open_def driven_def turn_call_def turn_call_event_def
  NewCursorRun_def newKVBlobStore_def addPending_def pushEvent_def cursorRunToolCallSize_def cursorRunAddSize_def
  cursorRunEventSize_def cursorRunEventSizeLimit_def cursorRunPendingCap_def cursorRunPendingBytesMax_def cursorRunEventBytesMax_def
  notifyRetentionLocked_def turn_iter_def turn_event_def releaseEvent_def pendingHas_def recording_def emit_chunk_def new_driver_def
  cursorRunEventValueDepthMax_def Let_def

lemma driven_step: "ts_result s = None \<Longrightarrow> offered inp s \<Longrightarrow> turn_step s (driven inp s)"
  by (auto simp: driven_def split: prod.splits intro: turn_step.drive)

lemma turn_idle_state:
  "ts_result turn_queued = None" "ts_queue turn_queued \<noteq> []" "td_idle (ts_driver (driven (Received (hd (ts_queue turn_queued))) turn_queued))"
  "\<not> td_expired (ts_driver (driven (Received (hd (ts_queue turn_queued))) turn_queued))"
  "ts_result (driven (Received (hd (ts_queue turn_queued))) turn_queued) = None"
  "ts_result turn_idle = None" "offered NothingQueued turn_idle" "td_calls (ts_driver turn_idle) = [turn_call]"
  "\<exists>res. ts_result (driven NothingQueued turn_idle) = Some res \<and> tr_Outcome res = TurnParked"
  by (simp_all add: turn_demo_defs finish_def usageSnapshot_def)

lemma turn_idle_reach: "turn_reach [] turn_idle"
proof -
  have "turn_reach [] turn_open"
    by (rule turn_reach.start) (simp add: turn_start_def turn_open_def)
  moreover have "turn_step turn_open turn_asked"
  proof -
    obtain ok run a where eq: "addPending turn_call (ts_run turn_open) (ts_acct turn_open) = (ok, run, a)"
      using prod_cases3 by blast
    show ?thesis
      using turn_step.register [OF eq] eq by (simp add: turn_asked_def)
  qed
  moreover have "turn_step turn_asked turn_queued"
  proof -
    obtain ok ev run a where eq: "pushEvent turn_call_event (ts_run turn_asked) (ts_acct turn_asked) = (ok, ev, run, a)"
      using prod_cases4 by blast
    show ?thesis
      using turn_step.push [OF _ eq] eq by (simp add: turn_queued_def) (simp add: turn_demo_defs tool_id_def)
  qed
  ultimately have "turn_reach [] turn_queued"
    using turn_reach.step by blast
  then have "turn_reach [] (driven (Received (hd (ts_queue turn_queued))) turn_queued)"
    using driven_step [of turn_queued "Received (hd (ts_queue turn_queued))"] turn_idle_state(1,2) turn_reach.step by fastforce
  then show ?thesis
    unfolding turn_idle_def using driven_step [of _ SettleExpired] turn_idle_state(3-5) turn_reach.step by fastforce
qed

theorem turn_surfaces_every_call_witness:
  "filter is_tool_chunk (ts_client turn_idle) = [ToolChunk 0 [1] [2] [3, 4]] \<and>
    map_option tr_ToolCalls (ts_result (driven NothingQueued turn_idle)) = Some [turn_call]"
proof -
  have step: "turn_step turn_idle (driven NothingQueued turn_idle)"
    by (rule driven_step [OF turn_idle_state(6,7)])
  show ?thesis
    using turn_surfaces_every_call [OF turn_idle_reach] step turn_idle_state(6,8,9)
    by (auto simp: tool_chunks_def turn_call_def)
qed

theorem resume_writes_the_answers_witness:
  "\<exists>sw run r. resumeTurn demo_write [] [([1], \<lparr>tres_Text = [111, 107], tres_IsError = False\<rparr>)] [] \<lparr>sw_w = [], sw_err = None\<rparr>
      (ts_run turn_idle) () = (None :: (unit, unit, unit) turnError option, sw, run, r) \<and>
    \<not> pendingHas [1] run \<and> read_frames (\<lambda>_. Inl ()) (\<lambda>_. Inl ()) \<lparr>rd_bytes = sw_w sw, rd_err = None :: unit option\<rparr> =
      ([\<lparr>ce_endStream = False, ce_payload = encodeMcpResult 7 [] [111, 107] False\<rparr>], FrameHeader EOF)"
proof -
  let ?results = "[([1], \<lparr>tres_Text = [111, 107], tres_IsError = False\<rparr>)]" and ?run = "ts_run turn_idle"
  have run: "rn_closed ?run = False" "map_of (rn_pending ?run) [1] = Some turn_call"
    by (simp_all add: turn_demo_defs)
  then have msgs: "resume_msgs ?run ?results [] [] = [encodeMcpResult 7 [] [111, 107] False]"
    by (simp add: resume_msgs_def result_frame_def turn_call_def)
  have "length (encodeMcpResult 7 [] [111, 107] False) \<le> 50"
    by code_simp
  moreover have "50 \<le> unat connectMaxFrame"
    by (simp add: connectMaxFrame_def)
  ultimately have "length (encodeMcpResult 7 [] [111, 107] False) \<le> unat connectMaxFrame"
    by simp
  then show ?thesis
    using resume_writes_the_answers [where Write = demo_write and out = "\<lambda>w. w" and sw = "\<lparr>sw_w = [], sw_err = None\<rparr>" and results = ?results
        and run = ?run and uuid = "[]" and steer = "[]" and r = "()" and endOf = "\<lambda>_. Inl ()" and errorOf = "\<lambda>_. Inl ()",
        OF demo_write_reliable] run msgs by (auto simp: pendingHas_def)
qed

end
