(* ===== verification/Json_Scan.thy ===== *)
theory Json_Scan
  imports Wire_Format
begin

text \<open>
  The lexical JSON scanner (\<^verbatim>\<open>internal/metrics/content.go\<close>, \<^verbatim>\<open>json_key.go\<close>) that bounds a document's collections before
  anything decodes them: skipping a value, counting the members of an array or an object. An index is a \<open>nat\<close>; the
  index \<^verbatim>\<open>-1\<close> is \<open>None\<close>. A run of \<open>SkipJSONString\<close> that has jumped past the end is at an index beyond the length, as in the
  source.
\<close>

section \<open>Definitions\<close>

definition jsonSpace :: "byte \<Rightarrow> bool" where
  "jsonSpace b \<longleftrightarrow> b = 32 \<or> b = 9 \<or> b = 13 \<or> b = 10"

function SkipSpace :: "byte list \<Rightarrow> nat \<Rightarrow> nat" where
  "SkipSpace data i = (if i < length data \<and> jsonSpace (data ! i) then SkipSpace data (i + 1) else i)"
  by pat_completeness auto
termination
  by (relation "measure (\<lambda>(data, i). length data - i)") auto

declare SkipSpace.simps [simp del]

text \<open>\<^verbatim>\<open>bytes.IndexByte\<close>.\<close>

fun IndexByte :: "byte list \<Rightarrow> byte \<Rightarrow> nat option" where
  "IndexByte [] c = None"
| "IndexByte (b # bs) c = (if b = c then Some 0 else map_option Suc (IndexByte bs c))"

text \<open>The escape-aware loop of \<^verbatim>\<open>SkipJSONString\<close>.\<close>

function string_loop :: "byte list \<Rightarrow> nat \<Rightarrow> nat option" where
  "string_loop data i =
    (if i < length data then
       if data ! i = 92 then string_loop data (i + 2)
       else if data ! i = 34 then Some (i + 1)
       else string_loop data (i + 1)
     else None)"
  by pat_completeness auto
termination
  by (relation "measure (\<lambda>(data, i). length data - i)") auto

declare string_loop.simps [simp del]

definition SkipJSONString :: "byte list \<Rightarrow> nat \<Rightarrow> nat option" where
  "SkipJSONString data i =
    (if i \<ge> length data \<or> data ! i \<noteq> 34 then None
     else
       let rest = drop (i + 1) data in
       case IndexByte rest 34 of
         Some j \<Rightarrow> if IndexByte (take j rest) 92 = None then Some (i + 1 + j + 1) else string_loop data (i + 1)
       | None \<Rightarrow> string_loop data (i + 1))"

lemma string_loop_ge: "string_loop data i = Some k \<Longrightarrow> i < k"
proof (induction data i rule: string_loop.induct)
  case (1 data i)
  then show ?case
    by (subst (asm) (3) string_loop.simps) (fastforce split: if_splits)
qed

lemma SkipJSONString_ge: "SkipJSONString data i = Some k \<Longrightarrow> i < k"
  by (auto simp: SkipJSONString_def Let_def dest: string_loop_ge split: if_splits option.splits)

text \<open>The loop over the inside of an object or an array; the value after the loop is \<open>i\<close>, or \<open>None\<close> where the depth is not zero.\<close>

function depth_loop :: "byte list \<Rightarrow> nat \<Rightarrow> nat \<Rightarrow> nat option" where
  "depth_loop data i depth =
    (if i < length data \<and> depth > 0 then
       if data ! i = 34 then
         (case SkipJSONString data i of
            None \<Rightarrow> None
          | Some next \<Rightarrow> depth_loop data (next - 1 + 1) depth)
       else if data ! i = 123 \<or> data ! i = 91 then depth_loop data (i + 1) (depth + 1)
       else if data ! i = 125 \<or> data ! i = 93 then depth_loop data (i + 1) (depth - 1)
       else depth_loop data (i + 1) depth
     else if depth \<noteq> 0 then None
     else Some i)"
  by pat_completeness auto
termination
  by (relation "measure (\<lambda>(data, i, depth). length data - i)") (auto dest: SkipJSONString_ge)

declare depth_loop.simps [simp del]

function scalar_loop :: "byte list \<Rightarrow> nat \<Rightarrow> nat" where
  "scalar_loop data i =
    (if i < length data \<and> data ! i \<noteq> 44 \<and> data ! i \<noteq> 125 \<and> data ! i \<noteq> 93 then scalar_loop data (i + 1) else i)"
  by pat_completeness auto
termination
  by (relation "measure (\<lambda>(data, i). length data - i)") auto

declare scalar_loop.simps [simp del]

definition SkipJSONValue :: "byte list \<Rightarrow> nat \<Rightarrow> nat option" where
  "SkipJSONValue data i =
    (if i \<ge> length data then None
     else if data ! i = 34 then SkipJSONString data i
     else if data ! i = 123 \<or> data ! i = 91 then depth_loop data (i + 1) 1
     else Some (scalar_loop data i))"

lemma SkipSpace_ge: "i \<le> SkipSpace data i"
proof (induction data i rule: SkipSpace.induct)
  case (1 data i)
  then show ?case
    by (subst SkipSpace.simps) auto
qed

lemma SkipSpace_twice: "i < k \<Longrightarrow> i < SkipSpace data (Suc (SkipSpace data k))"
  using SkipSpace_ge [of k data] SkipSpace_ge [of "Suc (SkipSpace data k)" data] by linarith

text \<open>The loop of \<^verbatim>\<open>CountJSONArrayBytes\<close>.\<close>

function count_loop :: "byte list \<Rightarrow> nat \<Rightarrow> int \<Rightarrow> int \<Rightarrow> int \<times> nat \<times> bool" where
  "count_loop data i n bound =
    (if i < length data \<and> data ! i \<noteq> 93 then
       (case SkipJSONValue data i of
          None \<Rightarrow> (0, 0, False)
        | Some next \<Rightarrow>
            if next \<le> i then (0, 0, False)
            else
              let n = n + 1 in
              if n > bound then (n, next, True)
              else
                let i = SkipSpace data next in
                if i < length data \<and> data ! i = 44 then
                  let i = SkipSpace data (i + 1) in
                  if i \<ge> length data \<or> data ! i = 93 then (0, 0, False) else count_loop data i n bound
                else if i < length data \<and> data ! i = 93 then (n, i + 1, True)
                else (0, 0, False))
     else if i \<ge> length data \<or> data ! i \<noteq> 93 then (0, 0, False)
     else (n, i + 1, True))"
  by pat_completeness auto
termination
  by (relation "measure (\<lambda>(data, i, n, bound). length data - i)")
    (auto simp: not_le intro!: diff_less_mono2 SkipSpace_twice)

declare count_loop.simps [simp del]

definition CountJSONArrayBytes :: "byte list \<Rightarrow> nat \<Rightarrow> int \<Rightarrow> int \<times> nat option \<times> bool" where
  "CountJSONArrayBytes data i bound =
    (let i = SkipSpace data i in
     if i \<ge> length data then (0, Some 0, False)
     else if data ! i \<noteq> 91 then (let next = SkipJSONValue data i in (0, next, next \<noteq> None))
     else (case count_loop data (SkipSpace data (i + 1)) 0 bound of (n, next, ok) \<Rightarrow> (n, Some next, ok)))"

definition ArrayWithinLimit :: "byte list \<Rightarrow> int \<Rightarrow> bool" where
  "ArrayWithinLimit raw bound =
    (let i = SkipSpace raw 0 in
     if i \<ge> length raw \<or> raw ! i \<noteq> 91 then True
     else (case CountJSONArrayBytes raw i bound of (n, _, ok) \<Rightarrow> ok \<and> n \<le> bound))"

definition ContentPartMax :: int where
  "ContentPartMax = 4096"

definition ContentPartsWithinLimit :: "byte list \<Rightarrow> bool" where
  "ContentPartsWithinLimit raw = ArrayWithinLimit raw ContentPartMax"

text \<open>The loop of \<^verbatim>\<open>ObjectWithinLimit\<close>.\<close>

function member_loop :: "byte list \<Rightarrow> nat \<Rightarrow> int \<Rightarrow> int \<Rightarrow> int \<Rightarrow> bool" where
  "member_loop raw i depth count bound =
    (if i < length raw then
       if raw ! i = 34 then
         (case SkipJSONString raw i of
            None \<Rightarrow> False
          | Some next \<Rightarrow>
              if depth = 1 then
                let j = SkipSpace raw next in
                if j < length raw \<and> raw ! j = 58 then
                  let count = count + 1 in
                  if count > bound then False else member_loop raw next depth count bound
                else member_loop raw next depth count bound
              else member_loop raw next depth count bound)
       else if raw ! i = 123 \<or> raw ! i = 91 then member_loop raw (i + 1) (depth + 1) count bound
       else if raw ! i = 125 \<or> raw ! i = 93 then
         (if depth - 1 = 0 then True else member_loop raw (i + 1) (depth - 1) count bound)
       else member_loop raw (i + 1) depth count bound
     else False)"
  by pat_completeness auto
termination
  by (relation "measure (\<lambda>(raw, i, depth, count, bound). length raw - i)") (auto dest: SkipJSONString_ge)

declare member_loop.simps [simp del]

definition ObjectWithinLimit :: "byte list \<Rightarrow> int \<Rightarrow> bool" where
  "ObjectWithinLimit raw bound =
    (let i = SkipSpace raw 0 in
     if i \<ge> length raw \<or> raw ! i \<noteq> 123 then True
     else member_loop raw i 0 0 bound)"

section \<open>Tokens\<close>

text \<open>The bytes at an index, as the loops meet them.\<close>

lemma SkipSpace_at:
  "list_all jsonSpace sp \<Longrightarrow> post = [] \<or> \<not> jsonSpace (hd post) \<Longrightarrow> SkipSpace (pre @ sp @ post) (length pre) = length pre + length sp"
proof (induction sp arbitrary: pre)
  case Nil
  then show ?case
    by (subst SkipSpace.simps) (cases post; simp)
next
  case (Cons b sp)
  then show ?case
    using Cons.IH [of "pre @ [b]"] by (subst SkipSpace.simps) simp
qed

text \<open>The units of a string's body: a byte that is neither a quote nor a backslash, or a backslash with any byte.\<close>

definition unit_ok :: "byte list \<Rightarrow> bool" where
  "unit_ok u \<longleftrightarrow> (\<exists>b. u = [b] \<and> b \<noteq> 34 \<and> b \<noteq> 92) \<or> (\<exists>b. u = [92, b])"

definition quoted :: "byte list list \<Rightarrow> byte list" where
  "quoted us = 34 # concat us @ [34]"

lemma string_loop_at:
  "list_all unit_ok us \<Longrightarrow> string_loop (pre @ concat us @ 34 # post) (length pre) = Some (length pre + length (concat us) + 1)"
proof (induction us arbitrary: pre)
  case Nil
  then show ?case
    by (subst string_loop.simps) simp
next
  case (Cons u us)
  then show ?case
    using Cons.IH [of "pre @ u"] by (subst string_loop.simps) (auto simp: unit_ok_def nth_append)
qed

lemma string_loop_plain:
  "IndexByte (drop i data) 34 = Some j \<Longrightarrow> IndexByte (take j (drop i data)) 92 = None \<Longrightarrow> string_loop data i = Some (i + j + 1)"
proof (induction j arbitrary: i)
  case 0
  then show ?case
    by (cases "i < length data"; subst string_loop.simps) (auto simp: Cons_nth_drop_Suc [symmetric] split: if_splits)
next
  case (Suc j)
  then show ?case
    using Suc.IH [of "Suc i"]
    by (cases "i < length data"; subst string_loop.simps) (auto simp: Cons_nth_drop_Suc [symmetric] split: if_splits)
qed

text \<open>The fast path for a string without escapes gives what the loop gives.\<close>

lemma SkipJSONString_loop:
  "SkipJSONString data i = (if i \<ge> length data \<or> data ! i \<noteq> 34 then None else string_loop data (i + 1))"
  using string_loop_plain [of "i + 1" data] by (auto simp: SkipJSONString_def Let_def split: option.splits)

lemma SkipJSONString_at:
  "list_all unit_ok us \<Longrightarrow> SkipJSONString (pre @ quoted us @ post) (length pre) = Some (length pre + length (quoted us))"
  using string_loop_at [of us "pre @ [34]" post] by (simp add: SkipJSONString_loop quoted_def)

section \<open>Balanced text\<close>

inductive balanced :: "byte list \<Rightarrow> bool" where
  nil: "balanced []"
| plain: "b \<notin> {34, 91, 93, 123, 125} \<Longrightarrow> balanced xs \<Longrightarrow> balanced (b # xs)"
| str: "list_all unit_ok us \<Longrightarrow> balanced xs \<Longrightarrow> balanced (quoted us @ xs)"
| nest: "a \<in> {91, 123} \<Longrightarrow> balanced xs \<Longrightarrow> c \<in> {93, 125} \<Longrightarrow> balanced ys \<Longrightarrow> balanced (a # xs @ c # ys)"

lemma balanced_append [intro]: "balanced xs \<Longrightarrow> balanced ys \<Longrightarrow> balanced (xs @ ys)"
proof (induction rule: balanced.induct)
  case (nest a xs c zs)
  then show ?case
    using balanced.nest [of a xs c "zs @ ys"] by simp
qed (auto intro: balanced.intros)

text \<open>
  A loop that tracks the bracket depth steps over balanced text, whatever else it does at the depths where it only
  skips.
\<close>

locale bracket_walk =
  fixes walk :: "byte list \<Rightarrow> nat \<Rightarrow> 'd \<Rightarrow> 'r"
    and deep :: "'d \<Rightarrow> bool"
    and inner :: "'d \<Rightarrow> 'd"
  assumes deeper: "deep d \<Longrightarrow> deep (inner d)"
    and skip_plain: "deep d \<Longrightarrow> b \<notin> {34, 91, 93, 123, 125} \<Longrightarrow>
      walk (pre @ b # post) (length pre) d = walk (pre @ b # post) (length pre + 1) d"
    and skip_str: "deep d \<Longrightarrow> list_all unit_ok us \<Longrightarrow>
      walk (pre @ quoted us @ post) (length pre) d = walk (pre @ quoted us @ post) (length pre + length (quoted us)) d"
    and opens: "deep d \<Longrightarrow> a \<in> {91, 123} \<Longrightarrow>
      walk (pre @ a # post) (length pre) d = walk (pre @ a # post) (length pre + 1) (inner d)"
    and closes: "deep d \<Longrightarrow> c \<in> {93, 125} \<Longrightarrow>
      walk (pre @ c # post) (length pre) (inner d) = walk (pre @ c # post) (length pre + 1) d"
begin

lemma walk_balanced:
  assumes "balanced xs" "deep d"
  shows "walk (pre @ xs @ post) (length pre) d = walk (pre @ xs @ post) (length pre + length xs) d"
  using assms
proof (induction arbitrary: pre d post rule: balanced.induct)
  case (plain b xs)
  then show ?case
    using skip_plain [of d b pre "xs @ post"] plain.IH [of d "pre @ [b]" post] by simp
next
  case (str us xs)
  then show ?case
    using skip_str [of d us pre "xs @ post"] str.IH [of d "pre @ quoted us" post] by (simp add: add.assoc)
next
  case (nest a xs c ys)
  then show ?case
    using opens [of d a pre "xs @ c # ys @ post"] nest.IH(1) [of "inner d" "pre @ [a]" "c # ys @ post"]
      closes [of d c "pre @ a # xs" "ys @ post"] nest.IH(2) [of d "pre @ a # xs @ [c]" post] deeper [of d] by (simp add: add.assoc)
qed simp

end

lemma depth_loop_byte:
  "0 < d \<Longrightarrow> b \<noteq> 34 \<Longrightarrow> depth_loop (pre @ b # post) (length pre) d = depth_loop (pre @ b # post) (length pre + 1)
    (if b \<in> {91, 123} then d + 1 else if b \<in> {93, 125} then d - 1 else d)"
  by (subst depth_loop.simps) auto

lemma depth_loop_string:
  "0 < d \<Longrightarrow> list_all unit_ok us \<Longrightarrow>
    depth_loop (pre @ quoted us @ post) (length pre) d = depth_loop (pre @ quoted us @ post) (length pre + length (quoted us)) d"
  using SkipJSONString_at [of us pre post] by (subst depth_loop.simps) (simp add: quoted_def)

interpretation dp: bracket_walk depth_loop "\<lambda>d. 0 < d" "\<lambda>d. d + 1"
  by unfold_locales (simp_all only: depth_loop_string, auto simp: depth_loop_byte)

lemma member_loop_byte:
  "b \<noteq> 34 \<Longrightarrow> member_loop (pre @ b # post) (length pre) d n bound =
    (if b \<in> {93, 125} \<and> d = 1 then True
     else member_loop (pre @ b # post) (length pre + 1) (if b \<in> {91, 123} then d + 1 else if b \<in> {93, 125} then d - 1 else d) n bound)"
  by (subst member_loop.simps) auto

lemma member_loop_string:
  "d \<noteq> 1 \<Longrightarrow> list_all unit_ok us \<Longrightarrow>
    member_loop (pre @ quoted us @ post) (length pre) d n bound =
    member_loop (pre @ quoted us @ post) (length pre + length (quoted us)) d n bound"
  using SkipJSONString_at [of us pre post] by (subst member_loop.simps) (simp add: quoted_def)

interpretation mb: bracket_walk "\<lambda>data i d. member_loop data i d n bound" "\<lambda>d. 2 \<le> d" "\<lambda>d. d + 1" for n bound
  by unfold_locales (simp_all only: member_loop_string, auto simp: member_loop_byte member_loop_string)

lemma depth_loop_enclosed:
  assumes "balanced xs" "c \<in> {93, 125}"
  shows "depth_loop (pre @ xs @ c # post) (length pre) 1 = Some (length pre + length xs + 1)"
proof -
  have "depth_loop (pre @ xs @ c # post) (length pre + length xs) 1 = depth_loop (pre @ xs @ c # post) (length pre + length xs + 1) 0"
    using assms(2) by (subst depth_loop.simps) (auto simp: nth_append)
  then show ?thesis
    using dp.walk_balanced [OF assms(1), of 1 pre "c # post"] by (simp add: depth_loop.simps [of _ _ 0])
qed

section \<open>JSON text\<close>

text \<open>
  Any JSON document, with any white space, as its syntax tree: every \<open>byte list\<close> but that of a scalar is white
  space, and a string is its units.
\<close>

datatype jtext =
    JString "byte list list"
  | JScalar "byte list"
  | JArray "byte list" "jelem list"
  | JObject "byte list" "jmember list"
and jelem = Elem "byte list" jtext "byte list"
and jmember = Member "byte list" "byte list list" "byte list" "byte list" jtext "byte list"

fun commas :: "byte list list \<Rightarrow> byte list" where
  "commas [] = []"
| "commas (x # xs) = x @ concat (map ((#) 44) xs)"

primrec render :: "jtext \<Rightarrow> byte list" and render_elem :: "jelem \<Rightarrow> byte list" and render_member :: "jmember \<Rightarrow> byte list" where
  "render (JString us) = quoted us"
| "render (JScalar s) = s"
| "render (JArray sp es) = 91 # sp @ commas (map render_elem es) @ [93]"
| "render (JObject sp ms) = 123 # sp @ commas (map render_member ms) @ [125]"
| "render_elem (Elem l v r) = l @ render v @ r"
| "render_member (Member l k m m' v r) = l @ quoted k @ m @ 58 # m' @ render v @ r"

abbreviation spaces :: "byte list \<Rightarrow> bool" where
  "spaces \<equiv> list_all jsonSpace"

definition scalar_ok :: "byte list \<Rightarrow> bool" where
  "scalar_ok s \<longleftrightarrow> s \<noteq> [] \<and> list_all (\<lambda>b. b \<notin> {34, 44, 58, 91, 93, 123, 125} \<and> \<not> jsonSpace b) s"

primrec text_ok :: "jtext \<Rightarrow> bool" and elem_ok :: "jelem \<Rightarrow> bool" and member_ok :: "jmember \<Rightarrow> bool" where
  "text_ok (JString us) \<longleftrightarrow> list_all unit_ok us"
| "text_ok (JScalar s) \<longleftrightarrow> scalar_ok s"
| "text_ok (JArray sp es) \<longleftrightarrow> spaces sp \<and> list_all elem_ok es"
| "text_ok (JObject sp ms) \<longleftrightarrow> spaces sp \<and> list_all member_ok ms"
| "elem_ok (Elem l v r) \<longleftrightarrow> spaces l \<and> text_ok v \<and> spaces r"
| "member_ok (Member l k m m' v r) \<longleftrightarrow> spaces l \<and> list_all unit_ok k \<and> spaces m \<and> spaces m' \<and> text_ok v \<and> spaces r"

lemma balanced_plain: "list_all (\<lambda>b. b \<notin> {34, 91, 93, 123, 125}) xs \<Longrightarrow> balanced xs"
  by (induction xs) (auto intro: balanced.intros)

lemma balanced_spaces: "spaces sp \<Longrightarrow> balanced sp"
  by (rule balanced_plain) (auto simp: list_all_iff jsonSpace_def)

lemma balanced_quoted: "list_all unit_ok us \<Longrightarrow> balanced (quoted us)"
  using balanced.str [of us "[]"] balanced.nil by simp

lemma balanced_commas: "list_all balanced xs \<Longrightarrow> balanced (commas xs)"
proof -
  have "list_all balanced ys \<Longrightarrow> balanced (concat (map ((#) 44) ys))" for ys
    by (induction ys) (auto intro!: balanced.intros)
  then show "list_all balanced xs \<Longrightarrow> balanced (commas xs)"
    by (cases xs) (auto intro: balanced.nil)
qed

lemma render_balanced:
  "text_ok t \<Longrightarrow> balanced (render t)" "elem_ok e \<Longrightarrow> balanced (render_elem e)" "member_ok m \<Longrightarrow> balanced (render_member m)"
proof (induction t and e and m)
  case (JString us)
  then show ?case
    using balanced_quoted by simp
next
  case (JScalar s)
  then show ?case
    by (intro balanced_plain) (auto simp: scalar_ok_def list_all_iff)
next
  case (JArray sp es)
  then have "balanced (sp @ commas (map render_elem es))"
    by (intro balanced_append balanced_commas) (auto simp: list_all_iff balanced_spaces)
  then show ?case
    using balanced.nest [of 91 _ 93 "[]"] balanced.nil by fastforce
next
  case (JObject sp ms)
  then have "balanced (sp @ commas (map render_member ms))"
    by (intro balanced_append balanced_commas) (auto simp: list_all_iff balanced_spaces)
  then show ?case
    using balanced.nest [of 123 _ 125 "[]"] balanced.nil by fastforce
next
  case (Elem l v r)
  then show ?case
    using balanced_spaces [of l] balanced_spaces [of r] by (auto intro!: balanced_append)
next
  case (Member l k m m' v r)
  then have "balanced (58 # m' @ render v @ r)"
    by (intro balanced.plain balanced_append) (auto simp: balanced_spaces)
  then show ?case
    using Member.prems balanced_quoted [of k] balanced_spaces [of l] balanced_spaces [of m]
    by (auto intro!: balanced_append)
qed

lemma render_head: "text_ok t \<Longrightarrow> \<exists>b bs. render t = b # bs \<and> \<not> jsonSpace b \<and> b \<notin> {44, 58, 93, 125}"
  by (cases t) (auto simp: quoted_def scalar_ok_def neq_Nil_conv jsonSpace_def)

section \<open>Skipping a value\<close>

lemma scalar_loop_at:
  "list_all (\<lambda>b. b \<notin> {44, 93, 125}) xs \<Longrightarrow> post = [] \<or> hd post \<in> {44, 93, 125} \<Longrightarrow>
    scalar_loop (pre @ xs @ post) (length pre) = length pre + length xs"
proof (induction xs arbitrary: pre)
  case Nil
  then show ?case
    by (subst scalar_loop.simps) (cases post; auto)
next
  case (Cons b xs)
  then show ?case
    using Cons.IH [of "pre @ [b]"] by (subst scalar_loop.simps) simp
qed

lemma SkipJSONValue_at:
  assumes "text_ok t"
  shows "(\<nexists>s. t = JScalar s) \<Longrightarrow> SkipJSONValue (pre @ render t @ post) (length pre) = Some (length pre + length (render t))"
    and "t = JScalar s \<Longrightarrow> spaces r \<Longrightarrow> post = [] \<or> hd post \<in> {44, 93, 125} \<Longrightarrow>
      SkipJSONValue (pre @ render t @ r @ post) (length pre) = Some (length pre + length (render t) + length r)"
proof -
  show "SkipJSONValue (pre @ render t @ post) (length pre) = Some (length pre + length (render t))" if "\<nexists>s. t = JScalar s"
  proof (cases t)
    case (JString us)
    then show ?thesis
      using assms SkipJSONString_at [of us pre post] by (simp add: SkipJSONValue_def quoted_def)
  next
    case (JArray sp es)
    then have "balanced (sp @ commas (map render_elem es))"
      using assms render_balanced(2) by (intro balanced_append balanced_commas) (auto simp: list_all_iff balanced_spaces)
    then show ?thesis
      using JArray depth_loop_enclosed [of _ 93 "pre @ [91]" post] by (fastforce simp: SkipJSONValue_def)
  next
    case (JObject sp ms)
    then have "balanced (sp @ commas (map render_member ms))"
      using assms render_balanced(3) by (intro balanced_append balanced_commas) (auto simp: list_all_iff balanced_spaces)
    then show ?thesis
      using JObject depth_loop_enclosed [of _ 125 "pre @ [123]" post] by (fastforce simp: SkipJSONValue_def)
  qed (use that in simp)
  assume t: "t = JScalar s" and r: "spaces r" "post = [] \<or> hd post \<in> {44, 93, 125}"
  obtain b bs where s: "s = b # bs" "b \<notin> {34, 91, 123}"
    using assms t by (auto simp: scalar_ok_def neq_Nil_conv)
  have "list_all (\<lambda>b. b \<notin> {44, 93, 125}) s" "list_all (\<lambda>b. b \<notin> {44, 93, 125}) r"
    using assms t r(1) by (auto simp: scalar_ok_def jsonSpace_def list_all_iff)
  then have "scalar_loop (pre @ (s @ r) @ post) (length pre) = length pre + length (s @ r)"
    using r(2) by (intro scalar_loop_at) (simp_all only: list_all_append)
  then show "SkipJSONValue (pre @ render t @ r @ post) (length pre) = Some (length pre + length (render t) + length r)"
    using t s by (auto simp: SkipJSONValue_def)
qed

text \<open>After a value the scanner continues with the space behind it, which a scalar's skip has already passed.\<close>

lemma value_then_space:
  assumes "text_ok t" "spaces r" "post = [] \<or> hd post \<in> {44, 93, 125}"
  shows "\<exists>k. SkipJSONValue (pre @ render t @ r @ post) (length pre) = Some k \<and> length pre < k \<and>
    SkipSpace (pre @ render t @ r @ post) k = length pre + length (render t) + length r"
proof -
  have post: "post = [] \<or> \<not> jsonSpace (hd post)"
    using assms(3) by (auto simp: jsonSpace_def)
  obtain b bs where t: "render t = b # bs"
    using render_head [OF assms(1)] by blast
  show ?thesis
  proof (cases "\<exists>s. t = JScalar s")
    case True
    then show ?thesis
      using SkipJSONValue_at(2) [OF assms(1) _ assms(2,3), of _ pre] SkipSpace_at [of "[]" post "pre @ render t @ r"] post t
      by (auto simp: add.assoc)
  next
    case False
    then show ?thesis
      using SkipJSONValue_at(1) [OF assms(1), of pre "r @ post"] SkipSpace_at [of r post "pre @ render t"] assms(2) post t by auto
  qed
qed

section \<open>Counting members\<close>

lemma count_loop_at:
  assumes "list_all elem_ok es" "text_ok t" "spaces r" "n \<le> bound"
    and data: "data = pre @ render t @ r @ concat (map ((#) 44) (map render_elem es)) @ 93 # post"
  shows "\<exists>k. count_loop data (length pre) n bound =
    (if n + 1 + int (length es) \<le> bound then (n + 1 + int (length es), length data - length post, True) else (bound + 1, k, True))"
  using assms
proof (induction es arbitrary: t r n pre)
  case Nil
  obtain b bs where b: "render t = b # bs" "b \<noteq> 93"
    using render_head [OF Nil.prems(2)] by auto
  obtain k where k: "SkipJSONValue data (length pre) = Some k" "length pre < k" "SkipSpace data k = length pre + length (render t) + length r"
    using value_then_space [OF Nil.prems(2,3), of "93 # post" pre] Nil.prems(5) by auto
  have "data ! length pre \<noteq> 93" "data ! (length pre + length (render t) + length r) = 93"
    using b Nil.prems(5) by (auto simp: nth_append)
  then show ?case
    using k Nil.prems(4,5) b by (subst count_loop.simps) (auto simp: Let_def)
next
  case (Cons e es)
  obtain l t' r' where e: "e = Elem l t' r'" by (cases e)
  obtain b bs where b: "render t = b # bs" "b \<noteq> 93"
    using render_head [OF Cons.prems(2)] by auto
  obtain c cs where c: "render t' = c # cs" "\<not> jsonSpace c" "c \<noteq> 93"
    using render_head [of t'] Cons.prems(1) e by auto
  let ?rest = "r' @ concat (map ((#) 44) (map render_elem es)) @ 93 # post"
  let ?pre = "pre @ render t @ r @ 44 # l"
  obtain k where k: "SkipJSONValue data (length pre) = Some k" "length pre < k" "SkipSpace data k = length pre + length (render t) + length r"
    using value_then_space [OF Cons.prems(2,3), of "44 # l @ render t' @ ?rest" pre] Cons.prems(5) e by auto
  have data: "data = ?pre @ render t' @ ?rest"
    using Cons.prems(5) e by simp
  have "SkipSpace ((pre @ render t @ r @ [44]) @ l @ render t' @ ?rest) (length (pre @ render t @ r @ [44])) =
      length (pre @ render t @ r @ [44]) + length l"
    using c Cons.prems(1) e by (intro SkipSpace_at) auto
  then have sp: "SkipSpace data (Suc (length pre + length (render t) + length r)) = length ?pre"
    using data by (simp add: add.assoc)
  have at: "data ! length pre \<noteq> 93" "data ! (length pre + length (render t) + length r) = 44" "data ! length ?pre \<noteq> 93"
    using b c data by (auto simp: nth_append)
  have loop: "count_loop data (length pre) n bound =
      (if n + 1 > bound then (n + 1, k, True) else count_loop data (length ?pre) (n + 1) bound)"
    using k sp at data b c by (subst count_loop.simps) (auto simp: Let_def)
  show ?case
  proof (cases "n + 1 > bound")
    case True
    then show ?thesis
      using loop Cons.prems(4) by (intro exI [of _ k]) auto
  next
    case False
    then show ?thesis
      using loop Cons.IH [of t' r' "n + 1" ?pre] Cons.prems(1) e data by (auto simp: add.commute)
  qed
qed

lemma member_loop_plain:
  "list_all (\<lambda>b. b \<notin> {34, 91, 93, 123, 125}) xs \<Longrightarrow>
    member_loop (pre @ xs @ post) (length pre) d n bound = member_loop (pre @ xs @ post) (length pre + length xs) d n bound"
proof (induction xs arbitrary: pre)
  case (Cons b xs)
  then show ?case
    using Cons.IH [of "pre @ [b]"] member_loop_byte [of b pre "xs @ post" d n bound] by simp
qed simp

lemma spaces_plain: "spaces sp \<Longrightarrow> list_all (\<lambda>b. b \<notin> {34, 91, 93, 123, 125}) sp"
  by (auto simp: list_all_iff jsonSpace_def)

text \<open>At the depth of the members a string is a key exactly if a colon follows.\<close>

lemma member_loop_string1:
  assumes "list_all unit_ok us" "spaces r" "c \<in> {44, 58, 93, 125}"
  shows "member_loop (pre @ quoted us @ r @ c # post) (length pre) 1 n bound =
    (if c = 58 \<and> n + 1 > bound then False
     else member_loop (pre @ quoted us @ r @ c # post) (length pre + length (quoted us)) 1 (if c = 58 then n + 1 else n) bound)"
proof -
  let ?data = "pre @ quoted us @ r @ c # post"
  have "\<not> jsonSpace c"
    using assms(3) by (auto simp: jsonSpace_def)
  then have sp: "SkipSpace ?data (length pre + length (quoted us)) = length pre + length (quoted us) + length r"
    using SkipSpace_at [OF assms(2), of "c # post" "pre @ quoted us"] by simp
  have "?data ! length pre = 34" "?data ! (length pre + length (quoted us) + length r) = c"
    by (simp_all add: quoted_def nth_append)
  then show ?thesis
    using sp SkipJSONString_at [OF assms(1), of pre "r @ c # post"] assms(3)
    by (subst member_loop.simps) (auto simp: Let_def quoted_def)
qed

lemma member_loop_value:
  assumes "text_ok t" "spaces r" "c \<in> {44, 93, 125}"
  shows "member_loop (pre @ render t @ r @ c # post) (length pre) 1 n bound =
    member_loop (pre @ render t @ r @ c # post) (length pre + length (render t)) 1 n bound"
proof -
  have nested: "member_loop (pre @ (a # xs @ [e]) @ post') (length pre) 1 n bound =
      member_loop (pre @ (a # xs @ [e]) @ post') (length pre + length (a # xs @ [e])) 1 n bound"
    if "a \<in> {91, 123}" "balanced xs" "e \<in> {93, 125}" for a e xs post'
    using that member_loop_byte [of a pre "xs @ e # post'" 1 n bound] mb.walk_balanced [of xs 2 "pre @ [a]" "e # post'" n bound]
      member_loop_byte [of e "pre @ a # xs" post' 2 n bound] by auto
  show ?thesis
  proof (cases t)
    case (JString us)
    then show ?thesis
      using member_loop_string1 [of us r c pre post n bound] assms by auto
  next
    case (JScalar s)
    then have "list_all (\<lambda>b. b \<notin> {34, 91, 93, 123, 125}) s"
      using assms(1) by (auto simp: scalar_ok_def list_all_iff)
    then show ?thesis
      using JScalar member_loop_plain [of s pre "r @ c # post" 1 n bound] by simp
  next
    case (JArray sp es)
    then have "balanced (sp @ commas (map render_elem es))"
      using assms render_balanced(2) by (intro balanced_append balanced_commas) (auto simp: list_all_iff balanced_spaces)
    then show ?thesis
      using JArray nested [of 91 "sp @ commas (map render_elem es)" 93 "r @ c # post"] by simp
  next
    case (JObject sp ms)
    then have "balanced (sp @ commas (map render_member ms))"
      using assms render_balanced(3) by (intro balanced_append balanced_commas) (auto simp: list_all_iff balanced_spaces)
    then show ?thesis
      using JObject nested [of 123 "sp @ commas (map render_member ms)" 125 "r @ c # post"] by simp
  qed
qed

lemma member_loop_member:
  assumes "member_ok m" "c \<in> {44, 125}"
  shows "member_loop (pre @ render_member m @ c # post) (length pre) 1 n bound =
    (if n + 1 > bound then False
     else member_loop (pre @ render_member m @ c # post) (length pre + length (render_member m)) 1 (n + 1) bound)"
proof (cases m)
  case (Member l k s s' v r)
  let ?w = "render v" and ?loop = "member_loop (pre @ render_member m @ c # post)"
  have ok: "spaces l" "list_all unit_ok k" "spaces s" "spaces s'" "text_ok v" "spaces r"
    using assms(1) Member by auto
  have "?loop (length pre) 1 n bound = ?loop (length (pre @ l)) 1 n bound"
    using member_loop_plain [OF spaces_plain [OF ok(1)], of pre "quoted k @ s @ 58 # s' @ ?w @ r @ c # post"] Member by simp
  also have "\<dots> = (if n + 1 > bound then False else ?loop (length (pre @ l @ quoted k)) 1 (n + 1) bound)"
    using member_loop_string1 [OF ok(2,3), of 58 "pre @ l" "s' @ ?w @ r @ c # post"] Member by (simp add: add.assoc)
  also have "?loop (length (pre @ l @ quoted k)) 1 (n + 1) bound = ?loop (length (pre @ l @ quoted k @ s @ [58] @ s')) 1 (n + 1) bound"
    using member_loop_plain [of "s @ 58 # s'" "pre @ l @ quoted k" "?w @ r @ c # post"] spaces_plain [OF ok(3)] spaces_plain [OF ok(4)]
      Member by (simp add: add.assoc)
  also have "\<dots> = ?loop (length (pre @ l @ quoted k @ s @ [58] @ s' @ ?w)) 1 (n + 1) bound"
    using member_loop_value [OF ok(5,6), of c "pre @ l @ quoted k @ s @ [58] @ s'" post "n + 1" bound] assms(2) Member
    by (auto simp: add.assoc)
  also have "\<dots> = ?loop (length pre + length (render_member m)) 1 (n + 1) bound"
    using member_loop_plain [OF spaces_plain [OF ok(6)], of "pre @ l @ quoted k @ s @ [58] @ s' @ ?w" "c # post"] Member
    by (simp add: add.assoc)
  finally show ?thesis .
qed

lemma member_loop_at:
  assumes "member_ok m" "list_all member_ok ms" "n \<le> bound"
  shows "member_loop (pre @ render_member m @ concat (map ((#) 44) (map render_member ms)) @ 125 # post) (length pre) 1 n bound \<longleftrightarrow>
    n + 1 + int (length ms) \<le> bound"
  using assms
proof (induction ms arbitrary: m n pre)
  case Nil
  then show ?case
    using member_loop_member [of m 125 pre post n bound] member_loop_byte [of 125 "pre @ render_member m" post 1 "n + 1" bound]
    by simp
next
  case (Cons m' ms)
  let ?rest = "render_member m' @ concat (map ((#) 44) (map render_member ms)) @ 125 # post"
  show ?case
    using member_loop_member [of m 44 pre ?rest n bound] Cons.prems Cons.IH [of m' "n + 1" "pre @ render_member m @ [44]"]
      member_loop_byte [of 44 "pre @ render_member m" ?rest 1 "n + 1" bound]
    by (auto simp: add.assoc)
qed

section \<open>The scanner is exact on JSON\<close>

lemma CountJSONArrayBytes_at:
  assumes "text_ok (JArray w es)" "spaces sp" "0 \<le> bound"
  shows "\<exists>k. CountJSONArrayBytes (pre @ sp @ render (JArray w es) @ post) (length pre) bound =
    (if int (length es) \<le> bound then (int (length es), Some (length pre + length sp + length (render (JArray w es))), True)
     else (bound + 1, Some k, True))"
proof -
  let ?data = "pre @ sp @ render (JArray w es) @ post" and ?i = "length pre + length sp"
  have sp: "SkipSpace ?data (length pre) = ?i"
    using assms(2) by (intro SkipSpace_at) (auto simp: jsonSpace_def)
  have open_at: "?data ! ?i = 91" "?i < length ?data"
    by (simp_all add: nth_append)
  show ?thesis
  proof (cases es)
    case Nil
    have "SkipSpace ((pre @ sp @ [91]) @ w @ 93 # post) (length (pre @ sp @ [91])) = length (pre @ sp @ [91]) + length w"
      using assms(1) by (intro SkipSpace_at) (auto simp: jsonSpace_def)
    then show ?thesis
      using sp open_at Nil assms(3) by (simp add: CountJSONArrayBytes_def Let_def count_loop.simps nth_append)
  next
    case (Cons e es')
    obtain l t r where e: "e = Elem l t r" by (cases e)
    have ok: "spaces w" "spaces l" "text_ok t" "spaces r" "list_all elem_ok es'"
      using assms(1) Cons e by auto
    let ?pre = "pre @ sp @ 91 # w @ l" and ?rest = "r @ concat (map ((#) 44) (map render_elem es')) @ 93 # post"
    have data: "?data = ?pre @ render t @ ?rest"
      using Cons e by simp
    obtain b bs where b: "render t = b # bs" "\<not> jsonSpace b"
      using render_head [OF ok(3)] by blast
    have "SkipSpace ((pre @ sp @ [91]) @ (w @ l) @ render t @ ?rest) (length (pre @ sp @ [91])) = length (pre @ sp @ [91]) + length (w @ l)"
      using ok(1,2) b by (intro SkipSpace_at) auto
    then have "SkipSpace ?data (?i + 1) = length ?pre"
      unfolding data by (simp add: add.assoc)
    moreover obtain k where "count_loop ?data (length ?pre) 0 bound =
        (if 0 + 1 + int (length es') \<le> bound then (0 + 1 + int (length es'), length ?data - length post, True) else (bound + 1, k, True))"
      using count_loop_at [OF ok(5,3,4) assms(3) data] by blast
    ultimately show ?thesis
      using sp open_at Cons by (auto simp: CountJSONArrayBytes_def Let_def)
  qed
qed

text \<open>
  C32. The lexical scanner agrees with JSON. On the text of any document with any white space, followed by
  anything, counting an array gives the exact number of its members and the index just past it, or one more than the
  bound when there are more; the limits on arrays and objects accept exactly the values of another kind and the
  collections with at most that many members, however deep their members nest and whatever their strings
  contain. Skipping a string, an array or an object ends just past it, whatever follows. Skipping a number or a
  literal, which white space and then a separator, a closing bracket or the end of the text follow, ends just
  past that white space.
\<close>

theorem scanner_counts_json_members:
  assumes "text_ok t" "spaces sp" "0 \<le> bound"
  shows "(case t of
      JArray w es \<Rightarrow> (if int (length es) \<le> bound
        then CountJSONArrayBytes (pre @ sp @ render t @ post) (length pre) bound =
          (int (length es), Some (length pre + length sp + length (render t)), True)
        else \<exists>k. CountJSONArrayBytes (pre @ sp @ render t @ post) (length pre) bound = (bound + 1, Some k, True))
    | _ \<Rightarrow> True) \<and>
    ArrayWithinLimit (sp @ render t @ post) bound = (case t of JArray w es \<Rightarrow> int (length es) \<le> bound | _ \<Rightarrow> True) \<and>
    ObjectWithinLimit (sp @ render t @ post) bound = (case t of JObject w ms \<Rightarrow> int (length ms) \<le> bound | _ \<Rightarrow> True) \<and>
    (case t of
       JScalar s \<Rightarrow> \<forall>r. spaces r \<and> (post = [] \<or> hd post \<in> {44, 93, 125}) \<longrightarrow>
         SkipJSONValue (pre @ render t @ r @ post) (length pre) = Some (length pre + length (render t) + length r)
     | _ \<Rightarrow> SkipJSONValue (pre @ render t @ post) (length pre) = Some (length pre + length (render t)))"
proof -
  let ?raw = "sp @ render t @ post"
  obtain b bs where b: "render t = b # bs" "\<not> jsonSpace b"
    using render_head [OF assms(1)] by blast
  have sp: "SkipSpace ?raw 0 = length sp" "?raw ! length sp = b" "length sp < length ?raw"
    using SkipSpace_at [OF assms(2), of "render t @ post" "[]"] b by auto
  have skip: "(\<nexists>s. t = JScalar s) \<Longrightarrow> SkipJSONValue (pre @ render t @ post) (length pre) = Some (length pre + length (render t))"
    by (rule SkipJSONValue_at(1) [OF assms(1)])
  have head: "b = 91 \<longleftrightarrow> (\<exists>w es. t = JArray w es)" "b = 123 \<longleftrightarrow> (\<exists>w ms. t = JObject w ms)"
    using b(1) assms(1) by (cases t; auto simp: quoted_def scalar_ok_def)+
  have array: "ArrayWithinLimit ?raw bound \<longleftrightarrow> int (length es) \<le> bound" if t: "t = JArray w es" for w es
    using CountJSONArrayBytes_at [of w es "[]" bound "sp" post] assms sp head t
    by (auto simp: ArrayWithinLimit_def split: if_splits)
  have object: "ObjectWithinLimit ?raw bound \<longleftrightarrow> int (length ms) \<le> bound" if t: "t = JObject w ms" for w ms
  proof -
    have raw: "?raw = sp @ 123 # bs @ post"
      using b head t by auto
    have start: "ObjectWithinLimit ?raw bound = member_loop ?raw (length sp + 1) 1 0 bound"
      using sp [unfolded raw] member_loop_byte [of 123 sp "bs @ post" 0 0 bound] by (simp add: raw ObjectWithinLimit_def)
    have "spaces w"
      using assms(1) t by simp
    note skip_w = member_loop_plain [OF spaces_plain [OF this], of "sp @ [123]"]
    show ?thesis
    proof (cases ms)
      case Nil
      then show ?thesis
        using start t skip_w [of "125 # post" 1 0 bound] member_loop_byte [of 125 "sp @ 123 # w" post 1 0 bound] assms(3) by simp
    next
      case (Cons m ms')
      then show ?thesis
        using start t skip_w [of "render_member m @ concat (map ((#) 44) (map render_member ms')) @ 125 # post" 1 0 bound]
          member_loop_at [of m ms' 0 bound "sp @ 123 # w" post] assms by (auto simp: add.assoc)
    qed
  qed
  show ?thesis
  proof (cases t)
    case (JArray w es)
    then show ?thesis
      using CountJSONArrayBytes_at [of w es sp bound pre post] assms array [OF JArray] skip head sp
      by (auto simp: ObjectWithinLimit_def)
  next
    case (JObject w ms)
    then show ?thesis
      using object [OF JObject] skip head sp by (auto simp: ArrayWithinLimit_def)
  next
    case (JScalar s)
    then show ?thesis
      using SkipJSONValue_at(2) [OF assms(1) JScalar] head sp by (simp add: ArrayWithinLimit_def ObjectWithinLimit_def)
  qed (use skip head sp in \<open>auto simp: ArrayWithinLimit_def ObjectWithinLimit_def\<close>)
qed

definition demo_text :: jtext where
  "demo_text = JArray [10] [Elem [32] (JString [[92, 34], [93], [44]]) [], Elem [] (JObject [] [Member [] [[97]] [] [32] (JScalar [49]) []]) [9]]"

theorem scanner_counts_json_members_witness:
  "text_ok demo_text \<and> CountJSONArrayBytes (render demo_text) 0 2 = (2, Some (length (render demo_text)), True) \<and>
    ArrayWithinLimit (render demo_text) 2 \<and> \<not> ArrayWithinLimit (render demo_text) 1 \<and> ObjectWithinLimit (render demo_text) 0 \<and>
    SkipJSONValue ([49, 50] @ [32, 10] @ [44]) 0 = Some 4"
proof -
  have ok: "text_ok demo_text"
    by (auto simp: demo_text_def unit_ok_def jsonSpace_def scalar_ok_def)
  have scalar: "text_ok (JScalar [49, 50])" by (simp add: scalar_ok_def jsonSpace_def)
  have "\<forall>r. spaces r \<longrightarrow> SkipJSONValue ([49, 50] @ r @ [44]) 0 = Some (2 + length r)"
    using scanner_counts_json_members [OF scalar, of "[]" 0 "[]" "[44]"] by simp
  from this [rule_format, of "[32, 10]"] have "SkipJSONValue ([49, 50] @ [32, 10] @ [44]) 0 = Some 4"
    by (simp add: jsonSpace_def)
  then show ?thesis
    using ok scanner_counts_json_members [OF ok, of "[]" 2 "[]" "[]"] scanner_counts_json_members [OF ok, of "[]" 1 "[]" "[]"]
      scanner_counts_json_members [OF ok, of "[]" 0 "[]" "[]"] by (simp add: demo_text_def)
qed

end
