(* ===== verification/Spec2Isabelle.thy ===== *)
theory Spec2Isabelle
  imports Linked_List Strict_Window Wake_Timer Pacing Provider_Gate Lease_Ledger Ramp Hold Hold_Queue Storm_Window Storm
    Fifo Throttle_Inv Send_Token Pacing_Handover Wire_Value Parked_Runs Turn_Driver Json_Scan
begin

text \<open>
  A verification library for millivolt, a relay between LLM clients and providers. It covers the admission
  scheduler (\<^verbatim>\<open>internal/scheduler\<close>, all of its files), which decides when a request may be sent upstream; the
  protobuf layer of \<^verbatim>\<open>internal/format\<close> (\<^verbatim>\<open>proto.go\<close>, and the replies and blob store of \<^verbatim>\<open>cursor_bidi.go\<close>); what a
  Cursor run retains (\<^verbatim>\<open>internal/format/cursor_run.go\<close>) and the store of parked runs (\<^verbatim>\<open>internal/proxy/cursor_store.go\<close>);
  and the lexical JSON scanner that bounds documents before they are decoded (\<^verbatim>\<open>internal/metrics/content.go\<close>).
  The properties are numbered C1 to C40; each stands after a text block with its number.

  \<^bold>\<open>The program.\<close> A request asks the scheduler for a slot of its group (one per provider and key). The
  scheduler finds or creates the group, and admits the request at once or parks it in the group's queue:
  the group has a concurrency cap, an anti-burst ramp and a pacing window; the provider may have a gate
  with a strict request window, token buckets and its own cap; an operator may hold clients or providers,
  or drain them. A released slot, a settled lease, a timer or a policy change drains queues: one group in
  FIFO order, or the groups of a limited provider in fair rotation. Before it sends, an admitted request
  passes the send gate of its group (one probe at a time after a trip) and the outage gates of its provider
  (threshold storms and quota). Idle groups are evicted from the bounded table; their pacing is remembered.

  A request to Cursor opens a bidirectional stream, the run. Its pump serves blobs to the upstream and queues
  events and tool calls for the driver; when a tool call needs the client, the run is parked in a store under the
  ids of its calls, and the request that carries the results resumes it. Parked runs expire, and observers in
  every parked run charge what it retains to the store's budgets.

  \<^bold>\<open>Theories and sources\<close> (paths under \<^verbatim>\<open>src/internal/scheduler\<close> unless given).

  \<^item> \<open>Prelude\<close>: time, 64-bit arithmetic, association lists for Go maps.
  \<^item> \<open>Linked_List\<close> (\<^verbatim>\<open>scheduler_list.go\<close>): the intrusive list as nodes and pointers in a store. The locale
    \<open>list_store\<close>, interpreted on the code's operations, gives the refinement to sequences of nodes and their values (C1).
  \<^item> \<open>Strict_Window\<close> (\<^verbatim>\<open>throttle.go\<close>): the rolling request window as a ring and as fixed spacing, two
    interpretations of the locale \<open>window_limiter\<close>; never exceeded, and the reported wait exact (C2, C3).
  \<^item> \<open>Wake_Timer\<close> (\<^verbatim>\<open>wakeup.go\<close>): arming, stopping and late callbacks (C4).
  \<^item> \<open>Pacing\<close> (\<^verbatim>\<open>scheduler_pacing.go\<close>): backoff arithmetic, hints and the LRU of pacing states (C5).
  \<^item> \<open>Provider_Gate\<close> (\<^verbatim>\<open>throttle.go\<close>): limits, buckets, admission, settlement (C6); waiting for tokens ends in an admission (C8).
    \<open>Lease_Ledger\<close>: the token account of a gate over all its operations, and the closure that settles a lease once (C7).
  \<^item> \<open>Ramp\<close> (\<^verbatim>\<open>scheduler_admission.go\<close>): the ramp with its 128-bit products (C9), and its epochs.
  \<^item> \<open>Hold\<close>, \<open>Hold_Queue\<close> (\<^verbatim>\<open>hold.go\<close>): pause documents, their overlap and the policy transitions (C11 to C13);
    the attribution of parked requests to holds under every interleaving of the lock sections, with the
    locale \<open>attribution\<close> for the operations that move one waiter (C14, C15, C16, C23). A count is exact while its hold is in
    force; \<open>stale_prune_uncounts\<close> shows what writers that do not take turns do to it.
  \<^item> \<open>Storm_Window\<close>, \<open>Storm\<close> (\<^verbatim>\<open>storm.go\<close>): the bucket ring as a refinement of the events of a rolling window, with
    the locale \<open>bucket_field\<close> for its three counters (C17); storms, quota gates, permits and their settlement
    as a transition system (C18, C19, C21), with the bounds of the recovery delay; a quota outcome is no storm evidence.
  \<^item> \<open>Drain\<close> (\<^verbatim>\<open>scheduler.go\<close>): operator drains as tickets (C24).
  \<^item> \<open>Scheduler_State\<close>: the record of the whole scheduler, its groups, waiters, provider indexes and lists, from
    \<^verbatim>\<open>scheduler.go\<close>, \<^verbatim>\<open>scheduler_groups.go\<close> and \<^verbatim>\<open>scheduler_admission.go\<close>.
  \<^item> \<open>Admission\<close>, \<open>Provider_Drain\<close>, \<open>Group_Table\<close>, \<open>Acquire\<close>, \<open>Send_Gate\<close>, \<open>Throttle_Policy\<close>, \<open>Scheduler\<close>: the operations
    of \<^verbatim>\<open>scheduler_admission.go\<close>, \<^verbatim>\<open>throttle.go\<close>, \<^verbatim>\<open>scheduler_groups.go\<close>, \<^verbatim>\<open>scheduler_send.go\<close>, \<^verbatim>\<open>hold.go\<close> and \<^verbatim>\<open>scheduler.go\<close>
    on that record, composed as the code composes them from the component theories above.
  \<^item> \<open>Index_Inv\<close>, \<open>Drain_Inv\<close>, \<open>Scheduler_Inv\<close>, \<open>Operations_Inv\<close>, \<open>Accounting\<close>, \<open>Slots\<close>: the invariants. \<open>Index_Inv\<close> says
    what lists and counters mean. The locale \<open>drain_invariant\<close> asks what a predicate keeps at the
    elementary moves of a pass and gives it at every drain; \<open>sched_invariant\<close> extends it to every other
    operation. They are interpreted for the lists (\<open>drains\<close>), for the accounts of slots and leases
    (\<open>accounts\<close>), for what no drain changes of the policies and of the send gates (\<open>policies\<close>, \<open>sends\<close>) and for
    the pacing table (\<open>paced\<close>).
  \<^item> \<open>System\<close>: all callers together. \<open>sys_step\<close> is one critical section of any caller, timer or operator;
    \<open>sys_reach\<close> the states any interleaving reaches from a new scheduler. In these, slots and leases are
    exact (C25), so are lists and counters (C26), work is never evicted (C27), the eviction loop ends and
    a lookup answers (C28), the statistics count the callers, and an undisturbed acquisition needs one
    iteration.
  \<^item> \<open>Fifo\<close>: what a pass grants, and in which order (C29, C30), and that a fair pass serves
    each group once. \<open>Throttle_Inv\<close>: policy updates (C34).
    \<open>Send_Token\<close>: one probe per key (C35). \<open>Pacing_Handover\<close>: pacing across eviction (C36).
  \<^item> \<open>Wire_Format\<close> (\<^verbatim>\<open>internal/format/proto.go\<close>): encoders, sizes and parser on 64-bit words and bytes; writing and
    parsing round trip (C38). \<open>Cursor_Replies\<close> (\<^verbatim>\<open>internal/format/cursor_bidi.go\<close>): the single-pass reply
    encoders against their nested reference (C39). \<open>Blob_Store\<close> (\<^verbatim>\<open>cursor_bidi.go\<close>, \<^verbatim>\<open>connect.go\<close>): the blob store, the
    framed stream writer and the handler that serves blobs to the upstream (C37). \<open>Wire_Value\<close> (\<^verbatim>\<open>proto.go\<close>): the recursive decoding of
    arguments from the upstream, its type, depth and size (C40).
  \<^item> \<open>Cursor_Run\<close> (\<^verbatim>\<open>internal/format/cursor_run.go\<close>): sizes, the pending calls and the event queue of a run, and the
    locales \<open>stream_observed\<close> and \<open>blobs_observed\<close>, which extend \<open>retention_observer\<close>: under an observer's contract every
    operation of the run keeps it informed. \<open>Run_Store\<close> (\<^verbatim>\<open>internal/proxy/cursor_store.go\<close>): the store's operations.
    \<open>Run_Store_Inv\<close>: both locales interpreted on the store's observers, the invariant, and the transition system
    \<open>store_step\<close> of the store with all its runs. \<open>Parked_Runs\<close>: budgets (C10), resuming (C22), expiry (C33).
  \<^item> \<open>Connect_Reader\<close> (\<^verbatim>\<open>internal/format/connect.go\<close>): the frame reader; it reads back what was written and never takes a
    cut frame for a clean end. \<open>Turn_Driver\<close> (\<^verbatim>\<open>cursor_run.go\<close>): usage, the driver's loop against the pump as the
    transition system \<open>turn_step\<close> (C20), and resuming with tool results through the framing (C31).
  \<^item> \<open>Json_Scan\<close> (\<^verbatim>\<open>internal/metrics/content.go\<close>): the scanner against the syntax of JSON (C32). The locale \<open>bracket_walk\<close>,
    interpreted on both depth-tracking loops, says how such a loop passes balanced text.

  \<^bold>\<open>How the state is modelled.\<close>

  \<^item> A critical section under the scheduler's or a group's lock is one atomic step. It reads the clock once,
    in \<open>s_now\<close>, which a step sets; the source may read it again a moment later within a section.
    A caller that waits does so between steps, so every interleaving of the sections is a run. The sections of
    one drain take the locks of several groups in turn; a drain is one step here, and so is a policy transition with its
    pruning and seeding, whose sections \<open>Hold_Queue\<close> takes apart.
  \<^item> Groups, waiters, gates and provider indexes live in maps from addresses, as pointers do in the source, with
    \<open>s_next\<close> the next free address; a retired object keeps its address.
  \<^item> The intrusive lists of the scheduler's own state are lists of addresses; \<open>Linked_List\<close> proves that the
    pointer code acts as that.
  \<^item> Iteration over a Go map takes the order of the association list; no property depends on the order.
  \<^item> Times and durations are integers with the zero time \<open>0\<close>; where a result can leave 64 bits the wrap-around is
    written out. Floats of the buckets are rationals. Generations, tickets and ids are unbounded naturals.
    Random jitter and random ids are arguments.
  \<^item> An operation of the parked-run store is one step, and so is each critical section of a run, with the observers
    it calls; recording a run's failure and closing it are one step. The channel from the pump to the driver is the
    multiset of the sizes reserved for its events.
  \<^item> Callbacks are events in a log, or flags that say a callback is present. Contexts and channels are the steps
    that a cancellation or a grant enables.

  \<^bold>\<open>Loops.\<close> Every loop is structural recursion or has a measure, except the eviction loop \<open>makeGroupRoom\<close>, a
  partial function which C28 proves to return in every reachable state, and the walk of the pointer lists,
  which C1 proves to return. Nothing runs on fuel; the wakes that C8 counts are a bound, not fuel.

  \<^bold>\<open>Not modelled.\<close> The HTTP relay and its retries (the rest of \<^verbatim>\<open>internal/proxy\<close>), configuration, storage, metrics
  records, the dashboard, backups and the commands: network, file and database I/O around this logic. The translation between
  vendor dialects (the rest of \<^verbatim>\<open>internal/format\<close>, \<^verbatim>\<open>internal/sse\<close>) works on \<^verbatim>\<open>encoding/json\<close> documents. Of the
  Cursor run, the parser of tool calls and the request encoder, which build JSON, and the goroutines for heartbeats and
  cancellation are left out; the scope of a parked run is a digest that is not computed. Decoding the JSON of a
  terminal Connect frame is an argument of its reader. Log lines and
  the wording of errors are left out everywhere; which error is returned is modelled.
\<close>

end
